(* ===== verification/Prelude.thy ===== *)
theory Prelude
  imports Main "HOL-Library.Word" "HOL-Library.Finite_Map" "HOL-Library.List_Lexorder"
    "HOL-Library.Product_Lexorder" "HOL-Library.Multiset" "HOL-Library.Monad_Syntax"
begin

text \<open>
  Shared vocabulary of the development: bytes and byte strings, fixed-width integers in
  little- and big-endian form, the ordered maps of the C++ code (\<open>std::map\<close> as a finite
  map whose iteration is by increasing key), sorted vectors, and the generic facts about
  them that the component theories use.
\<close>

unbundle bit_operations_syntax

named_theorems script_simps \<open>decoding one script token\<close>
named_theorems registry_simps \<open>effect of one registry operation on each layer\<close>

section \<open>Types\<close>

type_synonym byte = "8 word"
type_synonym bytes = "byte list"
type_synonym u16 = "16 word"
type_synonym u32 = "32 word"
type_synonym u64 = "64 word"
type_synonym u128 = "128 word"

text \<open>\<open>uint256\<close> is an opaque 32-byte blob compared with \<open>memcmp\<close>, that is, in the
  lexicographic order of its bytes; \<open>arith_uint256\<close> is an unsigned 256-bit number.\<close>

type_synonym uint256 = bytes
type_synonym arith_uint256 = "256 word"

section \<open>Little- and big-endian numbers\<close>

fun le_nat :: "bytes \<Rightarrow> nat" where
  "le_nat [] = 0"
| "le_nat (b # bs) = unat b + 256 * le_nat bs"

fun nat_le :: "nat \<Rightarrow> nat \<Rightarrow> bytes" where
  "nat_le 0 n = []"
| "nat_le (Suc k) n = word_of_nat n # nat_le k (n div 256)"

definition nat_be :: "nat \<Rightarrow> nat \<Rightarrow> bytes" where
  "nat_be k n = rev (nat_le k n)"

definition be_nat :: "bytes \<Rightarrow> nat" where
  "be_nat bs = le_nat (rev bs)"

lemma length_nat_le [simp]: "length (nat_le k n) = k"
  by (induction k arbitrary: n) auto

lemma length_nat_be [simp]: "length (nat_be k n) = k"
  by (simp add: nat_be_def)

lemma unat_byte_of_nat [simp]: "unat (word_of_nat n :: byte) = n mod 256"
  by (simp add: unat_of_nat)

lemma unat_byte_less [simp]: "unat (b :: byte) < 256"
  using unsigned_less [of b] by simp

lemma le_nat_less: "le_nat bs < 256 ^ length bs"
proof (induction bs)
  case (Cons b bs)
  have "unat b < 256" by simp
  moreover have "Suc (le_nat bs) \<le> 256 ^ length bs" using Cons by simp
  ultimately have "unat b + 256 * le_nat bs < 256 * 256 ^ length bs" by linarith
  then show ?case by simp
qed simp

lemma le_nat_nat_le: "le_nat (nat_le k n) = n mod 256 ^ k"
proof (induction k arbitrary: n)
  case (Suc k)
  have "le_nat (nat_le (Suc k) n) = n mod 256 + 256 * (n div 256 mod 256 ^ k)"
    using Suc by simp
  also have "\<dots> = n mod 256 ^ Suc k"
    by (simp add: mod_mult2_eq)
  finally show ?case .
qed simp

lemma le_nat_nat_le_id [simp]: "n < 256 ^ k \<Longrightarrow> le_nat (nat_le k n) = n"
  by (simp add: le_nat_nat_le)

lemma le_nat_Cons_div_mod: "le_nat (b # bs) mod 256 = unat b" "le_nat (b # bs) div 256 = le_nat bs"
  using unat_byte_less [of b] by simp_all

lemma nat_le_le_nat [simp]: "nat_le (length bs) (le_nat bs) = bs"
proof (induction bs)
  case (Cons b bs)
  have "unat (word_of_nat (le_nat (b # bs)) :: byte) = unat b"
    by (simp only: unat_byte_of_nat le_nat_Cons_div_mod)
  then have "word_of_nat (le_nat (b # bs)) = b"
    by (simp only: word_unat_eq_iff)
  then show ?case
    using Cons by (simp only: nat_le.simps le_nat_Cons_div_mod list.size add_Suc_right add_0_right)
qed simp

lemma le_nat_append: "le_nat (xs @ ys) = le_nat xs + 256 ^ length xs * le_nat ys"
  by (induction xs) (auto simp: algebra_simps)

lemma le_nat_inj: "length xs = length ys \<Longrightarrow> le_nat xs = le_nat ys \<Longrightarrow> xs = ys"
  by (metis nat_le_le_nat)

lemma nat_le_mod: "nat_le k (n mod 256 ^ k) = nat_le k n"
  by (rule le_nat_inj) (simp_all add: le_nat_nat_le)

section \<open>Ordered maps\<close>

text \<open>
  \<open>std::map\<close> is a finite map. \<open>operator[]\<close> inserts a default value for a missing key, so
  \<open>m[k] += v\<close> is \<open>fm_plus k v m\<close>; a \<open>for\<close> loop over the map visits \<open>sorted_list_of_fmap m\<close>.
\<close>

definition fm_get :: "'v \<Rightarrow> ('k, 'v) fmap \<Rightarrow> 'k \<Rightarrow> 'v" where
  "fm_get d m k = (case fmlookup m k of None \<Rightarrow> d | Some v \<Rightarrow> v)"

definition fm_plus :: "'k \<Rightarrow> 'v::monoid_add \<Rightarrow> ('k, 'v) fmap \<Rightarrow> ('k, 'v) fmap" where
  "fm_plus k v m = fmupd k (fm_get 0 m k + v) m"

abbreviation fm_keys :: "('k::linorder, 'v) fmap \<Rightarrow> 'k list" where
  "fm_keys m \<equiv> sorted_list_of_fset (fmdom m)"

abbreviation fm_entries :: "('k::linorder, 'v) fmap \<Rightarrow> ('k \<times> 'v) list" where
  "fm_entries m \<equiv> sorted_list_of_fmap m"

lemma fm_get_simps [simp]:
  "fm_get d fmempty k = d"
  "fm_get d (fmupd k v m) k' = (if k = k' then v else fm_get d m k')"
  "fm_get d (fmdrop k m) k' = (if k = k' then d else fm_get d m k')"
  by (auto simp: fm_get_def)

lemma fm_get_fm_plus [simp]:
  "fm_get 0 (fm_plus k v m) k' = (if k = k' then fm_get 0 m k + v else fm_get 0 m k')"
  by (simp add: fm_plus_def)

lemma fmlookup_fm_plus:
  "fmlookup (fm_plus k v m) k' = (if k = k' then Some (fm_get 0 m k + v) else fmlookup m k')"
  by (simp add: fm_plus_def)

lemma fmdom_fm_plus [simp]: "fmdom (fm_plus k v m) = finsert k (fmdom m)"
  by (simp add: fm_plus_def)

lemma map_fst_entries: "map fst (fm_entries m) = fm_keys m"
  by (simp add: sorted_list_of_fmap_def comp_def)

lemma fst_set_entries: "fst ` set (fm_entries m) = fset (fmdom m)"
  by (metis list.set_map map_fst_entries sorted_list_of_fset_simps(1))

lemma sorted_keys [simp]: "sorted (fm_keys m)"
  by (simp add: sorted_list_of_fset.rep_eq)

lemma distinct_keys [simp]: "distinct (fm_keys m)"
  by (simp add: sorted_list_of_fset.rep_eq)

lemma distinct_fst_entries [simp]: "distinct (map fst (fm_entries m))"
  by (simp add: map_fst_entries)

lemma distinct_entries [simp]: "distinct (fm_entries m)"
  by (rule distinct_map [THEN iffD1, THEN conjunct1, OF distinct_fst_entries])

lemma in_entries_iff [simp]: "(k, v) \<in> set (fm_entries m) \<longleftrightarrow> fmlookup m k = Some v"
  using map_of_eq_Some_iff [OF distinct_fst_entries, of m k v] by (simp only: map_of_sorted_list)

lemma set_entries: "set (fm_entries m) = {(k, v). fmlookup m k = Some v}"
  by auto

lemma length_entries: "length (fm_entries m) = fcard (fmdom m)"
  by (simp add: sorted_list_of_fmap_def sorted_list_of_fset.rep_eq fcard.rep_eq)

lemma mset_entries: "mset (fm_entries m) = image_mset (\<lambda>k. (k, the (fmlookup m k))) (mset_set (fset (fmdom m)))"
proof -
  have "mset (fm_keys m) = mset_set (fset (fmdom m))"
    using mset_set_set [OF distinct_keys, of m] by (simp add: sorted_list_of_fset.rep_eq)
  then show ?thesis by (simp add: sorted_list_of_fmap_def mset_map)
qed

lemma mset_entries_upd:
  assumes "fmlookup m k = None"
  shows "mset (fm_entries (fmupd k v m)) = add_mset (k, v) (mset (fm_entries m))"
proof -
  have k: "k \<notin> fset (fmdom m)" using assms by (simp add: fmdom_notI)
  have "image_mset (\<lambda>j. (j, the (fmlookup (fmupd k v m) j))) (mset_set (fset (fmdom m))) =
      image_mset (\<lambda>j. (j, the (fmlookup m j))) (mset_set (fset (fmdom m)))"
    by (rule image_mset_cong) (use k in auto)
  then show ?thesis using k by (simp add: mset_entries)
qed

lemma mset_entries_drop:
  assumes "fmlookup m k = Some v"
  shows "add_mset (k, v) (mset (fm_entries (fmdrop k m))) = mset (fm_entries m)"
proof -
  have "fmupd k v (fmdrop k m) = m" using assms by (intro fmap_ext) auto
  then show ?thesis using mset_entries_upd [of "fmdrop k m" k v] by simp
qed

text \<open>The sum of a map's values, as a loop over the map computes it.\<close>

definition fm_total :: "('k::linorder, 'v::comm_monoid_add) fmap \<Rightarrow> 'v" where
  "fm_total m = sum_list (map snd (fm_entries m))"

lemma fm_total_mset: "fm_total m = \<Sum>\<^sub># (image_mset snd (mset (fm_entries m)))"
  by (metis fm_total_def mset_map sum_mset_sum_list)

lemma fm_total_sum: "fm_total m = (\<Sum>k \<in> fset (fmdom m). fm_get 0 m k)"
proof -
  have "fm_total m = (\<Sum>k \<in> fset (fmdom m). the (fmlookup m k))"
    by (simp add: fm_total_mset mset_entries multiset.map_comp comp_def sum_unfold_sum_mset)
  also have "\<dots> = (\<Sum>k \<in> fset (fmdom m). fm_get 0 m k)"
    by (rule sum.cong) (auto simp: fm_get_def split: option.split)
  finally show ?thesis .
qed

lemma fm_total_empty [simp]: "fm_total fmempty = 0"
  by (simp add: fm_total_sum)

lemma fm_total_plus [simp]: "fm_total (fm_plus k v m) = fm_total m + v"
proof -
  have g: "fm_get 0 m k = 0" if "k \<notin> fset (fmdom m)" using that by (simp add: fm_get_def fmdom_notD)
  have "fm_total (fm_plus k v m) = (\<Sum>j \<in> insert k (fset (fmdom m)). fm_get 0 m j + (if j = k then v else 0))"
    by (simp add: fm_total_sum if_distrib cong: sum.cong if_cong) (intro sum.cong; auto)
  also have "\<dots> = (\<Sum>j \<in> insert k (fset (fmdom m)). fm_get 0 m j) + v"
    by (simp add: sum.distrib)
  also have "(\<Sum>j \<in> insert k (fset (fmdom m)). fm_get 0 m j) = fm_total m"
    using g by (cases "k \<in> fset (fmdom m)") (simp_all add: fm_total_sum insert_absorb)
  finally show ?thesis .
qed

text \<open>A loop that accumulates into a map.\<close>

lemma fold_fm_plus_total: "fm_total (fold (\<lambda>(k, v). fm_plus (f k) v) xs m) = fm_total m + sum_list (map snd xs)"
  by (induction xs arbitrary: m) (auto simp: add.assoc)

lemma fold_fm_plus_get:
  fixes m :: "('k, 'v::comm_monoid_add) fmap"
  shows "fm_get 0 (fold (\<lambda>(k, v). fm_plus (f k) v) xs m) j =
    fm_get 0 m j + sum_list (map snd (filter (\<lambda>e. f (fst e) = j) xs))"
  by (induction xs arbitrary: m) (auto simp: add.assoc)

lemma fold_fm_plus_dom:
  "fset (fmdom (fold (\<lambda>(k, v). fm_plus (f k) v) xs m)) = fset (fmdom m) \<union> f ` fst ` set xs"
  by (induction xs arbitrary: m) auto

lemma distinct_set_singleton: "distinct xs \<Longrightarrow> set xs = {x} \<Longrightarrow> xs = [x]"
  by (cases xs; cases "tl xs") auto

lemma filter_entries_key:
  "filter (\<lambda>e. fst e = k) (fm_entries m) = (case fmlookup m k of None \<Rightarrow> [] | Some v \<Rightarrow> [(k, v)])"
proof (cases "fmlookup m k")
  case None
  then show ?thesis by (auto simp: filter_empty_conv)
next
  case (Some v)
  have "distinct (filter (\<lambda>e. fst e = k) (fm_entries m))" by simp
  moreover have "set (filter (\<lambda>e. fst e = k) (fm_entries m)) = {(k, v)}" using Some by auto
  ultimately have "filter (\<lambda>e. fst e = k) (fm_entries m) = [(k, v)]" by (rule distinct_set_singleton)
  then show ?thesis using Some by simp
qed

text \<open>A scan of an ordered map that stops at a bound visits exactly the keys below it.\<close>

lemma takeWhile_sorted:
  assumes "sorted (map f xs)" and down: "\<And>x y. f x \<le> f y \<Longrightarrow> P y \<Longrightarrow> P x"
  shows "takeWhile P xs = filter P xs"
  using assms(1)
proof (induction xs)
  case (Cons x xs)
  show ?case
  proof (cases "P x")
    case False
    with Cons.prems down have "\<forall>y \<in> set xs. \<not> P y" by auto
    with False show ?thesis by (auto simp: filter_empty_conv)
  qed (use Cons in simp)
qed simp

lemma sorted_fst_entries [simp]: "sorted (map fst (fm_entries m))"
  by (simp add: map_fst_entries)

lemma takeWhile_entries:
  "takeWhile (\<lambda>e. fst e \<le> h) (fm_entries m) = filter (\<lambda>e. fst e \<le> h) (fm_entries m)"
  "takeWhile (\<lambda>e. \<not> fst e \<ge> h) (fm_entries m) = filter (\<lambda>e. fst e < h) (fm_entries m)"
  using takeWhile_sorted [OF sorted_fst_entries, of "\<lambda>e. fst e \<le> h" m]
    takeWhile_sorted [OF sorted_fst_entries, of "\<lambda>e. fst e < h" m]
  by (auto simp: not_le)

lemma fold_add_sum: "fold (\<lambda>b w. w + f b) xs w = w + sum_list (map f xs)" for w :: "'a::monoid_add"
  by (induction xs arbitrary: w) (auto simp: add.assoc)

lemma fold_add_if: "fold (\<lambda>b w. if P b then w + f b else w) xs w = w + sum_list (map f (filter P xs))"
  for w :: "'a::monoid_add"
  by (induction xs arbitrary: w) (auto simp: add.assoc)

lemma fold_upd_lookup:
  assumes "distinct (map fst xs)"
  shows "fmlookup (fold (\<lambda>(k, v) out. if P k v then fmupd k v out else out) xs m) k =
    (case map_of xs k of None \<Rightarrow> fmlookup m k | Some v \<Rightarrow> if P k v then Some v else fmlookup m k)"
  using assms by (induction xs arbitrary: m) (auto simp: map_of_eq_None_iff image_iff split: option.splits)

lemma sorted_le_last: "sorted xs \<Longrightarrow> x \<in> set xs \<Longrightarrow> x \<le> last xs"
  by (induction xs rule: rev_induct) (auto simp: sorted_append)

text \<open>\<open>upper_bound\<close> followed by a step back finds the greatest key not above the bound.\<close>

abbreviation fm_due :: "('k::linorder, 'v) fmap \<Rightarrow> 'k \<Rightarrow> ('k \<times> 'v) list" where
  "fm_due m h \<equiv> filter (\<lambda>e. fst e \<le> h) (fm_entries m)"

lemma in_due: "(b, q) \<in> set (fm_due m h) \<longleftrightarrow> fmlookup m b = Some q \<and> b \<le> h"
  by simp

lemma due_last:
  assumes "fm_due m h \<noteq> []"
  shows "fmlookup m (fst (last (fm_due m h))) = Some (snd (last (fm_due m h)))"
    and "fst (last (fm_due m h)) \<le> h"
  using last_in_set [OF assms] in_due [of "fst (last (fm_due m h))" "snd (last (fm_due m h))" h m] by simp_all

lemma due_max:
  assumes "fmlookup m b = Some q" "b \<le> h"
  shows "fm_due m h \<noteq> []" "b \<le> fst (last (fm_due m h))"
proof -
  have in_d: "(b, q) \<in> set (fm_due m h)" by (rule in_due [THEN iffD2]) (intro conjI assms)
  show ne: "fm_due m h \<noteq> []" by (rule length_pos_if_in_set [OF in_d, THEN length_greater_0_conv [THEN iffD1]])
  have "sorted (map fst (fm_due m h))" by (rule sorted_filter [OF sorted_fst_entries])
  moreover have "b \<in> set (map fst (fm_due m h))" using imageI [OF in_d, of fst] by (simp only: list.set_map fst_conv)
  ultimately have "b \<le> last (map fst (fm_due m h))" by (rule sorted_le_last)
  then show "b \<le> fst (last (fm_due m h))" by (simp only: last_map [OF ne])
qed

lemma fm_entries_empty [simp]: "fm_entries fmempty = []"
  by (simp add: sorted_list_of_fmap_def sorted_list_of_fset.rep_eq)

end
