(* ===== verification/Script.thy ===== *)
theory Script
  imports Prelude
begin

text \<open>
  Serialized scripts (\<open>src/script/script.h\<close>, \<open>src/script/script.cpp\<close>): the push operators
  of \<open>CScript\<close>, the token reader \<open>GetScriptOp\<close> and the variable-length numbers of
  \<open>CScriptNum\<close>. A script is its byte string; an iterator \<open>pc\<close> into it is the suffix that
  is left to read, so \<open>pc == script.end()\<close> is \<open>pc = []\<close>.
\<close>

section \<open>Opcodes\<close>

abbreviation OP_0 :: byte where "OP_0 \<equiv> 0x00"
abbreviation OP_PUSHDATA1 :: byte where "OP_PUSHDATA1 \<equiv> 0x4c"
abbreviation OP_PUSHDATA2 :: byte where "OP_PUSHDATA2 \<equiv> 0x4d"
abbreviation OP_PUSHDATA4 :: byte where "OP_PUSHDATA4 \<equiv> 0x4e"
abbreviation OP_1 :: byte where "OP_1 \<equiv> 0x51"
abbreviation OP_TRUE :: byte where "OP_TRUE \<equiv> 0x51"
abbreviation OP_2 :: byte where "OP_2 \<equiv> 0x52"
abbreviation OP_16 :: byte where "OP_16 \<equiv> 0x60"
abbreviation OP_RETURN :: byte where "OP_RETURN \<equiv> 0x6a"
abbreviation OP_2DROP :: byte where "OP_2DROP \<equiv> 0x6d"
abbreviation OP_DROP :: byte where "OP_DROP \<equiv> 0x75"
abbreviation OP_CHECKSIG :: byte where "OP_CHECKSIG \<equiv> 0xac"
abbreviation OP_CHECKSIGVERIFY :: byte where "OP_CHECKSIGVERIFY \<equiv> 0xad"
abbreviation OP_CHECKMULTISIG :: byte where "OP_CHECKMULTISIG \<equiv> 0xae"
abbreviation OP_CHECKLOCKTIMEVERIFY :: byte where "OP_CHECKLOCKTIMEVERIFY \<equiv> 0xb1"
abbreviation OP_CHECKSEQUENCEVERIFY :: byte where "OP_CHECKSEQUENCEVERIFY \<equiv> 0xb2"

section \<open>Script numbers\<close>

text \<open>\<open>serialize_abs\<close> is the \<open>while (absvalue)\<close> loop of \<open>CScriptNum::serialize\<close>.\<close>

fun serialize_abs :: "nat \<Rightarrow> bytes" where
  "serialize_abs n = (if n = 0 then [] else word_of_nat n # serialize_abs (n div 256))"

declare serialize_abs.simps [simp del]

definition ScriptNum_serialize :: "int \<Rightarrow> bytes" where
  "ScriptNum_serialize v =
     (if v = 0 then []
      else let neg = v < 0; result = serialize_abs (nat \<bar>v\<bar>)
        in if last result AND 0x80 \<noteq> 0
           then result @ [if neg then 0x80 else 0]
           else if neg then butlast result @ [last result OR 0x80]
           else result)"

text \<open>
  \<open>CScriptNum::set_vch\<close>. The accumulated \<open>int64\<close> is the little-endian value of the bytes; the
  constructor has bounded their number, so no shift leaves the 64 bits.
\<close>

definition set_vch :: "bytes \<Rightarrow> int" where
  "set_vch vch =
     (if vch = [] then 0
      else let result = int (le_nat vch)
        in if last vch AND 0x80 \<noteq> 0 then - (result - 0x80 * 256 ^ (length vch - 1)) else result)"

text \<open>The minimality test of the \<open>CScriptNum\<close> constructor.\<close>

definition minimal_vch :: "bytes \<Rightarrow> bool" where
  "minimal_vch vch \<longleftrightarrow>
     \<not> (vch \<noteq> [] \<and> last vch AND 0x7f = 0 \<and>
        (length vch \<le> 1 \<or> (vch ! (length vch - 2)) AND 0x80 = 0))"

text \<open>The constructor from bytes; \<open>None\<close> is the thrown \<open>scriptnum_error\<close>.\<close>

definition CScriptNum :: "bytes \<Rightarrow> bool \<Rightarrow> nat \<Rightarrow> int option" where
  "CScriptNum vch fRequireMinimal nMaxNumSize =
     (if length vch > nMaxNumSize then None
      else if fRequireMinimal \<and> \<not> minimal_vch vch then None
      else Some (set_vch vch))"

text \<open>\<open>getint\<close> saturates at the limits of \<open>int\<close>.\<close>

definition ScriptNum_getint :: "int \<Rightarrow> int" where
  "ScriptNum_getint v = (if v > 2 ^ 31 - 1 then 2 ^ 31 - 1 else if v < - (2 ^ 31) then - (2 ^ 31) else v)"

section \<open>Writing a script\<close>

text \<open>\<open>operator<<\<close> of a byte vector, of an opcode (the byte itself) and of an \<open>int64\<close>.\<close>

definition push_vch :: "bytes \<Rightarrow> bytes" where
  "push_vch b =
     (if length b < 0x4c then [word_of_nat (length b)]
      else if length b \<le> 0xff then [OP_PUSHDATA1, word_of_nat (length b)]
      else if length b \<le> 0xffff then OP_PUSHDATA2 # nat_le 2 (length b)
      else OP_PUSHDATA4 # nat_le 4 (length b)) @ b"

definition push_int64 :: "int \<Rightarrow> bytes" where
  "push_int64 n =
     (if n = -1 \<or> (n \<ge> 1 \<and> n \<le> 16) then [word_of_int (n + 0x50)]
      else if n = 0 then [OP_0]
      else push_vch (ScriptNum_serialize n))"

section \<open>Reading a script\<close>

text \<open>
  \<open>GetScriptOp\<close> reads one token: the opcode, the pushed bytes (none for an opcode that pushes
  nothing) and the advanced iterator. \<open>None\<close> is the result \<open>false\<close>.
\<close>

definition GetScriptOp :: "bytes \<Rightarrow> (byte \<times> bytes \<times> bytes) option" where
  "GetScriptOp pc = (case pc of
      [] \<Rightarrow> None
    | opcode # rest \<Rightarrow>
        if opcode \<le> OP_PUSHDATA4 then
          do {
            (nSize, pc) \<leftarrow>
              (if opcode < OP_PUSHDATA1 then Some (unat opcode, rest)
               else if opcode = OP_PUSHDATA1 then
                 (if length rest < 1 then None else Some (unat (hd rest), tl rest))
               else if opcode = OP_PUSHDATA2 then
                 (if length rest < 2 then None else Some (le_nat (take 2 rest), drop 2 rest))
               else (if length rest < 4 then None else Some (le_nat (take 4 rest), drop 4 rest)));
            (if length pc < nSize then None
             else Some (opcode, take nSize pc, drop nSize pc))
          }
        else Some (opcode, [], rest))"

text \<open>\<open>DecodeSmallInt\<close> of \<open>pos.cpp\<close>: \<open>OP_1\<close> to \<open>OP_16\<close>, or -1.\<close>

definition is_small_int_op :: "byte \<Rightarrow> bool" where
  "is_small_int_op opcode \<longleftrightarrow> opcode \<ge> OP_1 \<and> opcode \<le> OP_16"

definition small_int_of :: "byte \<Rightarrow> int" where
  "small_int_of opcode = int (unat opcode) - int (unat OP_1 - 1)"

definition DecodeSmallInt :: "byte \<Rightarrow> int" where
  "DecodeSmallInt opcode = (if is_small_int_op opcode then small_int_of opcode else -1)"

section \<open>Token lemmas\<close>

lemma GetScriptOp_Nil [simp, script_simps]: "GetScriptOp [] = None"
  by (simp add: GetScriptOp_def)

lemma GetScriptOp_op [script_simps]:
  assumes "OP_PUSHDATA4 < op"
  shows "GetScriptOp (op # rest) = Some (op, [], rest)"
proof -
  from assms have "\<not> op \<le> OP_PUSHDATA4" by (simp only: not_le)
  then show ?thesis by (simp add: GetScriptOp_def)
qed

text \<open>The opcode byte a data push starts with.\<close>

definition push_op :: "bytes \<Rightarrow> byte" where
  "push_op b = hd (push_vch b)"

lemma push_op_le: "push_op b \<le> OP_PUSHDATA4"
  by (auto simp: push_op_def push_vch_def word_le_nat_alt)

lemma push_op_less_byte: "push_op b < w" if "OP_PUSHDATA4 < w"
  using push_op_le that by (rule order.strict_trans1)

lemma push_op_neq [simp]:
  "push_op b \<noteq> OP_DROP" "push_op b \<noteq> OP_CHECKSIG" "push_op b \<noteq> OP_CHECKSIGVERIFY"
  "push_op b \<noteq> OP_CHECKMULTISIG" "push_op b \<noteq> OP_CHECKLOCKTIMEVERIFY"
  "push_op b \<noteq> OP_CHECKSEQUENCEVERIFY" "push_op b \<noteq> OP_1" "push_op b \<noteq> OP_2"
  "push_op b \<noteq> OP_RETURN" "push_op b \<noteq> OP_2DROP"
  using push_op_le [of b] by auto

lemma push_op_not_small [simp]: "\<not> is_small_int_op (push_op b)"
proof
  assume "is_small_int_op (push_op b)"
  then have "OP_1 \<le> push_op b" by (simp add: is_small_int_op_def)
  from order.trans [OF this push_op_le] show False by simp
qed

lemma GetScriptOp_push_vch [script_simps]:
  assumes "length b < 2 ^ 32"
  shows "GetScriptOp (push_vch b @ rest) = Some (push_op b, b, rest)"
proof -
  consider (direct) "length b < 0x4c" | (one) "0x4c \<le> length b" "length b \<le> 0xff"
    | (two) "0xff < length b" "length b \<le> 0xffff" | (four) "0xffff < length b"
    by linarith
  then show ?thesis
  proof cases
    case direct
    then have n: "unat (word_of_nat (length b) :: byte) = length b" by simp
    then have "(word_of_nat (length b) :: byte) \<le> OP_PUSHDATA4"
      and "(word_of_nat (length b) :: byte) < OP_PUSHDATA1"
      using direct by (simp_all add: word_le_nat_alt word_less_nat_alt)
    with direct n show ?thesis by (simp add: push_vch_def push_op_def GetScriptOp_def)
  next
    case one
    then have "unat (word_of_nat (length b) :: byte) = length b" by simp
    with one show ?thesis by (simp add: push_vch_def push_op_def GetScriptOp_def)
  next
    case two
    then have "le_nat (nat_le 2 (length b)) = length b" by (simp add: le_nat_nat_le)
    with two show ?thesis by (simp add: push_vch_def push_op_def GetScriptOp_def)
  next
    case four
    with assms have "le_nat (nat_le 4 (length b)) = length b" by (simp add: le_nat_nat_le)
    with four show ?thesis by (simp add: push_vch_def push_op_def GetScriptOp_def)
  qed
qed

section \<open>Script numbers round-trip\<close>

lemma byte_sign_bit: "b AND 0x80 \<noteq> 0 \<longleftrightarrow> 128 \<le> unat (b :: byte)"
proof -
  have "b AND 0x80 = 0 \<longleftrightarrow> \<not> bit b 7"
    using and_exp_eq_0_iff_not_bit [of b 7] by simp
  moreover have "bit b 7 \<longleftrightarrow> odd (unat b div 128)"
    using bit_unsigned_iff [of b 7, where 'a = nat] bit_iff_odd [of "unat b" 7] by simp
  moreover have "odd (unat b div 128) \<longleftrightarrow> 128 \<le> unat b"
  proof
    assume "128 \<le> unat b"
    with unat_byte_less [of b] have "unat b div 128 = 1" by linarith
    then show "odd (unat b div 128)" by simp
  next
    assume "odd (unat b div 128)"
    then show "128 \<le> unat b" by (cases "unat b < 128") simp_all
  qed
  ultimately show ?thesis by blast
qed

lemma byte_low_bits: "unat (b AND 0x7f :: byte) = unat b mod 128"
proof -
  have "b AND 0x7f = take_bit 7 b"
    by (simp add: take_bit_eq_mask mask_eq_exp_minus_1)
  then have "unat (b AND 0x7f) = unat (take_bit 7 b)" by (simp only:)
  also have "\<dots> = take_bit 7 (unat b)" by (simp only: unsigned_take_bit_eq)
  finally show ?thesis by (simp add: take_bit_eq_mod)
qed

lemma byte_set_sign: "b AND 0x80 = 0 \<Longrightarrow> unat (b OR 0x80 :: byte) = unat b + 128"
proof -
  assume a: "b AND 0x80 = 0"
  then have "unat b < 128" using byte_sign_bit [of b] by auto
  moreover have "b OR 0x80 = b + 0x80" using word_plus_and_or [of b "0x80"] a by simp
  ultimately show ?thesis by (simp add: unat_word_ariths)
qed

lemma serialize_abs_0 [simp]: "serialize_abs 0 = []"
  by (simp add: serialize_abs.simps)

lemma serialize_abs_Nil_iff [simp]: "serialize_abs n = [] \<longleftrightarrow> n = 0"
  by (subst serialize_abs.simps) simp

lemma le_nat_serialize_abs [simp]: "le_nat (serialize_abs n) = n"
proof (induction n rule: serialize_abs.induct)
  case (1 n)
  then show ?case by (cases "n = 0") (simp_all add: serialize_abs.simps [of n])
qed

lemma last_serialize_abs: "n \<noteq> 0 \<Longrightarrow> last (serialize_abs n) \<noteq> 0"
proof (induction n rule: serialize_abs.induct)
  case (1 n)
  show ?case
  proof (cases "n div 256 = 0")
    case True
    then have "unat (word_of_nat n :: byte) = n" using "1.prems" by (simp add: div_eq_0_iff)
    with "1.prems" have "(word_of_nat n :: byte) \<noteq> 0" by (metis unat_0)
    with True "1.prems" show ?thesis by (simp add: serialize_abs.simps [of n])
  next
    case False
    with 1 show ?thesis by (simp add: serialize_abs.simps [of n])
  qed
qed

lemma serialize_abs_le_nat:
  "xs \<noteq> [] \<Longrightarrow> last xs \<noteq> 0 \<Longrightarrow> serialize_abs (le_nat xs) = xs"
proof (induction xs)
  case (Cons b bs)
  show ?case
  proof (cases "bs = []")
    case True
    with Cons.prems have "unat b \<noteq> 0" by (simp add: unat_eq_zero)
    with True show ?thesis by (simp add: serialize_abs.simps [of "unat b"])
  next
    case False
    with Cons have IH: "serialize_abs (le_nat bs) = bs" by simp
    then have "le_nat bs \<noteq> 0" using False by (metis serialize_abs_Nil_iff)
    then have "le_nat (b # bs) \<noteq> 0" by simp
    then have "serialize_abs (le_nat (b # bs)) =
      word_of_nat (le_nat (b # bs)) # serialize_abs (le_nat (b # bs) div 256)"
      by (subst serialize_abs.simps) (simp only: if_False)
    moreover have "(word_of_nat (le_nat (b # bs)) :: byte) = b"
      using le_nat_Cons_div_mod(1) [of b bs]
      by (simp only: word_unat_eq_iff unat_byte_of_nat)
    ultimately show ?thesis by (simp only: le_nat_Cons_div_mod IH)
  qed
qed simp

lemma le_nat_split_last:
  "xs \<noteq> [] \<Longrightarrow> le_nat xs = le_nat (butlast xs) + 256 ^ (length xs - 1) * unat (last xs)"
  using le_nat_append [of "butlast xs" "[last xs]"] by simp

text \<open>Decoding what was encoded gives the number back.\<close>

lemma set_vch_serialize: "set_vch (ScriptNum_serialize v) = v"
proof (cases "v = 0")
  case False
  let ?n = "nat \<bar>v\<bar>" let ?r = "serialize_abs ?n"
  have ne: "?r \<noteq> []" using False by simp
  show ?thesis
  proof (cases "last ?r AND 0x80 \<noteq> 0")
    case True
    then show ?thesis using False ne
      by (auto simp: ScriptNum_serialize_def set_vch_def le_nat_append Let_def)
  next
    case low: False
    then have set: "unat (last ?r OR 0x80) = unat (last ?r) + 128" by (simp add: byte_set_sign)
    have bit: "(last ?r OR 0x80) AND 0x80 \<noteq> 0" by (simp add: byte_sign_bit set)
    have "le_nat (butlast ?r @ [last ?r OR 0x80]) = ?n + 128 * 256 ^ (length ?r - 1)"
      using le_nat_split_last [OF ne] by (simp add: le_nat_append set algebra_simps)
    then show ?thesis using False ne low bit
      by (auto simp: ScriptNum_serialize_def set_vch_def Let_def)
  qed
qed (simp add: ScriptNum_serialize_def set_vch_def)

text \<open>What was encoded passes the minimality test, and a minimal encoding is unique.\<close>

lemma minimal_serialize: "minimal_vch (ScriptNum_serialize v)"
proof (cases "v = 0")
  case False
  let ?n = "nat \<bar>v\<bar>" let ?r = "serialize_abs ?n"
  have ne: "?r \<noteq> []" and l0: "last ?r \<noteq> 0"
    using False last_serialize_abs by simp_all
  show ?thesis
  proof (cases "last ?r AND 0x80 \<noteq> 0")
    case True
    have "(?r @ [x]) ! (length (?r @ [x]) - 2) = last ?r" for x
      using ne by (simp add: nth_append last_conv_nth)
    with True False show ?thesis
      by (auto simp: ScriptNum_serialize_def minimal_vch_def Let_def)
  next
    case low: False
    then have l: "unat (last ?r) < 128" using byte_sign_bit by auto
    have pos: "unat (last ?r) \<noteq> 0" using l0 by (simp add: unat_eq_zero)
    from low have "unat (last ?r OR 0x80) = unat (last ?r) + 128" by (simp add: byte_set_sign)
    then have "unat (last ?r AND 0x7f) \<noteq> 0" "unat ((last ?r OR 0x80) AND 0x7f) \<noteq> 0"
      using l pos by (simp_all add: byte_low_bits)
    then have "last ?r AND 0x7f \<noteq> 0" "(last ?r OR 0x80) AND 0x7f \<noteq> 0"
      by (metis unat_0)+
    with low False ne show ?thesis
      by (auto simp: ScriptNum_serialize_def minimal_vch_def Let_def)
  qed
qed (simp add: ScriptNum_serialize_def minimal_vch_def)

lemma byte_split_sign:
  assumes "b AND 0x80 \<noteq> 0"
  shows "(b AND 0x7f) OR 0x80 = (b :: byte)" and "(b AND 0x7f) AND 0x80 = (0 :: byte)"
    and "unat b = unat (b AND 0x7f) + 128"
proof -
  have "128 \<le> unat b" using assms byte_sign_bit [of b] by simp
  moreover from this have "unat b - 128 < 128" using unat_byte_less [of b] by linarith
  ultimately have "unat b mod 128 = unat b - 128" by (simp add: le_mod_geq)
  then have eq: "unat b = unat (b AND 0x7f) + 128"
    using \<open>128 \<le> unat b\<close> byte_low_bits [of b] by linarith
  have z: "(b AND 0x7f) AND 0x80 = (0 :: byte)" by (simp add: and.assoc)
  show "(b AND 0x7f) AND 0x80 = (0 :: byte)" "unat b = unat (b AND 0x7f) + 128" by fact+
  show "(b AND 0x7f) OR 0x80 = b"
    using byte_set_sign [OF z] eq by (simp add: word_unat_eq_iff)
qed

lemma byte_no_sign:
  assumes "b AND 0x80 = (0 :: byte)"
  shows "b AND 0x7f = b"
  using assms byte_sign_bit [of b] byte_low_bits [of b] by (simp add: word_unat_eq_iff)

lemma set_vch_snoc:
  "set_vch (b @ [t]) = (let m = int (le_nat (b @ [t AND 0x7f])) in if t AND 0x80 \<noteq> 0 then - m else m)"
proof (cases "t AND 0x80 \<noteq> 0")
  case True
  then show ?thesis using byte_split_sign(3) [OF True]
    by (simp add: set_vch_def le_nat_append algebra_simps)
next
  case False
  then show ?thesis using byte_no_sign [of t] by (simp add: set_vch_def)
qed

lemma serialize_set_vch:
  assumes "minimal_vch vch"
  shows "ScriptNum_serialize (set_vch vch) = vch"
proof (cases vch rule: rev_cases)
  case (snoc b t)
  show ?thesis
  proof (cases "t AND 0x7f = 0")
    case True
    have two: "b \<noteq> []" and "b ! (length b - 1) AND 0x80 \<noteq> 0"
      using assms True by (auto simp: snoc minimal_vch_def nth_append)
    then have top: "last b AND 0x80 \<noteq> 0" by (simp add: last_conv_nth)
    then have "last b \<noteq> 0" by auto
    then have ser: "serialize_abs (le_nat b) = b" using two by (simp add: serialize_abs_le_nat)
    have pos: "le_nat b \<noteq> 0" using two unfolding serialize_abs_Nil_iff [symmetric] ser .
    have t: "(if t AND 0x80 \<noteq> 0 then 0x80 else 0) = t"
      using True byte_split_sign(1) [of t] byte_no_sign [of t] by auto
    have "ScriptNum_serialize (set_vch vch) = b @ [if t AND 0x80 \<noteq> 0 then 0x80 else 0]"
      using pos ser top True by (simp add: snoc set_vch_snoc le_nat_append ScriptNum_serialize_def Let_def)
    then show ?thesis unfolding t snoc .
  next
    case nz: False
    let ?m = "le_nat (b @ [t AND 0x7f])"
    have ser: "serialize_abs ?m = b @ [t AND 0x7f]" using nz by (simp add: serialize_abs_le_nat)
    have pos: "?m \<noteq> 0" unfolding serialize_abs_Nil_iff [symmetric] ser by simp
    have low: "(t AND 0x7f) AND 0x80 = (0 :: byte)" by (simp add: and.assoc)
    show ?thesis
    proof (cases "t AND 0x80 \<noteq> 0")
      case True
      then have "set_vch vch = - int ?m" by (simp add: snoc set_vch_snoc)
      then show ?thesis using pos byte_split_sign(1) [OF True]
        by (simp add: ScriptNum_serialize_def Let_def ser low snoc del: le_nat.simps)
    next
      case nosign: False
      then have "set_vch vch = int ?m" by (simp add: snoc set_vch_snoc)
      then show ?thesis using pos nosign byte_no_sign [of t] ser
        by (simp add: ScriptNum_serialize_def Let_def snoc del: le_nat.simps)
    qed
  qed
qed (simp add: ScriptNum_serialize_def set_vch_def)

text \<open>Bytes a number takes.\<close>

lemma length_serialize_le:
  assumes "\<bar>v\<bar> < 128 * 256 ^ k"
  shows "length (ScriptNum_serialize v) \<le> Suc k"
proof (cases "v = 0")
  case False
  let ?n = "nat \<bar>v\<bar>" let ?r = "serialize_abs ?n"
  have ne: "?r \<noteq> []" and l0: "unat (last ?r) \<noteq> 0"
    using False last_serialize_abs [of ?n] by (auto simp: unat_eq_zero)
  have n: "?n < 128 * 256 ^ k" using assms by (simp add: zless_nat_eq_int_zless [symmetric] nat_less_iff)
  have lb: "256 ^ (length ?r - 1) * unat (last ?r) \<le> ?n"
    using le_nat_split_last [OF ne] by simp
  have len: "length ?r - 1 \<le> k"
  proof (rule ccontr)
    assume "\<not> length ?r - 1 \<le> k"
    then have "(256 :: nat) * 256 ^ k \<le> 256 ^ (length ?r - 1)"
      using power_increasing [of "Suc k" "length ?r - 1" "256 :: nat"] by simp
    also have "\<dots> \<le> 256 ^ (length ?r - 1) * unat (last ?r)" using l0 by simp
    finally show False using lb n by simp
  qed
  have lenr: "length ?r \<le> Suc k" using len by linarith
  show ?thesis
  proof (cases "last ?r AND 0x80 \<noteq> 0")
    case True
    then have "128 \<le> unat (last ?r)" by (simp add: byte_sign_bit)
    then have "128 * 256 ^ (length ?r - 1) \<le> 256 ^ (length ?r - 1) * unat (last ?r)"
      by (simp add: mult.commute)
    then have "128 * (256 :: nat) ^ (length ?r - 1) < 128 * 256 ^ k" using lb n by linarith
    then have "length ?r - 1 < k" by simp
    then have "Suc (length ?r) \<le> Suc k" by linarith
    with True False show ?thesis by (simp add: ScriptNum_serialize_def Let_def)
  next
    case low: False
    have "ScriptNum_serialize v = (if v < 0 then butlast ?r @ [last ?r OR 0x80] else ?r)"
      using False low by (simp add: ScriptNum_serialize_def Let_def)
    moreover have "length (butlast ?r @ [last ?r OR 0x80]) = length ?r" using ne by simp
    ultimately show ?thesis using lenr by presburger
  qed
qed (simp add: ScriptNum_serialize_def)

lemma ScriptNum_serialize_Nil_iff [simp]: "ScriptNum_serialize v = [] \<longleftrightarrow> v = 0"
  by (auto simp: ScriptNum_serialize_def Let_def)

lemma CScriptNum_serialize [simp]:
  "length (ScriptNum_serialize v) \<le> k \<Longrightarrow> CScriptNum (ScriptNum_serialize v) m k = Some v"
  by (simp add: CScriptNum_def minimal_serialize set_vch_serialize)

section \<open>Number tokens\<close>

lemma small_int_token:
  assumes "1 \<le> n" "n \<le> 16"
  shows "is_small_int_op (word_of_int (n + 0x50))" and "small_int_of (word_of_int (n + 0x50)) = n"
    and "OP_PUSHDATA4 < (word_of_int (n + 0x50) :: byte)"
proof -
  have "uint (word_of_int (n + 0x50) :: byte) = n + 0x50"
    using assms by (subst uint_word_of_int) simp
  then have u: "unat (word_of_int (n + 0x50) :: byte) = nat (n + 0x50)"
    by (simp only: unat_eq_nat_uint)
  show "is_small_int_op (word_of_int (n + 0x50))"
    using u assms unfolding is_small_int_op_def word_le_nat_alt by (auto simp: le_nat_iff nat_le_iff)
  show "small_int_of (word_of_int (n + 0x50)) = n"
    using u assms unfolding small_int_of_def by simp
  show "OP_PUSHDATA4 < (word_of_int (n + 0x50) :: byte)"
    using u assms unfolding word_less_nat_alt by auto
qed

lemma GetScriptOp_push_small [script_simps]:
  "1 \<le> n \<Longrightarrow> n \<le> 16 \<Longrightarrow>
   GetScriptOp (push_int64 n @ rest) = Some (word_of_int (n + 0x50), [], rest)"
  using small_int_token(3) [of n] by (simp add: push_int64_def GetScriptOp_op)

lemma GetScriptOp_push_zero [script_simps]: "GetScriptOp (push_int64 0 @ rest) = Some (OP_0, [], rest)"
  by (simp add: push_int64_def GetScriptOp_def)

lemma GetScriptOp_push_num [script_simps]:
  assumes "16 < n" "length (ScriptNum_serialize n) \<le> 8"
  shows "GetScriptOp (push_int64 n @ rest) =
    Some (push_op (ScriptNum_serialize n), ScriptNum_serialize n, rest)"
  using assms GetScriptOp_push_vch [of "ScriptNum_serialize n" rest] by (simp add: push_int64_def)

section \<open>Properties\<close>

text \<open>Script numbers have one minimal encoding: with the minimality check on, the bytes read as a
  number are exactly those that it is written as, up to the size allowed.\<close>

theorem script_number_minimal:
  "CScriptNum vch True n = Some v \<longleftrightarrow> vch = ScriptNum_serialize v \<and> length vch \<le> n"
  using serialize_set_vch [of vch] by (auto simp: CScriptNum_def minimal_serialize set_vch_serialize)

end
