(* ===== verification/Hashing.thy ===== *)
theory Hashing
  imports Prelude
begin

text \<open>
  The hash functions of \<open>src/crypto/sha256.cpp\<close>, \<open>src/crypto/ripemd160.cpp\<close> and
  \<open>src/hash.h\<close>: the compression functions, the buffered \<open>Write\<close> and the padding of
  \<open>Finalize\<close>, the two composite hashers and the stream writer. The unrolled rounds of the
  source are the iteration of one round over its tables of constants; a call of a round with
  rotated register names is the round followed by the rotation of the register tuple.

  The lemmas show that a hasher fed in any pieces computes the padded block iteration of the
  whole message, and that the in-place message schedule and the shortened Boolean functions
  of SHA-256 are those of the standard.
\<close>

section \<open>Words of a block\<close>

definition ReadBE32 :: "bytes \<Rightarrow> u32" where
  "ReadBE32 bs = word_of_nat (be_nat (take 4 bs))"

definition ReadLE32 :: "bytes \<Rightarrow> u32" where
  "ReadLE32 bs = word_of_nat (le_nat (take 4 bs))"

definition WriteBE32 :: "u32 \<Rightarrow> bytes" where
  "WriteBE32 x = nat_be 4 (unat x)"

definition WriteLE32 :: "u32 \<Rightarrow> bytes" where
  "WriteLE32 x = nat_le 4 (unat x)"

definition WriteBE64 :: "u64 \<Rightarrow> bytes" where
  "WriteBE64 x = nat_be 8 (unat x)"

definition WriteLE64 :: "u64 \<Rightarrow> bytes" where
  "WriteLE64 x = nat_le 8 (unat x)"

definition memcpy_at :: "bytes \<Rightarrow> nat \<Rightarrow> bytes \<Rightarrow> bytes" where
  "memcpy_at buf off d = take off buf @ d @ drop (off + length d) buf"

section \<open>SHA-256 compression\<close>

definition shr32 :: "u32 \<Rightarrow> nat \<Rightarrow> u32" where "shr32 x n = drop_bit n x"
definition shl32 :: "u32 \<Rightarrow> nat \<Rightarrow> u32" where "shl32 x n = push_bit n x"

definition Ch :: "u32 \<Rightarrow> u32 \<Rightarrow> u32 \<Rightarrow> u32" where
  "Ch x y z = z XOR (x AND (y XOR z))"

definition Maj :: "u32 \<Rightarrow> u32 \<Rightarrow> u32 \<Rightarrow> u32" where
  "Maj x y z = (x AND y) OR (z AND (x OR y))"

definition Sigma0 :: "u32 \<Rightarrow> u32" where
  "Sigma0 x = (shr32 x 2 OR shl32 x 30) XOR (shr32 x 13 OR shl32 x 19) XOR (shr32 x 22 OR shl32 x 10)"

definition Sigma1 :: "u32 \<Rightarrow> u32" where
  "Sigma1 x = (shr32 x 6 OR shl32 x 26) XOR (shr32 x 11 OR shl32 x 21) XOR (shr32 x 25 OR shl32 x 7)"

definition sigma0 :: "u32 \<Rightarrow> u32" where
  "sigma0 x = (shr32 x 7 OR shl32 x 25) XOR (shr32 x 18 OR shl32 x 14) XOR shr32 x 3"

definition sigma1 :: "u32 \<Rightarrow> u32" where
  "sigma1 x = (shr32 x 17 OR shl32 x 15) XOR (shr32 x 19 OR shl32 x 13) XOR shr32 x 10"

type_synonym regs = "u32 \<times> u32 \<times> u32 \<times> u32 \<times> u32 \<times> u32 \<times> u32 \<times> u32"

text \<open>One round; the result names the registers as the next call of the source does.\<close>

fun sha256_Round :: "regs \<Rightarrow> u32 \<Rightarrow> regs" where
  "sha256_Round (a, b, c, d, e, f, g, h) k =
     (let t1 = h + Sigma1 e + Ch e f g + k;
          t2 = Sigma0 a + Maj a b c
      in (t1 + t2, a, b, c, d + t1, e, f, g))"

definition sha256_Initialize :: "u32 list" where
  "sha256_Initialize =
    [0x6a09e667, 0xbb67ae85, 0x3c6ef372, 0xa54ff53a, 0x510e527f, 0x9b05688c, 0x1f83d9ab, 0x5be0cd19]"

text \<open>The calls of \<open>Round\<close> in their order: the constant added and the message word used.\<close>

definition sha256_rounds :: "(u32 \<times> nat) list" where
  "sha256_rounds =
    [(0x428a2f98, 0), (0x71374491, 1), (0xb5c0fbcf, 2), (0xe9b5dba5, 3),
     (0x3956c25b, 4), (0x59f111f1, 5), (0x923f82a4, 6), (0xab1c5ed5, 7),
     (0xd807aa98, 8), (0x12835b01, 9), (0x243185be, 10), (0x550c7dc3, 11),
     (0x72be5d74, 12), (0x80deb1fe, 13), (0x9bdc06a7, 14), (0xc19bf174, 15),
     (0xe49b69c1, 0), (0xefbe4786, 1), (0x0fc19dc6, 2), (0x240ca1cc, 3),
     (0x2de92c6f, 4), (0x4a7484aa, 5), (0x5cb0a9dc, 6), (0x76f988da, 7),
     (0x983e5152, 8), (0xa831c66d, 9), (0xb00327c8, 10), (0xbf597fc7, 11),
     (0xc6e00bf3, 12), (0xd5a79147, 13), (0x06ca6351, 14), (0x14292967, 15),
     (0x27b70a85, 0), (0x2e1b2138, 1), (0x4d2c6dfc, 2), (0x53380d13, 3),
     (0x650a7354, 4), (0x766a0abb, 5), (0x81c2c92e, 6), (0x92722c85, 7),
     (0xa2bfe8a1, 8), (0xa81a664b, 9), (0xc24b8b70, 10), (0xc76c51a3, 11),
     (0xd192e819, 12), (0xd6990624, 13), (0xf40e3585, 14), (0x106aa070, 15),
     (0x19a4c116, 0), (0x1e376c08, 1), (0x2748774c, 2), (0x34b0bcb5, 3),
     (0x391c0cb3, 4), (0x4ed8aa4a, 5), (0x5b9cca4f, 6), (0x682e6ff3, 7),
     (0x748f82ee, 8), (0x78a5636f, 9), (0x84c87814, 10), (0x8cc70208, 11),
     (0x90befffa, 12), (0xa4506ceb, 13), (0xbef9a3f7, 14), (0xc67178f2, 15)]"

definition sha256_K :: "nat \<Rightarrow> u32" where
  "sha256_K i = fst (sha256_rounds ! i)"

text \<open>
  Round \<open>i\<close> uses word \<open>i\<close> of the chunk for the first sixteen rounds; afterwards the word
  \<open>w(i mod 16)\<close> is first updated in place.
\<close>

definition sha256_schedule :: "nat \<Rightarrow> u32 list \<Rightarrow> u32 list" where
  "sha256_schedule i w =
     (if i < 16 then w
      else w[i mod 16 := w ! (i mod 16) + (sigma1 (w ! ((i + 14) mod 16)) + w ! ((i + 9) mod 16)
              + sigma0 (w ! ((i + 1) mod 16)))])"

definition sha256_step :: "nat \<Rightarrow> regs \<times> u32 list \<Rightarrow> regs \<times> u32 list" where
  "sha256_step i p =
     (let w = sha256_schedule i (snd p)
      in (sha256_Round (fst p) (sha256_K i + w ! snd (sha256_rounds ! i)), w))"

definition sha256_words :: "bytes \<Rightarrow> u32 list" where
  "sha256_words chunk = map (\<lambda>i. ReadBE32 (drop (4 * i) chunk)) [0..<16]"

definition sha256_regs :: "u32 list \<Rightarrow> regs" where
  "sha256_regs s = (s ! 0, s ! 1, s ! 2, s ! 3, s ! 4, s ! 5, s ! 6, s ! 7)"

fun regs_list :: "regs \<Rightarrow> u32 list" where
  "regs_list (a, b, c, d, e, f, g, h) = [a, b, c, d, e, f, g, h]"

definition sha256_block :: "u32 list \<Rightarrow> bytes \<Rightarrow> u32 list" where
  "sha256_block s chunk =
     map2 (+) s (regs_list (fst (fold sha256_step [0..<64] (sha256_regs s, sha256_words chunk))))"

text \<open>\<open>sha256::Transform\<close> with its number of 64-byte blocks.\<close>

fun sha256_Transform :: "u32 list \<Rightarrow> bytes \<Rightarrow> nat \<Rightarrow> u32 list" where
  "sha256_Transform s chunk 0 = s"
| "sha256_Transform s chunk (Suc blocks) =
     sha256_Transform (sha256_block s (take 64 chunk)) (drop 64 chunk) blocks"

section \<open>RIPEMD-160 compression\<close>

definition rmd_f :: "nat \<Rightarrow> u32 \<Rightarrow> u32 \<Rightarrow> u32 \<Rightarrow> u32" where
  "rmd_f n x y z =
     (if n = 1 then x XOR y XOR z
      else if n = 2 then (x AND y) OR (NOT x AND z)
      else if n = 3 then (x OR NOT y) XOR z
      else if n = 4 then (x AND z) OR (y AND NOT z)
      else x XOR (y OR NOT z))"

definition rmd_Initialize :: "u32 list" where
  "rmd_Initialize = [0x67452301, 0xEFCDAB89, 0x98BADCFE, 0x10325476, 0xC3D2E1F0]"

definition rol :: "u32 \<Rightarrow> nat \<Rightarrow> u32" where
  "rol x i = shl32 x i OR shr32 x (32 - i)"

type_synonym rmd_regs = "u32 \<times> u32 \<times> u32 \<times> u32 \<times> u32"

text \<open>\<open>Round\<close> on registers \<open>a\<close> to \<open>e\<close>; the next call names them \<open>e, a, b, c, d\<close>.\<close>

fun rmd_Round :: "nat \<Rightarrow> u32 \<Rightarrow> u32 \<Rightarrow> nat \<Rightarrow> rmd_regs \<Rightarrow> rmd_regs" where
  "rmd_Round n k x r (a, b, c, d, e) =
     (e, rol (a + rmd_f n b c d + x + k) r + e, b, rol c 10, d)"

text \<open>Message word and rotation of each step, left line and right line.\<close>

definition rmd_left :: "(nat \<times> nat) list" where
  "rmd_left =
    [(0, 11), (1, 14), (2, 15), (3, 12), (4, 5), (5, 8), (6, 7), (7, 9), (8, 11), (9, 13),
     (10, 14), (11, 15), (12, 6), (13, 7), (14, 9), (15, 8), (7, 7), (4, 6), (13, 8), (1, 13),
     (10, 11), (6, 9), (15, 7), (3, 15), (12, 7), (0, 12), (9, 15), (5, 9), (2, 11), (14, 7),
     (11, 13), (8, 12), (3, 11), (10, 13), (14, 6), (4, 7), (9, 14), (15, 9), (8, 13), (1, 15),
     (2, 14), (7, 8), (0, 13), (6, 6), (13, 5), (11, 12), (5, 7), (12, 5), (1, 11), (9, 12),
     (11, 14), (10, 15), (0, 14), (8, 15), (12, 9), (4, 8), (13, 9), (3, 14), (7, 5), (15, 6),
     (14, 8), (5, 6), (6, 5), (2, 12), (4, 9), (0, 15), (5, 5), (9, 11), (7, 6), (12, 8),
     (2, 13), (10, 12), (14, 5), (1, 12), (3, 13), (8, 14), (11, 11), (6, 8), (15, 5), (13, 6)]"

definition rmd_right :: "(nat \<times> nat) list" where
  "rmd_right =
    [(5, 8), (14, 9), (7, 9), (0, 11), (9, 13), (2, 15), (11, 15), (4, 5), (13, 7), (6, 7),
     (15, 8), (8, 11), (1, 14), (10, 14), (3, 12), (12, 6), (6, 9), (11, 13), (3, 15), (7, 7),
     (0, 12), (13, 8), (5, 9), (10, 11), (14, 7), (15, 7), (8, 12), (12, 7), (4, 6), (9, 15),
     (1, 13), (2, 11), (15, 9), (5, 7), (1, 15), (3, 11), (7, 8), (14, 6), (6, 6), (9, 14),
     (11, 12), (8, 13), (12, 5), (2, 14), (10, 13), (0, 13), (4, 7), (13, 5), (8, 15), (6, 5),
     (4, 8), (1, 11), (3, 14), (11, 14), (15, 6), (0, 14), (5, 6), (12, 9), (2, 12), (13, 9),
     (9, 12), (7, 5), (10, 15), (14, 8), (12, 8), (15, 5), (10, 12), (4, 9), (1, 12), (5, 5),
     (8, 14), (7, 6), (6, 8), (2, 13), (13, 6), (14, 5), (0, 15), (3, 13), (9, 11), (11, 11)]"

text \<open>\<open>R11\<close> to \<open>R51\<close> and \<open>R12\<close> to \<open>R52\<close>: the Boolean function and the constant of step \<open>i\<close>.\<close>

definition rmd_left_fk :: "nat \<Rightarrow> nat \<times> u32" where
  "rmd_left_fk i = [(1, 0), (2, 0x5A827999), (3, 0x6ED9EBA1), (4, 0x8F1BBCDC), (5, 0xA953FD4E)] ! (i div 16)"

definition rmd_right_fk :: "nat \<Rightarrow> nat \<times> u32" where
  "rmd_right_fk i = [(5, 0x50A28BE6), (4, 0x5C4DD124), (3, 0x6D703EF3), (2, 0x7A6D76E9), (1, 0)] ! (i div 16)"

definition rmd_line :: "(nat \<Rightarrow> nat \<times> u32) \<Rightarrow> (nat \<times> nat) list \<Rightarrow> u32 list \<Rightarrow> rmd_regs \<Rightarrow> rmd_regs" where
  "rmd_line fk tab w regs =
     fold (\<lambda>i. rmd_Round (fst (fk i)) (snd (fk i)) (w ! fst (tab ! i)) (snd (tab ! i))) [0..<80] regs"

definition rmd_words :: "bytes \<Rightarrow> u32 list" where
  "rmd_words chunk = map (\<lambda>i. ReadLE32 (drop (4 * i) chunk)) [0..<16]"

text \<open>After eighty rotations of five registers every register is back under its own name.\<close>

definition rmd_Transform :: "u32 list \<Rightarrow> bytes \<Rightarrow> u32 list" where
  "rmd_Transform s chunk =
     (let w = rmd_words chunk;
          init = (s ! 0, s ! 1, s ! 2, s ! 3, s ! 4);
          (a1, b1, c1, d1, e1) = rmd_line rmd_left_fk rmd_left w init;
          (a2, b2, c2, d2, e2) = rmd_line rmd_right_fk rmd_right w init
      in [s ! 1 + c1 + d2, s ! 2 + d1 + e2, s ! 3 + e1 + a2, s ! 4 + a1 + b2, s ! 0 + b1 + c2])"

section \<open>Buffered hashers\<close>

text \<open>
  \<open>CSHA256\<close> and \<open>CRIPEMD160\<close> hold the chaining words, a 64-byte buffer and the number of
  bytes written, of which the low six bits say how much of the buffer is in use.
\<close>

record hasher =
  hs :: "u32 list"
  hbuf :: bytes
  hbytes :: u64

definition CSHA256 :: hasher where
  "CSHA256 = \<lparr>hs = sha256_Initialize, hbuf = replicate 64 0, hbytes = 0\<rparr>"

definition CRIPEMD160 :: hasher where
  "CRIPEMD160 = \<lparr>hs = rmd_Initialize, hbuf = replicate 64 0, hbytes = 0\<rparr>"

text \<open>The first branch of \<open>Write\<close>: fill the buffer and process it. The result is the state, the
  data left and the bytes of the buffer in use.\<close>

definition Write_fill :: "(u32 list \<Rightarrow> bytes \<Rightarrow> u32 list) \<Rightarrow> hasher \<Rightarrow> bytes \<Rightarrow> hasher \<times> bytes \<times> nat" where
  "Write_fill blk st data =
     (let bufsize = unat (hbytes st mod 64)
      in if bufsize \<noteq> 0 \<and> bufsize + length data \<ge> 64
         then let buf = memcpy_at (hbuf st) bufsize (take (64 - bufsize) data)
              in (st\<lparr>hbuf := buf, hbytes := hbytes st + word_of_nat (64 - bufsize),
                     hs := blk (hs st) buf\<rparr>, drop (64 - bufsize) data, 0)
         else (st, data, bufsize))"

text \<open>The last branch: keep what remains in the buffer.\<close>

definition Write_rest :: "hasher \<Rightarrow> bytes \<Rightarrow> nat \<Rightarrow> hasher" where
  "Write_rest st data bufsize =
     (if data \<noteq> [] then st\<lparr>hbuf := memcpy_at (hbuf st) bufsize data,
                              hbytes := hbytes st + word_of_nat (length data)\<rparr>
      else st)"

definition CSHA256_Write :: "hasher \<Rightarrow> bytes \<Rightarrow> hasher" where
  "CSHA256_Write st data =
     (case Write_fill (\<lambda>s buf. sha256_Transform s buf 1) st data of (st, data, bufsize) \<Rightarrow>
        if length data \<ge> 64 then
          let blocks = length data div 64
          in Write_rest (st\<lparr>hs := sha256_Transform (hs st) data blocks,
                             hbytes := hbytes st + word_of_nat (64 * blocks)\<rparr>)
               (drop (64 * blocks) data) bufsize
        else Write_rest st data bufsize)"

text \<open>RIPEMD-160 takes the full chunks one at a time.\<close>

fun rmd_chunks :: "hasher \<Rightarrow> bytes \<Rightarrow> hasher \<times> bytes" where
  "rmd_chunks st data =
     (if length data \<ge> 64
      then rmd_chunks (st\<lparr>hs := rmd_Transform (hs st) (take 64 data), hbytes := hbytes st + 64\<rparr>) (drop 64 data)
      else (st, data))"

declare rmd_chunks.simps [simp del]

definition CRIPEMD160_Write :: "hasher \<Rightarrow> bytes \<Rightarrow> hasher" where
  "CRIPEMD160_Write st data =
     (case Write_fill rmd_Transform st data of (st, data, bufsize) \<Rightarrow>
        case rmd_chunks st data of (st, data) \<Rightarrow> Write_rest st data bufsize)"

definition pad_len :: "u64 \<Rightarrow> nat" where
  "pad_len n = 1 + (119 - unat (n mod 64)) mod 64"

definition pad_bytes :: "nat \<Rightarrow> bytes" where
  "pad_bytes n = take n (0x80 # replicate 63 0)"

definition CSHA256_Finalize :: "hasher \<Rightarrow> bytes" where
  "CSHA256_Finalize st =
     (let sizedesc = WriteBE64 (push_bit 3 (hbytes st));
          st = CSHA256_Write st (pad_bytes (pad_len (hbytes st)));
          st = CSHA256_Write st sizedesc
      in concat (map WriteBE32 (hs st)))"

definition CRIPEMD160_Finalize :: "hasher \<Rightarrow> bytes" where
  "CRIPEMD160_Finalize st =
     (let sizedesc = WriteLE64 (push_bit 3 (hbytes st));
          st = CRIPEMD160_Write st (pad_bytes (pad_len (hbytes st)));
          st = CRIPEMD160_Write st sizedesc
      in concat (map WriteLE32 (hs st)))"

section \<open>Composite hashers\<close>

text \<open>\<open>CHash256\<close>, \<open>CHash160\<close> and the two results of a \<open>CHashWriter\<close>. A writer is the hasher it
  wraps; \<open>operator<<\<close> writes the serialization of its operand.\<close>

definition CHash256_Finalize :: "hasher \<Rightarrow> bytes" where
  "CHash256_Finalize sha = CSHA256_Finalize (CSHA256_Write CSHA256 (CSHA256_Finalize sha))"

definition CHash160_Finalize :: "hasher \<Rightarrow> bytes" where
  "CHash160_Finalize sha = CRIPEMD160_Finalize (CRIPEMD160_Write CRIPEMD160 (CSHA256_Finalize sha))"

definition Hash :: "bytes \<Rightarrow> uint256" where
  "Hash in1 = CHash256_Finalize (CSHA256_Write CSHA256 in1)"

definition Hash160 :: "bytes \<Rightarrow> bytes" where
  "Hash160 in1 = CHash160_Finalize (CSHA256_Write CSHA256 in1)"

definition HashWriter_GetSHA256 :: "hasher \<Rightarrow> uint256" where
  "HashWriter_GetSHA256 ctx = CSHA256_Finalize ctx"

definition HashWriter_GetHash :: "hasher \<Rightarrow> uint256" where
  "HashWriter_GetHash ctx = CSHA256_Finalize (CSHA256_Write CSHA256 (CSHA256_Finalize ctx))"

text \<open>\<open>WriteCompactSize\<close> and the serialization of a \<open>std::string\<close>.\<close>

definition WriteCompactSize :: "nat \<Rightarrow> bytes" where
  "WriteCompactSize n =
     (if n < 253 then [word_of_nat n]
      else if n \<le> 0xffff then 253 # nat_le 2 n
      else if n \<le> 0xffffffff then 254 # nat_le 4 n
      else 255 # nat_le 8 n)"

definition ascii :: "string \<Rightarrow> bytes" where
  "ascii s = map (\<lambda>c. word_of_nat (of_char c)) s"

definition ser_string :: "string \<Rightarrow> bytes" where
  "ser_string s = WriteCompactSize (length s) @ ascii s"

section \<open>A buffered hasher computes the block iteration\<close>

text \<open>
  The interface of a block hasher: a transformation of a number of blocks that takes them one
  at a time, and a \<open>Write\<close> made of the three steps above. \<open>absorbs st m\<close> says that \<open>st\<close> is the
  initial state after the message \<open>m\<close>.
\<close>

lemma hbytes_mod: "unat ((word_of_nat n :: u64) mod 64) = n mod 64"
  by (simp add: unat_mod unat_of_nat mod_mod_cancel)

locale block_hasher =
  fixes blk :: "u32 list \<Rightarrow> bytes \<Rightarrow> u32 list"
    and Tr :: "u32 list \<Rightarrow> bytes \<Rightarrow> nat \<Rightarrow> u32 list"
    and init :: "u32 list"
    and Write :: "hasher \<Rightarrow> bytes \<Rightarrow> hasher"
  assumes Tr_zero: "Tr s c 0 = s"
    and Tr_Suc: "Tr s c (Suc n) = Tr (blk s (take 64 c)) (drop 64 c) n"
    and Write_steps: "Write st data =
      (case Write_fill blk st data of (st, data, bufsize) \<Rightarrow>
         let blocks = length data div 64
         in Write_rest (st\<lparr>hs := Tr (hs st) data blocks, hbytes := hbytes st + word_of_nat (64 * blocks)\<rparr>)
              (drop (64 * blocks) data) bufsize)"
begin

definition absorbs :: "hasher \<Rightarrow> bytes \<Rightarrow> bool" where
  "absorbs st m \<longleftrightarrow> hbytes st = word_of_nat (length m) \<and> length (hbuf st) = 64
     \<and> take (length m mod 64) (hbuf st) = drop (64 * (length m div 64)) m
     \<and> hs st = Tr init m (length m div 64)"

lemma Tr_add: "Tr s c (m + n) = Tr (Tr s c m) (drop (64 * m) c) n"
proof (induction m arbitrary: s c)
  case (Suc m)
  have "Tr s c (Suc m + n) = Tr (blk s (take 64 c)) (drop 64 c) (m + n)" by (simp add: Tr_Suc)
  also have "\<dots> = Tr (Tr (blk s (take 64 c)) (drop 64 c) m) (drop (64 * Suc m) c) n"
    by (simp add: Suc add.commute)
  finally show ?case by (simp add: Tr_Suc [of s c m])
qed (simp add: Tr_zero)

lemma Tr_take: "64 * n \<le> k \<Longrightarrow> Tr s (take k c) n = Tr s c n"
proof (induction n arbitrary: s c k)
  case (Suc n)
  have "Tr s (take k c) (Suc n) = Tr (blk s (take 64 c)) (take (k - 64) (drop 64 c)) n"
    using Suc.prems by (simp add: Tr_Suc [of s "take k c"] drop_take min_absorb1)
  also have "\<dots> = Tr (blk s (take 64 c)) (drop 64 c) n" using Suc by simp
  finally show ?case by (simp add: Tr_Suc [of s c])
qed (simp add: Tr_zero)

lemma Tr_prefix: "64 * n \<le> length m \<Longrightarrow> Tr s (m @ d) n = Tr s m n"
  using Tr_take [of n "length m" s "m @ d"] by simp

lemma absorbs_init: "absorbs \<lparr>hs = init, hbuf = replicate 64 0, hbytes = 0\<rparr> []"
  by (simp add: absorbs_def Tr_zero)

lemma absorbs_iff:
  assumes "length m = 64 * q + r" "r < 64"
  shows "absorbs st m \<longleftrightarrow> hbytes st = word_of_nat (64 * q + r) \<and> length (hbuf st) = 64
     \<and> take r (hbuf st) = drop (64 * q) m \<and> hs st = Tr init m q"
proof -
  have "length m div 64 = q" "length m mod 64 = r" using assms by simp_all
  then show ?thesis by (simp only: absorbs_def assms(1))
qed

lemma message_split:
  obtains q r where "length (m :: bytes) = 64 * q + r" "r < 64" "length m mod 64 = r"
  by (rule that [of "length m div 64" "length m mod 64"]) simp_all

text \<open>The three steps of \<open>Write\<close>, each on the message as it is then.\<close>

lemma absorbs_blocks:
  assumes "absorbs st m" and q: "length m = 64 * q" and k: "64 * k \<le> length d"
  shows "absorbs (st\<lparr>hs := Tr (hs st) d k, hbytes := hbytes st + word_of_nat (64 * k)\<rparr>) (m @ take (64 * k) d)"
proof -
  let ?m = "m @ take (64 * k) d"
  have "Tr init ?m (q + k) = Tr (Tr init ?m q) (take (64 * k) d) k"
    using Tr_add [of init ?m q k] q by simp
  also have "\<dots> = Tr (Tr init m q) d k" using q by (simp add: Tr_prefix Tr_take)
  finally have tr: "Tr init ?m (q + k) = Tr (Tr init m q) d k" .
  have "length ?m = 64 * (q + k) + 0" using q k by (simp add: min_absorb2)
  then show ?thesis using assms(1) tr q k
    by (simp add: absorbs_iff [of ?m "q + k" 0] absorbs_iff [of m q 0] min_absorb2)
qed

lemma absorbs_rest:
  assumes "absorbs st m" and m: "length m = 64 * q + r" and r: "r + length d < 64"
  shows "absorbs (Write_rest st d r) (m @ d)"
proof -
  have md: "length (m @ d) = 64 * q + (r + length d)" using m by simp
  have "Tr init (m @ d) q = Tr init m q" using m by (simp add: Tr_prefix)
  then show ?thesis using assms(1) m r absorbs_iff [OF md r] absorbs_iff [OF m, of st]
    by (auto simp: Write_rest_def memcpy_at_def)
qed

lemma absorbs_fill:
  assumes a: "absorbs st m" and f: "Write_fill blk st d = (st', d', n)"
  shows "\<exists>e q. d = e @ d' \<and> absorbs st' (m @ e) \<and> length (m @ e) = 64 * q + n \<and> (n = 0 \<or> n + length d' < 64)
     \<and> n < 64"
proof -
  obtain q r where m: "length m = 64 * q + r" and r64: "r < 64" and rm: "length m mod 64 = r"
    by (rule message_split)
  have st: "hbytes st = word_of_nat (64 * q + r)" "length (hbuf st) = 64" "take r (hbuf st) = drop (64 * q) m"
    "hs st = Tr init m q" using a by (simp_all add: absorbs_iff [OF m r64])
  have r: "unat (hbytes st mod 64) = r" using st(1) r64 by (simp only: hbytes_mod) simp
  show ?thesis
  proof (cases "r \<noteq> 0 \<and> r + length d \<ge> 64")
    case True
    let ?e = "take (64 - r) d" let ?buf = "memcpy_at (hbuf st) r ?e"
    let ?st = "st\<lparr>hbuf := ?buf, hbytes := hbytes st + word_of_nat (64 - r), hs := blk (hs st) ?buf\<rparr>"
    have le: "length ?e = 64 - r" using True by auto
    have buf: "?buf = drop (64 * q) m @ ?e" using st le r64 by (simp add: memcpy_at_def)
    have m64: "length (m @ ?e) = 64 * Suc q + 0" using le r64 m by simp
    have lb: "length ?buf = 64" using m r64 le by (simp add: buf)
    have "Tr init (m @ ?e) (q + 1) = Tr (Tr init (m @ ?e) q) (drop (64 * q) (m @ ?e)) 1" by (rule Tr_add)
    also have "drop (64 * q) (m @ ?e) = ?buf" using m by (simp add: buf)
    also have "Tr init (m @ ?e) q = hs st" using m st by (simp add: Tr_prefix)
    finally have tr: "Tr init (m @ ?e) (Suc q) = blk (hs st) ?buf" using lb by (simp add: Tr_Suc Tr_zero)
    have "hbytes st + word_of_nat (64 - r) = word_of_nat (64 * Suc q + 0)"
      using r64 unfolding st(1) of_nat_add [symmetric] by simp
    then have "absorbs ?st (m @ ?e)" using tr lb m64 absorbs_iff [OF m64] by simp
    moreover have "Write_fill blk st d = (?st, drop (64 - r) d, 0)"
      using True by (simp add: Write_fill_def Let_def r)
    ultimately show ?thesis using f m64 by (intro exI [of _ ?e] exI [of _ "Suc q"]) simp
  next
    case False
    then have "st' = st \<and> d' = d \<and> n = r" using f by (auto simp: Write_fill_def Let_def r)
    then show ?thesis using a m r64 False by (intro exI [of _ "[]"] exI [of _ q]) auto
  qed
qed

lemma absorbs_Write:
  assumes "absorbs st m"
  shows "absorbs (Write st d) (m @ d)"
proof -
  obtain st' d' n where f: "Write_fill blk st d = (st', d', n)" by (cases "Write_fill blk st d")
  from absorbs_fill [OF assms f] obtain e q where d: "d = e @ d'" and a: "absorbs st' (m @ e)"
    and q: "length (m @ e) = 64 * q + n" and c: "n = 0 \<or> n + length d' < 64" and n: "n < 64" by blast
  define k where "k = length d' div 64"
  let ?st = "st'\<lparr>hs := Tr (hs st') d' k, hbytes := hbytes st' + word_of_nat (64 * k)\<rparr>"
  let ?m = "(m @ e) @ take (64 * k) d'"
  have k: "64 * k \<le> length d'" "length d' - 64 * k < 64"
    by (simp_all add: k_def minus_mult_div_eq_mod)
  have k0: "k = 0" if "n \<noteq> 0" using c that by (simp add: k_def)
  have st: "absorbs ?st ?m"
  proof (cases "n = 0")
    case True
    then show ?thesis using absorbs_blocks [OF a _ k(1)] q by simp
  qed (use a k0 in \<open>simp add: Tr_zero\<close>)
  have lm: "length ?m = 64 * (q + k) + n" using q k by (simp add: min_absorb2)
  have "n + length (drop (64 * k) d') < 64" using c k k0 by (cases "n = 0") simp_all
  from absorbs_rest [OF st lm this]
  have "absorbs (Write_rest ?st (drop (64 * k) d') n) (m @ d)" by (simp add: d)
  then show ?thesis by (simp add: Write_steps f Let_def k_def)
qed

lemma absorbs_fold: "absorbs st m \<Longrightarrow> absorbs (fold (\<lambda>d st. Write st d) parts st) (m @ concat parts)"
proof (induction parts arbitrary: st m)
  case (Cons d parts)
  have "absorbs (fold (\<lambda>d st. Write st d) parts (Write st d)) ((m @ d) @ concat parts)"
    by (rule Cons.IH [OF absorbs_Write [OF Cons.prems]])
  then show ?case by simp
qed simp

text \<open>The padding completes the last block, whatever the length, and then the message is the
  iteration of the transformation over its blocks.\<close>

definition padded :: "bytes \<Rightarrow> bytes \<Rightarrow> bytes" where
  "padded m sizedesc = m @ pad_bytes (pad_len (word_of_nat (length m))) @ sizedesc"

lemma pad_len_range: "1 \<le> pad_len n" "pad_len n \<le> 64"
  by (simp_all add: pad_len_def Suc_le_eq)

lemma length_pad [simp]: "length (pad_bytes (pad_len n)) = pad_len n"
  using pad_len_range [of n] by (simp add: pad_bytes_def)

lemma length_padded:
  assumes "length sizedesc = 8"
  shows "length (padded m sizedesc) mod 64 = 0"
proof -
  obtain q r where m: "length m = 64 * q + r" and r: "r < 64" and rm: "length m mod 64 = r"
    by (rule message_split)
  have "(119 - r) mod 64 = (if r < 56 then 55 - r else 119 - r)" using r by (simp add: mod_if)
  then have "pad_len (word_of_nat (length m)) = (if r < 56 then 56 - r else 120 - r)"
    using r by (auto simp: pad_len_def hbytes_mod rm)
  then have "length (padded m sizedesc) = (if r < 56 then 64 * Suc q else 64 * Suc (Suc q))"
    using assms m r unfolding padded_def length_append length_pad by auto
  then show ?thesis by (simp split: if_splits)
qed

lemma absorbs_hs: "absorbs st m \<Longrightarrow> hs st = Tr init m (length m div 64)"
  by (simp add: absorbs_def)

lemma finalize_hs:
  assumes "absorbs st m"
  shows "hs (Write (Write st (pad_bytes (pad_len (hbytes st)))) sizedesc) =
    Tr init (padded m sizedesc) (length (padded m sizedesc) div 64)"
proof -
  have n: "hbytes st = word_of_nat (length m)" using assms by (simp add: absorbs_def)
  have "absorbs (Write (Write st (pad_bytes (pad_len (hbytes st)))) sizedesc)
      ((m @ pad_bytes (pad_len (hbytes st))) @ sizedesc)"
    by (intro absorbs_Write assms)
  from absorbs_hs [OF this] n show ?thesis by (simp add: padded_def)
qed

end

lemma take_drop_take: "k + n \<le> m \<Longrightarrow> take n (drop k (take m xs)) = take n (drop k xs)"
  by (simp add: drop_take min_absorb1)

lemma sha256_block_take: "sha256_block s (take 64 c) = sha256_block s c"
proof -
  have "sha256_words (take 64 c) = sha256_words c"
    by (simp add: sha256_words_def ReadBE32_def take_drop_take)
  then show ?thesis by (simp add: sha256_block_def)
qed

lemma rmd_Transform_take: "rmd_Transform s (take 64 c) = rmd_Transform s c"
proof -
  have "rmd_words (take 64 c) = rmd_words c"
    by (simp add: rmd_words_def ReadLE32_def take_drop_take)
  then show ?thesis by (simp add: rmd_Transform_def)
qed

interpretation sha: block_hasher sha256_block sha256_Transform sha256_Initialize CSHA256_Write
proof
  have "(\<lambda>s buf. sha256_Transform s buf 1) = sha256_block"
    by (simp add: fun_eq_iff sha256_block_take)
  then show "CSHA256_Write st data =
      (case Write_fill sha256_block st data of (st, data, bufsize) \<Rightarrow>
         let blocks = length data div 64
         in Write_rest (st\<lparr>hs := sha256_Transform (hs st) data blocks, hbytes := hbytes st + word_of_nat (64 * blocks)\<rparr>)
              (drop (64 * blocks) data) bufsize)" for st data
    by (auto simp: CSHA256_Write_def Let_def split: prod.splits)
qed (simp_all add: sha256_block_take)

text \<open>The chunk loop of RIPEMD-160 is the transformation of all the full chunks.\<close>

fun rmd_blocks :: "u32 list \<Rightarrow> bytes \<Rightarrow> nat \<Rightarrow> u32 list" where
  "rmd_blocks s c 0 = s"
| "rmd_blocks s c (Suc n) = rmd_blocks (rmd_Transform s (take 64 c)) (drop 64 c) n"

lemma rmd_chunks_blocks:
  "rmd_chunks st d =
     (st\<lparr>hs := rmd_blocks (hs st) d (length d div 64), hbytes := hbytes st + word_of_nat (64 * (length d div 64))\<rparr>,
      drop (64 * (length d div 64)) d)"
proof (induction st d rule: rmd_chunks.induct)
  case (1 st d)
  show ?case
  proof (cases "length d \<ge> 64")
    case True
    then have k: "length d div 64 = Suc ((length d - 64) div 64)"
      using le_div_geq [of 64 "length d"] by simp
    from True 1 [OF True] show ?thesis
      by (simp add: rmd_chunks.simps [of st d] k ac_simps)
  next
    case False
    then show ?thesis by (simp add: rmd_chunks.simps [of st d])
  qed
qed

interpretation rmd: block_hasher rmd_Transform rmd_blocks rmd_Initialize CRIPEMD160_Write
  by unfold_locales
    (simp_all add: rmd_Transform_take CRIPEMD160_Write_def rmd_chunks_blocks Let_def split: prod.splits)

section \<open>The standard hash\<close>

text \<open>
  SHA-256 as FIPS 180-4 states it: the padded message in 64-byte blocks, the schedule of 64
  words by its recurrence, rotations, \<open>Ch\<close> and \<open>Maj\<close> in their defining form.
\<close>

definition fips_Ch :: "u32 \<Rightarrow> u32 \<Rightarrow> u32 \<Rightarrow> u32" where
  "fips_Ch x y z = (x AND y) XOR (NOT x AND z)"

definition fips_Maj :: "u32 \<Rightarrow> u32 \<Rightarrow> u32 \<Rightarrow> u32" where
  "fips_Maj x y z = (x AND y) XOR (x AND z) XOR (y AND z)"

definition fips_Sigma0 :: "u32 \<Rightarrow> u32" where
  "fips_Sigma0 x = word_rotr 2 x XOR word_rotr 13 x XOR word_rotr 22 x"

definition fips_Sigma1 :: "u32 \<Rightarrow> u32" where
  "fips_Sigma1 x = word_rotr 6 x XOR word_rotr 11 x XOR word_rotr 25 x"

definition fips_sigma0 :: "u32 \<Rightarrow> u32" where
  "fips_sigma0 x = word_rotr 7 x XOR word_rotr 18 x XOR drop_bit 3 x"

definition fips_sigma1 :: "u32 \<Rightarrow> u32" where
  "fips_sigma1 x = word_rotr 17 x XOR word_rotr 19 x XOR drop_bit 10 x"

fun fips_W :: "bytes \<Rightarrow> nat \<Rightarrow> u32" where
  "fips_W block t =
     (if t < 16 then word_of_nat (be_nat (take 4 (drop (4 * t) block)))
      else fips_sigma1 (fips_W block (t - 2)) + fips_W block (t - 7)
         + fips_sigma0 (fips_W block (t - 15)) + fips_W block (t - 16))"

declare fips_W.simps [simp del]

definition fips_step :: "bytes \<Rightarrow> nat \<Rightarrow> regs \<Rightarrow> regs" where
  "fips_step block t r = (case r of (a, b, c, d, e, f, g, h) \<Rightarrow>
     let T1 = h + fips_Sigma1 e + fips_Ch e f g + sha256_K t + fips_W block t;
         T2 = fips_Sigma0 a + fips_Maj a b c
     in (T1 + T2, a, b, c, d + T1, e, f, g))"

definition fips_compress :: "u32 list \<Rightarrow> bytes \<Rightarrow> u32 list" where
  "fips_compress H block = map2 (+) H (regs_list (fold (fips_step block) [0..<64] (sha256_regs H)))"

definition fips_pad :: "bytes \<Rightarrow> bytes" where
  "fips_pad m = m @ 0x80 # replicate (nat ((55 - int (length m)) mod 64)) 0 @ nat_be 8 (8 * length m)"

definition fips_blocks :: "bytes \<Rightarrow> bytes list" where
  "fips_blocks m = map (\<lambda>i. take 64 (drop (64 * i) m)) [0..<length m div 64]"

definition fips_sha256 :: "bytes \<Rightarrow> bytes" where
  "fips_sha256 m = concat (map WriteBE32 (foldl fips_compress sha256_Initialize (fips_blocks (fips_pad m))))"

lemma Ch_fips: "Ch x y z = fips_Ch x y z"
  by (rule bit_eqI) (auto simp: Ch_def fips_Ch_def bit_simps)

lemma Maj_fips: "Maj x y z = fips_Maj x y z"
  by (rule bit_eqI) (auto simp: Maj_def fips_Maj_def bit_simps)

lemma rotr_shifts:
  assumes "0 < n" "n < 32"
  shows "shr32 x n OR shl32 x (32 - n) = word_rotr n x"
proof (rule bit_eqI)
  fix i assume "possible_bit TYPE(u32) i"
  then have i: "i < 32" by simp
  have "(i + n) mod 32 = (if i + n < 32 then i + n else i + n - 32)" using i assms by (simp add: mod_if)
  then show "bit (shr32 x n OR shl32 x (32 - n)) i = bit (word_rotr n x) i"
    using i assms
    by (auto simp: shr32_def shl32_def bit_simps bit_word_rotr_iff add.commute
      dest: bit_imp_le_length)
qed

lemmas rotr_shifts_at = rotr_shifts [of 2, simplified] rotr_shifts [of 13, simplified] rotr_shifts [of 22, simplified]
  rotr_shifts [of 6, simplified] rotr_shifts [of 11, simplified] rotr_shifts [of 25, simplified]
  rotr_shifts [of 7, simplified] rotr_shifts [of 18, simplified] rotr_shifts [of 17, simplified]
  rotr_shifts [of 19, simplified]

lemma Sigma_fips:
  "Sigma0 = fips_Sigma0" "Sigma1 = fips_Sigma1" "sigma0 = fips_sigma0" "sigma1 = fips_sigma1"
  by (simp_all add: fun_eq_iff Sigma0_def Sigma1_def sigma0_def sigma1_def fips_Sigma0_def fips_Sigma1_def
      fips_sigma0_def fips_sigma1_def rotr_shifts_at shr32_def [symmetric])

text \<open>The in-place schedule holds the last sixteen words of the recurrence.\<close>

definition sched_ok :: "bytes \<Rightarrow> nat \<Rightarrow> u32 list \<Rightarrow> bool" where
  "sched_ok c n w \<longleftrightarrow> length w = 16 \<and> (\<forall>j < max n 16. max n 16 \<le> j + 16 \<longrightarrow> w ! (j mod 16) = fips_W c j)"

lemma sched_ok_init: "sched_ok c 0 (sha256_words c)"
  by (auto simp: sched_ok_def sha256_words_def ReadBE32_def fips_W.simps [of c])

lemma sched_ok_step:
  assumes ok: "sched_ok c n w"
  shows "sched_ok c (Suc n) (sha256_schedule n w)" and "sha256_schedule n w ! (n mod 16) = fips_W c n"
proof -
  have len: "length w = 16" using ok by (simp add: sched_ok_def)
  have at: "sha256_schedule n w ! (n mod 16) = fips_W c n"
  proof (cases "n < 16")
    case True
    then show ?thesis using ok by (simp add: sched_ok_def sha256_schedule_def)
  next
    case False
    then obtain k where n: "n = k + 16" by (metis add.commute le_Suc_ex not_less)
    have w: "w ! (j mod 16) = fips_W c j" if "j < n" "n \<le> j + 16" for j
      using ok that False by (simp add: sched_ok_def max_def)
    have "w ! (n mod 16) = fips_W c (n - 16)" "w ! ((n + 14) mod 16) = fips_W c (n - 2)"
      "w ! ((n + 9) mod 16) = fips_W c (n - 7)" "w ! ((n + 1) mod 16) = fips_W c (n - 15)"
      using w [of k] w [of "k + 14"] w [of "k + 9"] w [of "k + 1"]
        mod_add_self2 [of "k + 14" 16] mod_add_self2 [of "k + 9" 16] mod_add_self2 [of "k + 1" 16]
      by (simp_all add: n add.assoc add.commute add.left_commute)
    then show ?thesis using False len
      by (simp add: sha256_schedule_def fips_W.simps [of c n] Sigma_fips add.commute)
  qed
  then show "sha256_schedule n w ! (n mod 16) = fips_W c n" .
  have other: "sha256_schedule n w ! (j mod 16) = w ! (j mod 16)" if "j < n" "n < j + 16" for j
  proof -
    have "j mod 16 \<noteq> n mod 16"
    proof
      assume "j mod 16 = n mod 16"
      then have "16 dvd n - j" using that mod_eq_dvd_iff_nat [of j n 16] by simp
      then show False using that by (auto dest: dvd_imp_le)
    qed
    then show ?thesis by (simp add: sha256_schedule_def)
  qed
  show "sched_ok c (Suc n) (sha256_schedule n w)"
  proof (cases "n < 16")
    case True
    then show ?thesis using ok by (simp add: sched_ok_def sha256_schedule_def max_def)
  next
    case False
    have "sha256_schedule n w ! (j mod 16) = fips_W c j" if "j < Suc n" "Suc n \<le> j + 16" for j
      using that at other [of j] ok False by (cases "j = n") (auto simp: sched_ok_def max_def)
    then show ?thesis using len False by (simp add: sched_ok_def max_def sha256_schedule_def)
  qed
qed

lemma sha256_slots: "map snd sha256_rounds = map (\<lambda>i. i mod 16) [0..<64]"
  by code_simp

lemma sha256_slot: "n < 64 \<Longrightarrow> snd (sha256_rounds ! n) = n mod 16"
proof -
  assume n: "n < 64"
  have "length sha256_rounds = 64" using arg_cong [OF sha256_slots, of length] by simp
  then show ?thesis using n arg_cong [OF sha256_slots, of "\<lambda>xs. xs ! n"] by simp
qed

lemma sha256_step_fips: "n < 64 \<Longrightarrow> sched_ok c n (snd p) \<Longrightarrow> fst (sha256_step n p) = fips_step c n (fst p)"
  using sched_ok_step(2) [of c n "snd p"]
  by (auto simp: sha256_slot sha256_step_def fips_step_def Let_def Ch_fips Maj_fips Sigma_fips add.assoc split: prod.splits)

lemma sha256_steps_fips:
  "n \<le> 64 \<Longrightarrow> sched_ok c n (snd (fold sha256_step [0..<n] (r, sha256_words c))) \<and>
   fst (fold sha256_step [0..<n] (r, sha256_words c)) = fold (fips_step c) [0..<n] r"
proof (induction n)
  case (Suc n)
  let ?p = "fold sha256_step [0..<n] (r, sha256_words c)"
  have "snd (sha256_step n ?p) = sha256_schedule n (snd ?p)" by (simp add: sha256_step_def Let_def)
  then show ?case using sched_ok_step(1) [of c n "snd ?p"] sha256_step_fips [of n c ?p] Suc by simp
qed (simp add: sched_ok_init)

lemma sha256_block_fips: "sha256_block s c = fips_compress s c"
  using sha256_steps_fips [of 64 c] by (simp add: sha256_block_def fips_compress_def)

lemma fips_blocks_Suc:
  assumes "length m = 64 * Suc n"
  shows "fips_blocks m = take 64 m # fips_blocks (drop 64 m)"
proof -
  have "[0..<length m div 64] = 0 # map Suc [0..<n]" using assms by (simp add: upt_conv_Cons map_Suc_upt)
  then show ?thesis using assms by (simp add: fips_blocks_def add.commute)
qed

lemma sha256_Transform_fips:
  "length m = 64 * n \<Longrightarrow> sha256_Transform s m n = foldl fips_compress s (fips_blocks m)"
proof (induction n arbitrary: s m)
  case (Suc n)
  then show ?case by (simp add: fips_blocks_Suc sha256_block_fips)
qed (simp add: fips_blocks_def)

lemma fips_pad_padded: "fips_pad m = sha.padded m (WriteBE64 (push_bit 3 (word_of_nat (length m))))"
proof -
  obtain q r where m: "length m = 64 * q + r" and r: "r < 64" and rm: "length m mod 64 = r"
    by (rule sha.message_split)
  have "(55 - int (length m)) mod 64 = (55 - int r) mod 64"
    using rm by (metis mod_diff_right_eq of_nat_mod of_nat_numeral)
  also have "(55 - int r) mod 64 = (if r < 56 then 55 - int r else 119 - int r)"
    using r mod_add_self2 [of "55 - int r" 64] by auto
  finally have z: "nat ((55 - int (length m)) mod 64) = (if r < 56 then 55 - r else 119 - r)"
    using r by (simp add: nat_diff_distrib' split: if_splits)
  have "(119 - r) mod 64 = (if r < 56 then 55 - r else 119 - r)" using r by (simp add: mod_if)
  then have "pad_len (word_of_nat (length m)) = Suc (nat ((55 - int (length m)) mod 64))"
    unfolding z by (simp add: pad_len_def hbytes_mod rm)
  moreover have "nat ((55 - int (length m)) mod 64) \<le> 63" by linarith
  ultimately have "pad_bytes (pad_len (word_of_nat (length m))) = 0x80 # replicate (nat ((55 - int (length m)) mod 64)) 0"
    by (simp add: pad_bytes_def min_absorb1)
  moreover have "WriteBE64 (push_bit 3 (word_of_nat (length m))) = nat_be 8 (8 * length m)"
  proof -
    have "push_bit 3 (word_of_nat (length m)) = (word_of_nat (8 * length m) :: u64)"
      by (simp add: push_bit_eq_mult mult.commute)
    then show ?thesis using nat_le_mod [of 8 "8 * length m"]
      by (simp add: WriteBE64_def nat_be_def unat_of_nat del: of_nat_mult)
  qed
  ultimately show ?thesis by (simp add: fips_pad_def sha.padded_def)
qed

text \<open>Whatever the pieces it is written in, a message gets its SHA-256.\<close>

lemma CSHA256_fips:
  "CSHA256_Finalize (fold (\<lambda>d st. CSHA256_Write st d) parts CSHA256) = fips_sha256 (concat parts)"
proof -
  let ?st = "fold (\<lambda>d st. CSHA256_Write st d) parts CSHA256" let ?m = "concat parts"
  let ?sz = "WriteBE64 (push_bit 3 (hbytes ?st))" let ?p = "sha.padded ?m ?sz"
  have a: "sha.absorbs ?st ?m"
    using sha.absorbs_fold [OF sha.absorbs_init, of parts] by (simp add: CSHA256_def)
  then have p: "?p = fips_pad ?m" by (simp add: fips_pad_padded sha.absorbs_def)
  have "length ?p mod 64 = 0" by (rule sha.length_padded) (simp add: WriteBE64_def)
  then have "sha256_Transform sha256_Initialize ?p (length ?p div 64) =
      foldl fips_compress sha256_Initialize (fips_blocks ?p)"
    by (intro sha256_Transform_fips) auto
  then show ?thesis unfolding CSHA256_Finalize_def Let_def sha.finalize_hs [OF a] fips_sha256_def p by simp
qed

lemma length_regs_list [simp]: "length (regs_list r) = 8"
  by (cases r rule: regs_list.cases) simp

lemma length_fold_compress: "length H = 8 \<Longrightarrow> length (foldl fips_compress H bs) = 8"
  by (induction bs arbitrary: H) (simp_all add: fips_compress_def)

lemma length_concat_WriteBE32: "length (concat (map WriteBE32 ws)) = 4 * length ws"
  by (induction ws) (simp_all add: WriteBE32_def)

lemma length_fips_sha256 [simp]: "length (fips_sha256 m) = 32"
  by (simp add: fips_sha256_def length_concat_WriteBE32 length_fold_compress sha256_Initialize_def)

lemma Write_Finalize_fips [simp]:
  "CSHA256_Finalize (CSHA256_Write CSHA256 a) = fips_sha256 a"
  "CSHA256_Finalize (CSHA256_Write (CSHA256_Write CSHA256 a) b) = fips_sha256 (a @ b)"
  "CSHA256_Finalize (CSHA256_Write (CSHA256_Write (CSHA256_Write CSHA256 a) b) c) = fips_sha256 (a @ b @ c)"
  using CSHA256_fips [of "[a]"] CSHA256_fips [of "[a, b]"] CSHA256_fips [of "[a, b, c]"] by simp_all

lemma length_HashWriter [simp]:
  "length (HashWriter_GetHash (fold (\<lambda>d st. CSHA256_Write st d) parts CSHA256)) = 32"
  "length (HashWriter_GetSHA256 (fold (\<lambda>d st. CSHA256_Write st d) parts CSHA256)) = 32"
  by (simp_all add: HashWriter_GetHash_def HashWriter_GetSHA256_def CSHA256_fips)

text \<open>RIPEMD-160 likewise depends only on the message, not on how it is cut.\<close>

lemma CRIPEMD160_pieces:
  "CRIPEMD160_Finalize (fold (\<lambda>d st. CRIPEMD160_Write st d) parts CRIPEMD160) =
   CRIPEMD160_Finalize (CRIPEMD160_Write CRIPEMD160 (concat parts))"
proof -
  have a: "rmd.absorbs (fold (\<lambda>d st. CRIPEMD160_Write st d) parts CRIPEMD160) (concat parts)"
    using rmd.absorbs_fold [OF rmd.absorbs_init, of parts] by (simp add: CRIPEMD160_def)
  have b: "rmd.absorbs (CRIPEMD160_Write CRIPEMD160 (concat parts)) (concat parts)"
    using rmd.absorbs_Write [OF rmd.absorbs_init, of "concat parts"] by (simp add: CRIPEMD160_def)
  from a b have "hbytes (fold (\<lambda>d st. CRIPEMD160_Write st d) parts CRIPEMD160) =
      hbytes (CRIPEMD160_Write CRIPEMD160 (concat parts))" by (simp add: rmd.absorbs_def)
  then show ?thesis
    unfolding CRIPEMD160_Finalize_def Let_def rmd.finalize_hs [OF a] rmd.finalize_hs [OF b] by simp
qed

lemma length_rmd_Transform [simp]: "length (rmd_Transform s c) = 5"
  by (simp add: rmd_Transform_def Let_def split: prod.split)

lemma length_rmd_blocks: "length s = 5 \<Longrightarrow> length (rmd_blocks s c n) = 5"
  by (induction s c n rule: rmd_blocks.induct) simp_all

lemma length_Hash160 [simp]: "length (Hash160 m) = 20"
proof -
  have w: "length (concat (map WriteLE32 ws)) = 4 * length ws" for ws
    by (induction ws) (simp_all add: WriteLE32_def)
  have a: "rmd.absorbs (CRIPEMD160_Write CRIPEMD160 d) d" for d
    using rmd.absorbs_Write [OF rmd.absorbs_init, of d] by (simp add: CRIPEMD160_def)
  show ?thesis
    by (simp add: Hash160_def CHash160_Finalize_def CRIPEMD160_Finalize_def Let_def w rmd.finalize_hs [OF a]
        length_rmd_blocks rmd_Initialize_def)
qed

section \<open>Properties\<close>

text \<open>C37. A message gets its SHA-256, whatever the pieces it is written in: the buffered hasher with
  its unrolled rounds computes the function that FIPS 180-4 defines.\<close>

theorem sha256_streaming:
  "CSHA256_Finalize (fold (\<lambda>d st. CSHA256_Write st d) parts CSHA256) = fips_sha256 (concat parts)"
  by (rule CSHA256_fips)

end
