(* ===== verification/TxTypes.thy ===== *)
theory TxTypes
  imports Script Hashing
begin

text \<open>
  The data the staking rules read: public keys (\<open>src/pubkey.h\<close>), outpoints, outputs, coins,
  transactions, blocks and undo data (\<open>src/primitives/transaction.h\<close>, \<open>src/coins.h\<close>,
  \<open>src/undo.h\<close>), the confidential fields of an output (\<open>src/primitives/confidential.h\<close>), and
  the chain-wide settings of \<open>src/pos.h\<close>. The settings are the C++ globals; they are a record
  that every operation reading them takes as its argument \<open>E\<close>, together with the one library
  function outside the sources modelled here, the curve check
  \<open>secp256k1_ec_pubkey_parse\<close>.
\<close>

section \<open>Public keys\<close>

abbreviation PUBKEY_SIZE :: nat where "PUBKEY_SIZE \<equiv> 65"
abbreviation COMPRESSED_SIZE :: nat where "COMPRESSED_SIZE \<equiv> 33"

text \<open>A key is the bytes in use of its array: \<open>size()\<close> of them, or the single byte \<open>0xFF\<close> that
  marks an invalid key.\<close>

datatype CPubKey = CPubKey (vch: bytes)

definition GetLen :: "byte \<Rightarrow> nat" where
  "GetLen chHeader =
     (if chHeader = 2 \<or> chHeader = 3 then COMPRESSED_SIZE
      else if chHeader = 4 \<or> chHeader = 6 \<or> chHeader = 7 then PUBKEY_SIZE
      else 0)"

definition ValidSize :: "bytes \<Rightarrow> bool" where
  "ValidSize v \<longleftrightarrow> length v > 0 \<and> GetLen (hd v) = length v"

definition PubKey_Invalid :: CPubKey where
  "PubKey_Invalid = CPubKey [0xFF]"

text \<open>\<open>Set\<close>, the constructor from a byte range.\<close>

definition PubKey_Set :: "bytes \<Rightarrow> CPubKey" where
  "PubKey_Set bs =
     (let len = (if bs = [] then 0 else GetLen (hd bs))
      in if len \<noteq> 0 \<and> len = length bs then CPubKey bs else PubKey_Invalid)"

definition PubKey_size :: "CPubKey \<Rightarrow> nat" where
  "PubKey_size pk = GetLen (hd (vch pk))"

text \<open>\<open>begin()\<close> to \<open>end()\<close>, also \<open>ToByteVector\<close>.\<close>

definition PubKey_bytes :: "CPubKey \<Rightarrow> bytes" where
  "PubKey_bytes pk = take (PubKey_size pk) (vch pk)"

definition PubKey_IsValid :: "CPubKey \<Rightarrow> bool" where
  "PubKey_IsValid pk \<longleftrightarrow> PubKey_size pk > 0"

definition IsCompressed :: "CPubKey \<Rightarrow> bool" where
  "IsCompressed pk \<longleftrightarrow> PubKey_size pk = COMPRESSED_SIZE"

definition PubKey_GetID :: "CPubKey \<Rightarrow> bytes" where
  "PubKey_GetID pk = Hash160 (PubKey_bytes pk)"

definition ser_pubkey :: "CPubKey \<Rightarrow> bytes" where
  "ser_pubkey pk = WriteCompactSize (PubKey_size pk) @ PubKey_bytes pk"

text \<open>
  \<open>operator<\<close> compares the first bytes and then, with \<open>memcmp\<close>, as many bytes as the first
  byte announces. Keys with the same first byte have the same length, so this is the
  lexicographic order of the stored bytes.
\<close>

definition PubKey_less :: "CPubKey \<Rightarrow> CPubKey \<Rightarrow> bool" where
  "PubKey_less a b \<longleftrightarrow> hd (vch a) < hd (vch b) \<or>
     (hd (vch a) = hd (vch b) \<and> take (PubKey_size a) (vch a) < take (PubKey_size a) (vch b))"

instantiation CPubKey :: linorder
begin

definition less_eq_CPubKey :: "CPubKey \<Rightarrow> CPubKey \<Rightarrow> bool" where
  "less_eq_CPubKey a b \<longleftrightarrow> vch a \<le> vch b"

definition less_CPubKey :: "CPubKey \<Rightarrow> CPubKey \<Rightarrow> bool" where
  "less_CPubKey a b \<longleftrightarrow> vch a < vch b"

instance
  by standard (auto simp: less_eq_CPubKey_def less_CPubKey_def CPubKey.expand)

end

section \<open>Outpoints\<close>

datatype COutPoint = COutPoint (op_hash: uint256) (op_n: u32)

abbreviation NULL_INDEX :: u32 where "NULL_INDEX \<equiv> 0xffffffff"

definition uint256_zero :: uint256 where
  "uint256_zero = replicate 32 0"

definition OutPoint_IsNull :: "COutPoint \<Rightarrow> bool" where
  "OutPoint_IsNull o1 \<longleftrightarrow> op_hash o1 = uint256_zero \<and> op_n o1 = NULL_INDEX"

definition ser_outpoint :: "COutPoint \<Rightarrow> bytes" where
  "ser_outpoint o1 = op_hash o1 @ nat_le 4 (unat (op_n o1))"

instantiation COutPoint :: linorder
begin

definition less_COutPoint :: "COutPoint \<Rightarrow> COutPoint \<Rightarrow> bool" where
  "less_COutPoint a b \<longleftrightarrow> op_hash a < op_hash b \<or> (op_hash a = op_hash b \<and> op_n a < op_n b)"

definition less_eq_COutPoint :: "COutPoint \<Rightarrow> COutPoint \<Rightarrow> bool" where
  "less_eq_COutPoint a b \<longleftrightarrow> op_hash a < op_hash b \<or> (op_hash a = op_hash b \<and> op_n a \<le> op_n b)"

instance
  by standard (auto simp: less_COutPoint_def less_eq_COutPoint_def COutPoint.expand)

end

section \<open>Confidential fields\<close>

type_synonym CAsset = uint256

text \<open>A field is its \<open>vchCommitment\<close>: empty when null, the byte 1 and the explicit value, or a
  33-byte commitment. The template parameters are the explicit size and the two prefixes.\<close>

definition Conf_IsNull :: "bytes \<Rightarrow> bool" where
  "Conf_IsNull v \<longleftrightarrow> v = []"

definition Conf_IsExplicit :: "nat \<Rightarrow> bytes \<Rightarrow> bool" where
  "Conf_IsExplicit nExplicitSize v \<longleftrightarrow> length v = nExplicitSize \<and> v ! 0 = 1"

definition Conf_IsCommitment :: "byte \<Rightarrow> byte \<Rightarrow> bytes \<Rightarrow> bool" where
  "Conf_IsCommitment PrefixA PrefixB v \<longleftrightarrow> length v = 33 \<and> (v ! 0 = PrefixA \<or> v ! 0 = PrefixB)"

definition Conf_IsValid :: "nat \<Rightarrow> byte \<Rightarrow> byte \<Rightarrow> bytes \<Rightarrow> bool" where
  "Conf_IsValid nExplicitSize PrefixA PrefixB v \<longleftrightarrow>
     Conf_IsNull v \<or> Conf_IsExplicit nExplicitSize v \<or> Conf_IsCommitment PrefixA PrefixB v"

abbreviation Asset_IsExplicit :: "bytes \<Rightarrow> bool" where "Asset_IsExplicit \<equiv> Conf_IsExplicit 33"
abbreviation Value_IsExplicit :: "bytes \<Rightarrow> bool" where "Value_IsExplicit \<equiv> Conf_IsExplicit 9"

text \<open>\<open>GetAsset\<close> and \<open>GetAmount\<close> read an explicit field (the code asserts it; every caller has
  tested it). The amount is the 64-bit big-endian number read as \<open>int64\<close>.\<close>

definition GetAsset :: "bytes \<Rightarrow> CAsset" where
  "GetAsset v = take 32 (drop 1 v)"

definition SetToAsset :: "CAsset \<Rightarrow> bytes" where
  "SetToAsset asset = 1 # asset"

definition ReadBE64 :: "bytes \<Rightarrow> u64" where
  "ReadBE64 bs = word_of_nat (be_nat (take 8 bs))"

definition GetAmount :: "bytes \<Rightarrow> int" where
  "GetAmount v = sint (ReadBE64 (drop 1 v))"

definition SetToAmount :: "int \<Rightarrow> bytes" where
  "SetToAmount amount = 1 # WriteBE64 (word_of_int amount)"

section \<open>Outputs, coins, transactions, blocks\<close>

record CTxOut =
  nAsset :: bytes
  nValue :: bytes
  nNonce :: bytes
  scriptPubKey :: bytes

text \<open>As in Elements mode, in which every proof-of-stake chain runs.\<close>

definition TxOut_IsNull :: "CTxOut \<Rightarrow> bool" where
  "TxOut_IsNull out \<longleftrightarrow> Conf_IsNull (nAsset out) \<and> Conf_IsNull (nValue out) \<and> Conf_IsNull (nNonce out)
     \<and> scriptPubKey out = []"

definition IsFee :: "CTxOut \<Rightarrow> bool" where
  "IsFee out \<longleftrightarrow> scriptPubKey out = [] \<and> Value_IsExplicit (nValue out) \<and> Asset_IsExplicit (nAsset out)"

abbreviation explicit_out :: "CTxOut \<Rightarrow> bool" where
  "explicit_out out \<equiv> Value_IsExplicit (nValue out) \<and> Asset_IsExplicit (nAsset out)"

record Coin =
  coin_out :: CTxOut
  fCoinBase :: bool
  nHeight :: nat

definition IsSpent :: "Coin \<Rightarrow> bool" where
  "IsSpent coin \<longleftrightarrow> TxOut_IsNull (coin_out coin)"

text \<open>Of an input, the fields that the staking rules read.\<close>

record CTxIn =
  prevout :: COutPoint
  m_is_pegin :: bool

text \<open>The hash of a transaction is a field: it is computed once when the object is built.\<close>

record CTransaction =
  tx_hash :: uint256
  vin :: "CTxIn list"
  vout :: "CTxOut list"

definition IsCoinBase :: "CTransaction \<Rightarrow> bool" where
  "IsCoinBase tx \<longleftrightarrow> length (vin tx) = 1 \<and> OutPoint_IsNull (prevout (vin tx ! 0))"

type_synonym CBlock = "CTransaction list"
type_synonym CTxUndo = "Coin list"
type_synonym CBlockUndo = "CTxUndo list"

section \<open>Settings\<close>

record pos_env =
  g_pos_min_stake :: u64
  g_pos_committee_size :: int
  g_pos_public_committee :: bool
  g_pos_hardening_height :: int
  g_pos_records_v2_height :: int
  g_split_payout_height :: int
  g_pos_split_epoch :: int
  g_pos_slot_interval :: int
  g_pos_unbonding_period :: u32
  g_pos_escape_stall_mtp_height :: int
  policyAsset :: CAsset
  MAX_MONEY :: int
  ec_pubkey_parse :: "bytes \<Rightarrow> bool"

definition MoneyRange :: "pos_env \<Rightarrow> int \<Rightarrow> bool" where
  "MoneyRange E n \<longleftrightarrow> n \<ge> 0 \<and> n \<le> MAX_MONEY E"

definition IsFullyValid :: "pos_env \<Rightarrow> CPubKey \<Rightarrow> bool" where
  "IsFullyValid E pk \<longleftrightarrow> PubKey_IsValid pk \<and> ec_pubkey_parse E (PubKey_bytes pk)"

definition PosIsEligibleStake :: "pos_env \<Rightarrow> u64 \<Rightarrow> bool" where
  "PosIsEligibleStake E weight \<longleftrightarrow> weight \<ge> max (g_pos_min_stake E) 1"

definition PosEscapeStallMtpHeightActive :: "pos_env \<Rightarrow> int \<Rightarrow> bool" where
  "PosEscapeStallMtpHeightActive E height \<longleftrightarrow>
     g_pos_escape_stall_mtp_height E > 0 \<and> height \<ge> g_pos_escape_stall_mtp_height E"

section \<open>Facts about the types\<close>

text \<open>A key object is well formed when its bytes are what \<open>Set\<close> stores.\<close>

definition PubKey_wf :: "CPubKey \<Rightarrow> bool" where
  "PubKey_wf pk \<longleftrightarrow> pk = PubKey_Invalid \<or> ValidSize (vch pk)"

lemma PubKey_wf_Set [simp]: "PubKey_wf (PubKey_Set bs)"
  by (auto simp: PubKey_wf_def PubKey_Set_def ValidSize_def Let_def)

lemma PubKey_Invalid_not_valid [simp]: "\<not> PubKey_IsValid PubKey_Invalid" "PubKey_bytes PubKey_Invalid = []"
  by (simp_all add: PubKey_IsValid_def PubKey_size_def PubKey_Invalid_def GetLen_def PubKey_bytes_def)

lemma PubKey_IsValid_Set: "PubKey_IsValid (PubKey_Set bs) \<longleftrightarrow> ValidSize bs"
  by (auto simp: PubKey_IsValid_def PubKey_size_def PubKey_Set_def ValidSize_def Let_def
      PubKey_Invalid_def GetLen_def)

lemma GetLen_le: "GetLen h \<le> 65"
  by (simp add: GetLen_def)

lemma wf_valid_bytes:
  assumes "PubKey_wf pk" "PubKey_IsValid pk"
  shows "PubKey_bytes pk = vch pk" "length (vch pk) = PubKey_size pk" "ValidSize (vch pk)"
proof -
  show v: "ValidSize (vch pk)" using assms by (auto simp: PubKey_wf_def)
  show "PubKey_bytes pk = vch pk" "length (vch pk) = PubKey_size pk"
    using v by (simp_all add: PubKey_bytes_def PubKey_size_def ValidSize_def)
qed

lemma PubKey_Set_vch: "ValidSize bs \<Longrightarrow> PubKey_Set bs = CPubKey bs"
  by (simp add: PubKey_Set_def ValidSize_def Let_def)

lemma PubKey_Set_bytes [simp]: "PubKey_wf pk \<Longrightarrow> PubKey_IsValid pk \<Longrightarrow> PubKey_Set (PubKey_bytes pk) = pk"
  using wf_valid_bytes [of pk] PubKey_Set_vch [of "vch pk"] by simp

lemma PubKey_bytes_Set: "ValidSize bs \<Longrightarrow> PubKey_bytes (PubKey_Set bs) = bs"
  by (simp add: PubKey_Set_vch PubKey_bytes_def PubKey_size_def ValidSize_def)

lemma length_PubKey_bytes: "length (PubKey_bytes pk) \<le> 65"
  using GetLen_le [of "hd (vch pk)"] by (simp add: PubKey_bytes_def PubKey_size_def min_def)

lemma PubKey_bytes_ne: "PubKey_wf pk \<Longrightarrow> PubKey_IsValid pk \<Longrightarrow> PubKey_bytes pk \<noteq> []"
  using wf_valid_bytes [of pk] by (auto simp: ValidSize_def)

lemma length_key_bytes:
  "PubKey_wf pk \<Longrightarrow> PubKey_IsValid pk \<Longrightarrow> length (PubKey_bytes pk) = 33 \<or> length (PubKey_bytes pk) = 65"
  using wf_valid_bytes [of pk] by (auto simp: PubKey_size_def GetLen_def PubKey_IsValid_def split: if_splits)

text \<open>The order of the model is the order of the code on well-formed keys.\<close>

lemma less_CPubKey_code:
  assumes "PubKey_wf a" "PubKey_wf b"
  shows "a < b \<longleftrightarrow> PubKey_less a b"
  using assms
  by (cases a; cases b)
    (auto simp: PubKey_wf_def PubKey_less_def PubKey_size_def ValidSize_def less_CPubKey_def
      PubKey_Invalid_def GetLen_def neq_Nil_conv)

text \<open>An explicit amount or asset reads back as it was set.\<close>

lemma Value_SetToAmount [simp]: "Value_IsExplicit (SetToAmount n)"
  by (simp add: Conf_IsExplicit_def SetToAmount_def WriteBE64_def)

lemma GetAmount_SetToAmount:
  assumes "- (2 ^ 63) \<le> n" "n < 2 ^ 63"
  shows "GetAmount (SetToAmount n) = n"
proof -
  have "ReadBE64 (WriteBE64 x) = x" for x
    using unsigned_less [of x, where 'a = nat] by (simp add: ReadBE64_def WriteBE64_def be_nat_def nat_be_def)
  then show ?thesis using assms
    by (simp add: GetAmount_def SetToAmount_def int_word_sint)
qed

lemma GetAsset_SetToAsset: "length a = 32 \<Longrightarrow> Asset_IsExplicit (SetToAsset a) \<and> GetAsset (SetToAsset a) = a"
  by (simp add: Conf_IsExplicit_def SetToAsset_def GetAsset_def)

lemma GetAmount_range: "- (2 ^ 63) \<le> GetAmount v" "GetAmount v < 2 ^ 63"
  using sint_ge [of "ReadBE64 (drop 1 v)"] sint_lt [of "ReadBE64 (drop 1 v)"] by (simp_all add: GetAmount_def)

section \<open>Sample values\<close>

text \<open>A configuration and keys at which the properties are evaluated.\<close>

definition sample_env :: pos_env where
  "sample_env =
     \<lparr>g_pos_min_stake = 100, g_pos_committee_size = 4, g_pos_public_committee = True,
      g_pos_hardening_height = 10, g_pos_records_v2_height = 20, g_split_payout_height = 0,
      g_pos_split_epoch = 10, g_pos_slot_interval = 30, g_pos_unbonding_period = 10,
      g_pos_escape_stall_mtp_height = 0, policyAsset = replicate 32 7, MAX_MONEY = 2100000000000000,
      ec_pubkey_parse = (\<lambda>_. True)\<rparr>"

definition sample_key :: "byte \<Rightarrow> CPubKey" where
  "sample_key b = CPubKey (2 # replicate 31 0 @ [b])"

lemma sample_key_simps [simp]:
  "PubKey_wf (sample_key b)" "PubKey_IsValid (sample_key b)" "IsFullyValid sample_env (sample_key b)"
  "IsCompressed (sample_key b)"
  by (simp_all add: sample_key_def PubKey_wf_def ValidSize_def GetLen_def PubKey_IsValid_def PubKey_size_def
      IsFullyValid_def sample_env_def IsCompressed_def)

end
