(* ===== verification/Records.thy ===== *)
theory Records
  imports TxTypes
begin

text \<open>
  The record scripts of \<open>src/pos.cpp\<close>: staking, delegation, payout, pot, round and unbonding
  outputs, each with its builder and its parser, and the functions that read a record off an
  output. The lemmas show that every parser recovers what its builder wrote, that what a
  parser accepts is within the bounds the code promises, and that no script is two kinds of
  record at once.
\<close>

section \<open>Data\<close>

datatype PosPayoutMode = LEADER | DIRECT | LOTTERY | SPLIT

record PosPayoutPolicy =
  pp_mode :: PosPayoutMode
  pp_activation :: int
  pp_script :: bytes
  pp_commission_bp :: nat

record PosRound =
  epoch :: u32
  weight :: u64
  signer_weight :: u64
  distributable :: int
  buckets :: u16
  salt :: uint256
  paid :: bytes

definition IsPaid :: "PosRound \<Rightarrow> nat \<Rightarrow> bool" where
  "IsPaid r b = bit (paid r ! (b div 8)) (b mod 8)"

definition SetPaid :: "PosRound \<Rightarrow> nat \<Rightarrow> PosRound" where
  "SetPaid r b = r\<lparr>paid := (paid r)[b div 8 := paid r ! (b div 8) OR push_bit (b mod 8) 1]\<rparr>"

definition Unpaid :: "PosRound \<Rightarrow> nat" where
  "Unpaid r = length (filter (\<lambda>b. \<not> IsPaid r b) [0..<unat (buckets r)])"

record ParsedStake =
  ps_pubkey :: CPubKey
  ps_csv :: u32
  ps_bls_pubkey :: bytes
  ps_bls_pop :: bytes
  ps_liquid_locktime :: int

record PotOut =
  pot_signer :: CPubKey
  pot_asset :: CAsset
  pot_value :: int

record RoundOut =
  ro_signer :: CPubKey
  ro_asset :: CAsset
  ro_value :: int
  ro_round :: PosRound

abbreviation BLS_PK_SIZE :: nat where "BLS_PK_SIZE \<equiv> 48"
abbreviation BLS_SIG_SIZE :: nat where "BLS_SIG_SIZE \<equiv> 96"
abbreviation VRF_PROOF_SIZE :: nat where "VRF_PROOF_SIZE \<equiv> 81"
abbreviation POS_COMMISSION_DENOM :: nat where "POS_COMMISSION_DENOM \<equiv> 10000"
abbreviation MAX_PAYOUT_SCRIPT_SIZE :: nat where "MAX_PAYOUT_SCRIPT_SIZE \<equiv> 110"
abbreviation POS_ROUND_MAX_BUCKETS :: nat where "POS_ROUND_MAX_BUCKETS \<equiv> 2048"
abbreviation ROUND_DATA_FIXED :: nat where "ROUND_DATA_FIXED \<equiv> 62"
abbreviation SEQUENCE_LOCKTIME_DISABLE_FLAG :: u32 where "SEQUENCE_LOCKTIME_DISABLE_FLAG \<equiv> 0x80000000"
abbreviation SEQUENCE_LOCKTIME_TYPE_FLAG :: u32 where "SEQUENCE_LOCKTIME_TYPE_FLAG \<equiv> 0x400000"
abbreviation SEQUENCE_LOCKTIME_MASK :: u32 where "SEQUENCE_LOCKTIME_MASK \<equiv> 0xffff"

section \<open>Reading tokens\<close>

text \<open>The three tests that the parsers repeat: a given opcode, a given push, a valid key.\<close>

definition expect_op :: "byte \<Rightarrow> bytes \<Rightarrow> bytes option" where
  "expect_op op pc = do { (opcode, data, pc) \<leftarrow> GetScriptOp pc; if opcode = op then Some pc else None }"

definition expect_data :: "bytes \<Rightarrow> bytes \<Rightarrow> bytes option" where
  "expect_data d pc = do { (opcode, data, pc) \<leftarrow> GetScriptOp pc; if data = d then Some pc else None }"

definition key_of :: "pos_env \<Rightarrow> bytes \<Rightarrow> CPubKey option" where
  "key_of E data =
     (if data = [] then None
      else let pk = PubKey_Set data in if IsFullyValid E pk then Some pk else None)"

definition expect_key :: "pos_env \<Rightarrow> bytes \<Rightarrow> (CPubKey \<times> bytes) option" where
  "expect_key E pc = do {
     (opcode, data, pc) \<leftarrow> GetScriptOp pc;
     pk \<leftarrow> key_of E data;
     Some (pk, pc)
   }"

text \<open>\<open>if (pc != script.end()) return std::nullopt\<close>, then the result.\<close>

definition at_end :: "bytes \<Rightarrow> 'a \<Rightarrow> 'a option" where
  "at_end pc r = (if pc = [] then Some r else None)"

definition StakeDecodeScriptInt64 :: "bytes \<Rightarrow> int" where
  "StakeDecodeScriptInt64 v =
     (if v = [] then 0
      else let result = int (le_nat v)
        in if last v AND 0x80 \<noteq> 0 then - (result - 0x80 * 256 ^ (length v - 1)) else result)"

definition ReadScriptNumToken :: "byte \<Rightarrow> bytes \<Rightarrow> nat \<Rightarrow> int option" where
  "ReadScriptNumToken opcode data max_size =
     (if opcode = OP_0 then Some 0
      else if is_small_int_op opcode then Some (small_int_of opcode)
      else if data = [] \<or> length data > max_size then None
      else if CScriptNum data True max_size = None then None
      else Some (StakeDecodeScriptInt64 data))"

section \<open>Staking outputs\<close>

definition BuildStakeScript :: "CPubKey \<Rightarrow> u32 \<Rightarrow> bytes \<Rightarrow> bytes \<Rightarrow> int \<Rightarrow> bytes" where
  "BuildStakeScript pubkey csv_blocks bls_pubkey bls_pop liquid_locktime =
     push_int64 (uint csv_blocks) @ [OP_CHECKSEQUENCEVERIFY] @ [OP_DROP]
     @ (if bls_pubkey \<noteq> [] \<or> bls_pop \<noteq> []
        then push_vch bls_pubkey @ [OP_DROP] @ push_vch bls_pop @ [OP_DROP] else [])
     @ (if liquid_locktime > 0
        then push_int64 liquid_locktime @ [OP_CHECKLOCKTIMEVERIFY] @ [OP_DROP] else [])
     @ push_vch (PubKey_bytes pubkey) @ [OP_CHECKSIG]"

text \<open>The pieces of \<open>ParseStakeScriptFull\<close> in its order: the lock, the optional registration, the
  optional vesting lock with its one-token lookahead, the key.\<close>

definition stake_csv :: "byte \<Rightarrow> bytes \<Rightarrow> int option" where
  "stake_csv opcode data =
     (if is_small_int_op opcode then Some (small_int_of opcode)
      else if data \<noteq> [] \<and> length data \<le> 4
      then (case CScriptNum data True 4 of None \<Rightarrow> None | Some n \<Rightarrow> Some (ScriptNum_getint n))
      else None)"

definition stake_csv_ok :: "int \<Rightarrow> bool" where
  "stake_csv_ok csv \<longleftrightarrow> \<not> csv < 1
     \<and> (word_of_int csv :: u64) AND NOT (ucast (SEQUENCE_LOCKTIME_TYPE_FLAG OR SEQUENCE_LOCKTIME_MASK)) = 0
     \<and> (word_of_int csv :: u64) AND ucast SEQUENCE_LOCKTIME_MASK \<noteq> 0"

definition stake_bls :: "bytes \<Rightarrow> bytes \<Rightarrow> byte \<Rightarrow> (bytes \<times> bytes \<times> byte \<times> bytes \<times> bytes) option" where
  "stake_bls data pc opcode =
     (if length data = BLS_PK_SIZE then do {
        pc \<leftarrow> expect_op OP_DROP pc;
        (_, pop, pc) \<leftarrow> GetScriptOp pc;
        (if length pop \<noteq> BLS_SIG_SIZE then None else do {
           pc \<leftarrow> expect_op OP_DROP pc;
           (opcode, data', pc) \<leftarrow> GetScriptOp pc;
           Some (data, pop, opcode, data', pc) })
      }
      else Some ([], [], opcode, data, pc))"

definition stake_locktime :: "byte \<Rightarrow> bytes \<Rightarrow> int option" where
  "stake_locktime opcode data =
     (if is_small_int_op opcode then Some (small_int_of opcode)
      else if data \<noteq> [] \<and> length data \<le> 5
      then (case CScriptNum data True 5 of None \<Rightarrow> None | Some _ \<Rightarrow> Some (StakeDecodeScriptInt64 data))
      else None)"

definition stake_vesting :: "byte \<Rightarrow> bytes \<Rightarrow> bytes \<Rightarrow> (int \<times> bytes \<times> bytes) option" where
  "stake_vesting opcode data pc =
     (case expect_op OP_CHECKLOCKTIMEVERIFY pc of
        None \<Rightarrow> Some (0, data, pc)
      | Some pc \<Rightarrow> do {
          locktime \<leftarrow> stake_locktime opcode data;
          (if locktime \<le> 0 \<or> locktime > 0xffffffff then None else do {
             pc \<leftarrow> expect_op OP_DROP pc;
             (opcode, data, pc) \<leftarrow> GetScriptOp pc;
             Some (locktime, data, pc) })
        })"

definition ParseStakeScriptFull :: "pos_env \<Rightarrow> bytes \<Rightarrow> ParsedStake option" where
  "ParseStakeScriptFull E script = do {
     (opcode, data, pc) \<leftarrow> GetScriptOp script;
     csv \<leftarrow> stake_csv opcode data;
     (if \<not> stake_csv_ok csv then None else do {
        pc \<leftarrow> expect_op OP_CHECKSEQUENCEVERIFY pc;
        pc \<leftarrow> expect_op OP_DROP pc;
        (opcode, data, pc) \<leftarrow> GetScriptOp pc;
        (bls_pubkey, bls_pop, opcode, data, pc) \<leftarrow> stake_bls data pc opcode;
        (locktime, data, pc) \<leftarrow> stake_vesting opcode data pc;
        pubkey \<leftarrow> key_of E data;
        pc \<leftarrow> expect_op OP_CHECKSIG pc;
        at_end pc \<lparr>ps_pubkey = pubkey, ps_csv = word_of_int csv, ps_bls_pubkey = bls_pubkey,
                    ps_bls_pop = bls_pop, ps_liquid_locktime = locktime\<rparr> })
   }"

definition ParseStakeScript :: "pos_env \<Rightarrow> bytes \<Rightarrow> (CPubKey \<times> u32) option" where
  "ParseStakeScript E script =
     (case ParseStakeScriptFull E script of None \<Rightarrow> None | Some full \<Rightarrow> Some (ps_pubkey full, ps_csv full))"

definition ParseStakeBlsRegistration :: "pos_env \<Rightarrow> bytes \<Rightarrow> (bytes \<times> bytes) option" where
  "ParseStakeBlsRegistration E script =
     (case ParseStakeScriptFull E script of None \<Rightarrow> None
      | Some full \<Rightarrow> if ps_bls_pubkey full = [] then None else Some (ps_bls_pubkey full, ps_bls_pop full))"

definition EffectiveSlotSeconds :: "pos_env \<Rightarrow> int" where
  "EffectiveSlotSeconds E = (if g_pos_slot_interval E > 0 then g_pos_slot_interval E else 1)"

definition PosStakeLockSeconds :: "pos_env \<Rightarrow> u32 \<Rightarrow> int option" where
  "PosStakeLockSeconds E csv =
     (if csv AND SEQUENCE_LOCKTIME_DISABLE_FLAG \<noteq> 0 then None
      else if csv AND NOT (SEQUENCE_LOCKTIME_TYPE_FLAG OR SEQUENCE_LOCKTIME_MASK) \<noteq> 0 then None
      else let value = csv AND SEQUENCE_LOCKTIME_MASK
        in if value = 0 then None
           else if csv AND SEQUENCE_LOCKTIME_TYPE_FLAG \<noteq> 0 then Some (push_bit 9 (uint value))
           else Some (uint value * EffectiveSlotSeconds E))"

definition PosRequiredUnbondingSeconds :: "pos_env \<Rightarrow> int" where
  "PosRequiredUnbondingSeconds E = uint (g_pos_unbonding_period E) * EffectiveSlotSeconds E"

definition StakeFromTxOut :: "pos_env \<Rightarrow> CTxOut \<Rightarrow> (CPubKey \<times> u64) option" where
  "StakeFromTxOut E out =
     (if \<not> Value_IsExplicit (nValue out) \<or> \<not> Asset_IsExplicit (nAsset out) then None
      else if GetAsset (nAsset out) \<noteq> policyAsset E then None
      else let amount = GetAmount (nValue out)
        in if amount \<le> 0 then None
           else do {
             (pubkey, csv) \<leftarrow> ParseStakeScript E (scriptPubKey out);
             lock \<leftarrow> PosStakeLockSeconds E csv;
             (if lock < PosRequiredUnbondingSeconds E then None else Some (pubkey, word_of_int amount))
           })"

section \<open>Delegation records\<close>

definition DELEGATION_MARKER :: bytes where "DELEGATION_MARKER = ascii ''SEQDEL''"

definition BuildDelegationScript :: "CPubKey \<Rightarrow> CPubKey \<Rightarrow> bytes" where
  "BuildDelegationScript controller signer =
     push_vch DELEGATION_MARKER @ [OP_DROP]
     @ push_vch (PubKey_bytes signer) @ [OP_DROP]
     @ push_vch (PubKey_bytes controller) @ [OP_CHECKSIG]"

definition ParseDelegationScript :: "pos_env \<Rightarrow> bytes \<Rightarrow> (CPubKey \<times> CPubKey) option" where
  "ParseDelegationScript E script = do {
     pc \<leftarrow> expect_data DELEGATION_MARKER script;
     pc \<leftarrow> expect_op OP_DROP pc;
     (signer, pc) \<leftarrow> expect_key E pc;
     pc \<leftarrow> expect_op OP_DROP pc;
     (controller, pc) \<leftarrow> expect_key E pc;
     pc \<leftarrow> expect_op OP_CHECKSIG pc;
     at_end pc (controller, signer)
   }"

definition DelegationFromTxOut :: "pos_env \<Rightarrow> CTxOut \<Rightarrow> (CPubKey \<times> CPubKey) option" where
  "DelegationFromTxOut E out = ParseDelegationScript E (scriptPubKey out)"

section \<open>Payout records\<close>

definition PAYOUT_MARKER :: bytes where "PAYOUT_MARKER = ascii ''SEQPAY''"

definition payout_mode_int :: "PosPayoutMode \<Rightarrow> int" where
  "payout_mode_int m = (case m of LEADER \<Rightarrow> 0 | DIRECT \<Rightarrow> 1 | LOTTERY \<Rightarrow> 2 | SPLIT \<Rightarrow> 3)"

definition BuildPayoutScript :: "CPubKey \<Rightarrow> PosPayoutPolicy \<Rightarrow> bytes" where
  "BuildPayoutScript signer policy =
     push_vch PAYOUT_MARKER @ [OP_DROP]
     @ push_int64 (pp_activation policy) @ [OP_DROP]
     @ push_int64 (payout_mode_int (pp_mode policy)) @ [OP_DROP]
     @ (if pp_mode policy = DIRECT then push_vch (pp_script policy)
        else push_int64 (int (pp_commission_bp policy)))
     @ [OP_DROP]
     @ push_vch (PubKey_bytes signer) @ [OP_CHECKSIG]"

definition payout_param :: "PosPayoutMode \<Rightarrow> byte \<Rightarrow> bytes \<Rightarrow> (bytes \<times> nat) option" where
  "payout_param mode opcode data =
     (if mode = DIRECT
      then if data = [] \<or> length data > MAX_PAYOUT_SCRIPT_SIZE then None else Some (data, 0)
      else do {
        bp \<leftarrow> ReadScriptNumToken opcode data 3;
        (if bp < 0 \<or> bp > int POS_COMMISSION_DENOM then None else Some ([], nat bp))
      })"

definition ParsePayoutScript :: "pos_env \<Rightarrow> bytes \<Rightarrow> (CPubKey \<times> PosPayoutPolicy) option" where
  "ParsePayoutScript E script = do {
     pc \<leftarrow> expect_data PAYOUT_MARKER script;
     pc \<leftarrow> expect_op OP_DROP pc;
     (opcode, data, pc) \<leftarrow> GetScriptOp pc;
     activation \<leftarrow> ReadScriptNumToken opcode data 5;
     (if activation \<le> 0 \<or> activation > 0xffffffff then None else do {
        pc \<leftarrow> expect_op OP_DROP pc;
        (opcode, data, pc) \<leftarrow> GetScriptOp pc;
        m \<leftarrow> ReadScriptNumToken opcode data 1;
        (if m \<noteq> 1 \<and> m \<noteq> 2 \<and> m \<noteq> 3 then None else do {
           mode \<leftarrow> Some (if m = 1 then DIRECT else if m = 2 then LOTTERY else SPLIT);
           pc \<leftarrow> expect_op OP_DROP pc;
           (opcode, data, pc) \<leftarrow> GetScriptOp pc;
           (scr, bp) \<leftarrow> payout_param mode opcode data;
           pc \<leftarrow> expect_op OP_DROP pc;
           (signer, pc) \<leftarrow> expect_key E pc;
           pc \<leftarrow> expect_op OP_CHECKSIG pc;
           at_end pc (signer, \<lparr>pp_mode = mode, pp_activation = activation, pp_script = scr, pp_commission_bp = bp\<rparr>) }) })
   }"

definition PayoutFromTxOut :: "pos_env \<Rightarrow> CTxOut \<Rightarrow> (CPubKey \<times> PosPayoutPolicy) option" where
  "PayoutFromTxOut E out = ParsePayoutScript E (scriptPubKey out)"

definition PayoutRecordRecognized :: "pos_env \<Rightarrow> PosPayoutPolicy \<Rightarrow> int \<Rightarrow> bool" where
  "PayoutRecordRecognized E policy creation_height \<longleftrightarrow>
     (if pp_mode policy \<noteq> SPLIT then True
      else g_split_payout_height E = 0 \<or> creation_height \<ge> g_split_payout_height E)"

definition PosPayoutModeName :: "PosPayoutMode \<Rightarrow> string" where
  "PosPayoutModeName mode =
     (case mode of DIRECT \<Rightarrow> ''direct'' | LOTTERY \<Rightarrow> ''lottery'' | SPLIT \<Rightarrow> ''split'' | LEADER \<Rightarrow> ''leader'')"

definition PosOutputWeightsUncompressedKey :: "pos_env \<Rightarrow> CTxOut \<Rightarrow> bool" where
  "PosOutputWeightsUncompressedKey E out =
     (case StakeFromTxOut E out of Some (pubkey, amount) \<Rightarrow> \<not> IsCompressed pubkey
      | None \<Rightarrow> (case DelegationFromTxOut E out of Some (controller, signer) \<Rightarrow> \<not> IsCompressed signer
                  | None \<Rightarrow> False))"

section \<open>Pots and rounds\<close>

definition POT_MARKER :: bytes where "POT_MARKER = ascii ''SEQPOT''"

definition BuildPotScript :: "CPubKey \<Rightarrow> bytes" where
  "BuildPotScript signer =
     push_vch POT_MARKER @ [OP_DROP] @ push_vch (PubKey_bytes signer) @ [OP_DROP] @ [OP_TRUE]"

definition ParsePotScript :: "pos_env \<Rightarrow> bytes \<Rightarrow> CPubKey option" where
  "ParsePotScript E script = do {
     pc \<leftarrow> expect_data POT_MARKER script;
     pc \<leftarrow> expect_op OP_DROP pc;
     (signer, pc) \<leftarrow> expect_key E pc;
     pc \<leftarrow> expect_op OP_DROP pc;
     pc \<leftarrow> expect_op OP_TRUE pc;
     at_end pc signer
   }"

definition PotFromTxOut :: "pos_env \<Rightarrow> CTxOut \<Rightarrow> PotOut option" where
  "PotFromTxOut E out =
     (if \<not> Value_IsExplicit (nValue out) \<or> \<not> Asset_IsExplicit (nAsset out) then None
      else if GetAmount (nValue out) \<le> 0 then None
      else do {
        signer \<leftarrow> ParsePotScript E (scriptPubKey out);
        Some \<lparr>pot_signer = signer, pot_asset = GetAsset (nAsset out), pot_value = GetAmount (nValue out)\<rparr>
      })"

definition ROUND_MARKER :: bytes where "ROUND_MARKER = ascii ''SEQRND''"

definition round_data :: "PosRound \<Rightarrow> bytes" where
  "round_data r =
     nat_le 4 (unat (epoch r)) @ nat_le 8 (unat (weight r)) @ nat_le 8 (unat (signer_weight r))
     @ nat_le 8 (unat (word_of_int (distributable r) :: u64)) @ nat_le 2 (unat (buckets r))
     @ salt r @ paid r"

definition BuildRoundScript :: "CPubKey \<Rightarrow> PosRound \<Rightarrow> bytes" where
  "BuildRoundScript signer r =
     push_vch ROUND_MARKER @ [OP_DROP] @ push_vch (PubKey_bytes signer) @ [OP_DROP]
     @ push_vch (round_data r) @ [OP_DROP] @ [OP_TRUE]"

text \<open>\<open>get\<close>: a little-endian number at an offset of the round data.\<close>

definition round_get :: "bytes \<Rightarrow> nat \<Rightarrow> nat \<Rightarrow> nat" where
  "round_get rd at n = le_nat (take n (drop at rd))"

definition round_of_data :: "bytes \<Rightarrow> PosRound" where
  "round_of_data rd =
     \<lparr>epoch = word_of_nat (round_get rd 0 4), weight = word_of_nat (round_get rd 4 8),
      signer_weight = word_of_nat (round_get rd 12 8),
      distributable = sint (word_of_nat (round_get rd 20 8) :: u64),
      buckets = word_of_nat (round_get rd 28 2), salt = take 32 (drop 30 rd), paid = drop 62 rd\<rparr>"

text \<open>The canonicity tests at the end of \<open>ParseRoundScript\<close>.\<close>

definition round_canonical :: "pos_env \<Rightarrow> bytes \<Rightarrow> PosRound \<Rightarrow> bool" where
  "round_canonical E rd r \<longleftrightarrow>
     \<not> (buckets r = 0 \<or> unat (buckets r) > POS_ROUND_MAX_BUCKETS \<or> buckets r AND (buckets r - 1) \<noteq> 0)
     \<and> \<not> (weight r = 0 \<or> signer_weight r > weight r)
     \<and> \<not> (distributable r \<le> 0 \<or> \<not> MoneyRange E (distributable r))
     \<and> length rd = ROUND_DATA_FIXED + (unat (buckets r) + 7) div 8
     \<and> \<not> (unat (buckets r) mod 8 \<noteq> 0 \<and> drop_bit (unat (buckets r) mod 8) (last (paid r)) \<noteq> 0)"

definition ParseRoundScript :: "pos_env \<Rightarrow> bytes \<Rightarrow> (CPubKey \<times> PosRound) option" where
  "ParseRoundScript E script = do {
     pc \<leftarrow> expect_data ROUND_MARKER script;
     pc \<leftarrow> expect_op OP_DROP pc;
     (opcode, data, pc) \<leftarrow> GetScriptOp pc;
     (if length data \<noteq> COMPRESSED_SIZE then None else do {
        signer \<leftarrow> key_of E data;
        pc \<leftarrow> expect_op OP_DROP pc;
        (opcode, rd, pc) \<leftarrow> GetScriptOp pc;
        (if length rd < ROUND_DATA_FIXED then None else do {
           pc \<leftarrow> expect_op OP_DROP pc;
           pc \<leftarrow> expect_op OP_TRUE pc;
           (if pc \<noteq> [] then None
            else if round_canonical E rd (round_of_data rd) then Some (signer, round_of_data rd) else None) }) })
   }"

definition RoundFromTxOut :: "pos_env \<Rightarrow> CTxOut \<Rightarrow> RoundOut option" where
  "RoundFromTxOut E out =
     (if \<not> Value_IsExplicit (nValue out) \<or> \<not> Asset_IsExplicit (nAsset out) then None
      else if GetAmount (nValue out) \<le> 0 then None
      else do {
        (signer, r) \<leftarrow> ParseRoundScript E (scriptPubKey out);
        Some \<lparr>ro_signer = signer, ro_asset = GetAsset (nAsset out), ro_value = GetAmount (nValue out), ro_round = r\<rparr>
      })"

definition PosSplitV2Coin :: "pos_env \<Rightarrow> nat \<Rightarrow> bool" where
  "PosSplitV2Coin E coin_height \<longleftrightarrow>
     g_pos_records_v2_height E > 0 \<and> int coin_height \<ge> g_pos_records_v2_height E"

section \<open>Unbonding outputs\<close>

definition UNBOND_MARKER :: bytes where "UNBOND_MARKER = ascii ''SEQUNBOND''"

definition BuildUnbondScript :: "CPubKey \<Rightarrow> bytes" where
  "BuildUnbondScript pubkey =
     push_vch UNBOND_MARKER @ [OP_DROP] @ push_vch (PubKey_bytes pubkey) @ [OP_CHECKSIG]"

definition ParseUnbondScript :: "pos_env \<Rightarrow> bytes \<Rightarrow> CPubKey option" where
  "ParseUnbondScript E script = do {
     pc \<leftarrow> expect_data UNBOND_MARKER script;
     pc \<leftarrow> expect_op OP_DROP pc;
     (pubkey, pc) \<leftarrow> expect_key E pc;
     pc \<leftarrow> expect_op OP_CHECKSIG pc;
     at_end pc pubkey
   }"

definition IsSignedPosRecordScript :: "pos_env \<Rightarrow> bytes \<Rightarrow> bool" where
  "IsSignedPosRecordScript E script \<longleftrightarrow>
     ParseStakeScriptFull E script \<noteq> None \<or> ParseUnbondScript E script \<noteq> None \<or>
     ParseDelegationScript E script \<noteq> None \<or> ParsePayoutScript E script \<noteq> None"

section \<open>Tokens of the builders\<close>

text \<open>A usable key: what \<open>IsFullyValid\<close> accepts, stored as \<open>Set\<close> stores it.\<close>

definition good_key :: "pos_env \<Rightarrow> CPubKey \<Rightarrow> bool" where
  "good_key E pk \<longleftrightarrow> PubKey_wf pk \<and> IsFullyValid E pk"

lemma good_key_valid: "good_key E pk \<Longrightarrow> PubKey_wf pk \<and> PubKey_IsValid pk"
  by (simp add: good_key_def IsFullyValid_def)

lemma key_of_bytes [script_simps]: "good_key E pk \<Longrightarrow> key_of E (PubKey_bytes pk) = Some pk"
  using good_key_valid [of E pk] PubKey_bytes_ne [of pk] by (simp add: key_of_def good_key_def)

lemma key_of_good: "key_of E data = Some pk \<Longrightarrow> good_key E pk"
  by (auto simp: key_of_def Let_def good_key_def split: if_splits)

lemma push_op_zero [simp]: "push_op b = OP_0 \<longleftrightarrow> b = []"
proof -
  have "word_of_nat (length b) = (0 :: byte) \<longleftrightarrow> length b = 0" if "length b < 76"
    using that unat_byte_of_nat [of "length b"] by (auto simp flip: unat_eq_0)
  then show ?thesis by (auto simp: push_op_def push_vch_def)
qed

lemma expect_op_Cons [script_simps]: "OP_PUSHDATA4 < op \<Longrightarrow> expect_op op (op # rest) = Some rest"
  by (simp add: expect_op_def GetScriptOp_op)

lemma expect_op_push [script_simps]:
  "length b < 2 ^ 32 \<Longrightarrow> OP_PUSHDATA4 < op \<Longrightarrow> expect_op op (push_vch b @ rest) = None"
  using push_op_less_byte [of op b] by (auto simp: expect_op_def GetScriptOp_push_vch)

lemma expect_data_push [script_simps]: "length d < 2 ^ 32 \<Longrightarrow> expect_data d (push_vch d @ rest) = Some rest"
  by (simp add: expect_data_def GetScriptOp_push_vch)

lemma length_key_push: "length (PubKey_bytes pk) < 2 ^ 32"
  using length_PubKey_bytes [of pk] by simp

lemma expect_key_push [script_simps]:
  "good_key E pk \<Longrightarrow> expect_key E (push_vch (PubKey_bytes pk) @ rest) = Some (pk, rest)"
  by (simp add: expect_key_def GetScriptOp_push_vch [OF length_key_push] key_of_bytes)

lemma StakeDecode_set_vch: "StakeDecodeScriptInt64 v = set_vch v"
  by (simp add: StakeDecodeScriptInt64_def set_vch_def)

lemma num_token:
  assumes "0 \<le> n" "length (ScriptNum_serialize n) \<le> k" "k \<le> 8"
  obtains opcode data where "GetScriptOp (push_int64 n @ rest) = Some (opcode, data, rest)"
    "ReadScriptNumToken opcode data k = Some n"
proof -
  consider "n = 0" | "1 \<le> n" "n \<le> 16" | "16 < n" using assms(1) by linarith
  then show thesis
  proof cases
    case 1
    have "ReadScriptNumToken OP_0 [] k = Some 0" by (simp add: ReadScriptNumToken_def)
    with 1 GetScriptOp_push_zero [of rest] show thesis by (simp only: that)
  next
    case 2
    have "(word_of_int (n + 0x50) :: byte) \<noteq> OP_0" using small_int_token(3) [OF 2] by (auto simp del: of_int_add)
    then have "ReadScriptNumToken (word_of_int (n + 0x50)) [] k = Some n"
      using small_int_token [OF 2] by (simp add: ReadScriptNumToken_def del: of_int_add)
    with GetScriptOp_push_small [OF 2, of rest] show thesis by (rule that)
  next
    case 3
    then have "ReadScriptNumToken (push_op (ScriptNum_serialize n)) (ScriptNum_serialize n) k = Some n"
      using assms by (simp add: ReadScriptNumToken_def StakeDecode_set_vch set_vch_serialize)
    with GetScriptOp_push_num [of n rest] 3 assms show thesis by (intro that) auto
  qed
qed

lemma length_num_1: "0 \<le> n \<Longrightarrow> n < 128 \<Longrightarrow> length (ScriptNum_serialize n) \<le> 1"
  using length_serialize_le [of n 0] by simp

lemma length_num_3: "0 \<le> n \<Longrightarrow> n < 8388608 \<Longrightarrow> length (ScriptNum_serialize n) \<le> 3"
  using length_serialize_le [of n 2] by simp

lemma length_num_4: "0 \<le> n \<Longrightarrow> n < 2147483648 \<Longrightarrow> length (ScriptNum_serialize n) \<le> 4"
  using length_serialize_le [of n 3] by simp

lemma length_num_5: "0 \<le> n \<Longrightarrow> n < 549755813888 \<Longrightarrow> length (ScriptNum_serialize n) \<le> 5"
  using length_serialize_le [of n 4] by simp

lemma length_ascii [simp]: "length (ascii s) = length s"
  by (simp add: ascii_def)

lemma length_markers [simp]:
  "length DELEGATION_MARKER = 6" "length PAYOUT_MARKER = 6" "length POT_MARKER = 6"
  "length ROUND_MARKER = 6" "length UNBOND_MARKER = 9"
  by (simp_all add: DELEGATION_MARKER_def PAYOUT_MARKER_def POT_MARKER_def ROUND_MARKER_def UNBOND_MARKER_def)

lemma markers_distinct: "distinct [DELEGATION_MARKER, PAYOUT_MARKER, POT_MARKER, ROUND_MARKER, UNBOND_MARKER]"
  by (simp add: DELEGATION_MARKER_def PAYOUT_MARKER_def POT_MARKER_def ROUND_MARKER_def UNBOND_MARKER_def ascii_def)

section \<open>Round trips\<close>

lemma ParseDelegation_Build:
  "good_key E controller \<Longrightarrow> good_key E signer \<Longrightarrow>
   ParseDelegationScript E (BuildDelegationScript controller signer) = Some (controller, signer)"
  by (simp add: ParseDelegationScript_def BuildDelegationScript_def script_simps at_end_def)

lemma ParsePot_Build: "good_key E signer \<Longrightarrow> ParsePotScript E (BuildPotScript signer) = Some signer"
  by (simp add: ParsePotScript_def BuildPotScript_def script_simps at_end_def)

lemma ParseUnbond_Build: "good_key E pubkey \<Longrightarrow> ParseUnbondScript E (BuildUnbondScript pubkey) = Some pubkey"
  by (simp add: ParseUnbondScript_def BuildUnbondScript_def script_simps at_end_def)

text \<open>A policy that a record can carry: a mode other than the default, a positive 32-bit
  activation, and the parameter of its mode with the other at its default.\<close>

definition policy_ok :: "PosPayoutPolicy \<Rightarrow> bool" where
  "policy_ok p \<longleftrightarrow> pp_mode p \<noteq> LEADER \<and> 0 < pp_activation p \<and> pp_activation p \<le> 0xffffffff \<and>
     (if pp_mode p = DIRECT then pp_script p \<noteq> [] \<and> length (pp_script p) \<le> MAX_PAYOUT_SCRIPT_SIZE \<and> pp_commission_bp p = 0
      else pp_script p = [] \<and> pp_commission_bp p \<le> POS_COMMISSION_DENOM)"

lemma payout_param_Build:
  assumes "policy_ok p"
  obtains opcode data where
    "GetScriptOp ((if pp_mode p = DIRECT then push_vch (pp_script p) else push_int64 (int (pp_commission_bp p))) @ rest)
       = Some (opcode, data, rest)"
    "payout_param (pp_mode p) opcode data = Some (pp_script p, pp_commission_bp p)"
proof (cases "pp_mode p = DIRECT")
  case True
  then have ok: "pp_script p \<noteq> []" "length (pp_script p) \<le> MAX_PAYOUT_SCRIPT_SIZE" "pp_commission_bp p = 0"
    using assms by (simp_all add: policy_ok_def)
  then have "payout_param DIRECT (push_op (pp_script p)) (pp_script p) = Some (pp_script p, pp_commission_bp p)"
    by (simp add: payout_param_def)
  with True ok GetScriptOp_push_vch [of "pp_script p" rest] show thesis by (intro that) auto
next
  case False
  then have bp: "pp_commission_bp p \<le> POS_COMMISSION_DENOM" "pp_script p = []"
    using assms by (simp_all add: policy_ok_def)
  obtain opcode data where "GetScriptOp (push_int64 (int (pp_commission_bp p)) @ rest) = Some (opcode, data, rest)"
    "ReadScriptNumToken opcode data 3 = Some (int (pp_commission_bp p))"
    by (rule num_token [of "int (pp_commission_bp p)" 3 rest]) (use bp length_num_3 in simp_all)
  with False bp show thesis by (intro that [of opcode data]) (simp_all add: payout_param_def)
qed

lemma payout_mode_range: "0 \<le> payout_mode_int m" "payout_mode_int m \<le> 3"
  by (simp_all add: payout_mode_int_def split: PosPayoutMode.split)

lemma ParsePayout_Build:
  assumes "good_key E signer" and p: "policy_ok p"
  shows "ParsePayoutScript E (BuildPayoutScript signer p) = Some (signer, p)"
proof -
  let ?tail = "OP_DROP # push_vch (PubKey_bytes signer) @ [OP_CHECKSIG]"
  let ?par = "if pp_mode p = DIRECT then push_vch (pp_script p) else push_int64 (int (pp_commission_bp p))"
  obtain o3 d3 where 3: "GetScriptOp (?par @ ?tail) = Some (o3, d3, ?tail)"
    "payout_param (pp_mode p) o3 d3 = Some (pp_script p, pp_commission_bp p)"
    by (rule payout_param_Build [OF p])
  obtain o2 d2 where 2: "GetScriptOp (push_int64 (payout_mode_int (pp_mode p)) @ OP_DROP # ?par @ ?tail)
      = Some (o2, d2, OP_DROP # ?par @ ?tail)"
    "ReadScriptNumToken o2 d2 1 = Some (payout_mode_int (pp_mode p))"
    by (rule num_token [of "payout_mode_int (pp_mode p)" 1])
      (use payout_mode_range [of "pp_mode p"] length_num_1 [of "payout_mode_int (pp_mode p)"] in simp_all)
  let ?r2 = "OP_DROP # push_int64 (payout_mode_int (pp_mode p)) @ OP_DROP # ?par @ ?tail"
  obtain o1 d1 where 1: "GetScriptOp (push_int64 (pp_activation p) @ ?r2) = Some (o1, d1, ?r2)"
    "ReadScriptNumToken o1 d1 5 = Some (pp_activation p)"
    by (rule num_token [of "pp_activation p" 5]) (use p length_num_5 [of "pp_activation p"] in \<open>simp_all add: policy_ok_def\<close>)
  have "BuildPayoutScript signer p = push_vch PAYOUT_MARKER @ OP_DROP # push_int64 (pp_activation p) @ ?r2"
    by (simp add: BuildPayoutScript_def)
  then show ?thesis using assms 1 2 3
    by (simp add: ParsePayoutScript_def script_simps at_end_def policy_ok_def)
      (auto simp: payout_mode_int_def split: PosPayoutMode.splits)
qed

text \<open>Rounds. The data of a round is read back field by field.\<close>

lemma word_of_nat_le [simp]:
  "word_of_nat (le_nat (nat_le 4 (unat e))) = (e :: u32)"
  "word_of_nat (le_nat (nat_le 8 (unat w))) = (w :: u64)"
  "word_of_nat (le_nat (nat_le 2 (unat b))) = (b :: u16)"
  using unsigned_less [of e, where 'a = nat] unsigned_less [of w, where 'a = nat] unsigned_less [of b, where 'a = nat]
  by simp_all

lemma sint_word_of_int_64: "- (2 ^ 63) \<le> n \<Longrightarrow> n < 2 ^ 63 \<Longrightarrow> sint (word_of_int n :: u64) = n"
  by (simp add: int_word_sint)

lemma round_of_round_data:
  assumes "length (salt r) = 32" "- (2 ^ 63) \<le> distributable r" "distributable r < 2 ^ 63"
  shows "round_of_data (round_data r) = r"
  using assms by (simp add: round_of_data_def round_data_def round_get_def sint_word_of_int_64)

definition round_ok :: "pos_env \<Rightarrow> PosRound \<Rightarrow> bool" where
  "round_ok E r \<longleftrightarrow> length (salt r) = 32 \<and> distributable r < 2 ^ 63 \<and> round_canonical E (round_data r) r"

lemma ParseRound_Build:
  assumes "good_key E signer" "IsCompressed signer" "round_ok E r"
  shows "ParseRoundScript E (BuildRoundScript signer r) = Some (signer, r)"
proof -
  have r: "round_of_data (round_data r) = r"
    using assms(3) by (intro round_of_round_data) (auto simp: round_ok_def round_canonical_def)
  have len: "length (round_data r) < 2 ^ 32" "\<not> length (round_data r) < ROUND_DATA_FIXED"
    using assms(3) by (auto simp: round_ok_def round_canonical_def)
  have "length (PubKey_bytes signer) = COMPRESSED_SIZE"
    using assms wf_valid_bytes [of signer] good_key_valid [of E signer] by (simp add: IsCompressed_def)
  then show ?thesis using assms len
    by (simp add: ParseRoundScript_def BuildRoundScript_def script_simps r round_ok_def)
qed

text \<open>Staking outputs.\<close>

definition csv_ok :: "u32 \<Rightarrow> bool" where
  "csv_ok csv \<longleftrightarrow> csv AND NOT (SEQUENCE_LOCKTIME_TYPE_FLAG OR SEQUENCE_LOCKTIME_MASK) = 0
     \<and> csv AND SEQUENCE_LOCKTIME_MASK \<noteq> 0"

definition bls_ok :: "bytes \<Rightarrow> bytes \<Rightarrow> bool" where
  "bls_ok bls_pubkey bls_pop \<longleftrightarrow> bls_pubkey = [] \<and> bls_pop = [] \<or>
     length bls_pubkey = BLS_PK_SIZE \<and> length bls_pop = BLS_SIG_SIZE"

lemma and_not_zero: "csv AND NOT m = 0 \<Longrightarrow> csv = csv AND m" for csv m :: u32
  by (rule bit_eqI) (metis bit_0_eq bit_and_iff bit_not_iff bot_apply bot_bool_def)

lemma csv_ok_range:
  assumes "csv_ok csv"
  shows "1 \<le> uint csv" "uint csv \<le> 0x40ffff"
proof -
  have "csv = csv AND 0x40ffff" using assms by (intro and_not_zero) (simp add: csv_ok_def)
  then have "csv \<le> 0x40ffff" by (metis word_and_le1)
  then show "uint csv \<le> 0x40ffff" by (simp add: word_le_def)
  have "csv \<noteq> 0" using assms by (auto simp: csv_ok_def)
  then have "uint csv \<noteq> 0" by (simp add: uint_0_iff)
  then show "1 \<le> uint csv" using uint_ge_0 [of csv] by linarith
qed

lemma stake_csv_ok_iff: "stake_csv_ok (uint csv) \<longleftrightarrow> 1 \<le> uint csv \<and> csv_ok csv"
proof -
  have w: "(word_of_int (uint csv) :: u64) = ucast csv" by simp
  have 1: "(ucast csv :: u64) AND NOT (ucast m) = ucast (csv AND NOT m)" for m :: u32
    by (rule bit_eqI) (auto simp: bit_simps dest: bit_imp_le_length)
  have 2: "(ucast csv :: u64) AND ucast m = ucast (csv AND m)" for m :: u32
    by (rule bit_eqI) (auto simp: bit_simps)
  have 3: "(ucast x :: u64) = 0 \<longleftrightarrow> x = 0" for x :: u32
  proof -
    have "(ucast (ucast x :: u64) :: u32) = x" by (rule ucast_up_ucast_id) (simp add: is_up)
    then show ?thesis by (metis unsigned_0)
  qed
  show ?thesis unfolding stake_csv_ok_def csv_ok_def w 1 2 3 by auto
qed

lemma csv_token:
  assumes "csv_ok csv"
  obtains opcode data where "GetScriptOp (push_int64 (uint csv) @ rest) = Some (opcode, data, rest)"
    "stake_csv opcode data = Some (uint csv)"
proof (cases "uint csv \<le> 16")
  case True
  note r = csv_ok_range(1) [OF assms] True
  show thesis using GetScriptOp_push_small [OF r, of rest] small_int_token [OF r]
    by (intro that [of "word_of_int (uint csv + 0x50)" "[]"]) (simp_all add: stake_csv_def del: of_int_add)
next
  case False
  have l: "length (ScriptNum_serialize (uint csv)) \<le> 4" using csv_ok_range [OF assms] by (intro length_num_4) simp_all
  have "stake_csv (push_op (ScriptNum_serialize (uint csv))) (ScriptNum_serialize (uint csv)) = Some (uint csv)"
    using l False csv_ok_range [OF assms] by (simp add: stake_csv_def ScriptNum_getint_def)
  with GetScriptOp_push_num [of "uint csv" rest] l False show thesis by (intro that) auto
qed

lemma locktime_token:
  assumes "0 < t" "t \<le> 0xffffffff"
  obtains opcode data where "GetScriptOp (push_int64 t @ rest) = Some (opcode, data, rest)"
    "stake_locktime opcode data = Some t" "length data \<le> 5"
proof (cases "t \<le> 16")
  case True
  then have r: "1 \<le> t" "t \<le> 16" using assms by simp_all
  show thesis using GetScriptOp_push_small [OF r, of rest] small_int_token [OF r]
    by (intro that [of "word_of_int (t + 0x50)" "[]"]) (simp_all add: stake_locktime_def del: of_int_add)
next
  case False
  have l: "length (ScriptNum_serialize t) \<le> 5" using assms by (intro length_num_5) simp_all
  have "stake_locktime (push_op (ScriptNum_serialize t)) (ScriptNum_serialize t) = Some t"
    using l False by (simp add: stake_locktime_def StakeDecode_set_vch set_vch_serialize)
  with GetScriptOp_push_num [of t rest] l False show thesis by (intro that) auto
qed

text \<open>The vesting lock, if any, and the key.\<close>

lemma stake_tail:
  assumes k: "good_key E pk" and t: "0 \<le> t" "t \<le> 0xffffffff"
  obtains opcode data pc pc' where
    "GetScriptOp ((if t > 0 then push_int64 t @ [OP_CHECKLOCKTIMEVERIFY] @ [OP_DROP] else [])
       @ push_vch (PubKey_bytes pk) @ [OP_CHECKSIG]) = Some (opcode, data, pc)"
    "length data \<noteq> BLS_PK_SIZE" "stake_vesting opcode data pc = Some (t, PubKey_bytes pk, [OP_CHECKSIG])"
proof (cases "t > 0")
  case True
  let ?rest = "[OP_CHECKLOCKTIMEVERIFY] @ [OP_DROP] @ push_vch (PubKey_bytes pk) @ [OP_CHECKSIG]"
  obtain opcode data where d: "GetScriptOp (push_int64 t @ ?rest) = Some (opcode, data, ?rest)"
    "stake_locktime opcode data = Some t" "length data \<le> 5" by (rule locktime_token [OF True t(2)])
  have "stake_vesting opcode data ?rest = Some (t, PubKey_bytes pk, [OP_CHECKSIG])"
    using d t True by (simp add: stake_vesting_def script_simps GetScriptOp_push_vch [OF length_key_push])
  with d True show thesis by (intro that [of opcode data ?rest]) simp_all
next
  case False
  have "length (PubKey_bytes pk) \<noteq> BLS_PK_SIZE"
    using length_key_bytes [of pk] good_key_valid [OF k] by auto
  moreover have "stake_vesting (push_op (PubKey_bytes pk)) (PubKey_bytes pk) [OP_CHECKSIG] =
      Some (t, PubKey_bytes pk, [OP_CHECKSIG])"
    using False t by (simp add: stake_vesting_def expect_op_def GetScriptOp_op)
  ultimately show thesis using False
    by (intro that [of "push_op (PubKey_bytes pk)" "PubKey_bytes pk" "[OP_CHECKSIG]"])
      (simp_all add: GetScriptOp_push_vch [OF length_key_push])
qed

lemma stake_bls_tokens:
  assumes b: "bls_ok bls pop" and tail: "GetScriptOp tail = Some (o3, d3, pc3)" "length d3 \<noteq> BLS_PK_SIZE"
  obtains o2 d2 pc2 where
    "GetScriptOp ((if bls \<noteq> [] \<or> pop \<noteq> [] then push_vch bls @ [OP_DROP] @ push_vch pop @ [OP_DROP] else []) @ tail)
       = Some (o2, d2, pc2)"
    "stake_bls d2 pc2 o2 = Some (bls, pop, o3, d3, pc3)"
proof (cases "bls = []")
  case True
  with b have "pop = []" by (auto simp: bls_ok_def)
  with True tail show thesis by (intro that [of o3 d3 pc3]) (simp_all add: stake_bls_def)
next
  case False
  with b have l: "length bls = BLS_PK_SIZE" "length pop = BLS_SIG_SIZE" by (auto simp: bls_ok_def)
  with False tail show thesis
    by (intro that [of "push_op bls" bls "OP_DROP # push_vch pop @ OP_DROP # tail"])
      (simp_all add: stake_bls_def script_simps)
qed

lemma ParseStake_Build:
  assumes k: "good_key E pk" and c: "csv_ok csv" and b: "bls_ok bls pop" and t: "0 \<le> t" "t \<le> 0xffffffff"
  shows "ParseStakeScriptFull E (BuildStakeScript pk csv bls pop t) =
    Some \<lparr>ps_pubkey = pk, ps_csv = csv, ps_bls_pubkey = bls, ps_bls_pop = pop, ps_liquid_locktime = t\<rparr>"
proof -
  let ?tail = "(if t > 0 then push_int64 t @ [OP_CHECKLOCKTIMEVERIFY] @ [OP_DROP] else [])
       @ push_vch (PubKey_bytes pk) @ [OP_CHECKSIG]"
  let ?bls = "(if bls \<noteq> [] \<or> pop \<noteq> [] then push_vch bls @ [OP_DROP] @ push_vch pop @ [OP_DROP] else []) @ ?tail"
  obtain o3 d3 pc3 where 3: "GetScriptOp ?tail = Some (o3, d3, pc3)" "length d3 \<noteq> BLS_PK_SIZE"
    "stake_vesting o3 d3 pc3 = Some (t, PubKey_bytes pk, [OP_CHECKSIG])" by (rule stake_tail [OF k t])
  obtain o2 d2 pc2 where 2: "GetScriptOp ?bls = Some (o2, d2, pc2)"
    "stake_bls d2 pc2 o2 = Some (bls, pop, o3, d3, pc3)" by (rule stake_bls_tokens [OF b 3(1,2)])
  obtain o1 d1 where 1: "GetScriptOp (push_int64 (uint csv) @ OP_CHECKSEQUENCEVERIFY # OP_DROP # ?bls) =
      Some (o1, d1, OP_CHECKSEQUENCEVERIFY # OP_DROP # ?bls)" "stake_csv o1 d1 = Some (uint csv)"
    by (rule csv_token [OF c])
  have ok: "stake_csv_ok (uint csv)" using c csv_ok_range(1) [OF c] by (simp add: stake_csv_ok_iff)
  have "BuildStakeScript pk csv bls pop t = push_int64 (uint csv) @ OP_CHECKSEQUENCEVERIFY # OP_DROP # ?bls"
    by (simp add: BuildStakeScript_def)
  then show ?thesis using k 1 2 3 ok
    by (simp add: ParseStakeScriptFull_def script_simps at_end_def)
qed

section \<open>What the parsers accept\<close>

lemma expect_opD: "expect_op op pc = Some pc' \<Longrightarrow> \<exists>data. GetScriptOp pc = Some (op, data, pc')"
  by (auto simp: expect_op_def bind_eq_Some_conv split: if_splits prod.splits)

lemma expect_dataD: "expect_data d pc = Some pc' \<Longrightarrow> \<exists>op. GetScriptOp pc = Some (op, d, pc')"
  by (auto simp: expect_data_def bind_eq_Some_conv split: if_splits prod.splits)

lemma expect_key_good: "expect_key E pc = Some (pk, pc') \<Longrightarrow> good_key E pk"
  by (auto simp: expect_key_def bind_eq_Some_conv split: prod.splits dest: key_of_good)

lemma ParseDelegation_good:
  "ParseDelegationScript E s = Some (controller, signer) \<Longrightarrow> good_key E controller \<and> good_key E signer"
  by (auto simp: ParseDelegationScript_def bind_eq_Some_conv at_end_def split: if_splits prod.splits
      dest: expect_key_good)

lemma ParsePot_good: "ParsePotScript E s = Some signer \<Longrightarrow> good_key E signer"
  by (auto simp: ParsePotScript_def bind_eq_Some_conv at_end_def split: if_splits prod.splits dest: expect_key_good)

lemma ParseUnbond_good: "ParseUnbondScript E s = Some pubkey \<Longrightarrow> good_key E pubkey"
  by (auto simp: ParseUnbondScript_def bind_eq_Some_conv at_end_def split: if_splits prod.splits dest: expect_key_good)

lemma payout_param_ok:
  "payout_param mode opcode data = Some (scr, bp) \<Longrightarrow>
   (if mode = DIRECT then scr \<noteq> [] \<and> length scr \<le> MAX_PAYOUT_SCRIPT_SIZE \<and> bp = 0
    else scr = [] \<and> bp \<le> POS_COMMISSION_DENOM)"
  by (auto simp: payout_param_def bind_eq_Some_conv split: if_splits)

lemma ParsePayout_ok:
  "ParsePayoutScript E s = Some (signer, p) \<Longrightarrow> good_key E signer \<and> policy_ok p"
  by (auto simp: ParsePayoutScript_def bind_eq_Some_conv at_end_def policy_ok_def split: if_splits prod.splits
      dest: expect_key_good dest!: payout_param_ok)

lemma nat_le_word:
  "length bs = 4 \<Longrightarrow> nat_le 4 (unat (word_of_nat (le_nat bs) :: u32)) = bs"
  "length bs = 8 \<Longrightarrow> nat_le 8 (unat (word_of_nat (le_nat bs) :: u64)) = bs"
  "length bs = 2 \<Longrightarrow> nat_le 2 (unat (word_of_nat (le_nat bs) :: u16)) = bs"
  using le_nat_less [of bs] nat_le_le_nat [of bs] by (simp_all add: unat_of_nat)

lemma take_drop_join: "take k (drop n xs) @ drop (k + n) xs = drop n xs"
  by (metis append_take_drop_id drop_drop)

lemma round_data_round_of_data:
  assumes "ROUND_DATA_FIXED \<le> length rd"
  shows "round_data (round_of_data rd) = rd"
  using assms take_drop_join [of 32 30 rd] take_drop_join [of 2 28 rd] take_drop_join [of 8 20 rd]
    take_drop_join [of 8 12 rd] take_drop_join [of 8 4 rd] take_drop_join [of 4 0 rd]
  by (simp add: round_data_def round_of_data_def round_get_def nat_le_word)

lemma ParseRound_ok:
  assumes "ParseRoundScript E s = Some (signer, r)"
  shows "good_key E signer \<and> IsCompressed signer \<and> round_ok E r"
proof -
  from assms obtain data rd where k: "key_of E data = Some signer" and d: "length data = COMPRESSED_SIZE"
    and rd: "\<not> length rd < ROUND_DATA_FIXED" and c: "round_canonical E rd (round_of_data rd)" and r: "r = round_of_data rd"
    by (auto simp: ParseRoundScript_def bind_eq_Some_conv split: if_splits prod.splits)
  have signer: "signer = PubKey_Set data" "PubKey_IsValid (PubKey_Set data)"
    using k by (auto simp: key_of_def Let_def IsFullyValid_def split: if_splits)
  then have "ValidSize data" by (simp add: PubKey_IsValid_Set)
  then have "IsCompressed signer"
    using d by (simp add: signer(1) PubKey_Set_vch IsCompressed_def PubKey_size_def ValidSize_def)
  moreover have "round_data r = rd" using rd by (simp add: r round_data_round_of_data)
  moreover have "length (salt r) = 32" using rd by (simp add: r round_of_data_def)
  moreover have "distributable r < 2 ^ 63"
    using sint_lt [of "word_of_nat (round_get rd 20 8) :: u64"] by (simp add: r round_of_data_def)
  ultimately show ?thesis using key_of_good [OF k] c r by (simp add: round_ok_def)
qed

lemma small_int_range: "is_small_int_op opcode \<Longrightarrow> 1 \<le> small_int_of opcode \<and> small_int_of opcode \<le> 16"
proof -
  assume "is_small_int_op opcode"
  then have "81 \<le> uint opcode" "uint opcode \<le> 96" by (simp_all add: is_small_int_op_def word_le_def)
  then show ?thesis by (simp add: small_int_of_def)
qed

lemma stake_csv_range: "stake_csv opcode data = Some csv \<Longrightarrow> csv < 2 ^ 31"
  using small_int_range [of opcode]
  by (auto simp: stake_csv_def ScriptNum_getint_def split: if_splits option.splits)

lemma stake_bls_ok: "stake_bls data pc opcode = Some (bls, pop, o2, d2, pc2) \<Longrightarrow> bls_ok bls pop"
  by (auto simp: stake_bls_def bls_ok_def bind_eq_Some_conv split: if_splits prod.splits)

lemma stake_vesting_range: "stake_vesting opcode data pc = Some (t, d2, pc2) \<Longrightarrow> 0 \<le> t \<and> t \<le> 0xffffffff"
  by (auto simp: stake_vesting_def bind_eq_Some_conv split: if_splits prod.splits option.splits)

lemma ParseStake_ok:
  assumes "ParseStakeScriptFull E s = Some p"
  shows "good_key E (ps_pubkey p) \<and> csv_ok (ps_csv p) \<and> bls_ok (ps_bls_pubkey p) (ps_bls_pop p)
    \<and> 0 \<le> ps_liquid_locktime p \<and> ps_liquid_locktime p \<le> 0xffffffff"
proof -
  from assms obtain o1 d1 csv d2 pc2 o2 o3 d3 pc3 d4 pc4
    where csv: "stake_csv o1 d1 = Some csv" "stake_csv_ok csv" "ps_csv p = word_of_int csv"
      and bls: "stake_bls d2 pc2 o2 = Some (ps_bls_pubkey p, ps_bls_pop p, o3, d3, pc3)"
      and ves: "stake_vesting o3 d3 pc3 = Some (ps_liquid_locktime p, d4, pc4)"
      and key: "key_of E d4 = Some (ps_pubkey p)"
    by (auto simp: ParseStakeScriptFull_def bind_eq_Some_conv at_end_def split: if_splits prod.splits)
  have "1 \<le> csv" "csv < 2 ^ 31" using csv stake_csv_range [OF csv(1)] by (simp_all add: stake_csv_ok_def)
  then have "uint (ps_csv p) = csv" unfolding csv(3) by (subst uint_word_of_int) simp
  then have "csv_ok (ps_csv p)" using csv(2) stake_csv_ok_iff [of "ps_csv p"] by simp
  then show ?thesis using key_of_good [OF key] stake_bls_ok [OF bls] stake_vesting_range [OF ves] by blast
qed

text \<open>The first token tells the records apart.\<close>

lemma GetScriptOp_op_data: "GetScriptOp pc = Some (op, data, pc') \<Longrightarrow> OP_PUSHDATA4 < op \<Longrightarrow> data = []"
proof (cases pc)
  case (Cons c rest)
  assume a: "GetScriptOp pc = Some (op, data, pc')" and op: "OP_PUSHDATA4 < op"
  have "op = c" using a Cons
    by (auto simp: GetScriptOp_def bind_eq_Some_conv split: if_splits prod.splits)
  then show "data = []" using a op Cons by (simp add: GetScriptOp_op)
qed simp

datatype record_kind = StakeRec | UnbondRec | DelegationRec | PayoutRec | PotRec | RoundRec

definition kind_accepts :: "pos_env \<Rightarrow> bytes \<Rightarrow> record_kind \<Rightarrow> bool" where
  "kind_accepts E s k = (case k of StakeRec \<Rightarrow> ParseStakeScriptFull E s \<noteq> None
     | UnbondRec \<Rightarrow> ParseUnbondScript E s \<noteq> None | DelegationRec \<Rightarrow> ParseDelegationScript E s \<noteq> None
     | PayoutRec \<Rightarrow> ParsePayoutScript E s \<noteq> None | PotRec \<Rightarrow> ParsePotScript E s \<noteq> None
     | RoundRec \<Rightarrow> ParseRoundScript E s \<noteq> None)"

definition kind_marker :: "record_kind \<Rightarrow> bytes option" where
  "kind_marker k = (case k of StakeRec \<Rightarrow> None | UnbondRec \<Rightarrow> Some UNBOND_MARKER
     | DelegationRec \<Rightarrow> Some DELEGATION_MARKER | PayoutRec \<Rightarrow> Some PAYOUT_MARKER
     | PotRec \<Rightarrow> Some POT_MARKER | RoundRec \<Rightarrow> Some ROUND_MARKER)"

lemma marker_first: "expect_data m s \<bind> f \<noteq> None \<Longrightarrow> \<exists>op pc. GetScriptOp s = Some (op, m, pc)"
  by (cases "expect_data m s") (auto dest: expect_dataD)

lemma parse_marker:
  "ParseUnbondScript E s \<noteq> None \<Longrightarrow> \<exists>op pc. GetScriptOp s = Some (op, UNBOND_MARKER, pc)"
  "ParseDelegationScript E s \<noteq> None \<Longrightarrow> \<exists>op pc. GetScriptOp s = Some (op, DELEGATION_MARKER, pc)"
  "ParsePayoutScript E s \<noteq> None \<Longrightarrow> \<exists>op pc. GetScriptOp s = Some (op, PAYOUT_MARKER, pc)"
  "ParsePotScript E s \<noteq> None \<Longrightarrow> \<exists>op pc. GetScriptOp s = Some (op, POT_MARKER, pc)"
  "ParseRoundScript E s \<noteq> None \<Longrightarrow> \<exists>op pc. GetScriptOp s = Some (op, ROUND_MARKER, pc)"
  unfolding ParseUnbondScript_def ParseDelegationScript_def ParsePayoutScript_def ParsePotScript_def ParseRoundScript_def
  by (erule marker_first)+

lemma kind_marker_token:
  "kind_accepts E s k \<Longrightarrow> kind_marker k = Some m \<Longrightarrow> \<exists>op pc. GetScriptOp s = Some (op, m, pc)"
  using parse_marker [of E s] by (cases k) (auto simp: kind_accepts_def kind_marker_def)

lemma stake_first_token:
  assumes "kind_accepts E s StakeRec" "GetScriptOp s = Some (op, data, pc)"
  shows "length data \<le> 4"
proof (cases "is_small_int_op op")
  case True
  then have "OP_1 \<le> op" by (simp add: is_small_int_op_def)
  then have "OP_PUSHDATA4 < op" by (rule order.strict_trans2 [rotated]) simp
  then show ?thesis using GetScriptOp_op_data [OF assms(2)] by simp
next
  case False
  obtain csv where "stake_csv op data = Some csv"
    using assms by (cases "stake_csv op data") (simp_all add: kind_accepts_def ParseStakeScriptFull_def)
  then show ?thesis using False by (auto simp: stake_csv_def split: if_splits)
qed

lemma kind_marker_inj: "kind_marker j = kind_marker k \<Longrightarrow> j = k"
  using markers_distinct by (cases j; cases k) (auto simp: kind_marker_def)

lemma kind_marker_long: "kind_marker k = Some m \<Longrightarrow> 4 < length m"
  by (cases k) (auto simp: kind_marker_def)

lemma kind_marker_None: "kind_marker k = None \<longleftrightarrow> k = StakeRec"
  by (cases k) (simp_all add: kind_marker_def)

lemma kinds_exclusive:
  assumes "kind_accepts E s j" "kind_accepts E s k"
  shows "j = k"
proof (cases "kind_marker j"; cases "kind_marker k")
  fix m n assume "kind_marker j = Some m" "kind_marker k = Some n"
  with kind_marker_token [OF assms(1)] kind_marker_token [OF assms(2)] show "j = k"
    by (intro kind_marker_inj) force
next
  fix m assume m: "kind_marker j = Some m" and "kind_marker k = None"
  with assms kind_marker_token [OF assms(1) m] stake_first_token [of E s] kind_marker_long [OF m] show "j = k"
    by (auto simp: kind_marker_None)
next
  fix m assume m: "kind_marker k = Some m" and "kind_marker j = None"
  with assms kind_marker_token [OF assms(2) m] stake_first_token [of E s] kind_marker_long [OF m] show "j = k"
    by (auto simp: kind_marker_None)
qed (simp add: kind_marker_None)

section \<open>Records can be spent\<close>

text \<open>Every token costs at most five bytes beside its data, so no record is longer than a script may
  be; and none is empty or begins with \<open>OP_RETURN\<close>.\<close>

lemma GetScriptOp_length: "GetScriptOp pc = Some (op, data, pc') \<Longrightarrow> length pc \<le> length data + length pc' + 5"
  by (auto simp: GetScriptOp_def bind_eq_Some_conv split: list.splits if_splits)

lemma GetScriptOp_zero: "GetScriptOp pc = Some (OP_0, data, pc') \<Longrightarrow> data = []"
  by (auto simp: GetScriptOp_def bind_eq_Some_conv split: list.splits if_splits)

lemma GetScriptOp_small_int: "GetScriptOp pc = Some (op, data, pc') \<Longrightarrow> is_small_int_op op \<Longrightarrow> data = []"
proof (erule GetScriptOp_op_data)
  assume "is_small_int_op op"
  then have "OP_1 \<le> op" by (simp add: is_small_int_op_def)
  then show "OP_PUSHDATA4 < op" by (rule order.strict_trans2 [rotated]) simp
qed

lemma expect_op_length: "expect_op op pc = Some pc' \<Longrightarrow> OP_PUSHDATA4 < op \<Longrightarrow> length pc \<le> length pc' + 5"
  using GetScriptOp_length GetScriptOp_op_data by (fastforce dest: expect_opD)

lemma expect_data_length: "expect_data d pc = Some pc' \<Longrightarrow> length pc \<le> length d + length pc' + 5"
  using GetScriptOp_length by (fastforce dest: expect_dataD)

lemma key_of_length: "key_of E data = Some pk \<Longrightarrow> length data \<le> 65"
  using GetLen_le [of "hd data"] by (auto simp: key_of_def Let_def IsFullyValid_def PubKey_IsValid_Set ValidSize_def split: if_splits)

lemma expect_key_length: "expect_key E pc = Some (pk, pc') \<Longrightarrow> length pc \<le> length pc' + 70"
  by (auto simp: expect_key_def bind_eq_Some_conv dest!: GetScriptOp_length key_of_length)

lemma num_token_length:
  assumes "GetScriptOp pc = Some (op, data, pc')" "ReadScriptNumToken op data k = Some n"
  shows "length data \<le> k"
  using assms GetScriptOp_zero GetScriptOp_small_int by (fastforce simp: ReadScriptNumToken_def split: if_splits)

lemma payout_param_length:
  "GetScriptOp pc = Some (op, data, pc') \<Longrightarrow> payout_param mode op data = Some r \<Longrightarrow> length data \<le> 110"
  by (auto simp: payout_param_def bind_eq_Some_conv split: if_splits dest: num_token_length)

lemma stake_csv_length:
  "GetScriptOp pc = Some (op, data, pc') \<Longrightarrow> stake_csv op data = Some csv \<Longrightarrow> length data \<le> 4"
  by (auto simp: stake_csv_def split: if_splits dest: GetScriptOp_small_int)

lemma stake_bls_length:
  "stake_bls data pc op = Some (b, p, op', data', pc') \<Longrightarrow> length data + length pc \<le> length data' + length pc' + 200"
  by (auto simp: stake_bls_def bind_eq_Some_conv split: if_splits dest!: expect_op_length GetScriptOp_length)

lemma stake_vesting_length:
  "stake_vesting op data pc = Some (t, data', pc') \<Longrightarrow> (is_small_int_op op \<Longrightarrow> data = []) \<Longrightarrow>
   length data + length pc \<le> length data' + length pc' + 20"
  by (auto simp: stake_vesting_def stake_locktime_def bind_eq_Some_conv split: if_splits option.splits
      dest!: expect_op_length GetScriptOp_length)

lemma record_lengths:
  "ParseDelegationScript E s \<noteq> None \<Longrightarrow> length s \<le> 1000"
  "ParsePotScript E s \<noteq> None \<Longrightarrow> length s \<le> 1000"
  "ParseUnbondScript E s \<noteq> None \<Longrightarrow> length s \<le> 1000"
  by (auto simp: ParseDelegationScript_def ParsePotScript_def ParseUnbondScript_def at_end_def bind_eq_Some_conv
      split: if_splits dest!: expect_op_length expect_data_length expect_key_length)

lemma payout_length:
  assumes "ParsePayoutScript E s \<noteq> None"
  shows "length s \<le> 1000"
proof -
  from assms obtain p1 p2 o1 d1 p3 a p4 o2 d2 p5 m p6 o3 d3 p7 mode q p8 k p9 where
    "expect_data PAYOUT_MARKER s = Some p1" "expect_op OP_DROP p1 = Some p2"
    "GetScriptOp p2 = Some (o1, d1, p3)" "ReadScriptNumToken o1 d1 5 = Some a" "expect_op OP_DROP p3 = Some p4"
    "GetScriptOp p4 = Some (o2, d2, p5)" "ReadScriptNumToken o2 d2 1 = Some m" "expect_op OP_DROP p5 = Some p6"
    "GetScriptOp p6 = Some (o3, d3, p7)" "payout_param mode o3 d3 = Some q" "expect_op OP_DROP p7 = Some p8"
    "expect_key E p8 = Some (k, p9)" "expect_op OP_CHECKSIG p9 = Some []"
    by (auto simp: ParsePayoutScript_def at_end_def bind_eq_Some_conv split: if_splits prod.splits)
  then show ?thesis
    using GetScriptOp_length [of p2 o1 d1 p3] num_token_length [of p2 o1 d1 p3 5 a]
      GetScriptOp_length [of p4 o2 d2 p5] num_token_length [of p4 o2 d2 p5 1 m]
      GetScriptOp_length [of p6 o3 d3 p7] payout_param_length [of p6 o3 d3 p7 mode q]
    by (simp del: One_nat_def) (auto dest!: expect_op_length expect_data_length expect_key_length)
qed

lemma round_length:
  assumes "ParseRoundScript E s \<noteq> None"
  shows "length s \<le> 1000"
proof -
  from assms obtain p1 p2 o1 d1 p3 p4 o2 rd p5 p6 where
    "expect_data ROUND_MARKER s = Some p1" "expect_op OP_DROP p1 = Some p2" "GetScriptOp p2 = Some (o1, d1, p3)"
    "length d1 = COMPRESSED_SIZE" "expect_op OP_DROP p3 = Some p4" "GetScriptOp p4 = Some (o2, rd, p5)"
    "expect_op OP_DROP p5 = Some p6" "expect_op OP_TRUE p6 = Some []" "round_canonical E rd (round_of_data rd)"
    by (auto simp: ParseRoundScript_def bind_eq_Some_conv split: if_splits prod.splits)
  moreover from this have "length rd = 62 + (unat (buckets (round_of_data rd)) + 7) div 8"
    "unat (buckets (round_of_data rd)) \<le> 2048" by (simp_all add: round_canonical_def)
  moreover from this have "length rd \<le> 400" by linarith
  ultimately show ?thesis
    using GetScriptOp_length [of p2 o1 d1 p3] GetScriptOp_length [of p4 o2 rd p5]
    by (auto dest!: expect_op_length expect_data_length)
qed

lemma stake_length:
  assumes "ParseStakeScriptFull E s \<noteq> None"
  shows "length s \<le> 1000"
proof -
  from assms obtain o1 d1 p1 csv p2 p3 o2 d2 p4 b q o3 d3 p5 t d4 p6 k where
    t1: "GetScriptOp s = Some (o1, d1, p1)" "stake_csv o1 d1 = Some csv"
    and ops: "expect_op OP_CHECKSEQUENCEVERIFY p1 = Some p2" "expect_op OP_DROP p2 = Some p3"
    and t2: "GetScriptOp p3 = Some (o2, d2, p4)" "stake_bls d2 p4 o2 = Some (b, q, o3, d3, p5)"
    and t3: "stake_vesting o3 d3 p5 = Some (t, d4, p6)" "key_of E d4 = Some k" "expect_op OP_CHECKSIG p6 = Some []"
    by (auto simp: ParseStakeScriptFull_def at_end_def bind_eq_Some_conv split: if_splits prod.splits)
  have "d3 = []" if "is_small_int_op o3"
    using t2 that by (auto simp: stake_bls_def bind_eq_Some_conv split: if_splits dest: GetScriptOp_small_int)
  then have "length d3 + length p5 \<le> length d4 + length p6 + 20" by (intro stake_vesting_length [OF t3(1)])
  then show ?thesis
    using GetScriptOp_length [OF t1(1)] stake_csv_length [OF t1] GetScriptOp_length [OF t2(1)] stake_bls_length [OF t2(2)]
      key_of_length [OF t3(2)] ops t3(3) by (auto dest!: expect_op_length)
qed

lemma record_first_op:
  assumes "kind_accepts E s k"
  shows "s \<noteq> [] \<and> hd s \<noteq> OP_RETURN"
proof -
  have "\<exists>op data pc. GetScriptOp s = Some (op, data, pc) \<and> (is_small_int_op op \<or> data \<noteq> [])"
  proof (cases "kind_marker k")
    case None
    then have "ParseStakeScriptFull E s \<noteq> None" using assms by (simp add: kind_marker_None kind_accepts_def)
    then show ?thesis
      by (auto simp: ParseStakeScriptFull_def bind_eq_Some_conv stake_csv_def split: if_splits)
  next
    case (Some m)
    then show ?thesis using kind_marker_token [OF assms Some] kind_marker_long [OF Some] by auto
  qed
  then show ?thesis
    by (cases s) (auto simp: GetScriptOp_def is_small_int_op_def split: if_splits)
qed

lemma record_length: "kind_accepts E s k \<Longrightarrow> length s \<le> 1000"
  using record_lengths payout_length round_length stake_length by (cases k) (auto simp: kind_accepts_def)

section \<open>Properties\<close>

lemma sample_good_key [simp]: "good_key sample_env (sample_key b)"
  by (simp add: good_key_def)

text \<open>C29. No script is two kinds of record: of the six record templates (staking, unbonding,
  delegation, payout, pot, round) at most one accepts any given script.\<close>

theorem record_templates_exclusive:
  "kind_accepts E s j \<Longrightarrow> kind_accepts E s k \<Longrightarrow> j = k"
  by (rule kinds_exclusive)

theorem record_templates_exclusive_witness:
  "kind_accepts sample_env (BuildPotScript (sample_key 1)) PotRec \<and>
   \<not> kind_accepts sample_env (BuildPotScript (sample_key 1)) RoundRec"
proof -
  have pot: "kind_accepts sample_env (BuildPotScript (sample_key 1)) PotRec"
    by (simp add: kind_accepts_def ParsePot_Build)
  then show ?thesis
    using record_templates_exclusive [of sample_env "BuildPotScript (sample_key 1)" PotRec RoundRec] by auto
qed

text \<open>C39. Every record reads back as it was built: a staking output with any key, relative lock, BLS registration
  and liquidity lock that the template can carry, an unbonding output, a delegation, a payout policy, a pot, and a
  round with its counters, salt and bitmap.\<close>

theorem record_scripts_roundtrip:
  assumes "good_key E pk" "csv_ok csv" "bls_ok bls pop" "0 \<le> t" "t \<le> 0xffffffff"
    and "good_key E signer" "IsCompressed signer" "policy_ok p" "round_ok E r"
  shows "ParseStakeScriptFull E (BuildStakeScript pk csv bls pop t) =
      Some \<lparr>ps_pubkey = pk, ps_csv = csv, ps_bls_pubkey = bls, ps_bls_pop = pop, ps_liquid_locktime = t\<rparr> \<and>
    ParseUnbondScript E (BuildUnbondScript pk) = Some pk \<and>
    ParseDelegationScript E (BuildDelegationScript pk signer) = Some (pk, signer) \<and>
    ParsePayoutScript E (BuildPayoutScript signer p) = Some (signer, p) \<and>
    ParsePotScript E (BuildPotScript signer) = Some signer \<and>
    ParseRoundScript E (BuildRoundScript signer r) = Some (signer, r)"
  using ParseStake_Build [OF assms(1-5)] ParseUnbond_Build [OF assms(1)] ParseDelegation_Build [OF assms(1,6)]
    ParsePayout_Build [OF assms(6,8)] ParsePot_Build [OF assms(6)] ParseRound_Build [OF assms(6,7,9)] by simp

theorem record_scripts_roundtrip_witness:
  "ParseStakeScriptFull sample_env (BuildStakeScript (sample_key 1) 10 (replicate 48 3) (replicate 96 4) 500) =
     Some \<lparr>ps_pubkey = sample_key 1, ps_csv = 10, ps_bls_pubkey = replicate 48 3, ps_bls_pop = replicate 96 4,
       ps_liquid_locktime = 500\<rparr> \<and>
   ParsePayoutScript sample_env (BuildPayoutScript (sample_key 1)
       \<lparr>pp_mode = LOTTERY, pp_activation = 300, pp_script = [], pp_commission_bp = 250\<rparr>) =
     Some (sample_key 1, \<lparr>pp_mode = LOTTERY, pp_activation = 300, pp_script = [], pp_commission_bp = 250\<rparr>)"
proof -
  let ?r = "\<lparr>epoch = 3, weight = 1000, signer_weight = 10, distributable = 5000, buckets = 4, salt = replicate 32 9, paid = [5]\<rparr>"
  have "MAX_MONEY sample_env = 2100000000000000" by (simp add: sample_env_def)
  then have r: "round_ok sample_env ?r" by (simp add: round_ok_def round_canonical_def round_data_def MoneyRange_def)
  have b: "bls_ok (replicate 48 3) (replicate 96 4)" "csv_ok 10" by (simp_all add: bls_ok_def csv_ok_def)
  have p: "policy_ok \<lparr>pp_mode = LOTTERY, pp_activation = 300, pp_script = [], pp_commission_bp = 250\<rparr>" by (simp add: policy_ok_def)
  show ?thesis
    using record_scripts_roundtrip [OF sample_good_key [of 1] b(2,1) _ _ sample_good_key [of 1] _ p r, of 500] by simp
qed

end
