(* ===== verification/Standard.thy ===== *)
theory Standard
  imports TxTypes
begin

text \<open>
  Standard output scripts: the classification \<open>Solver\<close> of \<open>src/script/standard.cpp\<close> with the
  matchers it calls, the scripts built for a destination and the destination read back from
  a script. \<open>anyonecanspend_aremine\<close> is the chain parameter of that name, \<open>elementsmode\<close> the
  global \<open>g_con_elementsmode\<close>; the blinding key that a destination may carry is not
  part of its script and is left out.
\<close>

abbreviation OP_DUP :: byte where "OP_DUP \<equiv> 0x76"
abbreviation OP_EQUAL :: byte where "OP_EQUAL \<equiv> 0x87"
abbreviation OP_EQUALVERIFY :: byte where "OP_EQUALVERIFY \<equiv> 0x88"
abbreviation OP_HASH160 :: byte where "OP_HASH160 \<equiv> 0xa9"
abbreviation MAX_PUBKEYS_PER_MULTISIG :: int where "MAX_PUBKEYS_PER_MULTISIG \<equiv> 20"

section \<open>Templates\<close>

datatype TxoutType = NONSTANDARD | PUBKEY | PUBKEYHASH | SCRIPTHASH | MULTISIG | NULL_DATA
  | WITNESS_V0_SCRIPTHASH | WITNESS_V0_KEYHASH | WITNESS_V1_TAPROOT | WITNESS_UNKNOWN | TYPE_OP_TRUE | FEE

definition IsPayToScriptHash :: "bytes \<Rightarrow> bool" where
  "IsPayToScriptHash s \<longleftrightarrow> length s = 23 \<and> s ! 0 = OP_HASH160 \<and> s ! 1 = 0x14 \<and> s ! 22 = OP_EQUAL"

definition DecodeOP_N :: "byte \<Rightarrow> int" where
  "DecodeOP_N opcode = (if opcode = OP_0 then 0 else small_int_of opcode)"

definition IsWitnessProgram :: "bytes \<Rightarrow> (int \<times> bytes) option" where
  "IsWitnessProgram s =
     (if length s < 4 \<or> length s > 42 then None
      else if s ! 0 \<noteq> OP_0 \<and> \<not> is_small_int_op (s ! 0) then None
      else if unat (s ! 1) + 2 = length s then Some (DecodeOP_N (s ! 0), drop 2 s)
      else None)"

lemma GetScriptOp_shorter: "GetScriptOp pc = Some (op, data, pc') \<Longrightarrow> length pc' < length pc"
  by (auto simp: GetScriptOp_def bind_eq_Some_conv split: list.splits if_splits)

function IsPushOnly :: "bytes \<Rightarrow> bool" where
  "IsPushOnly pc =
     (if pc = [] then True
      else case GetScriptOp pc of None \<Rightarrow> False
        | Some (opcode, data, pc') \<Rightarrow> if opcode > OP_16 then False else IsPushOnly pc')"
  by pat_completeness auto
termination
  by (relation "measure length") (auto dest: GetScriptOp_shorter)

definition MatchPayToPubkey :: "bytes \<Rightarrow> bytes option" where
  "MatchPayToPubkey s =
     (if length s = PUBKEY_SIZE + 2 \<and> unat (s ! 0) = PUBKEY_SIZE \<and> last s = OP_CHECKSIG
      then let pubkey = take PUBKEY_SIZE (drop 1 s) in if ValidSize pubkey then Some pubkey else None
      else if length s = COMPRESSED_SIZE + 2 \<and> unat (s ! 0) = COMPRESSED_SIZE \<and> last s = OP_CHECKSIG
      then let pubkey = take COMPRESSED_SIZE (drop 1 s) in if ValidSize pubkey then Some pubkey else None
      else None)"

definition MatchPayToPubkeyHash :: "bytes \<Rightarrow> bytes option" where
  "MatchPayToPubkeyHash s =
     (if length s = 25 \<and> s ! 0 = OP_DUP \<and> s ! 1 = OP_HASH160 \<and> s ! 2 = 20 \<and> s ! 23 = OP_EQUALVERIFY \<and> s ! 24 = OP_CHECKSIG
      then Some (take 20 (drop 3 s)) else None)"

definition CheckMinimalPush :: "bytes \<Rightarrow> byte \<Rightarrow> bool" where
  "CheckMinimalPush data opcode \<longleftrightarrow>
     (if length data = 0 then opcode = OP_0
      else if length data = 1 \<and> data ! 0 \<ge> 1 \<and> data ! 0 \<le> 16 then False
      else if length data = 1 \<and> data ! 0 = 0x81 then False
      else if length data \<le> 75 then unat opcode = length data
      else if length data \<le> 255 then opcode = OP_PUSHDATA1
      else if length data \<le> 65535 then opcode = OP_PUSHDATA2
      else True)"

definition IsPushdataOp :: "byte \<Rightarrow> bool" where
  "IsPushdataOp opcode \<longleftrightarrow> opcode > OP_0 \<and> opcode \<le> OP_PUSHDATA4"

definition IsValidMultisigKeyCount :: "int \<Rightarrow> bool" where
  "IsValidMultisigKeyCount n_keys \<longleftrightarrow> n_keys > 0 \<and> n_keys \<le> MAX_PUBKEYS_PER_MULTISIG"

definition GetMultisigKeyCount :: "byte \<Rightarrow> bytes \<Rightarrow> int option" where
  "GetMultisigKeyCount opcode data =
     (let valid = (\<lambda>count. if IsValidMultisigKeyCount count then Some count else None) in
      if is_small_int_op opcode then valid (DecodeOP_N opcode)
      else if IsPushdataOp opcode
      then if \<not> CheckMinimalPush data opcode then None
           else (case CScriptNum data True 4 of None \<Rightarrow> None | Some n \<Rightarrow> valid (ScriptNum_getint n))
      else None)"

text \<open>The keys of the loop, with the token that ends it and what follows; \<open>None\<close> when the script ends
  first, which leaves \<open>OP_INVALIDOPCODE\<close> and is no key count.\<close>

function multisig_keys :: "bytes \<Rightarrow> (bytes list \<times> byte \<times> bytes \<times> bytes) option" where
  "multisig_keys pc =
     (case GetScriptOp pc of None \<Rightarrow> None
      | Some (opcode, data, pc') \<Rightarrow>
          if ValidSize data
          then (case multisig_keys pc' of None \<Rightarrow> None | Some (keys, r) \<Rightarrow> Some (data # keys, r))
          else Some ([], opcode, data, pc'))"
  by pat_completeness auto
termination
  by (relation "measure length") (auto dest: GetScriptOp_shorter)

definition MatchMultisig :: "bytes \<Rightarrow> (int \<times> bytes list) option" where
  "MatchMultisig s =
     (if length s < 1 \<or> last s \<noteq> OP_CHECKMULTISIG then None
      else do {
        (opcode, data, pc) \<leftarrow> GetScriptOp s;
        required_sigs \<leftarrow> GetMultisigKeyCount opcode data;
        (pubkeys, opcode, data, pc) \<leftarrow> multisig_keys pc;
        num_keys \<leftarrow> GetMultisigKeyCount opcode data;
        (if int (length pubkeys) \<noteq> num_keys \<or> num_keys < required_sigs then None
         else if length pc = 1 then Some (required_sigs, pubkeys) else None)
      })"

definition Solver :: "bool \<Rightarrow> bool \<Rightarrow> bytes \<Rightarrow> TxoutType \<times> bytes list" where
  "Solver anyonecanspend_aremine elementsmode s =
     (if anyonecanspend_aremine \<and> s = [OP_TRUE] then (TYPE_OP_TRUE, [])
      else if elementsmode \<and> s = [] then (FEE, [])
      else if IsPayToScriptHash s then (SCRIPTHASH, [take 20 (drop 2 s)])
      else case IsWitnessProgram s of
        Some (witnessversion, witnessprogram) \<Rightarrow>
          if witnessversion = 0 \<and> length witnessprogram = 20 then (WITNESS_V0_KEYHASH, [witnessprogram])
          else if witnessversion = 0 \<and> length witnessprogram = 32 then (WITNESS_V0_SCRIPTHASH, [witnessprogram])
          else if witnessversion = 1 \<and> length witnessprogram = 32 then (WITNESS_V1_TAPROOT, [witnessprogram])
          else if witnessversion \<noteq> 0 then (WITNESS_UNKNOWN, [[word_of_int witnessversion], witnessprogram])
          else (NONSTANDARD, [])
      | None \<Rightarrow>
        if length s \<ge> 1 \<and> s ! 0 = OP_RETURN \<and> IsPushOnly (drop 1 s) then (NULL_DATA, [])
        else case MatchPayToPubkey s of Some data \<Rightarrow> (PUBKEY, [data])
        | None \<Rightarrow> (case MatchPayToPubkeyHash s of Some data \<Rightarrow> (PUBKEYHASH, [data])
        | None \<Rightarrow> (case MatchMultisig s of
            Some (required, keys) \<Rightarrow> (MULTISIG, [[word_of_int required]] @ keys @ [[word_of_nat (length keys)]])
          | None \<Rightarrow> (NONSTANDARD, []))))"

section \<open>Destinations\<close>

datatype CTxDestination = CNoDestination | PKHash bytes | DestScriptHash bytes | WitnessV0ScriptHash bytes
  | WitnessV0KeyHash bytes | WitnessV1Taproot bytes | WitnessUnknown nat bytes | NullData "bytes list"

definition ExtractDestination :: "bool \<Rightarrow> bool \<Rightarrow> bytes \<Rightarrow> CTxDestination option" where
  "ExtractDestination ac em s =
     (case Solver ac em s of (whichType, vSolutions) \<Rightarrow>
        if whichType = PUBKEY
        then let pubKey = PubKey_Set (vSolutions ! 0)
             in if \<not> PubKey_IsValid pubKey then None else Some (PKHash (PubKey_GetID pubKey))
        else if whichType = PUBKEYHASH then Some (PKHash (vSolutions ! 0))
        else if whichType = SCRIPTHASH then Some (DestScriptHash (vSolutions ! 0))
        else if whichType = WITNESS_V0_KEYHASH then Some (WitnessV0KeyHash (vSolutions ! 0))
        else if whichType = WITNESS_V0_SCRIPTHASH then Some (WitnessV0ScriptHash (vSolutions ! 0))
        else if whichType = WITNESS_V1_TAPROOT then Some (WitnessV1Taproot (vSolutions ! 0))
        else if whichType = WITNESS_UNKNOWN
        then Some (WitnessUnknown (unat (vSolutions ! 0 ! 0)) (vSolutions ! 1))
        else None)"

definition EncodeOP_N :: "nat \<Rightarrow> byte" where
  "EncodeOP_N n = (if n = 0 then OP_0 else word_of_nat (unat OP_1 + n - 1))"

fun GetScriptForDestination :: "CTxDestination \<Rightarrow> bytes" where
  "GetScriptForDestination CNoDestination = []"
| "GetScriptForDestination (PKHash keyID) = [OP_DUP, OP_HASH160] @ push_vch keyID @ [OP_EQUALVERIFY, OP_CHECKSIG]"
| "GetScriptForDestination (DestScriptHash scriptID) = [OP_HASH160] @ push_vch scriptID @ [OP_EQUAL]"
| "GetScriptForDestination (WitnessV0KeyHash i) = [OP_0] @ push_vch i"
| "GetScriptForDestination (WitnessV0ScriptHash i) = [OP_0] @ push_vch i"
| "GetScriptForDestination (WitnessV1Taproot tap) = [OP_1] @ push_vch tap"
| "GetScriptForDestination (WitnessUnknown version program) = [EncodeOP_N version] @ push_vch program"
| "GetScriptForDestination (NullData null_data) = [OP_RETURN] @ concat (map push_vch null_data)"

definition GetScriptForRawPubKey :: "CPubKey \<Rightarrow> bytes" where
  "GetScriptForRawPubKey pubKey = push_vch (PubKey_bytes pubKey) @ [OP_CHECKSIG]"

definition GetScriptForMultisig :: "int \<Rightarrow> CPubKey list \<Rightarrow> bytes" where
  "GetScriptForMultisig nRequired keys =
     push_int64 nRequired @ concat (map (\<lambda>key. push_vch (PubKey_bytes key)) keys)
     @ push_int64 (int (length keys)) @ [OP_CHECKMULTISIG]"

section \<open>Reading back what was written\<close>

declare IsPushOnly.simps [simp del] multisig_keys.simps [simp del]

text \<open>The sizes of the hash types, and the versions a script can name that have no type of their own.\<close>

fun dest_ok :: "CTxDestination \<Rightarrow> bool" where
  "dest_ok (PKHash h) = (length h = 20)"
| "dest_ok (DestScriptHash h) = (length h = 20)"
| "dest_ok (WitnessV0KeyHash h) = (length h = 20)"
| "dest_ok (WitnessV0ScriptHash h) = (length h = 32)"
| "dest_ok (WitnessV1Taproot h) = (length h = 32)"
| "dest_ok (WitnessUnknown v p) = (1 \<le> v \<and> v \<le> 16 \<and> 2 \<le> length p \<and> length p \<le> 40 \<and> \<not> (v = 1 \<and> length p = 32))"
| "dest_ok _ = False"

lemma push_short: "length b < 0x4c \<Longrightarrow> push_vch b = word_of_nat (length b) # b"
  by (simp add: push_vch_def)

lemma unat_Encode: "1 \<le> v \<Longrightarrow> v \<le> 16 \<Longrightarrow> unat (EncodeOP_N v) = 80 + v"
  using unat_byte_of_nat [of "80 + v"] by (simp add: EncodeOP_N_def)

lemma Encode_small:
  assumes "1 \<le> v" "v \<le> 16"
  shows "is_small_int_op (EncodeOP_N v)" "small_int_of (EncodeOP_N v) = int v" "EncodeOP_N v \<noteq> OP_0" "EncodeOP_N v \<noteq> OP_HASH160"
  using unat_Encode [OF assms] assms by (auto simp: is_small_int_op_def small_int_of_def word_le_nat_alt)

lemma witness_program:
  assumes "v \<le> 16" "2 \<le> length p" "length p \<le> 40"
  shows "IsWitnessProgram (EncodeOP_N v # word_of_nat (length p) # p) = Some (int v, p)"
proof -
  have "unat (word_of_nat (length p) :: byte) = length p" using assms by simp
  then show ?thesis
    using assms Encode_small [of v] by (cases "v = 0") (simp_all add: IsWitnessProgram_def DecodeOP_N_def EncodeOP_N_def)
qed

lemma Extract_Get:
  assumes "dest_ok d"
  shows "ExtractDestination ac em (GetScriptForDestination d) = Some d"
proof (cases d)
  case (WitnessUnknown v p)
  then show ?thesis using assms witness_program [of v p] Encode_small [of v] unat_byte_of_nat [of v]
    by (auto simp: ExtractDestination_def Solver_def IsPayToScriptHash_def push_short)
next
  case (WitnessV0KeyHash h)
  then show ?thesis using assms witness_program [of 0 h]
    by (simp add: ExtractDestination_def Solver_def IsPayToScriptHash_def push_short EncodeOP_N_def)
next
  case (WitnessV0ScriptHash h)
  then show ?thesis using assms witness_program [of 0 h]
    by (simp add: ExtractDestination_def Solver_def IsPayToScriptHash_def push_short EncodeOP_N_def)
next
  case (WitnessV1Taproot h)
  then show ?thesis using assms witness_program [of 1 h]
    by (simp add: ExtractDestination_def Solver_def IsPayToScriptHash_def push_short EncodeOP_N_def)
next
  case (PKHash h)
  then show ?thesis using assms
    by (simp add: ExtractDestination_def Solver_def IsPayToScriptHash_def push_short IsWitnessProgram_def
        is_small_int_op_def MatchPayToPubkey_def MatchPayToPubkeyHash_def nth_append)
next
  case (DestScriptHash h)
  then show ?thesis using assms
    by (simp add: ExtractDestination_def Solver_def IsPayToScriptHash_def push_short nth_append)
qed (use assms in simp_all)

text \<open>Bare multisignature scripts, for every number of keys the classification admits.\<close>

lemma count_token:
  assumes "1 \<le> n" "n \<le> 20"
  obtains op data where "\<And>rest. GetScriptOp (push_int64 n @ rest) = Some (op, data, rest)"
    "GetMultisigKeyCount op data = Some n" "\<not> ValidSize data" "hd (push_int64 n) \<noteq> 0x21" "hd (push_int64 n) \<noteq> 0x41"
    "hd (push_int64 n) \<noteq> OP_HASH160" "hd (push_int64 n) \<noteq> OP_RETURN" "hd (push_int64 n) \<noteq> OP_DUP"
proof (cases "n \<le> 16")
  case True
  show ?thesis
  proof (rule that)
    show "GetScriptOp (push_int64 n @ rest) = Some (word_of_int (n + 0x50), [], rest)" for rest
      using assms True by (simp add: GetScriptOp_push_small)
    show "GetMultisigKeyCount (word_of_int (n + 0x50)) [] = Some n"
      using assms True small_int_token [of n]
      by (auto simp: GetMultisigKeyCount_def DecodeOP_N_def IsValidMultisigKeyCount_def)
    have "uint (word_of_int (n + 0x50) :: byte) = n + 0x50"
      using assms True by (subst uint_word_of_int) simp
    moreover have "hd (push_int64 n) = word_of_int (n + 0x50)" using assms True by (simp add: push_int64_def)
    ultimately show "hd (push_int64 n) \<noteq> 0x21" "hd (push_int64 n) \<noteq> 0x41" "hd (push_int64 n) \<noteq> OP_HASH160"
      "hd (push_int64 n) \<noteq> OP_RETURN" "hd (push_int64 n) \<noteq> OP_DUP"
      using assms True by (auto simp: word_uint_eq_iff)
  qed (simp add: ValidSize_def)
next
  case False
  then have n: "n = 17 \<or> n = 18 \<or> n = 19 \<or> n = 20" using assms by linarith
  have ser: "ScriptNum_serialize n = [word_of_int n]" using n
    by (elim disjE) (simp_all add: ScriptNum_serialize_def serialize_abs.simps)
  show ?thesis
  proof (rule that)
    show "GetScriptOp (push_int64 n @ rest) = Some (push_op [word_of_int n], [word_of_int n], rest)" for rest
      using GetScriptOp_push_num [of n rest] n ser by auto
    show "GetMultisigKeyCount (push_op [word_of_int n]) [word_of_int n] = Some n" using n
      by (elim disjE) (simp_all add: GetMultisigKeyCount_def push_op_def push_vch_def is_small_int_op_def IsPushdataOp_def
          CheckMinimalPush_def CScriptNum_def minimal_vch_def set_vch_def ScriptNum_getint_def IsValidMultisigKeyCount_def word_le_nat_alt)
    show "\<not> ValidSize [word_of_int n]" by (simp add: ValidSize_def GetLen_def)
    show "hd (push_int64 n) \<noteq> 0x21" "hd (push_int64 n) \<noteq> 0x41" "hd (push_int64 n) \<noteq> OP_HASH160"
      "hd (push_int64 n) \<noteq> OP_RETURN" "hd (push_int64 n) \<noteq> OP_DUP"
      using n ser by (auto simp: push_int64_def push_vch_def)
  qed
qed

lemma multisig_keys_read:
  assumes "\<And>k. k \<in> set keys \<Longrightarrow> PubKey_wf k \<and> PubKey_IsValid k"
    and "GetScriptOp tail = Some (op, data, rest)" "\<not> ValidSize data"
  shows "multisig_keys (concat (map (\<lambda>k. push_vch (PubKey_bytes k)) keys) @ tail) =
    Some (map PubKey_bytes keys, op, data, rest)"
  using assms(1)
proof (induction keys)
  case Nil
  then show ?case using assms(2,3) by (simp add: multisig_keys.simps [of tail])
next
  case (Cons k keys)
  have "length (PubKey_bytes k) < 2 ^ 32" using length_PubKey_bytes [of k] by simp
  moreover have "ValidSize (PubKey_bytes k)" using Cons.prems wf_valid_bytes by auto
  ultimately show ?case using Cons
    by (subst multisig_keys.simps) (simp add: GetScriptOp_push_vch)
qed

lemma MatchMultisig_Get:
  assumes keys: "\<And>k. k \<in> set keys \<Longrightarrow> PubKey_wf k \<and> PubKey_IsValid k"
    and n: "1 \<le> m" "m \<le> int (length keys)" "length keys \<le> 20"
  shows "MatchMultisig (GetScriptForMultisig m keys) = Some (m, map PubKey_bytes keys)"
proof -
  obtain op data where m: "\<And>rest. GetScriptOp (push_int64 m @ rest) = Some (op, data, rest)" "GetMultisigKeyCount op data = Some m"
    by (rule count_token [of m]) (use n in auto)
  obtain op' data' where l: "\<And>rest. GetScriptOp (push_int64 (int (length keys)) @ rest) = Some (op', data', rest)"
    "GetMultisigKeyCount op' data' = Some (int (length keys))" "\<not> ValidSize data'"
    by (rule count_token [of "int (length keys)"]) (use n in auto)
  have "multisig_keys (concat (map (\<lambda>k. push_vch (PubKey_bytes k)) keys) @ push_int64 (int (length keys)) @ [OP_CHECKMULTISIG]) =
      Some (map PubKey_bytes keys, op', data', [OP_CHECKMULTISIG])"
    using keys l(1,3) by (rule multisig_keys_read)
  then show ?thesis using m l(2) n by (simp add: MatchMultisig_def GetScriptForMultisig_def)
qed

lemma key_push: "PubKey_wf k \<Longrightarrow> PubKey_IsValid k \<Longrightarrow>
    (length (PubKey_bytes k) = 33 \<or> length (PubKey_bytes k) = 65) \<and> push_vch (PubKey_bytes k) = word_of_nat (length (PubKey_bytes k)) # PubKey_bytes k"
  using length_key_bytes [of k] by (auto simp: push_short)

lemma keys_push_length:
  "(\<And>k. k \<in> set keys \<Longrightarrow> PubKey_wf k \<and> PubKey_IsValid k) \<Longrightarrow>
   34 * length keys \<le> length (concat (map (\<lambda>k. push_vch (PubKey_bytes k)) keys))"
proof (induction keys)
  case (Cons k keys)
  then have "34 \<le> length (push_vch (PubKey_bytes k))" using key_push [of k] by auto
  then show ?case using Cons by simp
qed simp

lemma multisig_no_witness:
  assumes keys: "\<And>k. k \<in> set keys \<Longrightarrow> PubKey_wf k \<and> PubKey_IsValid k"
    and n: "1 \<le> m" "m \<le> int (length keys)" "length keys \<le> 20"
  shows "IsWitnessProgram (GetScriptForMultisig m keys) = None"
proof (cases "length keys = 1")
  case True
  then obtain k where k: "keys = [k]" by (cases keys) auto
  then have "m = 1" using n by simp
  moreover have "PubKey_wf k \<and> PubKey_IsValid k" using keys k by simp
  ultimately show ?thesis using key_push [of k] k
    by (auto simp: GetScriptForMultisig_def IsWitnessProgram_def push_int64_def)
next
  case False
  then have "2 \<le> length keys" using n by linarith
  then have "42 < length (GetScriptForMultisig m keys)"
    using keys_push_length [of keys, OF keys] by (simp add: GetScriptForMultisig_def)
  then show ?thesis by (simp add: IsWitnessProgram_def)
qed

lemma Solver_multisig:
  assumes keys: "\<And>k. k \<in> set keys \<Longrightarrow> PubKey_wf k \<and> PubKey_IsValid k"
    and n: "1 \<le> m" "m \<le> int (length keys)" "length keys \<le> 20"
  shows "Solver ac em (GetScriptForMultisig m keys) =
    (MULTISIG, [word_of_int m] # map PubKey_bytes keys @ [[word_of_nat (length keys)]])"
proof -
  let ?s = "GetScriptForMultisig m keys"
  have "push_int64 m \<noteq> []" using n by (auto simp: push_int64_def push_vch_def)
  then have hd: "?s ! 0 = hd (push_int64 m)" "?s \<noteq> [OP_TRUE]" "?s \<noteq> []"
    by (auto simp: GetScriptForMultisig_def nth_append hd_conv_nth append_eq_Cons_conv)
  have first: "?s ! 0 \<noteq> 0x21 \<and> ?s ! 0 \<noteq> 0x41 \<and> ?s ! 0 \<noteq> OP_HASH160 \<and> ?s ! 0 \<noteq> OP_RETURN \<and> ?s ! 0 \<noteq> OP_DUP"
    unfolding hd by (rule count_token [of m]) (use n in auto)
  then have "unat (?s ! 0) \<noteq> 33" "unat (?s ! 0) \<noteq> 65" by (auto simp: word_unat_eq_iff)
  then show ?thesis using first hd(2,3) multisig_no_witness [OF assms] MatchMultisig_Get [OF assms]
    by (simp add: Solver_def IsPayToScriptHash_def MatchPayToPubkey_def MatchPayToPubkeyHash_def)
qed

section \<open>Properties\<close>

text \<open>The destination read from a script is the one it was built for: for every hash type and
  every witness version, \<open>ExtractDestination\<close> of \<open>GetScriptForDestination\<close> is the identity.\<close>

theorem destination_roundtrip:
  "dest_ok d \<Longrightarrow> ExtractDestination ac em (GetScriptForDestination d) = Some d"
  by (rule Extract_Get)

theorem destination_roundtrip_witness:
  "ExtractDestination False True (GetScriptForDestination (WitnessV0KeyHash (replicate 20 7))) =
    Some (WitnessV0KeyHash (replicate 20 7))"
  by (rule destination_roundtrip) simp

text \<open>A bare multisignature script of valid keys is classified as such, with its threshold,
  its keys in order and their number.\<close>

theorem multisig_classified:
  assumes "\<And>k. k \<in> set keys \<Longrightarrow> PubKey_wf k \<and> PubKey_IsValid k"
    and "1 \<le> m" "m \<le> int (length keys)" "length keys \<le> 20"
  shows "Solver ac em (GetScriptForMultisig m keys) =
    (MULTISIG, [word_of_int m] # map PubKey_bytes keys @ [[word_of_nat (length keys)]])"
  using assms by (rule Solver_multisig)

theorem multisig_classified_witness:
  "Solver False True (GetScriptForMultisig 1 [sample_key 1, sample_key 2]) =
    (MULTISIG, [[1], PubKey_bytes (sample_key 1), PubKey_bytes (sample_key 2), [2]])"
proof -
  have "Solver False True (GetScriptForMultisig 1 [sample_key 1, sample_key 2]) =
      (MULTISIG, [word_of_int 1] # map PubKey_bytes [sample_key 1, sample_key 2] @ [[word_of_nat 2]])"
    using multisig_classified [of "[sample_key 1, sample_key 2]" 1 False True] by fastforce
  then show ?thesis by simp
qed

end
