(* ===== verification/StakeRegistry.thy ===== *)
theory StakeRegistry
  imports Records
begin

text \<open>
  The stake registry (\<open>class StakeRegistry\<close> of \<open>src/pos.h\<close>): the weights of the configuration
  and of the UTXO set, the BLS registrations with the number of outputs behind each, the
  delegation records with their heights, the payout policies, the stake bucketed by creation
  height and the unspent pots. The registry is passed explicitly; the mutex of the class
  makes every method atomic.
\<close>

section \<open>State\<close>

record PosPotRef =
  pr_asset :: CAsset
  pr_value :: int
  pr_height :: int
  pr_coinbase :: bool
  pr_round :: "PosRound option"

record StakeRegistry =
  m_config :: "(CPubKey, u64) fmap"
  m_utxo :: "(CPubKey, u64) fmap"
  m_bls :: "(CPubKey, bytes) fmap"
  m_bls_utxo :: "(CPubKey, bytes) fmap"
  m_bls_utxo_outputs :: "(CPubKey, u32) fmap"
  m_deleg_utxo :: "(CPubKey, CPubKey) fmap"
  m_payout_utxo :: "(CPubKey, (int, PosPayoutPolicy) fmap) fmap"
  m_utxo_tranches :: "(CPubKey, (int, u64) fmap) fmap"
  m_deleg_height :: "(CPubKey, int) fmap"
  m_pot_utxo :: "(CPubKey, (COutPoint, PosPotRef) fmap) fmap"

section \<open>Weights\<close>

definition SignerForLocked :: "StakeRegistry \<Rightarrow> CPubKey \<Rightarrow> CPubKey" where
  "SignerForLocked R controller =
     (case fmlookup (m_deleg_utxo R) controller of None \<Rightarrow> controller | Some s \<Rightarrow> s)"

definition MergedLocked :: "StakeRegistry \<Rightarrow> (CPubKey, u64) fmap" where
  "MergedLocked R = fold (\<lambda>(k, v). fm_plus k v) (fm_entries (m_utxo R)) (m_config R)"

definition WeightsLocked :: "StakeRegistry \<Rightarrow> (CPubKey, u64) fmap" where
  "WeightsLocked R =
     fold (\<lambda>(k, v). fm_plus (SignerForLocked R k) v) (fm_entries (MergedLocked R)) fmempty"

definition Reg_Empty :: "StakeRegistry \<Rightarrow> bool" where
  "Reg_Empty R \<longleftrightarrow> m_config R = fmempty \<and> m_utxo R = fmempty"

definition Reg_Size :: "StakeRegistry \<Rightarrow> nat" where
  "Reg_Size R = length (fm_entries (WeightsLocked R))"

definition GetWeight :: "StakeRegistry \<Rightarrow> CPubKey \<Rightarrow> u64" where
  "GetWeight R pubkey =
     fold (\<lambda>(k, v) w. if SignerForLocked R k = pubkey then w + v else w) (fm_entries (MergedLocked R)) 0"

definition Weights :: "StakeRegistry \<Rightarrow> (CPubKey, u64) fmap" where
  "Weights R = WeightsLocked R"

definition ControllerWeights :: "StakeRegistry \<Rightarrow> (CPubKey, u64) fmap" where
  "ControllerWeights R = MergedLocked R"

definition GetUtxoWeight :: "StakeRegistry \<Rightarrow> CPubKey \<Rightarrow> u64" where
  "GetUtxoWeight R pubkey = (case fmlookup (m_utxo R) pubkey of None \<Rightarrow> 0 | Some w \<Rightarrow> w)"

section \<open>Configuration\<close>

definition Reg_Clear :: StakeRegistry where
  "Reg_Clear =
     \<lparr>m_config = fmempty, m_utxo = fmempty, m_bls = fmempty, m_bls_utxo = fmempty,
      m_bls_utxo_outputs = fmempty, m_deleg_utxo = fmempty, m_payout_utxo = fmempty,
      m_utxo_tranches = fmempty, m_deleg_height = fmempty, m_pot_utxo = fmempty\<rparr>"

definition SetStake :: "CPubKey \<Rightarrow> u64 \<Rightarrow> StakeRegistry \<Rightarrow> StakeRegistry" where
  "SetStake pubkey w R = R\<lparr>m_config := fmupd pubkey w (m_config R)\<rparr>"

definition SetBls :: "CPubKey \<Rightarrow> bytes \<Rightarrow> StakeRegistry \<Rightarrow> StakeRegistry" where
  "SetBls pubkey bls_pubkey R = R\<lparr>m_bls := fmupd pubkey bls_pubkey (m_bls R)\<rparr>"

definition GetBls :: "StakeRegistry \<Rightarrow> CPubKey \<Rightarrow> bytes" where
  "GetBls R pubkey =
     (case fmlookup (m_bls R) pubkey of Some b \<Rightarrow> b
      | None \<Rightarrow> (case fmlookup (m_bls_utxo R) pubkey of None \<Rightarrow> [] | Some b \<Rightarrow> b))"

definition HasBls :: "StakeRegistry \<Rightarrow> CPubKey \<Rightarrow> bool" where
  "HasBls R pubkey \<longleftrightarrow> fmlookup (m_bls R) pubkey \<noteq> None \<or> fmlookup (m_bls_utxo R) pubkey \<noteq> None"

text \<open>\<open>SetUtxoStake\<close> replaces the derived layers; a caller that gives registrations without output
  counts means one output each, and one that gives weights without tranches means height 0.\<close>

definition SetUtxoStake ::
  "(CPubKey, u64) fmap \<Rightarrow> (CPubKey, bytes) fmap \<Rightarrow> (CPubKey, CPubKey) fmap
   \<Rightarrow> (CPubKey, (int, PosPayoutPolicy) fmap) fmap \<Rightarrow> (CPubKey, (int, u64) fmap) fmap
   \<Rightarrow> (CPubKey, int) fmap \<Rightarrow> (CPubKey, (COutPoint, PosPotRef) fmap) fmap \<Rightarrow> (CPubKey, u32) fmap
   \<Rightarrow> StakeRegistry \<Rightarrow> StakeRegistry" where
  "SetUtxoStake utxo bls_utxo deleg_utxo payout_utxo utxo_tranches deleg_height pot_utxo bls_utxo_outputs R =
     R\<lparr>m_utxo := utxo, m_bls_utxo := bls_utxo,
       m_bls_utxo_outputs := (if bls_utxo_outputs = fmempty
         then fold (\<lambda>(k, _). fmupd k 1) (fm_entries bls_utxo) fmempty else bls_utxo_outputs),
       m_deleg_utxo := deleg_utxo, m_payout_utxo := payout_utxo,
       m_utxo_tranches := (if utxo_tranches = fmempty
         then fold (\<lambda>(k, v). fmupd k (fmupd 0 v fmempty)) (fm_entries utxo) fmempty else utxo_tranches),
       m_deleg_height := deleg_height, m_pot_utxo := pot_utxo\<rparr>"

section \<open>Staking outputs\<close>

definition AddUtxoStake :: "CPubKey \<Rightarrow> u64 \<Rightarrow> bytes \<Rightarrow> int \<Rightarrow> StakeRegistry \<Rightarrow> StakeRegistry" where
  "AddUtxoStake pubkey amount bls_pubkey height R =
     (let R = R\<lparr>m_utxo := fm_plus pubkey amount (m_utxo R),
                m_utxo_tranches := fmupd pubkey
                  (fm_plus height amount (fm_get fmempty (m_utxo_tranches R) pubkey)) (m_utxo_tranches R)\<rparr>
      in if bls_pubkey \<noteq> []
         then R\<lparr>m_bls_utxo := fmupd pubkey bls_pubkey (m_bls_utxo R),
                m_bls_utxo_outputs := fm_plus pubkey 1 (m_bls_utxo_outputs R)\<rparr>
         else R)"

text \<open>The subtraction from the height bucket; an empty bucket and an empty staker go.\<close>

definition sub_tranche :: "CPubKey \<Rightarrow> u64 \<Rightarrow> int \<Rightarrow> (CPubKey, (int, u64) fmap) fmap \<Rightarrow> (CPubKey, (int, u64) fmap) fmap" where
  "sub_tranche pubkey amount height T =
     (case fmlookup T pubkey of None \<Rightarrow> T
      | Some t \<Rightarrow>
          let t = (case fmlookup t height of None \<Rightarrow> t
                   | Some b \<Rightarrow> let b = (if b \<ge> amount then b - amount else 0)
                       in if b = 0 then fmdrop height t else fmupd height b t)
          in if t = fmempty then fmdrop pubkey T else fmupd pubkey t T)"

definition drop_bls_output :: "CPubKey \<Rightarrow> StakeRegistry \<Rightarrow> StakeRegistry" where
  "drop_bls_output pubkey R =
     (case fmlookup (m_bls_utxo_outputs R) pubkey of None \<Rightarrow> R
      | Some n \<Rightarrow> if n - 1 = 0
          then R\<lparr>m_bls_utxo_outputs := fmdrop pubkey (m_bls_utxo_outputs R),
                 m_bls_utxo := fmdrop pubkey (m_bls_utxo R)\<rparr>
          else R\<lparr>m_bls_utxo_outputs := fmupd pubkey (n - 1) (m_bls_utxo_outputs R)\<rparr>)"

definition SubUtxoStake :: "CPubKey \<Rightarrow> u64 \<Rightarrow> int \<Rightarrow> bool \<Rightarrow> StakeRegistry \<Rightarrow> StakeRegistry" where
  "SubUtxoStake pubkey amount height carried_bls R =
     (case fmlookup (m_utxo R) pubkey of None \<Rightarrow> R
      | Some w \<Rightarrow>
          if w < amount then R
          else let R = R\<lparr>m_utxo := fmupd pubkey (w - amount) (m_utxo R),
                          m_utxo_tranches := sub_tranche pubkey amount height (m_utxo_tranches R)\<rparr>;
                   R = (if carried_bls then drop_bls_output pubkey R else R)
               in if w - amount = 0
                  then R\<lparr>m_utxo := fmdrop pubkey (m_utxo R), m_bls_utxo := fmdrop pubkey (m_bls_utxo R),
                         m_bls_utxo_outputs := fmdrop pubkey (m_bls_utxo_outputs R)\<rparr>
                  else R)"

section \<open>Delegations\<close>

definition SignerFor :: "StakeRegistry \<Rightarrow> CPubKey \<Rightarrow> CPubKey" where
  "SignerFor R controller = SignerForLocked R controller"

definition HasDelegation :: "StakeRegistry \<Rightarrow> CPubKey \<Rightarrow> bool" where
  "HasDelegation R controller \<longleftrightarrow> fmlookup (m_deleg_utxo R) controller \<noteq> None"

definition AddUtxoDelegation :: "CPubKey \<Rightarrow> CPubKey \<Rightarrow> int \<Rightarrow> StakeRegistry \<Rightarrow> StakeRegistry" where
  "AddUtxoDelegation controller signer height R =
     R\<lparr>m_deleg_utxo := fmupd controller signer (m_deleg_utxo R),
       m_deleg_height := fmupd controller height (m_deleg_height R)\<rparr>"

definition SubUtxoDelegation :: "CPubKey \<Rightarrow> CPubKey \<Rightarrow> StakeRegistry \<Rightarrow> StakeRegistry" where
  "SubUtxoDelegation controller signer R =
     (if fmlookup (m_deleg_utxo R) controller = Some signer
      then R\<lparr>m_deleg_utxo := fmdrop controller (m_deleg_utxo R),
             m_deleg_height := fmdrop controller (m_deleg_height R)\<rparr>
      else R)"

section \<open>Payout policies\<close>

definition AddUtxoPayout :: "CPubKey \<Rightarrow> PosPayoutPolicy \<Rightarrow> StakeRegistry \<Rightarrow> StakeRegistry" where
  "AddUtxoPayout signer policy R =
     R\<lparr>m_payout_utxo := fmupd signer
         (fmupd (pp_activation policy) policy (fm_get fmempty (m_payout_utxo R) signer)) (m_payout_utxo R)\<rparr>"

definition SubUtxoPayout :: "CPubKey \<Rightarrow> PosPayoutPolicy \<Rightarrow> StakeRegistry \<Rightarrow> StakeRegistry" where
  "SubUtxoPayout signer policy R =
     (case fmlookup (m_payout_utxo R) signer of None \<Rightarrow> R
      | Some m \<Rightarrow>
          let m = (if fmlookup m (pp_activation policy) = Some policy then fmdrop (pp_activation policy) m else m)
          in if m = fmempty then R\<lparr>m_payout_utxo := fmdrop signer (m_payout_utxo R)\<rparr>
             else R\<lparr>m_payout_utxo := fmupd signer m (m_payout_utxo R)\<rparr>)"

definition HasPayoutAt :: "StakeRegistry \<Rightarrow> CPubKey \<Rightarrow> int \<Rightarrow> bool" where
  "HasPayoutAt R signer activation =
     (case fmlookup (m_payout_utxo R) signer of None \<Rightarrow> False | Some m \<Rightarrow> fmlookup m activation \<noteq> None)"

text \<open>\<open>upper_bound(height)\<close> splits the ordered records; the one before it is in force.\<close>

definition PayoutFor :: "StakeRegistry \<Rightarrow> CPubKey \<Rightarrow> int \<Rightarrow> PosPayoutPolicy option" where
  "PayoutFor R signer height =
     (case fmlookup (m_payout_utxo R) signer of None \<Rightarrow> None
      | Some m \<Rightarrow> (let due = takeWhile (\<lambda>e. fst e \<le> height) (fm_entries m)
                   in if due = [] then None else Some (snd (last due))))"

definition PosPayoutInForce :: "StakeRegistry \<Rightarrow> CPubKey \<Rightarrow> PosPayoutPolicy \<Rightarrow> int \<Rightarrow> bool" where
  "PosPayoutInForce R signer policy height \<longleftrightarrow> PayoutFor R signer height = Some policy"

section \<open>Pots\<close>

definition AddUtxoPot :: "CPubKey \<Rightarrow> COutPoint \<Rightarrow> CAsset \<Rightarrow> int \<Rightarrow> int \<Rightarrow> bool \<Rightarrow> PosRound option
    \<Rightarrow> StakeRegistry \<Rightarrow> StakeRegistry" where
  "AddUtxoPot signer out asset value height coinbase r R =
     R\<lparr>m_pot_utxo := fmupd signer
         (fmupd out \<lparr>pr_asset = asset, pr_value = value, pr_height = height, pr_coinbase = coinbase, pr_round = r\<rparr>
            (fm_get fmempty (m_pot_utxo R) signer)) (m_pot_utxo R)\<rparr>"

definition SubUtxoPot :: "CPubKey \<Rightarrow> COutPoint \<Rightarrow> StakeRegistry \<Rightarrow> StakeRegistry" where
  "SubUtxoPot signer out R =
     (case fmlookup (m_pot_utxo R) signer of None \<Rightarrow> R
      | Some m \<Rightarrow> let m = fmdrop out m
          in if m = fmempty then R\<lparr>m_pot_utxo := fmdrop signer (m_pot_utxo R)\<rparr>
             else R\<lparr>m_pot_utxo := fmupd signer m (m_pot_utxo R)\<rparr>)"

definition PotsFor :: "StakeRegistry \<Rightarrow> CPubKey \<Rightarrow> (COutPoint, PosPotRef) fmap" where
  "PotsFor R signer = (case fmlookup (m_pot_utxo R) signer of None \<Rightarrow> fmempty | Some m \<Rightarrow> m)"

section \<open>Participants\<close>

text \<open>The ordered scan of a staker's tranches stops at the first bucket not below \<open>height\<close>.\<close>

definition tranches_before :: "(int, u64) fmap \<Rightarrow> int \<Rightarrow> u64 \<Rightarrow> u64" where
  "tranches_before t height w = fold (\<lambda>b w. w + snd b) (takeWhile (\<lambda>b. \<not> fst b \<ge> height) (fm_entries t)) w"

definition WeightBefore :: "StakeRegistry \<Rightarrow> CPubKey \<Rightarrow> int \<Rightarrow> u64" where
  "WeightBefore R controller height =
     (let w = (case fmlookup (m_config R) controller of Some c \<Rightarrow> if height > 0 then c else 0 | None \<Rightarrow> 0)
      in case fmlookup (m_utxo_tranches R) controller of None \<Rightarrow> w | Some t \<Rightarrow> tranches_before t height w)"

definition ParticipantsBefore :: "StakeRegistry \<Rightarrow> CPubKey \<Rightarrow> int \<Rightarrow> (CPubKey, u64) fmap" where
  "ParticipantsBefore R signer height =
     fold (\<lambda>c out.
       if SignerForLocked R c \<noteq> signer then out
       else if c \<noteq> signer \<and> (case fmlookup (m_deleg_height R) c of None \<Rightarrow> True | Some h \<Rightarrow> h \<ge> height) then out
       else let w = WeightBefore R c height in if w > 0 then fmupd c w out else out)
       (sorted_list_of_fset (fmdom (m_config R) |\<union>| fmdom (m_utxo_tranches R))) fmempty"

definition ParticipantsFor :: "StakeRegistry \<Rightarrow> CPubKey \<Rightarrow> (CPubKey, u64) fmap" where
  "ParticipantsFor R signer =
     fold (\<lambda>(k, v) out. if v > 0 \<and> SignerForLocked R k = signer then fmupd k v out else out)
       (fm_entries (MergedLocked R)) fmempty"

section \<open>Weights follow the signers\<close>

lemma Merged_get: "fm_get 0 (MergedLocked R) k = fm_get 0 (m_config R) k + fm_get 0 (m_utxo R) k"
  using fold_fm_plus_get [of "\<lambda>k. k" "fm_entries (m_utxo R)" "m_config R" k] filter_entries_key [of k "m_utxo R"]
  by (simp add: MergedLocked_def fm_get_def split: option.splits)

lemma Merged_total: "fm_total (MergedLocked R) = fm_total (m_config R) + fm_total (m_utxo R)"
  using fold_fm_plus_total [of "\<lambda>k. k" "fm_entries (m_utxo R)" "m_config R"]
  by (simp add: MergedLocked_def fm_total_def)

lemma Merged_dom: "fset (fmdom (MergedLocked R)) = fset (fmdom (m_config R)) \<union> fset (fmdom (m_utxo R))"
  using fold_fm_plus_dom [of "\<lambda>k. k" "fm_entries (m_utxo R)" "m_config R"]
  by (simp add: MergedLocked_def fst_set_entries)

lemma Weights_total: "fm_total (WeightsLocked R) = fm_total (MergedLocked R)"
  using fold_fm_plus_total [of "SignerForLocked R" "fm_entries (MergedLocked R)" fmempty]
  by (simp add: WeightsLocked_def) (simp add: fm_total_def)

lemma Weights_get:
  "fm_get 0 (WeightsLocked R) pk =
   sum_list (map snd (filter (\<lambda>e. SignerForLocked R (fst e) = pk) (fm_entries (MergedLocked R))))"
  using fold_fm_plus_get [of "SignerForLocked R" "fm_entries (MergedLocked R)" fmempty pk]
  by (simp add: WeightsLocked_def)

lemma GetWeight_get: "GetWeight R pk = fm_get 0 (WeightsLocked R) pk"
  using fold_add_if [of "\<lambda>e. SignerForLocked R (fst e) = pk" snd "fm_entries (MergedLocked R)" 0]
  by (simp add: GetWeight_def Weights_get case_prod_unfold)

lemma Weights_dom: "fset (fmdom (WeightsLocked R)) = SignerForLocked R ` fset (fmdom (MergedLocked R))"
  using fold_fm_plus_dom [of "SignerForLocked R" "fm_entries (MergedLocked R)" fmempty]
  by (simp add: WeightsLocked_def fst_set_entries)

section \<open>The policy in force\<close>

lemma PayoutFor_SomeI:
  assumes "fmlookup (m_payout_utxo R) signer = Some m" "fmlookup m a = Some p" "a \<le> height"
    and max: "\<And>b. b |\<in>| fmdom m \<Longrightarrow> b \<le> height \<Longrightarrow> b \<le> a"
  shows "PayoutFor R signer height = Some p"
proof -
  let ?l = "last (fm_due m height)"
  note ne = due_max(1) [OF assms(2,3)]
  have "fst ?l |\<in>| fmdom m" using due_last(1) [OF ne] by (rule fmdomI)
  then have "fst ?l \<le> a" using due_last(2) [OF ne] by (rule max)
  then have "fst ?l = a" using due_max(2) [OF assms(2,3)] by (rule order.antisym)
  then have "snd ?l = p" using due_last(1) [OF ne] assms(2) by simp
  then show ?thesis using assms(1) ne by (simp only: PayoutFor_def Let_def takeWhile_entries option.case if_False)
qed

lemma PayoutFor_SomeD:
  assumes "PayoutFor R signer height = Some p"
  shows "\<exists>m a. fmlookup (m_payout_utxo R) signer = Some m \<and> fmlookup m a = Some p \<and> a \<le> height \<and>
      (\<forall>b. b |\<in>| fmdom m \<longrightarrow> b \<le> height \<longrightarrow> b \<le> a)"
proof -
  obtain m where m: "fmlookup (m_payout_utxo R) signer = Some m"
    using assms by (cases "fmlookup (m_payout_utxo R) signer") (simp_all add: PayoutFor_def)
  then have ne: "fm_due m height \<noteq> []" and p: "p = snd (last (fm_due m height))"
    using assms unfolding PayoutFor_def Let_def takeWhile_entries by (simp_all split: if_splits)
  have "\<forall>b. b |\<in>| fmdom m \<longrightarrow> b \<le> height \<longrightarrow> b \<le> fst (last (fm_due m height))"
    using due_max(2) [of m _ _ height] by (metis fmdomE)
  then show ?thesis using m p due_last [OF ne] by blast
qed

lemma PayoutFor_None:
  "PayoutFor R signer height = None \<longleftrightarrow>
   (\<forall>m a. fmlookup (m_payout_utxo R) signer = Some m \<longrightarrow> a |\<in>| fmdom m \<longrightarrow> height < a)"
proof (cases "fmlookup (m_payout_utxo R) signer")
  case (Some m)
  have "fm_due m height = [] \<longleftrightarrow> (\<forall>a. a |\<in>| fmdom m \<longrightarrow> height < a)"
  proof
    assume "fm_due m height = []"
    then show "\<forall>a. a |\<in>| fmdom m \<longrightarrow> height < a" using due_max(1) [of m _ _ height] by (metis fmdomE not_le)
  next
    assume "\<forall>a. a |\<in>| fmdom m \<longrightarrow> height < a"
    then show "fm_due m height = []" using due_last [of height m] by (metis fmdomI not_le)
  qed
  then show ?thesis using Some unfolding PayoutFor_def Let_def takeWhile_entries by simp
qed (simp add: PayoutFor_def)

section \<open>Weight before a height\<close>

lemma tranches_before_sum:
  "tranches_before t height w = w + sum_list (map snd (filter (\<lambda>b. fst b < height) (fm_entries t)))"
  by (simp add: tranches_before_def takeWhile_entries fold_add_sum)

lemma ParticipantsFor_lookup:
  "fmlookup (ParticipantsFor R signer) k =
   (case fmlookup (MergedLocked R) k of None \<Rightarrow> None
    | Some w \<Rightarrow> if w > 0 \<and> SignerForLocked R k = signer then Some w else None)"
  using fold_upd_lookup [OF distinct_fst_entries, of "\<lambda>k v. v > 0 \<and> SignerForLocked R k = signer" "MergedLocked R" fmempty k]
  by (simp add: ParticipantsFor_def map_of_sorted_list split: option.splits)

section \<open>Properties\<close>

text \<open>Delegation moves weight and makes none: the signers' weights sum to the configured and
  the bonded stake, modulo 2 to the 64, and the weight of one signer is that of the map.\<close>

theorem delegation_keeps_total_weight:
  "fm_total (Weights R) = fm_total (m_config R) + fm_total (m_utxo R) \<and>
   GetWeight R pk = fm_get 0 (Weights R) pk"
  by (simp add: Weights_def Weights_total Merged_total GetWeight_get)

text \<open>The payout policy in force at a height is the record of the signer with the greatest activation
  that is not above it, and there is none when every activation is above it.\<close>

theorem payout_in_force_is_latest:
  "PayoutFor R signer height =
     (let m = fm_get fmempty (m_payout_utxo R) signer; due = {a. a |\<in>| fmdom m \<and> a \<le> height}
      in if due = {} then None else fmlookup m (Max due))"
proof (cases "fmlookup (m_payout_utxo R) signer")
  case None
  then show ?thesis by (simp add: PayoutFor_def fm_get_def)
next
  case (Some m)
  let ?due = "{a. a |\<in>| fmdom m \<and> a \<le> height}"
  have fin: "finite ?due" by simp
  show ?thesis
  proof (cases "?due = {}")
    case True
    then have "\<forall>a. a |\<in>| fmdom m \<longrightarrow> height < a" by (metis (mono_tags, lifting) empty_Collect_eq not_le)
    then have "PayoutFor R signer height = None" using Some by (simp add: PayoutFor_None)
    then show ?thesis using Some True by (simp add: fm_get_def Let_def)
  next
    case False
    then have max: "Max ?due |\<in>| fmdom m" "Max ?due \<le> height" using Max_in [OF fin False] by simp_all
    then obtain p where p: "fmlookup m (Max ?due) = Some p" by (metis fmdomE)
    have "PayoutFor R signer height = Some p"
      using Max_ge [OF fin] by (intro PayoutFor_SomeI [OF Some p max(2)]) simp
    then show ?thesis using Some False p by (simp add: fm_get_def Let_def)
  qed
qed

end
