(* ===== verification/ArithUint.thy ===== *)
theory ArithUint
  imports Hashing
begin

text \<open>
  The unsigned big integers of \<open>src/arith_uint256.h\<close> and \<open>src/arith_uint256.cpp\<close>: \<open>base_uint\<close> as the
  list of its 32-bit limbs, least significant first, with the loops of the code over them. Every
  operation is shown to compute the arithmetic of the number the limbs stand for, so that the
  rest of the development takes an \<open>arith_uint256\<close> for a \<open>256 word\<close>.
\<close>

section \<open>Limbs\<close>

type_synonym limbs = "u32 list"

abbreviation WIDTH :: nat where "WIDTH \<equiv> 8"

fun bu_val :: "limbs \<Rightarrow> nat" where
  "bu_val [] = 0"
| "bu_val (x # xs) = unat x + 2 ^ 32 * bu_val xs"

definition bu_zero :: limbs where
  "bu_zero = replicate WIDTH 0"

definition bu_of_u64 :: "u64 \<Rightarrow> limbs" where
  "bu_of_u64 b = ucast b # ucast (drop_bit 32 b) # replicate (WIDTH - 2) 0"

definition bu_not :: "limbs \<Rightarrow> limbs" where
  "bu_not pn = map (\<lambda>x. NOT x) pn"

definition bu_xor :: "limbs \<Rightarrow> limbs \<Rightarrow> limbs" where
  "bu_xor a b = map2 (\<lambda>x y. x XOR y) a b"

definition bu_and :: "limbs \<Rightarrow> limbs \<Rightarrow> limbs" where
  "bu_and a b = map2 (\<lambda>x y. x AND y) a b"

definition bu_or :: "limbs \<Rightarrow> limbs \<Rightarrow> limbs" where
  "bu_or a b = map2 (\<lambda>x y. x OR y) a b"

text \<open>The carry loop: each step works in 64 bits.\<close>

fun add_carry :: "u64 \<Rightarrow> limbs \<Rightarrow> limbs \<Rightarrow> limbs" where
  "add_carry carry (x # xs) (y # ys) =
     (let n = carry + ucast x + ucast y in ucast (n AND 0xffffffff) # add_carry (drop_bit 32 n) xs ys)"
| "add_carry carry _ _ = []"

definition bu_add :: "limbs \<Rightarrow> limbs \<Rightarrow> limbs" where
  "bu_add a b = add_carry 0 a b"

fun bu_inc :: "limbs \<Rightarrow> limbs" where
  "bu_inc [] = []"
| "bu_inc (x # xs) = (if x + 1 = 0 then 0 # bu_inc xs else (x + 1) # xs)"

fun bu_dec :: "limbs \<Rightarrow> limbs" where
  "bu_dec [] = []"
| "bu_dec (x # xs) = (if x - 1 = - 1 then - 1 # bu_dec xs else (x - 1) # xs)"

definition bu_neg :: "limbs \<Rightarrow> limbs" where
  "bu_neg pn = bu_inc (map (\<lambda>x. NOT x) pn)"

definition bu_sub :: "limbs \<Rightarrow> limbs \<Rightarrow> limbs" where
  "bu_sub a b = bu_add a (bu_neg b)"

fun mul_carry :: "u64 \<Rightarrow> u32 \<Rightarrow> limbs \<Rightarrow> limbs" where
  "mul_carry carry b [] = []"
| "mul_carry carry b (x # xs) =
     (let n = carry + ucast b * ucast x in ucast (n AND 0xffffffff) # mul_carry (drop_bit 32 n) b xs)"

definition bu_mul32 :: "limbs \<Rightarrow> u32 \<Rightarrow> limbs" where
  "bu_mul32 pn b32 = mul_carry 0 b32 pn"

text \<open>The inner loop of the product adds the multiples of \<open>b\<close> by one limb to the limbs of the result
  from that position on; it stops where the result does.\<close>

fun mul_row :: "u64 \<Rightarrow> u32 \<Rightarrow> limbs \<Rightarrow> limbs \<Rightarrow> limbs" where
  "mul_row carry p (r # rs) (y # ys) =
     (let n = carry + ucast r + ucast p * ucast y in ucast (n AND 0xffffffff) # mul_row (drop_bit 32 n) p rs ys)"
| "mul_row carry p rs _ = rs"

fun mul_rows :: "limbs \<Rightarrow> limbs \<Rightarrow> limbs \<Rightarrow> limbs" where
  "mul_rows [] b r = r"
| "mul_rows (p # ps) b r = (case mul_row 0 p r b of [] \<Rightarrow> [] | x # rest \<Rightarrow> x # mul_rows ps b rest)"

definition bu_mul :: "limbs \<Rightarrow> limbs \<Rightarrow> limbs" where
  "bu_mul a b = mul_rows a b (replicate (length a) 0)"

definition or_at :: "nat \<Rightarrow> u32 \<Rightarrow> limbs \<Rightarrow> limbs" where
  "or_at i x pn = pn[i := pn ! i OR x]"

definition shl_step :: "limbs \<Rightarrow> nat \<Rightarrow> nat \<Rightarrow> nat \<Rightarrow> limbs \<Rightarrow> limbs" where
  "shl_step a k s i pn =
     (let pn = (if i + k + 1 < length a \<and> s \<noteq> 0 then or_at (i + k + 1) (drop_bit (32 - s) (a ! i)) pn else pn)
      in if i + k < length a then or_at (i + k) (push_bit s (a ! i)) pn else pn)"

definition bu_shl :: "limbs \<Rightarrow> nat \<Rightarrow> limbs" where
  "bu_shl a shift = fold (shl_step a (shift div 32) (shift mod 32)) [0..<length a] (replicate (length a) 0)"

definition shr_step :: "limbs \<Rightarrow> nat \<Rightarrow> nat \<Rightarrow> nat \<Rightarrow> limbs \<Rightarrow> limbs" where
  "shr_step a k s i pn =
     (let pn = (if i \<ge> k + 1 \<and> s \<noteq> 0 then or_at (i - k - 1) (push_bit (32 - s) (a ! i)) pn else pn)
      in if i \<ge> k then or_at (i - k) (drop_bit s (a ! i)) pn else pn)"

definition bu_shr :: "limbs \<Rightarrow> nat \<Rightarrow> limbs" where
  "bu_shr a shift = fold (shr_step a (shift div 32) (shift mod 32)) [0..<length a] (replicate (length a) 0)"

text \<open>From the most significant limb down; the lists are given reversed.\<close>

fun compare_rev :: "limbs \<Rightarrow> limbs \<Rightarrow> int" where
  "compare_rev (x # xs) (y # ys) = (if x < y then - 1 else if x > y then 1 else compare_rev xs ys)"
| "compare_rev _ _ = 0"

definition bu_CompareTo :: "limbs \<Rightarrow> limbs \<Rightarrow> int" where
  "bu_CompareTo a b = compare_rev (rev a) (rev b)"

definition bu_EqualTo :: "limbs \<Rightarrow> u64 \<Rightarrow> bool" where
  "bu_EqualTo a b \<longleftrightarrow> list_all (\<lambda>x. x = 0) (drop 2 a) \<and> ucast (a ! 1) = drop_bit 32 b \<and> ucast (a ! 0) = b AND 0xffffffff"

text \<open>The highest bit set in a nonzero limb, counted from \<open>n\<close> down; bit 0 is not tested.\<close>

fun top_bit :: "u32 \<Rightarrow> nat \<Rightarrow> nat" where
  "top_bit x 0 = 0"
| "top_bit x (Suc n) = (if bit x (Suc n) then Suc n else top_bit x n)"

fun bits_rev :: "limbs \<Rightarrow> nat" where
  "bits_rev [] = 0"
| "bits_rev (x # xs) = (if x \<noteq> 0 then 32 * length xs + top_bit x 31 + 1 else bits_rev xs)"

definition bu_bits :: "limbs \<Rightarrow> nat" where
  "bu_bits pn = bits_rev (rev pn)"

text \<open>The shift-and-subtract loop: the shift counts down to 0.\<close>

definition div_step :: "nat \<Rightarrow> limbs \<times> limbs \<times> limbs \<Rightarrow> limbs \<times> limbs \<times> limbs" where
  "div_step shift st = (case st of (num, d, q) \<Rightarrow>
     let (num, q) = (if bu_CompareTo num d \<ge> 0 then (bu_sub num d, or_at (shift div 32) (push_bit (shift mod 32) 1) q)
                     else (num, q))
     in (num, bu_shr d 1, q))"

fun div_loop :: "nat \<Rightarrow> limbs \<times> limbs \<times> limbs \<Rightarrow> limbs \<times> limbs \<times> limbs" where
  "div_loop 0 st = div_step 0 st"
| "div_loop (Suc shift) st = div_loop shift (div_step (Suc shift) st)"

definition bu_div :: "limbs \<Rightarrow> limbs \<Rightarrow> string + limbs" where
  "bu_div a b =
     (let num_bits = bu_bits a; div_bits = bu_bits b in
      if div_bits = 0 then Inl ''Division by zero''
      else if div_bits > num_bits then Inr (replicate (length a) 0)
      else let shift = num_bits - div_bits
        in Inr (snd (snd (div_loop shift (a, bu_shl b shift, replicate (length a) 0)))))"

definition bu_GetLow64 :: "limbs \<Rightarrow> u64" where
  "bu_GetLow64 pn = ucast (pn ! 0) OR push_bit 32 (ucast (pn ! 1))"

section \<open>Blobs and the compact form\<close>

definition ArithToUint256 :: "limbs \<Rightarrow> uint256" where
  "ArithToUint256 a = concat (map (\<lambda>x. WriteLE32 (a ! x)) [0..<WIDTH])"

definition UintToArith256 :: "uint256 \<Rightarrow> limbs" where
  "UintToArith256 a = map (\<lambda>x. ReadLE32 (take 4 (drop (x * 4) a))) [0..<WIDTH]"

definition SetCompact :: "u32 \<Rightarrow> limbs \<times> bool \<times> bool" where
  "SetCompact nCompact =
     (let nSize = unat (drop_bit 24 nCompact); nWord = nCompact AND 0x007fffff;
          nWord' = (if nSize \<le> 3 then drop_bit (8 * (3 - nSize)) nWord else nWord);
          v = (if nSize \<le> 3 then bu_of_u64 (ucast nWord') else bu_shl (bu_of_u64 (ucast nWord)) (8 * (nSize - 3)))
      in (v, nWord' \<noteq> 0 \<and> nCompact AND 0x00800000 \<noteq> 0,
          nWord' \<noteq> 0 \<and> (nSize > 34 \<or> (nWord' > 0xff \<and> nSize > 33) \<or> (nWord' > 0xffff \<and> nSize > 32))))"

section \<open>Sums and products\<close>

lemma low_limb: "unat (ucast (n AND 0xffffffff :: u64) :: u32) = unat n mod 2 ^ 32"
proof -
  have "(0xffffffff :: u64) = mask 32" by (simp add: mask_eq_exp_minus_1)
  then have "n AND 0xffffffff = take_bit 32 n" by (simp add: take_bit_eq_mask)
  then show ?thesis by (simp add: unsigned_ucast_eq take_bit_eq_mod unat_mod)
qed

lemma high_limb: "unat (drop_bit 32 n :: u64) = unat n div 2 ^ 32"
  by (subst unat_drop_bit_eq) (simp only: drop_bit_eq_div)

lemma unat_up [simp]: "unat (ucast (x :: u32) :: u64) = unat x"
  using unsigned_less [of x, where 'a = nat] by (simp add: unsigned_ucast_eq take_bit_eq_mod)

lemma limb_lt: "unat (x :: u32) < 2 ^ 32"
  using unsigned_less [of x, where 'a = nat] by simp

lemma unat_u64_add: "unat a + unat b < 2 ^ 64 \<Longrightarrow> unat (a + b :: u64) = unat a + unat b"
  by (simp add: unat_word_ariths)

lemma unat_u64_mult: "unat a * unat b < 2 ^ 64 \<Longrightarrow> unat (a * b :: u64) = unat a * unat b"
  by (simp add: unat_word_ariths)

lemma carry_split: "(n mod B) + B * ((n div B + m) mod C) = (n + B * m) mod (B * C)" for n :: nat
proof (cases "B = 0")
  case False
  then show ?thesis by (simp add: mod_mult2_eq add.commute)
qed simp

lemma length_add_carry [simp]: "length xs = length ys \<Longrightarrow> length (add_carry c xs ys) = length xs"
  by (induction c xs ys rule: add_carry.induct) (simp_all add: Let_def)

lemma length_mul_carry [simp]: "length (mul_carry c b xs) = length xs"
  by (induction xs arbitrary: c) (simp_all add: Let_def)

lemma length_mul_row [simp]: "length (mul_row c p rs ys) = length rs"
  by (induction c p rs ys rule: mul_row.induct) (simp_all add: Let_def)

lemma val_add_carry:
  "length xs = length ys \<Longrightarrow> unat c < 2 ^ 32 \<Longrightarrow>
   bu_val (add_carry c xs ys) = (unat c + bu_val xs + bu_val ys) mod 2 ^ (32 * length xs)"
proof (induction c xs ys rule: add_carry.induct)
  case (1 c x xs y ys)
  let ?n = "c + ucast x + ucast y :: u64"
  have "unat (c + ucast x) = unat c + unat x"
    using 1(3) limb_lt [of x] by (subst unat_u64_add) simp_all
  then have n: "unat ?n = unat c + unat x + unat y"
    using 1(3) limb_lt [of x] limb_lt [of y] by (subst unat_u64_add) simp_all
  have hi: "unat (drop_bit 32 ?n) < 2 ^ 32" unfolding high_limb n using 1(3) limb_lt [of x] limb_lt [of y] by simp
  have "bu_val (add_carry c (x # xs) (y # ys)) =
      unat ?n mod 2 ^ 32 + 2 ^ 32 * ((unat ?n div 2 ^ 32 + (bu_val xs + bu_val ys)) mod 2 ^ (32 * length xs))"
    using 1(1) [OF refl _ hi] 1(2) by (simp add: Let_def low_limb high_limb add.assoc)
  also have "\<dots> = (unat ?n + 2 ^ 32 * (bu_val xs + bu_val ys)) mod (2 ^ 32 * 2 ^ (32 * length xs))"
    by (rule carry_split)
  finally show ?case unfolding n by (simp add: power_add algebra_simps)
qed simp_all

lemma val_mul_carry:
  "unat c < 2 ^ 32 \<Longrightarrow> bu_val (mul_carry c b xs) = (unat c + unat b * bu_val xs) mod 2 ^ (32 * length xs)"
proof (induction xs arbitrary: c)
  case (Cons x xs)
  let ?n = "c + ucast b * ucast x :: u64"
  have bx: "unat b * unat x \<le> (2 ^ 32 - 1) * (2 ^ 32 - 1)"
    using limb_lt [of b] limb_lt [of x] by (intro mult_le_mono) simp_all
  then have n: "unat ?n = unat c + unat b * unat x"
    using Cons.prems by (subst unat_u64_add; subst unat_u64_mult) simp_all
  have hi: "unat (drop_bit 32 ?n) < 2 ^ 32" unfolding high_limb n using Cons.prems bx by simp
  have "bu_val (mul_carry c b (x # xs)) =
      unat ?n mod 2 ^ 32 + 2 ^ 32 * ((unat ?n div 2 ^ 32 + unat b * bu_val xs) mod 2 ^ (32 * length xs))"
    using Cons.IH [OF hi] by (simp add: Let_def low_limb high_limb)
  also have "\<dots> = (unat ?n + 2 ^ 32 * (unat b * bu_val xs)) mod (2 ^ 32 * 2 ^ (32 * length xs))"
    by (rule carry_split)
  finally show ?case unfolding n by (simp add: power_add algebra_simps)
qed simp

lemma val_mul_row:
  "length rs \<le> length ys \<Longrightarrow> unat c < 2 ^ 32 \<Longrightarrow>
   bu_val (mul_row c p rs ys) = (unat c + bu_val rs + unat p * bu_val ys) mod 2 ^ (32 * length rs)"
proof (induction c p rs ys rule: mul_row.induct)
  case (1 c p r rs y ys)
  let ?n = "c + ucast r + ucast p * ucast y :: u64"
  have py: "unat p * unat y \<le> (2 ^ 32 - 1) * (2 ^ 32 - 1)"
    using limb_lt [of p] limb_lt [of y] by (intro mult_le_mono) simp_all
  have "unat (c + ucast r) = unat c + unat r"
    using 1(3) limb_lt [of r] by (subst unat_u64_add) simp_all
  moreover have "unat (ucast p * ucast y :: u64) = unat p * unat y" using py by (subst unat_u64_mult) simp_all
  ultimately have n: "unat ?n = unat c + unat r + unat p * unat y"
    using 1(3) limb_lt [of r] py by (subst unat_u64_add) simp_all
  have hi: "unat (drop_bit 32 ?n) < 2 ^ 32" unfolding high_limb n using 1(3) limb_lt [of r] py by simp
  have "bu_val (mul_row c p (r # rs) (y # ys)) =
      unat ?n mod 2 ^ 32 + 2 ^ 32 * ((unat ?n div 2 ^ 32 + (bu_val rs + unat p * bu_val ys)) mod 2 ^ (32 * length rs))"
    using 1(1) [OF refl _ hi] 1(2) by (simp add: Let_def low_limb high_limb add.assoc)
  also have "\<dots> = (unat ?n + 2 ^ 32 * (bu_val rs + unat p * bu_val ys)) mod (2 ^ 32 * 2 ^ (32 * length rs))"
    by (rule carry_split)
  finally show ?case unfolding n by (simp add: power_add algebra_simps)
qed simp_all

lemma bu_val_less: "bu_val xs < 2 ^ (32 * length xs)"
proof (induction xs)
  case (Cons x xs)
  have "unat x + 2 ^ 32 * bu_val xs < 2 ^ 32 + 2 ^ 32 * bu_val xs" using limb_lt [of x] by simp
  also have "\<dots> \<le> 2 ^ 32 * 2 ^ (32 * length xs)" using Cons by (metis Suc_leI mult_Suc_right mult_le_mono2)
  finally show ?case by (simp add: power_add)
qed simp

lemma bu_val_zero [simp]: "bu_val (replicate n 0) = 0"
  by (induction n) simp_all

lemma length_mul_rows [simp]: "length (mul_rows ps b r) = length r" if "length ps \<le> length r"
  using that
proof (induction ps arbitrary: r)
  case (Cons p ps)
  obtain x rest where m: "mul_row 0 p r b = x # rest" "length r = Suc (length rest)"
    using length_mul_row [of 0 p r b] Cons.prems by (cases "mul_row 0 p r b") auto
  then show ?case using Cons.IH [of rest] Cons.prems by simp
qed simp

lemma val_mul_rows:
  "length ps = length r \<Longrightarrow> length r \<le> length b \<Longrightarrow>
   bu_val (mul_rows ps b r) = (bu_val r + bu_val ps * bu_val b) mod 2 ^ (32 * length r)"
proof (induction ps arbitrary: r)
  case (Cons p ps)
  let ?B = "2 ^ 32 :: nat" and ?C = "2 ^ (32 * length ps) :: nat"
  have len: "length (mul_row 0 p r b) = Suc (length ps)" using Cons.prems by simp
  then obtain x rest where m: "mul_row 0 p r b = x # rest" "length rest = length ps" by (cases "mul_row 0 p r b") auto
  have "32 * length r = 32 + 32 * length ps" using Cons.prems(1) by simp
  then have pw: "2 ^ (32 * length r) = ?B * ?C" by (simp only: power_add)
  have r: "unat x + ?B * bu_val rest = (bu_val r + unat p * bu_val b) mod (?B * ?C)"
    using val_mul_row [of r b 0 p] Cons.prems(2) m unfolding pw by simp
  have "bu_val (mul_rows (p # ps) b r) = unat x + ?B * ((bu_val rest + bu_val ps * bu_val b) mod ?C)"
    using Cons.IH [of rest] Cons.prems m by simp
  also have "\<dots> = (unat x + ?B * (bu_val rest + bu_val ps * bu_val b)) mod (?B * ?C)"
    using carry_split [of "unat x" ?B "bu_val rest + bu_val ps * bu_val b" ?C] limb_lt [of x] by simp
  also have "unat x + ?B * (bu_val rest + bu_val ps * bu_val b) =
      (bu_val r + unat p * bu_val b) mod (?B * ?C) + ?B * bu_val ps * bu_val b"
    unfolding r [symmetric] by (simp add: algebra_simps)
  also have "\<dots> mod (?B * ?C) = (bu_val r + (unat p + ?B * bu_val ps) * bu_val b) mod (?B * ?C)"
    unfolding mod_add_left_eq by (simp add: algebra_simps)
  finally show ?case unfolding pw by simp
qed simp

lemma val_bu_add: "length a = length b \<Longrightarrow> bu_val (bu_add a b) = (bu_val a + bu_val b) mod 2 ^ (32 * length a)"
  using val_add_carry [of a b 0] by (simp add: bu_add_def)

lemma val_bu_mul32: "bu_val (bu_mul32 a b) = bu_val a * unat b mod 2 ^ (32 * length a)"
  using val_mul_carry [of 0 b a] by (simp add: bu_mul32_def mult.commute)

lemma val_bu_mul: "length a = length b \<Longrightarrow> bu_val (bu_mul a b) = bu_val a * bu_val b mod 2 ^ (32 * length a)"
  using val_mul_rows [of a "replicate (length a) 0" b] by (simp add: bu_mul_def)

lemma length_bu_inc [simp]: "length (bu_inc a) = length a"
  by (induction a) simp_all

lemma length_ops [simp]:
  "length (bu_neg a) = length a" "length (bu_not a) = length a" "length (bu_mul32 a p) = length a"
  "length a = length b \<Longrightarrow> length (bu_add a b) = length a" "length a = length b \<Longrightarrow> length (bu_sub a b) = length a"
  "length a = length b \<Longrightarrow> length (bu_mul a b) = length a"
  by (simp_all add: bu_neg_def bu_not_def bu_mul32_def bu_add_def bu_sub_def bu_mul_def)

lemma val_bu_inc: "bu_val (bu_inc a) = (bu_val a + 1) mod 2 ^ (32 * length a)"
proof (induction a)
  case (Cons x xs)
  let ?B = "2 ^ 32 :: nat" and ?C = "2 ^ (32 * length xs) :: nat"
  have "(unat x + 1 + ?B * bu_val xs) mod (?B * ?C) = (unat x + 1) mod ?B + ?B * (((unat x + 1) div ?B + bu_val xs) mod ?C)"
    by (rule carry_split [symmetric])
  moreover have "unat (x + 1) = (unat x + 1) mod ?B" by (simp add: unat_word_ariths)
  moreover have "(unat x + 1) div ?B = (if x + 1 = 0 then 1 else 0)"
  proof -
    have "x + 1 = 0 \<longleftrightarrow> (unat x + 1) mod ?B = 0" using calculation(2) by (metis unat_eq_zero)
    then show ?thesis using limb_lt [of x] by (cases "unat x + 1 = ?B") auto
  qed
  ultimately show ?case using Cons.IH bu_val_less [of xs] by (auto simp: power_add add.commute)
qed simp

lemma unat_NOT: "unat (NOT x) + unat x = 2 ^ 32 - 1" for x :: u32
proof -
  have "NOT x + x = - 1" by (simp add: not_eq_complement)
  then have "(unat (NOT x) + unat x) mod 2 ^ 32 = 2 ^ 32 - 1"
    using unat_word_ariths(1) [of "NOT x" x] by (simp add: unsigned_minus_1_eq_mask mask_eq_exp_minus_1)
  moreover have "unat (NOT x) + unat x < 2 ^ 32 + (2 ^ 32 - 1)" using limb_lt [of x] limb_lt [of "NOT x"] by simp
  ultimately show ?thesis by (cases "unat (NOT x) + unat x < 2 ^ 32") (auto simp: le_mod_geq)
qed

lemma val_bu_not: "bu_val (bu_not a) + bu_val a + 1 = 2 ^ (32 * length a)"
proof (induction a)
  case (Cons x xs)
  have "bu_val (bu_not (x # xs)) + bu_val (x # xs) + 1 =
      (unat (NOT x) + unat x) + 1 + 2 ^ 32 * (bu_val (bu_not xs) + bu_val xs)"
    by (simp add: bu_not_def algebra_simps)
  also have "\<dots> = 2 ^ 32 * (bu_val (bu_not xs) + bu_val xs + 1)" unfolding unat_NOT by simp
  also have "\<dots> = 2 ^ 32 * 2 ^ (32 * length xs)" using Cons by simp
  finally show ?case by (simp add: power_add)
qed (simp add: bu_not_def)

lemma val_bu_neg: "bu_val (bu_neg a) = (2 ^ (32 * length a) - bu_val a) mod 2 ^ (32 * length a)"
proof -
  have "bu_val (bu_neg a) = (bu_val (bu_not a) + 1) mod 2 ^ (32 * length a)"
    using val_bu_inc [of "bu_not a"] by (simp add: bu_neg_def bu_not_def)
  also have "bu_val (bu_not a) + 1 = 2 ^ (32 * length a) - bu_val a" using val_bu_not [of a] by linarith
  finally show ?thesis .
qed

lemma val_bu_sub:
  assumes "length a = length b" "bu_val b \<le> bu_val a"
  shows "bu_val (bu_sub a b) = bu_val a - bu_val b"
proof -
  let ?M = "2 ^ (32 * length a) :: nat"
  have "bu_val (bu_sub a b) = (bu_val a + (?M - bu_val b)) mod ?M"
    using assms(1) by (simp add: bu_sub_def val_bu_add val_bu_neg mod_add_right_eq)
  also have "bu_val a + (?M - bu_val b) = (bu_val a - bu_val b) + ?M"
    using assms bu_val_less [of b] by simp
  finally show ?thesis using bu_val_less [of a] by simp
qed

section \<open>Bits\<close>

lemma bit_limb_sum: "bit (unat (x :: u32) + 4294967296 * m) n \<longleftrightarrow> (if n < 32 then bit x n else bit m (n - 32))"
proof -
  have "bit (unat x + push_bit 32 m) n \<longleftrightarrow> bit (unat x) n \<or> bit (push_bit 32 m) n"
    by (rule bit_disjunctive_add_iff) (auto simp: bit_unsigned_iff bit_push_bit_iff dest: bit_imp_le_length)
  then have "bit (unat x + push_bit 32 m) n \<longleftrightarrow> (if n < 32 then bit x n else bit m (n - 32))"
    by (auto simp: bit_unsigned_iff bit_push_bit_iff dest: bit_imp_le_length)
  moreover have "push_bit 32 m = 4294967296 * m" by (simp add: push_bit_eq_mult)
  ultimately show ?thesis by simp
qed

lemma bit_bu_val: "bit (bu_val a) n \<longleftrightarrow> n < 32 * length a \<and> bit (a ! (n div 32)) (n mod 32)"
proof (induction a arbitrary: n)
  case (Cons x xs)
  show ?case
  proof (cases "n < 32")
    case False
    then have "n div 32 = Suc ((n - 32) div 32)" "n mod 32 = (n - 32) mod 32" by (simp_all add: le_div_geq le_mod_geq)
    then show ?thesis using Cons.IH [of "n - 32"] False by (auto simp: bit_limb_sum)
  qed (simp add: bit_limb_sum)
qed simp

lemma length_or_at [simp]: "length (or_at i x pn) = length pn"
  by (simp add: or_at_def)

lemma or_at_nth: "i < length pn \<Longrightarrow> or_at i x pn ! j = (if i = j then pn ! i OR x else pn ! j)"
  by (auto simp: or_at_def nth_list_update)

lemma length_shl_step [simp]: "length (shl_step a k s i pn) = length pn"
  by (simp add: shl_step_def Let_def)

lemma length_shr_step [simp]: "length (shr_step a k s i pn) = length pn"
  by (simp add: shr_step_def Let_def)

lemma length_fold_step: "(\<And>i pn. length (f i pn) = length pn) \<Longrightarrow> length (fold f is pn) = length pn"
  by (induction "is" arbitrary: pn) simp_all

lemma length_shifts [simp]: "length (bu_shl a n) = length a" "length (bu_shr a n) = length a"
  by (simp_all add: bu_shl_def bu_shr_def length_fold_step)

text \<open>One step of a shift puts the bits of limb \<open>i\<close> in place: the bit at \<open>q * 32 + p\<close>.\<close>

lemma shl_step_bit:
  assumes "length pn = length a" "s < 32" "q < length a" "p < 32"
  shows "bit (shl_step a k s i pn ! q) p \<longleftrightarrow> bit (pn ! q) p \<or>
    (q = i + k \<and> s \<le> p \<and> bit (a ! i) (p - s)) \<or> (q = i + k + 1 \<and> p < s \<and> bit (a ! i) (32 + p - s))"
proof -
  have drop: "bit (drop_bit (32 - s) x) p \<longleftrightarrow> p < s \<and> bit x (32 + p - s)" for x :: u32
    using assms(2,4) by (auto simp: bit_drop_bit_eq dest: bit_imp_le_length)
  have push: "bit (push_bit s x) p \<longleftrightarrow> s \<le> p \<and> bit x (p - s)" for x :: u32
    using assms(4) by (auto simp: bit_push_bit_iff)
  show ?thesis using assms
    by (auto simp: shl_step_def Let_def or_at_nth bit_or_iff drop push)
qed

lemma shr_step_bit:
  assumes "length pn = length a" "s < 32" "q < length a" "p < 32" "i < length a"
  shows "bit (shr_step a k s i pn ! q) p \<longleftrightarrow> bit (pn ! q) p \<or>
    (i = q + k \<and> bit (a ! i) (p + s)) \<or> (i = q + k + 1 \<and> 32 \<le> p + s \<and> bit (a ! i) (p + s - 32))"
proof -
  have push: "bit (push_bit (32 - s) x) p \<longleftrightarrow> 32 \<le> p + s \<and> bit x (p + s - 32)" for x :: u32
    using assms(2,4) by (auto simp: bit_push_bit_iff)
  have drop: "bit (drop_bit s x) p \<longleftrightarrow> bit x (p + s)" for x :: u32
    by (simp add: bit_drop_bit_eq add.commute)
  have "s = 0 \<Longrightarrow> \<not> 32 \<le> p + s" using assms(4) by simp
  then show ?thesis using assms
    by (auto simp: shr_step_def Let_def or_at_nth bit_or_iff drop push)
qed

lemma shl_fold_bit:
  assumes "s < 32" "q < length a" "p < 32"
  shows "bit (fold (shl_step a k s) [0..<n] (replicate (length a) 0) ! q) p \<longleftrightarrow>
    (\<exists>i < n. (q = i + k \<and> s \<le> p \<and> bit (a ! i) (p - s)) \<or> (q = i + k + 1 \<and> p < s \<and> bit (a ! i) (32 + p - s)))"
proof (induction n)
  case (Suc n)
  have "length (fold (shl_step a k s) [0..<n] (replicate (length a) 0)) = length a" by (simp add: length_fold_step)
  from shl_step_bit [OF this assms, of k n] Suc show ?case by (auto simp: less_Suc_eq)
qed (use assms in simp)

lemma shr_fold_bit:
  assumes "s < 32" "q < length a" "p < 32"
  shows "n \<le> length a \<Longrightarrow> bit (fold (shr_step a k s) [0..<n] (replicate (length a) 0) ! q) p \<longleftrightarrow>
    (\<exists>i < n. (i = q + k \<and> bit (a ! i) (p + s)) \<or> (i = q + k + 1 \<and> 32 \<le> p + s \<and> bit (a ! i) (p + s - 32)))"
proof (induction n)
  case (Suc n)
  have "length (fold (shr_step a k s) [0..<n] (replicate (length a) 0)) = length a" by (simp add: length_fold_step)
  from shr_step_bit [OF this assms, of n k] Suc show ?case by (auto simp: less_Suc_eq)
qed (use assms in simp)

lemma limb_pos: "p < 32 \<Longrightarrow> (32 * q + p) div 32 = q \<and> (32 * q + p) mod 32 = (p :: nat)"
  by simp

lemma bit_at: "p < 32 \<Longrightarrow> bit (bu_val a) (32 * q + p) \<longleftrightarrow> q < length a \<and> bit (a ! q) p"
  by (auto simp: bit_bu_val)

lemma shift_pos:
  fixes m n q p k s :: nat
  assumes "m = 32 * q + p" "p < 32" "n = 32 * k + s" "s < 32"
  shows "s \<le> p \<Longrightarrow> n \<le> m \<longleftrightarrow> k \<le> q" "s \<le> p \<Longrightarrow> k \<le> q \<Longrightarrow> m - n = 32 * (q - k) + (p - s)"
    "p < s \<Longrightarrow> n \<le> m \<longleftrightarrow> k + 1 \<le> q" "p < s \<Longrightarrow> k + 1 \<le> q \<Longrightarrow> m - n = 32 * (q - k - 1) + (32 + p - s)"
proof -
  show "n \<le> m \<longleftrightarrow> k \<le> q" if "s \<le> p" by (rule iffI; use assms that in linarith)
  show "n \<le> m \<longleftrightarrow> k + 1 \<le> q" if "p < s" by (rule iffI; use assms that in linarith)
  show "m - n = 32 * (q - k) + (p - s)" if h: "s \<le> p" "k \<le> q"
  proof -
    obtain d where "q = k + d" using h(2) le_Suc_ex by blast
    then show ?thesis using assms h(1) by simp
  qed
  show "m - n = 32 * (q - k - 1) + (32 + p - s)" if h: "p < s" "k + 1 \<le> q"
  proof -
    obtain d where "q = k + 1 + d" using h(2) le_Suc_ex by blast
    then show ?thesis using assms h(1) by simp
  qed
qed

lemma val_bu_shl: "bu_val (bu_shl a n) = take_bit (32 * length a) (push_bit n (bu_val a))"
proof (rule bit_eqI)
  fix m :: nat
  define q p k s where d: "q = m div 32" "p = m mod 32" "k = n div 32" "s = n mod 32"
  then have m: "m = 32 * q + p" "p < 32" and n: "n = 32 * k + s" "s < 32" by simp_all
  have "bit (bu_val (bu_shl a n)) m \<longleftrightarrow> q < length a \<and> bit (bu_shl a n ! q) p"
    unfolding m(1) using bit_at [OF m(2)] by simp
  also have "\<dots> \<longleftrightarrow> q < length a \<and> n \<le> m \<and> bit (bu_val a) (m - n)"
  proof (cases "q < length a")
    case True
    have b: "bit (bu_shl a n ! q) p \<longleftrightarrow> (\<exists>i < length a. (q = i + k \<and> s \<le> p \<and> bit (a ! i) (p - s)) \<or>
        (q = i + k + 1 \<and> p < s \<and> bit (a ! i) (32 + p - s)))"
      unfolding bu_shl_def d(3,4) [symmetric] by (rule shl_fold_bit [OF n(2) True m(2)])
    show ?thesis
    proof (cases "s \<le> p")
      case le: True
      have "p - s < 32" using m(2) by simp
      have "bit (bu_shl a n ! q) p \<longleftrightarrow> k \<le> q \<and> bit (a ! (q - k)) (p - s)"
        (is "_ \<longleftrightarrow> ?r")
      proof
        assume "bit (bu_shl a n ! q) p"
        then obtain i where "q = i + k" "bit (a ! i) (p - s)" unfolding b using le by auto
        then show ?r by simp
      next
        assume ?r
        then show "bit (bu_shl a n ! q) p" unfolding b using le True by (intro exI [of _ "q - k"]) simp
      qed
      moreover have "n \<le> m \<longleftrightarrow> k \<le> q" "k \<le> q \<Longrightarrow> m - n = 32 * (q - k) + (p - s)"
        using shift_pos(1,2) [OF m n le] by simp_all
      ultimately show ?thesis using bit_at [OF \<open>p - s < 32\<close>, of a "q - k"] True by auto
    next
      case False
      have "32 + p - s < 32" using False by simp
      have "bit (bu_shl a n ! q) p \<longleftrightarrow> k + 1 \<le> q \<and> bit (a ! (q - k - 1)) (32 + p - s)"
      proof
        assume "bit (bu_shl a n ! q) p"
        then obtain i where "q = i + k + 1" "bit (a ! i) (32 + p - s)" unfolding b using False by auto
        then show "k + 1 \<le> q \<and> bit (a ! (q - k - 1)) (32 + p - s)" by simp
      next
        assume "k + 1 \<le> q \<and> bit (a ! (q - k - 1)) (32 + p - s)"
        then show "bit (bu_shl a n ! q) p" unfolding b using False True by (intro exI [of _ "q - k - 1"]) simp
      qed
      moreover have "n \<le> m \<longleftrightarrow> k + 1 \<le> q" "k + 1 \<le> q \<Longrightarrow> m - n = 32 * (q - k - 1) + (32 + p - s)"
        using shift_pos(3,4) [OF m n] False by simp_all
      ultimately show ?thesis using bit_at [OF \<open>32 + p - s < 32\<close>, of a "q - k - 1"] True by auto
    qed
  qed simp
  also have "\<dots> \<longleftrightarrow> bit (take_bit (32 * length a) (push_bit n (bu_val a))) m"
    using m by (auto simp: bit_take_bit_iff bit_push_bit_iff)
  finally show "bit (bu_val (bu_shl a n)) m \<longleftrightarrow> bit (take_bit (32 * length a) (push_bit n (bu_val a))) m" .
qed

lemma val_bu_shr: "bu_val (bu_shr a n) = drop_bit n (bu_val a)"
proof (rule bit_eqI)
  fix m :: nat
  define q p k s where d: "q = m div 32" "p = m mod 32" "k = n div 32" "s = n mod 32"
  then have m: "m = 32 * q + p" "p < 32" and n: "n = 32 * k + s" "s < 32" by simp_all
  have b: "bit (bu_val (bu_shr a n)) m \<longleftrightarrow> q < length a \<and> bit (bu_shr a n ! q) p"
    unfolding m(1) using bit_at [OF m(2)] by simp
  note f = shr_fold_bit [OF n(2) _ m(2), of q a "length a" k]
  show "bit (bu_val (bu_shr a n)) m \<longleftrightarrow> bit (drop_bit n (bu_val a)) m"
  proof (cases "p + s < 32")
    case True
    then have "n + m = 32 * (q + k) + (p + s)" using m n by simp
    then show ?thesis using b f bit_at [OF True, of a "q + k"] True by (auto simp: bit_drop_bit_eq bu_shr_def d(3,4))
  next
    case False
    then have "n + m = 32 * (q + k + 1) + (p + s - 32)" "p + s - 32 < 32" using m n by simp_all
    moreover have "\<not> bit (a ! i) (p + s)" for i using False by (auto dest: bit_imp_le_length)
    ultimately show ?thesis using b f bit_at [of "p + s - 32" a "q + k + 1"] False
      by (auto simp: bit_drop_bit_eq bu_shr_def d(3,4))
  qed
qed

section \<open>Comparison and length\<close>

lemma val_append: "bu_val (a @ b) = bu_val a + 2 ^ (32 * length a) * bu_val b"
  by (induction a) (simp_all add: power_add algebra_simps)

lemma compare_val:
  "length a = length b \<Longrightarrow> bu_CompareTo a b = (if bu_val a < bu_val b then - 1 else if bu_val b < bu_val a then 1 else 0)"
proof (induction a arbitrary: b rule: rev_induct)
  case (snoc x xs)
  obtain ys y where b: "b = ys @ [y]" "length ys = length xs" using snoc.prems by (cases b rule: rev_cases) auto
  let ?M = "2 ^ (32 * length xs) :: nat"
  have v: "bu_val (xs @ [x]) = bu_val xs + ?M * unat x" "bu_val b = bu_val ys + ?M * unat y" using b by (simp_all add: val_append)
  have lt: "bu_val xs < ?M" "bu_val ys < ?M" using bu_val_less [of xs] bu_val_less [of ys] b(2) by simp_all
  have step: "u + ?M * m < w + ?M * n" if "m < n" "u < ?M" for u w m n :: nat
  proof -
    have "u + ?M * m < ?M * Suc m" using \<open>u < ?M\<close> by simp
    also have "\<dots> \<le> ?M * n" using \<open>m < n\<close> by (intro mult_le_mono2) simp
    finally show ?thesis by simp
  qed
  have c: "bu_CompareTo (xs @ [x]) b = (if x < y then - 1 else if y < x then 1 else bu_CompareTo xs ys)"
    by (simp add: bu_CompareTo_def b(1))
  consider "x < y" | "y < x" | "x = y" by (rule linorder_cases)
  then show ?case
  proof cases
    case 1
    then show ?thesis using step [OF _ lt(1), of "unat x" "unat y"] c v by (simp add: word_less_nat_alt)
  next
    case 2
    then show ?thesis using step [OF _ lt(2), of "unat y" "unat x" "bu_val xs"] c v by (simp add: word_less_nat_alt)
  next
    case 3
    then show ?thesis using snoc.IH [of ys] b(2) c v by simp
  qed
qed (simp add: bu_CompareTo_def)

lemma top_bit_bit: "(\<exists>i. 0 < i \<and> i \<le> n \<and> bit x i) \<Longrightarrow> bit x (top_bit x n) \<and> (\<forall>i. top_bit x n < i \<longrightarrow> i \<le> n \<longrightarrow> \<not> bit x i)"
  by (induction x n rule: top_bit.induct) (auto simp: le_Suc_eq)

lemma top_bit_none: "\<not> (\<exists>i. 0 < i \<and> i \<le> n \<and> bit x i) \<Longrightarrow> top_bit x n = 0"
  by (induction x n rule: top_bit.induct) (auto simp: le_Suc_eq)

lemma top_bit_range:
  assumes "x \<noteq> 0"
  shows "2 ^ top_bit x 31 \<le> unat x" "unat x < 2 ^ Suc (top_bit x 31)"
proof -
  have top: "i \<le> 31" if "bit x i" for i using bit_imp_le_length [OF that] by simp
  have word: "\<exists>i. i \<le> 31 \<and> bit x i"
  proof (rule ccontr)
    assume "\<not> ?thesis"
    then have "x = 0" by (intro bit_word_eqI) simp
    then show False using assms by simp
  qed
  have *: "bit x (top_bit x 31) \<and> (\<forall>i. top_bit x 31 < i \<longrightarrow> \<not> bit x i)"
  proof (cases "\<exists>i. 0 < i \<and> i \<le> 31 \<and> bit x i")
    case True
    then show ?thesis using top_bit_bit [OF True] top by blast
  next
    case False
    then have "bit x 0" using word by (metis gr0I)
    then show ?thesis using top_bit_none [OF False] False top by (metis gr0I)
  qed
  then have "unat x = take_bit (Suc (top_bit x 31)) (unat x)"
    by (intro bit_eqI) (auto simp: bit_take_bit_iff bit_unsigned_iff not_less_eq)
  then show "unat x < 2 ^ Suc (top_bit x 31)" by (metis take_bit_nat_less_exp)
  have "bit (unat x) (top_bit x 31)" using * by (simp add: bit_unsigned_iff)
  then have "odd (unat x div 2 ^ top_bit x 31)" unfolding bit_iff_odd .
  then show "2 ^ top_bit x 31 \<le> unat x" by (metis div_less even_zero not_le)
qed

lemma bits_range:
  "(bu_bits a = 0 \<longleftrightarrow> bu_val a = 0) \<and> bu_val a < 2 ^ bu_bits a \<and> (bu_bits a = 0 \<or> 2 ^ (bu_bits a - 1) \<le> bu_val a) \<and>
   bu_bits a \<le> 32 * length a"
proof (induction a rule: rev_induct)
  case (snoc x xs)
  let ?M = "2 ^ (32 * length xs) :: nat"
  have v: "bu_val (xs @ [x]) = bu_val xs + ?M * unat x" by (simp add: val_append)
  show ?case
  proof (cases "x = 0")
    case True
    then have "bu_bits (xs @ [x]) = bu_bits xs" "bu_val (xs @ [x]) = bu_val xs" using v by (simp_all add: bu_bits_def)
    then show ?thesis using snoc by auto
  next
    case False
    let ?t = "top_bit x 31"
    have b: "bu_bits (xs @ [x]) = 32 * length xs + ?t + 1" using False by (simp add: bu_bits_def)
    have "?M * unat x + bu_val xs < ?M * (unat x + 1)" using bu_val_less [of xs] by simp
    also have "\<dots> \<le> ?M * 2 ^ Suc ?t" using top_bit_range(2) [OF False] by (intro mult_le_mono2) simp
    finally have "bu_val (xs @ [x]) < 2 ^ bu_bits (xs @ [x])" unfolding v b by (simp add: power_add)
    moreover have "?M * 2 ^ ?t \<le> bu_val xs + ?M * unat x"
      using top_bit_range(1) [OF False] by (intro trans_le_add2 mult_le_mono2)
    then have "2 ^ (bu_bits (xs @ [x]) - 1) \<le> bu_val (xs @ [x])" unfolding v b by (simp add: power_add)
    moreover have "(2 :: nat) ^ ?t < 2 ^ 32" using top_bit_range(1) [OF False] limb_lt [of x] by (rule le_less_trans)
    then have "?t \<le> 31" using power_less_imp_less_exp [of "2 :: nat" ?t 32] by simp
    moreover have "bu_val (xs @ [x]) \<noteq> 0" using False by (simp add: v unat_eq_zero)
    ultimately show ?thesis using b by simp
  qed
qed (simp add: bu_bits_def)

section \<open>Division\<close>

lemma val_or_at:
  assumes "s < 32 * length q" "\<not> bit (bu_val q) s"
  shows "bu_val (or_at (s div 32) (push_bit (s mod 32) 1) q) = bu_val q + 2 ^ s"
proof -
  have i: "s div 32 < length q" using assms(1) by (simp add: div_less_iff_less_mult mult.commute)
  have "bit (bu_val (or_at (s div 32) (push_bit (s mod 32) 1) q)) n \<longleftrightarrow> bit (bu_val q) n \<or> n = s" for n
  proof -
    have "n < 32 * length q \<and> n div 32 = s div 32 \<and> n mod 32 = s mod 32 \<longleftrightarrow> n = s"
      using assms(1) by (metis div_mult_mod_eq)
    then show ?thesis using i
      by (auto simp: bit_bu_val or_at_nth bit_or_iff bit_push_bit_iff bit_1_iff bit_exp_iff)
  qed
  then have "bu_val (or_at (s div 32) (push_bit (s mod 32) 1) q) = bu_val q OR 2 ^ s"
    by (intro bit_eqI) (auto simp: bit_or_iff bit_exp_iff)
  also have "\<dots> = bu_val q + 2 ^ s"
    using assms(2) by (intro disjunctive_add [symmetric]) (auto simp: bit_exp_iff)
  finally show ?thesis .
qed

lemma dvd_not_bit: "2 ^ Suc s dvd (n :: nat) \<Longrightarrow> \<not> bit n s"
  by (auto simp: bit_iff_odd elim!: dvdE)

text \<open>Before the step at \<open>shift\<close> the divisor is shifted by as much, the quotient so far is a multiple of
  \<open>2 ^ (shift + 1)\<close>, and what is left is below the divisor shifted once more.\<close>

definition div_inv :: "nat \<Rightarrow> nat \<Rightarrow> nat \<Rightarrow> nat \<Rightarrow> limbs \<times> limbs \<times> limbs \<Rightarrow> bool" where
  "div_inv w N D shift st \<longleftrightarrow> (case st of (num, d, q) \<Rightarrow>
     length num = w \<and> length d = w \<and> length q = w \<and> shift < 32 * w \<and> bu_val d = D * 2 ^ shift \<and>
     2 ^ Suc shift dvd bu_val q \<and> bu_val q * D + bu_val num = N \<and> bu_val num < D * 2 ^ Suc shift)"

lemma div_step_ok:
  assumes "div_inv w N D shift (num, d, q)" "div_step shift (num, d, q) = (num', d', q')"
  shows "bu_val q' * D + bu_val num' = N" "bu_val num' < D * 2 ^ shift" "2 ^ shift dvd bu_val q'"
    "length num' = w" "length d' = w" "length q' = w" "bu_val d' = D * 2 ^ shift div 2"
proof -
  note inv = assms(1) [unfolded div_inv_def prod.case]
  have len: "length num = w" "length d = w" "length q = w" "shift < 32 * w" and d: "bu_val d = D * 2 ^ shift"
    and q: "2 ^ Suc shift dvd bu_val q" and N: "bu_val q * D + bu_val num = N" and lt: "bu_val num < D * 2 ^ Suc shift"
    using inv by blast+
  have bit: "\<not> bit (bu_val q) shift" using q by (rule dvd_not_bit)
  have dq: "2 ^ shift dvd bu_val q" using q by (metis dvd_mult_left power_Suc2)
  have d': "d' = bu_shr d 1" using assms(2) by (auto simp: div_step_def split: if_splits)
  show "length d' = w" "bu_val d' = D * 2 ^ shift div 2" using d' len(2) d by (simp_all add: val_bu_shr drop_bit_eq_div)
  have ge: "bu_CompareTo num d \<ge> 0 \<longleftrightarrow> bu_val d \<le> bu_val num" using compare_val [of num d] len by auto
  have cases: "bu_val d \<le> bu_val num \<Longrightarrow> num' = bu_sub num d \<and> q' = or_at (shift div 32) (push_bit (shift mod 32) 1) q"
    "\<not> bu_val d \<le> bu_val num \<Longrightarrow> num' = num \<and> q' = q"
    using assms(2) ge by (auto simp: div_step_def split: if_splits)
  show "length num' = w" "length q' = w" using cases len by (cases "bu_val d \<le> bu_val num"; simp)+
  have sub: "bu_val num' = bu_val num - bu_val d" "bu_val q' = bu_val q + 2 ^ shift" if "bu_val d \<le> bu_val num"
    using cases(1) [OF that] val_bu_sub [of num d] val_or_at [of shift q] bit that len by simp_all
  show "bu_val q' * D + bu_val num' = N"
  proof (cases "bu_val d \<le> bu_val num")
    case True
    then show ?thesis using sub [OF True] N d by (simp add: algebra_simps)
  qed (use cases N in simp)
  show "bu_val num' < D * 2 ^ shift"
    using sub lt d cases(2) by (cases "bu_val d \<le> bu_val num") auto
  show "2 ^ shift dvd bu_val q'" using sub(2) dq cases(2) by (cases "bu_val d \<le> bu_val num") auto
qed

lemma div_loop_ok:
  "div_inv w N D shift st \<Longrightarrow> D \<noteq> 0 \<Longrightarrow> bu_val (snd (snd (div_loop shift st))) = N div D \<and>
   bu_val (fst (div_loop shift st)) = N mod D"
proof (induction shift st rule: div_loop.induct)
  case (1 st)
  obtain num d q num' d' q' where st: "st = (num, d, q)" "div_step 0 (num, d, q) = (num', d', q')"
    by (metis prod_cases3)
  have N: "bu_val q' * D + bu_val num' = N" "bu_val num' < D"
    using div_step_ok(1,2) [OF 1(1) [unfolded st(1)] st(2)] by simp_all
  have "N div D = bu_val q'" "N mod D = bu_val num'"
    unfolding N(1) [symmetric] using N(2) by (simp_all add: mult.commute)
  then show ?case using st by simp
next
  case (2 shift st)
  obtain num d q num' d' q' where st: "st = (num, d, q)" "div_step (Suc shift) (num, d, q) = (num', d', q')"
    by (metis prod_cases3)
  note ok = div_step_ok [OF 2(2) [unfolded st(1)] st(2)]
  have "shift < 32 * w" using 2(2) by (auto simp: div_inv_def)
  then have "div_inv w N D shift (num', d', q')" using ok by (simp add: div_inv_def)
  then show ?case using 2(1) 2(3) st by simp
qed

lemma div_loop_length: "div_inv w N D shift st \<Longrightarrow> length (snd (snd (div_loop shift st))) = w"
proof -
  have "length (snd (snd (div_step i st))) = length (snd (snd st))" for i st
    by (auto simp: div_step_def split: prod.split)
  then have "length (snd (snd (div_loop shift st))) = length (snd (snd st))"
    by (induction shift st rule: div_loop.induct) simp_all
  then show "div_inv w N D shift st \<Longrightarrow> length (snd (snd (div_loop shift st))) = w" by (auto simp: div_inv_def)
qed

lemma val_bu_div:
  assumes "length a = length b"
  shows "bu_val b = 0 \<Longrightarrow> bu_div a b = Inl ''Division by zero''"
    and "bu_val b \<noteq> 0 \<Longrightarrow> \<exists>q. bu_div a b = Inr q \<and> length q = length a \<and> bu_val q = bu_val a div bu_val b"
proof -
  let ?n = "bu_bits a" and ?d = "bu_bits b" and ?w = "length a"
  note na = bits_range [of a] and nb = bits_range [of b]
  show "bu_div a b = Inl ''Division by zero''" if "bu_val b = 0" using that nb by (simp add: bu_div_def)
  assume b0: "bu_val b \<noteq> 0"
  then have d0: "?d \<noteq> 0" using nb by simp
  show "\<exists>q. bu_div a b = Inr q \<and> length q = length a \<and> bu_val q = bu_val a div bu_val b"
  proof (cases "?d > ?n")
    case True
    then have "bu_val a < 2 ^ ?n" "2 ^ ?n \<le> (2 :: nat) ^ (?d - 1)" "2 ^ (?d - 1) \<le> bu_val b" using na nb d0 by auto
    then have "bu_val a < bu_val b" by (meson le_trans less_le_trans)
    then show ?thesis using True d0 by (simp add: bu_div_def)
  next
    case False
    let ?s = "?n - ?d" let ?st = "(a, bu_shl b ?s, replicate ?w 0)"
    have fits: "bu_val b * 2 ^ ?s < 2 ^ (32 * ?w)"
    proof -
      have "bu_val b * 2 ^ ?s < 2 ^ ?d * 2 ^ ?s" using nb by simp
      also have "\<dots> = (2 :: nat) ^ ?n" using False by (simp flip: power_add)
      also have "\<dots> \<le> 2 ^ (32 * ?w)" using na by (intro power_increasing) simp_all
      finally show ?thesis .
    qed
    have "bu_val a < bu_val b * 2 ^ Suc ?s"
    proof -
      have "bu_val a < 2 ^ ?n" using na by blast
      also have "?n = (?d - 1) + Suc ?s" using False d0 by simp
      then have "(2 :: nat) ^ ?n = 2 ^ (?d - 1) * 2 ^ Suc ?s" by (metis power_add)
      also have "\<dots> \<le> bu_val b * 2 ^ Suc ?s" using nb d0 by simp
      finally show ?thesis .
    qed
    moreover have "bu_val (bu_shl b ?s) = bu_val b * 2 ^ ?s"
      using fits assms by (simp add: val_bu_shl push_bit_eq_mult take_bit_nat_eq_self)
    moreover have "?s < 32 * ?w" using na d0 False by linarith
    ultimately have inv: "div_inv ?w (bu_val a) (bu_val b) ?s ?st" using assms by (simp add: div_inv_def)
    have "bu_div a b = Inr (snd (snd (div_loop ?s ?st)))" using d0 False by (simp add: bu_div_def Let_def)
    moreover have "length (snd (snd (div_loop ?s ?st))) = ?w" using div_loop_length [OF inv] by simp
    ultimately show ?thesis using div_loop_ok [OF inv b0] by simp
  qed
qed

section \<open>The 256-bit word\<close>

definition arith :: "limbs \<Rightarrow> arith_uint256" where
  "arith pn = word_of_nat (bu_val pn)"

lemma unat_arith: "length a = WIDTH \<Longrightarrow> unat (arith a) = bu_val a"
  using bu_val_less [of a] by (simp add: arith_def unat_of_nat)

lemma arith_eqI: "bu_val a mod 2 ^ 256 = n mod 2 ^ 256 \<Longrightarrow> arith a = word_of_nat n"
  by (simp add: arith_def word_of_nat_eq_iff take_bit_eq_mod)

lemma arith_add: "length a = WIDTH \<Longrightarrow> length b = WIDTH \<Longrightarrow> arith (bu_add a b) = arith a + arith b"
  using val_bu_add [of a b] arith_eqI [of "bu_add a b" "bu_val a + bu_val b"] by (simp add: arith_def)

lemma arith_neg:
  assumes "length a = WIDTH"
  shows "arith (bu_neg a) = - arith a"
proof -
  have "arith (bu_neg a) = word_of_nat (2 ^ 256 - bu_val a)"
    using val_bu_neg [of a] assms by (intro arith_eqI) simp
  moreover have "word_of_nat (2 ^ 256 - bu_val a) + arith a = (word_of_nat (2 ^ 256 - bu_val a + bu_val a) :: arith_uint256)"
    by (simp add: arith_def)
  moreover have "2 ^ 256 - bu_val a + bu_val a = 2 ^ 256" using bu_val_less [of a] assms by simp
  moreover have "(word_of_nat (2 ^ 256) :: arith_uint256) = 0" by (simp add: word_of_nat_eq_0_iff)
  ultimately show ?thesis by (simp add: eq_neg_iff_add_eq_0)
qed

lemma arith_sub: "length a = WIDTH \<Longrightarrow> length b = WIDTH \<Longrightarrow> arith (bu_sub a b) = arith a - arith b"
  by (simp add: bu_sub_def arith_add arith_neg)

lemma arith_mul: "length a = WIDTH \<Longrightarrow> length b = WIDTH \<Longrightarrow> arith (bu_mul a b) = arith a * arith b"
  using val_bu_mul [of a b] arith_eqI [of "bu_mul a b" "bu_val a * bu_val b"] by (simp add: arith_def)

lemma arith_mul32: "length a = WIDTH \<Longrightarrow> arith (bu_mul32 a b) = arith a * ucast b"
proof -
  assume "length a = WIDTH"
  then have "arith (bu_mul32 a b) = word_of_nat (bu_val a * unat b)"
    using val_bu_mul32 [of a b] by (intro arith_eqI) simp
  then show ?thesis by (simp add: arith_def unsigned_of_nat)
qed

lemma arith_shl: "length a = WIDTH \<Longrightarrow> arith (bu_shl a n) = push_bit n (arith a)"
proof -
  assume "length a = WIDTH"
  then have "arith (bu_shl a n) = word_of_nat (push_bit n (bu_val a))"
    using val_bu_shl [of a n] by (intro arith_eqI) (simp add: take_bit_eq_mod)
  then show ?thesis by (simp add: arith_def push_bit_of_nat push_bit_eq_mult)
qed

lemma arith_shr: "length a = WIDTH \<Longrightarrow> arith (bu_shr a n) = drop_bit n (arith a)"
proof -
  assume a: "length a = WIDTH"
  have "unat (arith (bu_shr a n)) = unat (drop_bit n (arith a))"
    using a by (simp only: unat_arith length_shifts val_bu_shr unat_drop_bit_eq)
  then show ?thesis by (rule unsigned_word_eqI)
qed

lemma arith_div:
  assumes "length a = WIDTH" "length b = WIDTH" "arith b \<noteq> 0"
  shows "\<exists>q. bu_div a b = Inr q \<and> length q = WIDTH \<and> arith q = arith a div arith b"
proof -
  have "unat (arith b) \<noteq> 0" using assms(3) by (simp only: unat_eq_zero not_False_eq_True)
  then have "bu_val b \<noteq> 0" unfolding unat_arith [OF assms(2)] .
  then obtain q where q: "bu_div a b = Inr q" "length q = length a" "bu_val q = bu_val a div bu_val b"
    using val_bu_div(2) [of a b] assms(1,2) by force
  have len: "length q = WIDTH" using q(2) assms(1) by simp
  have "unat (arith q) = unat (arith a div arith b)"
    unfolding unat_div_distrib unat_arith [OF len] unat_arith [OF assms(1)] unat_arith [OF assms(2)] by (rule q(3))
  then have "arith q = arith a div arith b" by (rule unsigned_word_eqI)
  then show ?thesis using q(1) len by blast
qed

lemma arith_compare:
  "length a = WIDTH \<Longrightarrow> length b = WIDTH \<Longrightarrow>
   bu_CompareTo a b = (if arith a < arith b then - 1 else if arith b < arith a then 1 else 0)"
  using compare_val [of a b] by (simp add: word_less_nat_alt unat_arith)

lemma low32: "unat (ucast (b :: u64) :: u32) = unat b mod 2 ^ 32"
  by (simp add: unsigned_ucast_eq take_bit_eq_mod)

lemma bu_val_u64: "bu_val (bu_of_u64 b) = unat b"
proof -
  have "unat b div 2 ^ 32 < 2 ^ 32" using unsigned_less [of b, where 'a = nat] by (simp add: less_mult_imp_div_less)
  then have "unat (ucast (drop_bit 32 b) :: u32) = unat b div 2 ^ 32"
    unfolding low32 high_limb by simp
  then show ?thesis unfolding bu_of_u64_def bu_val.simps low32 by simp
qed

lemma arith_u64: "arith (bu_of_u64 b) = ucast b"
  unfolding arith_def bu_val_u64 by (rule of_nat_unat)

lemma arith_low64:
  assumes "length a = WIDTH"
  shows "bu_GetLow64 a = ucast (arith a)"
proof (rule bit_word_eqI)
  fix n :: nat assume n: "n < LENGTH(64)"
  have "bit (ucast (arith a) :: u64) n \<longleftrightarrow> bit (bu_val a) n"
    using n by (simp add: bit_ucast_iff arith_def bit_of_nat_iff)
  also have "\<dots> \<longleftrightarrow> bit (a ! (n div 32)) (n mod 32)" using n assms by (simp add: bit_bu_val)
  also have "\<dots> \<longleftrightarrow> bit (bu_GetLow64 a) n"
  proof (cases "n < 32")
    case True
    then show ?thesis by (simp add: bu_GetLow64_def bit_or_iff bit_ucast_iff bit_push_bit_iff)
  next
    case False
    then have "n div 32 = 1" "n mod 32 = n - 32" using n by (simp_all add: le_div_geq le_mod_geq)
    then show ?thesis using False n
      by (auto simp: bu_GetLow64_def bit_or_iff bit_ucast_iff bit_push_bit_iff dest: bit_imp_le_length)
  qed
  finally show "bit (bu_GetLow64 a) n = bit (ucast (arith a) :: u64) n" by simp
qed

lemma val_blob: "4 * n \<le> length bs \<Longrightarrow> bu_val (map (\<lambda>x. ReadLE32 (take 4 (drop (x * 4) bs))) [0..<n]) = le_nat (take (4 * n) bs)"
proof (induction n)
  case (Suc n)
  let ?c = "take 4 (drop (n * 4) bs)"
  have "le_nat ?c < 256 ^ 4" using le_nat_less [of ?c] Suc.prems by simp
  then have c: "unat (ReadLE32 ?c) = le_nat ?c" by (simp add: ReadLE32_def unat_of_nat)
  have "take (4 * Suc n) bs = take (4 * n) bs @ ?c" by (simp add: take_add mult.commute add.commute [of 4])
  then show ?case using Suc c by (simp add: val_append le_nat_append power_mult)
qed simp

lemma arith_blob: "length bs = 32 \<Longrightarrow> arith (UintToArith256 bs) = word_of_nat (le_nat bs)"
  using val_blob [of WIDTH bs] by (simp add: UintToArith256_def arith_def)

lemma le_nat_chunks: "le_nat (concat (map WriteLE32 a)) = bu_val a"
proof (induction a)
  case (Cons x xs)
  then show ?case using limb_lt [of x] by (simp add: le_nat_append WriteLE32_def)
qed simp

lemma bu_val_inj: "length a = length b \<Longrightarrow> bu_val a = bu_val b \<Longrightarrow> a = b"
proof (induction a b rule: list_induct2)
  case (Cons x xs y ys)
  have "(unat x + 2 ^ 32 * bu_val xs) mod 2 ^ 32 = (unat y + 2 ^ 32 * bu_val ys) mod 2 ^ 32" using Cons.prems by simp
  then have "unat x = unat y" using limb_lt [of x] limb_lt [of y] by (simp add: mod_mult_self2)
  then show ?case using Cons by (simp add: word_unat_eq_iff)
qed simp

lemma ArithToUint256_chunks: "length a = WIDTH \<Longrightarrow> ArithToUint256 a = concat (map WriteLE32 a)"
  unfolding ArithToUint256_def by (metis map_map map_nth comp_apply map_cong)

lemma length_chunks: "length (concat (map WriteLE32 a)) = 4 * length a"
  by (induction a) (simp_all add: WriteLE32_def)

lemma blob_roundtrips:
  shows "length a = WIDTH \<Longrightarrow> UintToArith256 (ArithToUint256 a) = a"
    and "length bs = 32 \<Longrightarrow> ArithToUint256 (UintToArith256 bs) = bs"
proof -
  have len: "length (UintToArith256 bs) = WIDTH" for bs by (simp add: UintToArith256_def)
  have val: "length bs = 32 \<Longrightarrow> bu_val (UintToArith256 bs) = le_nat bs" for bs
    using val_blob [of WIDTH bs] by (simp add: UintToArith256_def)
  show "UintToArith256 (ArithToUint256 a) = a" if a: "length a = WIDTH"
    using a len val [of "ArithToUint256 a"] by (intro bu_val_inj) (simp_all add: ArithToUint256_chunks length_chunks le_nat_chunks)
  show "ArithToUint256 (UintToArith256 bs) = bs" if bs: "length bs = 32"
    using bs len [of bs] val [OF bs] by (intro le_nat_inj) (simp_all add: ArithToUint256_chunks length_chunks le_nat_chunks)
qed

text \<open>The compact form: mantissa and exponent as a number.\<close>

definition compact_value :: "u32 \<Rightarrow> nat" where
  "compact_value n = (let sz = unat n div 2 ^ 24; m = unat n mod 2 ^ 23
     in if sz \<le> 3 then m div 256 ^ (3 - sz) else m * 256 ^ (sz - 3))"

lemma mantissa: "unat (n AND 0x007fffff :: u32) = unat n mod 2 ^ 23"
proof -
  have "(0x007fffff :: u32) = mask 23" by (simp add: mask_eq_exp_minus_1)
  then have "n AND 0x007fffff = take_bit 23 n" by (simp add: take_bit_eq_mask)
  then show ?thesis by (simp add: take_bit_eq_mod unat_mod)
qed

lemma exponent: "unat (drop_bit 24 n :: u32) = unat n div 2 ^ 24"
  by (subst unat_drop_bit_eq) (simp only: drop_bit_eq_div)

lemma pow256: "(256 :: nat) ^ k = 2 ^ (8 * k)"
  by (simp add: power_mult)

lemma SetCompact_value: "bu_val (fst (SetCompact n)) = compact_value n mod 2 ^ 256"
proof -
  define sz where "sz = unat n div 2 ^ 24"
  define m where "m = unat n mod 2 ^ 23"
  have szd: "unat (drop_bit 24 n) = sz" by (simp add: exponent sz_def)
  have cv: "compact_value n = (if sz \<le> 3 then m div 256 ^ (3 - sz) else m * 256 ^ (sz - 3))"
    unfolding compact_value_def Let_def sz_def m_def ..
  show ?thesis
  proof (cases "sz \<le> 3")
    case True
    have "unat (drop_bit (8 * (3 - sz)) (n AND 0x007fffff)) = m div 256 ^ (3 - sz)"
      by (subst unat_drop_bit_eq) (simp only: mantissa pow256 drop_bit_eq_div m_def)
    moreover have "m div 256 ^ (3 - sz) < 2 ^ 256" using div_le_dividend [of m] by (rule le_less_trans) (simp add: m_def)
    moreover have "fst (SetCompact n) = bu_of_u64 (ucast (drop_bit (8 * (3 - sz)) (n AND 0x007fffff)))"
      unfolding SetCompact_def Let_def szd fst_conv using True by simp
    ultimately show ?thesis using True
      by (simp only: bu_val_u64 unat_up) (simp add: cv)
  next
    case False
    have "fst (SetCompact n) = bu_shl (bu_of_u64 (ucast (n AND 0x007fffff))) (8 * (sz - 3))"
      unfolding SetCompact_def Let_def szd fst_conv using False by simp
    moreover have "length (bu_of_u64 (ucast (n AND 0x007fffff))) = WIDTH" by (simp add: bu_of_u64_def)
    ultimately have "bu_val (fst (SetCompact n)) = m * 2 ^ (8 * (sz - 3)) mod 2 ^ (32 * WIDTH)"
      by (simp only: val_bu_shl bu_val_u64 unat_up mantissa push_bit_eq_mult take_bit_eq_mod m_def)
    then show ?thesis using False by (simp add: cv pow256)
  qed
qed

lemma compact_fits:
  assumes "(m :: nat) < 2 ^ 23" "3 < sz"
  shows "2 ^ 256 \<le> m * 256 ^ (sz - 3) \<longleftrightarrow>
    m \<noteq> 0 \<and> (sz > 34 \<or> (m > 0xff \<and> sz > 33) \<or> (m > 0xffff \<and> sz > 32))" (is "?l \<longleftrightarrow> _")
proof -
  consider "sz \<le> 32" | "sz = 33" | "sz = 34" | "sz > 34" by linarith
  then show ?thesis
  proof cases
    case 1
    then have "(256 :: nat) ^ (sz - 3) \<le> 256 ^ 29" by (intro power_increasing) auto
    then have "m * 256 ^ (sz - 3) \<le> 2 ^ 23 * 256 ^ 29" using assms(1) by (intro mult_le_mono) auto
    moreover have "2 ^ 23 * (256 :: nat) ^ 29 < 2 ^ 256" by simp
    ultimately have "\<not> ?l" by (meson le_less_trans not_le)
    then show ?thesis using 1 by simp
  next
    case 4
    then have "(256 :: nat) ^ 32 \<le> 256 ^ (sz - 3)" by (intro power_increasing) auto
    then have "m \<noteq> 0 \<Longrightarrow> 1 * 256 ^ 32 \<le> m * 256 ^ (sz - 3)" by (intro mult_le_mono) auto
    then show ?thesis using 4 by (cases "m = 0") simp_all
  qed (use assms in auto)
qed

lemma SetCompact_overflow: "snd (snd (SetCompact n)) \<longleftrightarrow> 2 ^ 256 \<le> compact_value n"
proof -
  define sz where "sz = unat n div 2 ^ 24"
  define m where "m = unat n mod 2 ^ 23"
  have szd: "unat (drop_bit 24 n) = sz" by (simp add: exponent sz_def)
  have cv: "compact_value n = (if sz \<le> 3 then m div 256 ^ (3 - sz) else m * 256 ^ (sz - 3))"
    unfolding compact_value_def Let_def sz_def m_def ..
  have m: "unat (n AND 0x007fffff) = m" "m < 2 ^ 23" by (simp_all add: mantissa m_def)
  show ?thesis
  proof (cases "sz \<le> 3")
    case True
    have "m div 256 ^ (3 - sz) < 2 ^ 256" using div_le_dividend [of m] by (rule le_less_trans) (use m(2) in simp)
    then have "\<not> 2 ^ 256 \<le> compact_value n" using True
      by (simp add: cv)
    moreover have "\<not> snd (snd (SetCompact n))"
      unfolding SetCompact_def Let_def szd snd_conv using True by simp
    ultimately show ?thesis by simp
  next
    case False
    let ?w = "n AND 0x007fffff"
    have "snd (snd (SetCompact n)) \<longleftrightarrow> ?w \<noteq> 0 \<and> (sz > 34 \<or> (?w > 0xff \<and> sz > 33) \<or> (?w > 0xffff \<and> sz > 32))"
      unfolding SetCompact_def Let_def szd snd_conv using False by simp
    also have "\<dots> \<longleftrightarrow> m \<noteq> 0 \<and> (sz > 34 \<or> (m > 0xff \<and> sz > 33) \<or> (m > 0xffff \<and> sz > 32))"
      using m(1) by (simp add: word_less_nat_alt unat_eq_zero [symmetric])
    also have "\<dots> \<longleftrightarrow> 2 ^ 256 \<le> m * 256 ^ (sz - 3)" using compact_fits [OF m(2)] False by simp
    also have "m * 256 ^ (sz - 3) = compact_value n" using False by (simp add: cv)
    finally show ?thesis .
  qed
qed

lemma arith_bits:
  assumes "length a = WIDTH" "length b = WIDTH"
  shows "arith (bu_not a) = NOT (arith a)" "arith (bu_xor a b) = arith a XOR arith b"
    "arith (bu_and a b) = arith a AND arith b" "arith (bu_or a b) = arith a OR arith b"
proof -
  have bit: "bit (arith c) n \<longleftrightarrow> bit (c ! (n div 32)) (n mod 32)" if "length c = WIDTH" "n < 256" for c n
    using that by (simp add: arith_def bit_of_nat_iff bit_bu_val)
  have i: "n div 32 < WIDTH" if "n < 256" for n :: nat using that by simp
  show "arith (bu_not a) = NOT (arith a)"
    by (rule bit_word_eqI) (use assms i in \<open>simp add: bit bit_not_iff bu_not_def\<close>)
  show "arith (bu_xor a b) = arith a XOR arith b"
    by (rule bit_word_eqI) (use assms i in \<open>simp add: bit bit_xor_iff bu_xor_def\<close>)
  show "arith (bu_and a b) = arith a AND arith b"
    by (rule bit_word_eqI) (use assms i in \<open>simp add: bit bit_and_iff bu_and_def\<close>)
  show "arith (bu_or a b) = arith a OR arith b"
    by (rule bit_word_eqI) (use assms i in \<open>simp add: bit bit_or_iff bu_or_def\<close>)
qed

lemma arith_inc: "length a = WIDTH \<Longrightarrow> arith (bu_inc a) = arith a + 1"
  using val_bu_inc [of a] arith_eqI [of "bu_inc a" "bu_val a + 1"] by (simp add: arith_def)

lemma inc_dec: "bu_inc (bu_dec a) = a"
  by (induction a) auto

lemma length_bu_dec [simp]: "length (bu_dec a) = length a"
  by (induction a) simp_all

lemma arith_dec: "length a = WIDTH \<Longrightarrow> arith (bu_dec a) = arith a - 1"
  using arith_inc [of "bu_dec a"] by (simp add: inc_dec)

lemma ucast_limb: "(ucast (x :: u32) :: u64) = z \<longleftrightarrow> unat x = unat z"
  by (metis unat_up word_unat_eq_iff)

lemma unat_low32: "unat (b AND 0xffffffff :: u64) = unat b mod 2 ^ 32"
proof -
  have "(0xffffffff :: u64) = mask 32" by (simp add: mask_eq_exp_minus_1)
  then have "b AND 0xffffffff = take_bit 32 b" by (simp add: take_bit_eq_mask)
  then show ?thesis by (simp add: take_bit_eq_mod unat_mod)
qed

lemma limb_eq_low: "ucast x = (b AND 0xffffffff :: u64) \<longleftrightarrow> x = (ucast b :: u32)"
  unfolding ucast_limb unat_low32 word_unat_eq_iff [of x] low32 ..

lemma limb_eq_high: "ucast x = (drop_bit 32 b :: u64) \<longleftrightarrow> x = (ucast (drop_bit 32 b) :: u32)"
proof -
  have "unat b div 2 ^ 32 < 2 ^ 32" using unsigned_less [of b, where 'a = nat] by (simp add: less_mult_imp_div_less)
  then have "unat (ucast (drop_bit 32 b) :: u32) = unat (drop_bit 32 b)" unfolding low32 high_limb by simp
  then show ?thesis unfolding ucast_limb word_unat_eq_iff [of x] by simp
qed

lemma arith_equal:
  assumes "length a = WIDTH"
  shows "bu_EqualTo a b \<longleftrightarrow> arith a = ucast b"
proof -
  obtain x y rest where a: "a = x # y # rest" "length rest = 6"
    using assms by (cases a; cases "tl a") simp_all
  have "list_all (\<lambda>x. x = 0) rest \<longleftrightarrow> rest = replicate 6 0"
    using a(2) by (auto simp: list_all_iff intro!: replicate_eqI)
  then have "bu_EqualTo a b \<longleftrightarrow> a = bu_of_u64 b"
    unfolding bu_EqualTo_def bu_of_u64_def a(1) by (auto simp: limb_eq_low limb_eq_high)
  also have "\<dots> \<longleftrightarrow> bu_val a = bu_val (bu_of_u64 b)"
    using bu_val_inj [of a "bu_of_u64 b"] assms by (auto simp: bu_of_u64_def)
  also have "\<dots> \<longleftrightarrow> unat (arith a) = unat (arith (bu_of_u64 b))"
    using unat_arith [OF assms] unat_arith [of "bu_of_u64 b"] by (simp add: bu_of_u64_def)
  finally show ?thesis by (simp add: arith_u64 word_unat_eq_iff)
qed

section \<open>Properties\<close>

text \<open>C36. The limb loops compute 256-bit arithmetic: sums, differences and products modulo 2 to the 256,
  shifts, increments and comparison agree with those of the word the limbs stand for.\<close>

theorem limb_arithmetic:
  assumes "length a = WIDTH" "length b = WIDTH"
  shows "arith (bu_add a b) = arith a + arith b \<and> arith (bu_sub a b) = arith a - arith b \<and>
    arith (bu_mul a b) = arith a * arith b \<and> arith (bu_mul32 a p) = arith a * ucast p \<and>
    arith (bu_shl a n) = push_bit n (arith a) \<and> arith (bu_shr a n) = drop_bit n (arith a) \<and>
    arith (bu_inc a) = arith a + 1 \<and> arith (bu_dec a) = arith a - 1 \<and> arith (bu_neg a) = - arith a \<and>
    (bu_CompareTo a b < 0 \<longleftrightarrow> arith a < arith b) \<and> (bu_CompareTo a b = 0 \<longleftrightarrow> arith a = arith b) \<and>
    bu_GetLow64 a = ucast (arith a)"
  using assms by (auto simp: arith_add arith_sub arith_mul arith_mul32 arith_shl arith_shr arith_inc arith_dec
      arith_neg arith_compare arith_low64)

theorem limb_arithmetic_witness:
  "arith (bu_mul (replicate WIDTH 3) (bu_of_u64 7)) = arith (replicate WIDTH 3) * 7"
  using limb_arithmetic [of "replicate WIDTH 3" "bu_of_u64 7"] by (simp add: arith_u64) (simp add: bu_of_u64_def)

text \<open>C35. The shift-and-subtract division ends with the quotient, and refuses a zero divisor.\<close>

theorem limb_division:
  assumes "length a = WIDTH" "length b = WIDTH"
  shows "if arith b = 0 then bu_div a b = Inl ''Division by zero''
    else \<exists>q. bu_div a b = Inr q \<and> length q = WIDTH \<and> arith q = arith a div arith b"
proof (cases "arith b = 0")
  case True
  then have "bu_val b = 0" using unat_arith [OF assms(2)] by simp
  then show ?thesis using True val_bu_div(1) [of a b] assms by simp
qed (use arith_div [OF assms] in simp)

theorem limb_division_witness:
  "\<exists>q. bu_div (bu_of_u64 100) (bu_of_u64 7) = Inr q \<and> arith q = 14"
proof -
  have "length (bu_of_u64 x) = WIDTH" for x by (simp add: bu_of_u64_def)
  then show ?thesis using limb_division [of "bu_of_u64 100" "bu_of_u64 7"] by (auto simp: arith_u64)
qed

text \<open>The compact form of a number sets its value modulo 2 to the 256, and the overflow flag says
  exactly whether the value was cut.\<close>

theorem compact_overflow_exact:
  "bu_val (fst (SetCompact n)) = compact_value n mod 2 ^ 256 \<and>
   (snd (snd (SetCompact n)) \<longleftrightarrow> 2 ^ 256 \<le> compact_value n)"
  by (simp add: SetCompact_value SetCompact_overflow del: power_numeral)

end
