(* ===== verification/Election.thy ===== *)
theory Election
  imports StakeRegistry ArithUint
begin

text \<open>
  Who may produce and who certifies a block (\<open>src/pos.cpp\<close>): the seed of a slot, the ticket of a
  staker, the schedule and the rank in it, the committee of the slot with one vote per
  member or, from the hardening height, with seats apportioned by stake, and the quorums.
  A vector sorted by a key that its elements do not share is the sorted list.
\<close>

section \<open>Seed and schedule\<close>

definition height_le :: "u32 \<Rightarrow> bytes" where
  "height_le height = [ucast (height AND 0xff), ucast (drop_bit 8 height AND 0xff),
     ucast (drop_bit 16 height AND 0xff), ucast (drop_bit 24 height AND 0xff)]"

definition ComputePosSeed :: "uint256 \<Rightarrow> u32 \<Rightarrow> uint256" where
  "ComputePosSeed parent_anchor_hash height =
     CSHA256_Finalize (CSHA256_Write (CSHA256_Write CSHA256 parent_anchor_hash) (height_le height))"

text \<open>The quotient of big integers is that of 256-bit words (\<open>limb_division\<close>).\<close>

definition WeightedTicket :: "uint256 \<Rightarrow> CPubKey \<Rightarrow> u64 \<Rightarrow> arith_uint256" where
  "WeightedTicket seed pubkey w =
     (let ticket = HashWriter_GetSHA256 (CSHA256_Write (CSHA256_Write CSHA256 seed) (PubKey_bytes pubkey));
          v = arith (UintToArith256 ticket)
      in if w = 0 then v else v div arith (bu_of_u64 w))"

definition ranked :: "pos_env \<Rightarrow> StakeRegistry \<Rightarrow> uint256 \<Rightarrow> (arith_uint256 \<times> CPubKey) list" where
  "ranked E R seed = map (\<lambda>(pk, w). (WeightedTicket seed pk w, pk))
     (filter (\<lambda>(pk, w). PosIsEligibleStake E w) (fm_entries (Weights R)))"

definition PosSchedule :: "pos_env \<Rightarrow> StakeRegistry \<Rightarrow> uint256 \<Rightarrow> CPubKey list" where
  "PosSchedule E R seed = map snd (sort (ranked E R seed))"

fun index_from :: "CPubKey list \<Rightarrow> CPubKey \<Rightarrow> nat \<Rightarrow> nat option" where
  "index_from [] pubkey i = None"
| "index_from (s # schedule) pubkey i = (if s = pubkey then Some i else index_from schedule pubkey (i + 1))"

definition PosRank :: "pos_env \<Rightarrow> StakeRegistry \<Rightarrow> uint256 \<Rightarrow> CPubKey \<Rightarrow> nat option" where
  "PosRank E R seed pubkey =
     (if \<not> PosIsEligibleStake E (GetWeight R pubkey) then None
      else index_from (PosSchedule E R seed) pubkey 0)"

section \<open>Committees\<close>

definition committee_cap :: "pos_env \<Rightarrow> nat" where
  "committee_cap E = nat (max (g_pos_committee_size E) 0)"

definition PosCommittee :: "pos_env \<Rightarrow> StakeRegistry \<Rightarrow> uint256 \<Rightarrow> CPubKey list" where
  "PosCommittee E R seed =
     (let schedule = PosSchedule E R seed in take (min (length schedule) (committee_cap E)) schedule)"

definition PosQuorum :: "nat \<Rightarrow> int" where
  "PosQuorum committee_size = (if committee_size = 0 then 0 else int (committee_size div 2) + 1)"

fun public_members :: "StakeRegistry \<Rightarrow> nat \<Rightarrow> CPubKey list \<Rightarrow> CPubKey list \<Rightarrow> CPubKey list" where
  "public_members R cap [] committee = committee"
| "public_members R cap (s # schedule) committee =
     (if \<not> HasBls R s then public_members R cap schedule committee
      else let committee = committee @ [s]
        in if length committee \<ge> cap then committee else public_members R cap schedule committee)"

definition PosPublicCommittee :: "pos_env \<Rightarrow> StakeRegistry \<Rightarrow> uint256 \<Rightarrow> CPubKey list" where
  "PosPublicCommittee E R seed = public_members R (committee_cap E) (PosSchedule E R seed) []"

definition PosPublicCommitteeSize :: "pos_env \<Rightarrow> StakeRegistry \<Rightarrow> int" where
  "PosPublicCommitteeSize E R =
     int (min (length (filter (\<lambda>(pk, w). PosIsEligibleStake E w \<and> HasBls R pk) (fm_entries (Weights R)))) (committee_cap E))"

definition PosPublicQuorum :: "int \<Rightarrow> int" where
  "PosPublicQuorum k = (if k \<le> 0 then 0 else min k (k div 2 + 1 + k mod 2))"

definition PosSlotQuorum :: "pos_env \<Rightarrow> StakeRegistry \<Rightarrow> int" where
  "PosSlotQuorum E R =
     (if g_pos_public_committee E then PosPublicQuorum (PosPublicCommitteeSize E R)
      else PosQuorum (nat (max (g_pos_committee_size E) 1)))"

abbreviation MAX_POS_AGG_COMMITTEE_SIZE :: int where "MAX_POS_AGG_COMMITTEE_SIZE \<equiv> 100"

definition PosPublicCommitteeSet :: "pos_env \<Rightarrow> StakeRegistry \<Rightarrow> uint256 \<Rightarrow> CPubKey set" where
  "PosPublicCommitteeSet E R seed = set (PosPublicCommittee E R seed)"

definition PosMaxCommitteeMembers :: "pos_env \<Rightarrow> int" where
  "PosMaxCommitteeMembers E =
     (if g_pos_public_committee E then max (g_pos_committee_size E) 1 else MAX_POS_AGG_COMMITTEE_SIZE)"

section \<open>Seats\<close>

definition PosSeatsActiveAt :: "pos_env \<Rightarrow> int \<Rightarrow> bool" where
  "PosSeatsActiveAt E height \<longleftrightarrow> g_pos_hardening_height E > 0 \<and> height \<ge> g_pos_hardening_height E"

record PosCommitteeSeats =
  members :: "CPubKey list"
  seats :: "int list"
  total :: int

definition seat_ticket :: "uint256 \<Rightarrow> CPubKey \<Rightarrow> uint256" where
  "seat_ticket seed pk = HashWriter_GetHash
     (CSHA256_Write (CSHA256_Write (CSHA256_Write CSHA256 (ser_string ''SEQSEAT'')) seed) (ser_pubkey pk))"

definition seat_pool :: "pos_env \<Rightarrow> StakeRegistry \<Rightarrow> uint256 \<Rightarrow> (uint256 \<times> CPubKey \<times> u64) list" where
  "seat_pool E R seed = map (\<lambda>(pk, w). (seat_ticket seed pk, pk, w))
     (filter (\<lambda>(pk, w). PosIsEligibleStake E w \<and> HasBls R pk) (fm_entries (Weights R)))"

text \<open>The 128-bit products, cut to 64 bits as the code does.\<close>

definition quota_whole :: "u64 \<Rightarrow> u64 \<Rightarrow> u64 \<Rightarrow> u64" where
  "quota_whole seats_total W w = ucast ((ucast seats_total * ucast w :: u128) div ucast W)"

definition quota_rem :: "u64 \<Rightarrow> u64 \<Rightarrow> u64 \<Rightarrow> u64" where
  "quota_rem seats_total W w = ucast ((ucast seats_total * ucast w :: u128) mod ucast W)"

definition seat_offset :: "uint256 \<Rightarrow> u64 \<Rightarrow> u64" where
  "seat_offset seed W =
     (let offset_hash = HashWriter_GetHash (CSHA256_Write (CSHA256_Write CSHA256 (ser_string ''SEQSEATOFFSET'')) seed);
          wide = fold (\<lambda>b wide. push_bit 8 wide OR ucast b) (take 16 offset_hash) (0 :: u128)
      in ucast (wide mod ucast W))"

text \<open>The systematic draw over the stakers in ticket order; \<open>(int)\<close> of a 64-bit number keeps its low 32 bits.\<close>

fun draw_seats :: "u64 \<Rightarrow> u64 \<Rightarrow> u64 \<Rightarrow> (CPubKey \<times> u64 \<times> u64) list \<Rightarrow> u128 \<Rightarrow> u64 \<Rightarrow> PosCommitteeSeats \<Rightarrow> PosCommitteeSeats" where
  "draw_seats W left u [] cum drawn out = out"
| "draw_seats W left u ((pk, whole, rem) # pool) cum drawn out =
     (let hi = cum + ucast rem;
          t = ucast u + ucast drawn * ucast W;
          hit = (drawn < left \<and> t \<ge> cum \<and> t < hi);
          n = sint (ucast whole :: u32) + (if hit then 1 else 0);
          out = (if n > 0 then out\<lparr>members := members out @ [pk], seats := seats out @ [n], total := total out + n\<rparr> else out)
      in draw_seats W left u pool hi (if hit then drawn + 1 else drawn) out)"

definition no_seats :: PosCommitteeSeats where
  "no_seats = \<lparr>members = [], seats = [], total = 0\<rparr>"

definition PosPublicCommitteeSeats :: "pos_env \<Rightarrow> StakeRegistry \<Rightarrow> uint256 \<Rightarrow> int \<Rightarrow> PosCommitteeSeats" where
  "PosPublicCommitteeSeats E R seed height =
     (if \<not> PosSeatsActiveAt E height then
        let m = PosPublicCommittee E R seed in \<lparr>members = m, seats = replicate (length m) 1, total = int (length m)\<rparr>
      else
        let K = word_of_int (max (g_pos_committee_size E) 0) :: u64;
            pool = seat_pool E R seed;
            W = sum_list (map (\<lambda>(t, pk, w). w) pool)
        in if K = 0 \<or> pool = [] \<or> W = 0 then no_seats
           else let seats_total = min K (word_of_nat (length pool));
                    pool = sort_key (\<lambda>(t, pk, w). (t, pk)) pool;
                    quotas = map (\<lambda>(t, pk, w). (pk, quota_whole seats_total W w, quota_rem seats_total W w)) pool;
                    assigned = sum_list (map (\<lambda>(pk, whole, rem). whole) quotas);
                    left = seats_total - assigned
             in draw_seats W left (seat_offset seed W) quotas 0 0 no_seats)"

definition PosPublicSeatTotal :: "pos_env \<Rightarrow> StakeRegistry \<Rightarrow> int \<Rightarrow> int" where
  "PosPublicSeatTotal E R height = PosPublicCommitteeSize E R"

definition PosPublicCommitteeAt :: "pos_env \<Rightarrow> StakeRegistry \<Rightarrow> uint256 \<Rightarrow> int \<Rightarrow> CPubKey list" where
  "PosPublicCommitteeAt E R seed height =
     (if \<not> PosSeatsActiveAt E height then PosPublicCommittee E R seed
      else members (PosPublicCommitteeSeats E R seed height))"

definition PosPublicCommitteeSetAt :: "pos_env \<Rightarrow> StakeRegistry \<Rightarrow> uint256 \<Rightarrow> int \<Rightarrow> CPubKey set" where
  "PosPublicCommitteeSetAt E R seed height = set (PosPublicCommitteeAt E R seed height)"

definition PosSlotQuorumAt :: "pos_env \<Rightarrow> StakeRegistry \<Rightarrow> int \<Rightarrow> int" where
  "PosSlotQuorumAt E R height =
     (if g_pos_public_committee E \<and> PosSeatsActiveAt E height then PosPublicQuorum (PosPublicSeatTotal E R height)
      else PosSlotQuorum E R)"

section \<open>The schedule\<close>

lemma eligible_nonzero: "PosIsEligibleStake E w \<Longrightarrow> w \<noteq> 0"
  by (auto simp: PosIsEligibleStake_def)

lemma distinct_ranked: "distinct (map snd (ranked E R seed))"
proof -
  have "map snd (ranked E R seed) = map fst (filter (\<lambda>(pk, w). PosIsEligibleStake E w) (fm_entries (Weights R)))"
    by (simp add: ranked_def comp_def case_prod_unfold)
  then show ?thesis using distinct_fst_entries [of "Weights R"] by (simp add: distinct_map_filter)
qed

lemma mset_schedule: "mset (PosSchedule E R seed) = mset (map snd (ranked E R seed))"
  by (simp add: PosSchedule_def)

lemma distinct_schedule: "distinct (PosSchedule E R seed)"
  using distinct_ranked mset_schedule by (metis mset_eq_imp_distinct_iff)

lemma set_schedule: "set (PosSchedule E R seed) = {pk. PosIsEligibleStake E (GetWeight R pk)}"
proof -
  have "set (PosSchedule E R seed) = set (map snd (ranked E R seed))" using mset_schedule by (metis set_mset_mset)
  also have "\<dots> = {pk. \<exists>w. fmlookup (Weights R) pk = Some w \<and> PosIsEligibleStake E w}"
    by (force simp: ranked_def)
  also have "\<dots> = {pk. PosIsEligibleStake E (fm_get 0 (Weights R) pk)}"
    using eligible_nonzero [of E] by (auto simp: fm_get_def split: option.splits)
  finally show ?thesis by (simp add: GetWeight_get Weights_def)
qed

lemma index_from_iff: "distinct xs \<Longrightarrow> index_from xs pk k = Some i \<longleftrightarrow> (\<exists>j < length xs. xs ! j = pk \<and> i = k + j)"
proof (induction xs arbitrary: k)
  case (Cons x xs)
  have ex: "(\<exists>j < length (x # xs). (x # xs) ! j = pk \<and> i = k + j) \<longleftrightarrow>
      x = pk \<and> i = k \<or> (\<exists>j < length xs. xs ! j = pk \<and> i = k + 1 + j)" by (simp add: Ex_less_Suc2)
  show ?case
  proof (cases "x = pk")
    case True
    then have "\<not> (\<exists>j < length xs. xs ! j = pk \<and> i = k + 1 + j)" using Cons.prems by auto
    then show ?thesis unfolding ex using True by auto
  next
    case False
    then show ?thesis unfolding ex using Cons.IH [of "k + 1"] Cons.prems by simp
  qed
qed simp

lemma PosRank_iff: "PosRank E R seed pk = Some i \<longleftrightarrow> i < length (PosSchedule E R seed) \<and> PosSchedule E R seed ! i = pk"
proof -
  have "i < length (PosSchedule E R seed) \<Longrightarrow> PosSchedule E R seed ! i = pk \<Longrightarrow> PosIsEligibleStake E (GetWeight R pk)"
    using set_schedule [of E R seed] nth_mem by auto
  then show ?thesis using index_from_iff [OF distinct_schedule [of E R seed], of pk 0 i] by (auto simp: PosRank_def)
qed

lemma schedule_ticket:
  "i < length (PosSchedule E R seed) \<Longrightarrow>
   sort (ranked E R seed) ! i = (WeightedTicket seed (PosSchedule E R seed ! i) (GetWeight R (PosSchedule E R seed ! i)),
     PosSchedule E R seed ! i)"
proof -
  assume i: "i < length (PosSchedule E R seed)"
  then have "sort (ranked E R seed) ! i \<in> set (ranked E R seed)" by (metis PosSchedule_def length_map nth_mem set_sort)
  then obtain pk w where e: "sort (ranked E R seed) ! i = (WeightedTicket seed pk w, pk)" "fmlookup (Weights R) pk = Some w"
    by (auto simp: ranked_def)
  then have "PosSchedule E R seed ! i = pk" "GetWeight R pk = w"
    using i by (simp_all add: PosSchedule_def GetWeight_get fm_get_def flip: Weights_def)
  then show ?thesis using e by simp
qed

section \<open>Committees of members\<close>

lemma public_members_take:
  "length c < cap \<Longrightarrow> public_members R cap s c = c @ take (cap - length c) (filter (HasBls R) s)"
proof (induction s arbitrary: c)
  case (Cons x s)
  show ?case
  proof (cases "HasBls R x")
    case True
    obtain n where n: "cap - length c = Suc n" using Cons.prems by (metis Suc_diff_Suc)
    show ?thesis
    proof (cases "length c + 1 < cap")
      case lt: True
      have m: "cap - Suc (length c) = n" using n by simp
      have "public_members R cap (x # s) c = public_members R cap s (c @ [x])" using True lt by simp
      also have "\<dots> = (c @ [x]) @ take n (filter (HasBls R) s)" using Cons.IH [of "c @ [x]"] lt by (simp add: m)
      finally show ?thesis using True by (simp add: n)
    next
      case False
      then have "n = 0" using n by simp
      then show ?thesis using True False n by simp
    qed
  qed (use Cons in simp)
qed simp

lemma PosPublicCommittee_take:
  "0 < g_pos_committee_size E \<Longrightarrow>
   PosPublicCommittee E R seed = take (committee_cap E) (filter (HasBls R) (PosSchedule E R seed))"
  by (simp add: PosPublicCommittee_def public_members_take committee_cap_def)

text \<open>The stakers that may certify, as the code counts them.\<close>

abbreviation voters :: "pos_env \<Rightarrow> StakeRegistry \<Rightarrow> (CPubKey \<times> u64) list" where
  "voters E R \<equiv> filter (\<lambda>(pk, w). PosIsEligibleStake E w \<and> HasBls R pk) (fm_entries (Weights R))"

lemma length_voters: "length (filter (HasBls R) (PosSchedule E R seed)) = length (voters E R)"
proof -
  have "length (filter (HasBls R) (PosSchedule E R seed)) = length (filter (HasBls R) (map snd (ranked E R seed)))"
    using mset_schedule [of E R seed] by (metis mset_filter size_mset)
  also have "\<dots> = length (voters E R)"
    by (simp add: ranked_def filter_map comp_def case_prod_unfold conj_commute)
  finally show ?thesis .
qed

lemma committee_size: "0 < g_pos_committee_size E \<Longrightarrow> int (length (PosPublicCommittee E R seed)) = PosPublicCommitteeSize E R"
  by (simp add: PosPublicCommittee_take length_voters PosPublicCommitteeSize_def min.commute)

section \<open>The draw of the seats\<close>

definition add_seats :: "PosCommitteeSeats \<Rightarrow> (CPubKey \<times> int) list \<Rightarrow> PosCommitteeSeats" where
  "add_seats out xs = (let won = filter (\<lambda>x. snd x > 0) xs in
     \<lparr>members = members out @ map fst won, seats = seats out @ map snd won, total = total out + sum_list (map snd won)\<rparr>)"

lemma add_seats_Nil [simp]: "add_seats out [] = out"
  by (simp add: add_seats_def)

lemma add_seats_Cons: "add_seats out ((pk, n) # xs) =
    add_seats (if n > 0 then out\<lparr>members := members out @ [pk], seats := seats out @ [n], total := total out + n\<rparr> else out) xs"
  by (simp add: add_seats_def Let_def)

lemma unat_wide [simp]: "unat (ucast (x :: u64) :: u128) = unat x"
  using unsigned_less [of x, where 'a = nat] by (simp add: unsigned_ucast_eq take_bit_eq_mod)

lemma u64_lt: "unat (x :: u64) < 2 ^ 64"
  using unsigned_less [of x, where 'a = nat] by simp

lemma unat_u128_add: "unat a + unat b < 2 ^ 128 \<Longrightarrow> unat (a + b :: u128) = unat a + unat b"
  by (simp add: unat_word_ariths)

lemma prod_u64: "unat (x :: u64) * unat (y :: u64) + unat (z :: u64) < 2 ^ 128"
proof -
  have "unat x * unat y \<le> (2 ^ 64 - 1) * (2 ^ 64 - 1)" using u64_lt [of x] u64_lt [of y] by (intro mult_le_mono) simp_all
  then show ?thesis using u64_lt [of z] by simp
qed

lemma unat_prod: "unat (ucast (x :: u64) * ucast (y :: u64) :: u128) = unat x * unat y"
  using prod_u64 [of x y 0] by (simp add: unat_word_ariths)

lemma unat_threshold: "unat (ucast u + ucast d * ucast w :: u128) = unat (u :: u64) + unat (d :: u64) * unat (w :: u64)"
  using prod_u64 [of d w u] by (subst unat_u128_add) (simp_all add: unat_prod add.commute)

lemma sint_small: "unat w < 2 ^ 31 \<Longrightarrow> sint (ucast (w :: u64) :: u32) = int (unat w)"
proof -
  assume w: "unat w < 2 ^ 31"
  have "(ucast w :: u32) = word_of_int (int (unat w))" 
    unfolding of_int_of_nat_eq by (rule of_nat_unat [symmetric])
  moreover have "int (unat w) < int (2 ^ 31)" using w by (simp only: of_nat_less_iff)
  then have "sint (word_of_int (int (unat w)) :: u32) = int (unat w)"
    by (subst int_word_sint) simp
  ultimately show ?thesis by simp
qed

text \<open>Nothing of the draw overflows, the thresholds fall on as many stakers as there are seats left,
  and no staker gets two of them.\<close>

lemma draw_seats_ok:
  assumes "list_all (\<lambda>(pk, whole, rem). unat rem < unat W \<and> unat whole < 2 ^ 31) qs" "unat u < unat W"
    and "unat cum + sum_list (map (\<lambda>(pk, whole, rem). unat rem) qs) = unat left * unat W"
    and "unat drawn \<le> unat left" "unat cum \<le> unat u + unat drawn * unat W"
  shows "\<exists>hs. length hs = length qs \<and> set hs \<subseteq> {0, 1} \<and> sum_list hs + unat drawn = unat left \<and>
    draw_seats W left u qs cum drawn out =
      add_seats out (map2 (\<lambda>(pk, whole, rem) h. (pk, int (unat whole + h))) qs hs)"
  using assms
proof (induction qs arbitrary: cum drawn out)
  case Nil
  have "unat left * unat W < Suc (unat drawn) * unat W" using Nil by simp
  then have "unat left < Suc (unat drawn)" by (simp only: mult_less_cancel2)
  then show ?case using Nil.prems(4) by simp
next
  case (Cons q qs)
  obtain pk whole rem where q: "q = (pk, whole, rem)" by (cases q) auto
  let ?t = "unat u + unat drawn * unat W" and ?c = "unat cum + unat rem" and ?out = "\<lambda>n. if n > 0
    then out\<lparr>members := members out @ [pk], seats := seats out @ [n], total := total out + n\<rparr> else out"
  have rem: "unat rem < unat W" "unat whole < 2 ^ 31" using Cons.prems(1) q by simp_all
  have sum: "?c + sum_list (map (\<lambda>(pk, whole, rem). unat rem) qs) = unat left * unat W"
    using Cons.prems(3) q by simp
  have "?c \<le> unat left * unat W" using sum by simp
  also have lw: "unat left * unat W < 2 ^ 128" using prod_u64 [of left W 0] by simp
  finally have hi: "unat (cum + ucast rem) = ?c" by (subst unat_u128_add) simp_all
  define hit where "hit \<longleftrightarrow> drawn < left \<and> ?t < ?c"
  have step: "draw_seats W left u (q # qs) cum drawn out =
      draw_seats W left u qs (cum + ucast rem) (if hit then drawn + 1 else drawn) (?out (int (unat whole + of_bool hit)))"
    using Cons.prems(5) hi sint_small [OF rem(2)]
    by (simp add: q Let_def word_le_nat_alt word_less_nat_alt unat_threshold hit_def)
  have d1: "unat (drawn + 1) = unat drawn + 1" if hit
    using that u64_lt [of left] by (simp add: hit_def word_less_nat_alt unat_word_ariths)
  let ?d = "if hit then drawn + 1 else drawn"
  have le: "unat ?d \<le> unat left" using Cons.prems(4) d1 by (auto simp: hit_def word_less_nat_alt)
  have cum: "unat (cum + ucast rem) \<le> unat u + unat ?d * unat W"
  proof (cases hit)
    case True
    then show ?thesis using d1 hi Cons.prems(5) rem(1) by simp
  next
    case False
    show ?thesis
    proof (cases "drawn < left")
      case True
      then show ?thesis using False hi by (simp add: hit_def)
    next
      case ge: False
      then have "unat drawn = unat left" using Cons.prems(4) by (simp add: word_less_nat_alt)
      then show ?thesis using \<open>?c \<le> unat left * unat W\<close> hi False by simp
    qed
  qed
  obtain hs where hs: "length hs = length qs" "set hs \<subseteq> {0, 1}" "sum_list hs + unat ?d = unat left"
    "draw_seats W left u qs (cum + ucast rem) ?d (?out (int (unat whole + of_bool hit))) =
      add_seats (?out (int (unat whole + of_bool hit))) (map2 (\<lambda>(pk, whole, rem) h. (pk, int (unat whole + h))) qs hs)"
    using Cons.IH [of "cum + ucast rem" ?d "?out (int (unat whole + of_bool hit))"] Cons.prems(1,2) sum hi le cum by auto
  have "draw_seats W left u (q # qs) cum drawn out =
      add_seats out (map2 (\<lambda>(pk, whole, rem) h. (pk, int (unat whole + h))) (q # qs) (of_bool hit # hs))"
    unfolding step hs(4) using q by (simp add: add_seats_Cons)
  then show ?case using hs d1 by (intro exI [of _ "of_bool hit # hs"]) auto
qed

lemma quota_nat:
  assumes "W \<noteq> 0" "unat w \<le> unat W"
  shows "unat (quota_whole S W w) = unat S * unat w div unat W" "unat (quota_rem S W w) = unat S * unat w mod unat W"
    "unat (quota_whole S W w) \<le> unat S"
proof -
  have pos: "0 < unat W" using assms(1) by (simp add: unat_gt_0)
  have "unat S * unat w div unat W \<le> unat S * unat W div unat W" using assms(2) by (intro div_le_mono mult_le_mono2)
  then have le: "unat S * unat w div unat W \<le> unat S" using pos by simp
  have low: "unat (ucast (x :: u128) :: u64) = unat x mod 2 ^ 64" for x
    by (simp add: unsigned_ucast_eq take_bit_eq_mod)
  have "unat (quota_whole S W w) = (unat S * unat w div unat W) mod 2 ^ 64"
    unfolding quota_whole_def low unat_div_distrib unat_prod unat_wide ..
  then show q: "unat (quota_whole S W w) = unat S * unat w div unat W" using le u64_lt [of S] by simp
  have "unat (quota_rem S W w) = (unat S * unat w mod unat W) mod 2 ^ 64"
    unfolding quota_rem_def low unat_mod unat_prod unat_wide ..
  moreover have "unat S * unat w mod unat W < 2 ^ 64" using mod_less_divisor [OF pos] u64_lt [of W] by (rule less_trans)
  ultimately show "unat (quota_rem S W w) = unat S * unat w mod unat W" by simp
  show "unat (quota_whole S W w) \<le> unat S" using q le by simp
qed

lemma unat_sum_list: "sum_list (map (\<lambda>x. unat (f x)) xs) < 2 ^ 64 \<Longrightarrow> unat (sum_list (map f xs) :: u64) = sum_list (map (\<lambda>x. unat (f x)) xs)"
proof (induction xs)
  case (Cons x xs)
  then show ?case using u64_lt [of "f x"] by (simp add: unat_word_ariths)
qed simp

lemma quotas_sum:
  fixes ws :: "u64 list"
  assumes "W = sum_list (map unat ws)"
  shows "sum_list (map (\<lambda>w. S * unat w div W) ws) * W + sum_list (map (\<lambda>w. S * unat w mod W) ws) = S * W"
proof -
  have gen: "sum_list (map (\<lambda>w. S * unat w div W) xs) * W + sum_list (map (\<lambda>w. S * unat w mod W) xs) = S * sum_list (map unat xs)"
    for xs :: "u64 list" by (induction xs) (simp_all add: algebra_simps)
  show ?thesis by (rule gen [of ws, folded assms])
qed

text \<open>The whole apportionment, for a pool in its sorted order.\<close>

lemma apportion:
  fixes pool :: "(uint256 \<times> CPubKey \<times> u64) list" and S u :: u64
  defines "ws \<equiv> map (\<lambda>(t, pk, w). w) pool"
  defines "W \<equiv> sum_list ws"
  defines "quotas \<equiv> map (\<lambda>(t, pk, w). (pk, quota_whole S W w, quota_rem S W w)) pool"
  defines "left \<equiv> S - sum_list (map (\<lambda>(pk, whole, rem). whole) quotas)"
  assumes fits: "sum_list (map unat ws) < 2 ^ 64" and W: "W \<noteq> 0" and S: "unat S < 2 ^ 31" and u: "unat u < unat W"
  shows "\<exists>hs. length hs = length pool \<and> set hs \<subseteq> {0, 1} \<and>
    sum_list (map2 (\<lambda>(t, pk, w) h. unat S * unat w div unat W + h) pool hs) = unat S \<and>
    draw_seats W left u quotas 0 0 out =
      add_seats out (map2 (\<lambda>(t, pk, w) h. (pk, int (unat S * unat w div unat W + h))) pool hs)"
proof -
  let ?W = "unat W" and ?whole = "\<lambda>w. unat S * unat w div unat W" and ?rem = "\<lambda>w. unat S * unat w mod unat W"
  have Wn: "?W = sum_list (map unat ws)" using unat_sum_list [of id ws] fits by (simp add: W_def)
  have pos: "0 < ?W" using W by (simp add: unat_gt_0)
  have le: "unat w \<le> ?W" if "w \<in> set ws" for w
    using that unfolding Wn by (intro member_le_sum_list) auto
  have mem: "w \<in> set ws" if "(t, pk, w) \<in> set pool" for t pk w using that by (force simp: ws_def)
  have q: "unat (quota_whole S W w) = ?whole w" "unat (quota_rem S W w) = ?rem w" "unat (quota_whole S W w) \<le> unat S"
    if "(t, pk, w) \<in> set pool" for t pk w using quota_nat [OF W le [OF mem [OF that]]] by auto
  have all: "list_all (\<lambda>(pk, whole, rem). unat rem < ?W \<and> unat whole < 2 ^ 31) quotas"
    using q S pos by (fastforce simp: list_all_iff quotas_def)
  have wholes: "map (\<lambda>(pk, whole, rem). unat whole) quotas = map ?whole ws"
    and rems: "map (\<lambda>(pk, whole, rem). unat rem) quotas = map ?rem ws"
    using q by (auto simp: quotas_def ws_def)
  have total: "sum_list (map ?whole ws) * ?W + sum_list (map ?rem ws) = unat S * ?W" using quotas_sum [OF Wn] .
  then have "sum_list (map ?whole ws) * ?W \<le> unat S * ?W" by linarith
  then have assigned: "sum_list (map ?whole ws) \<le> unat S" using pos by simp
  have "unat (sum_list (map (\<lambda>(pk, whole, rem). whole) quotas)) = sum_list (map ?whole ws)"
    using unat_sum_list [of "\<lambda>(pk, whole, rem). whole" quotas] assigned u64_lt [of S] wholes
    by (simp add: case_prod_unfold)
  then have left: "unat left = unat S - sum_list (map ?whole ws)"
    using assigned by (simp add: left_def unat_sub word_le_nat_alt)
  have "sum_list (map ?rem ws) = unat left * ?W" using total assigned by (simp add: left diff_mult_distrib)
  then obtain hs where hs: "length hs = length quotas" "set hs \<subseteq> {0, 1}" "sum_list hs = unat left"
    "draw_seats W left u quotas 0 0 out = add_seats out (map2 (\<lambda>(pk, whole, rem) h. (pk, int (unat whole + h))) quotas hs)"
    using draw_seats_ok [OF all u, of 0 left 0 out] rems by auto
  have len: "length hs = length pool" using hs(1) by (simp add: quotas_def)
  have "map2 (\<lambda>(pk, whole, rem) h. (pk, int (unat whole + h))) quotas hs =
      map2 (\<lambda>(t, pk, w) h. (pk, int (?whole w + h))) pool hs"
    using q len by (auto simp: quotas_def map_zip_map simp del: of_nat_unat dest: set_zip_leftD)
  moreover have "sum_list (map2 (\<lambda>(t, pk, w) h. ?whole w + h) pool hs) = sum_list (map ?whole ws) + sum_list hs"
    unfolding ws_def using len by (induction hs pool rule: list_induct2) auto
  then have "sum_list (map2 (\<lambda>(t, pk, w) h. ?whole w + h) pool hs) = unat S" using hs(3) left assigned by simp
  ultimately show ?thesis using hs(2,4) len by metis
qed

text \<open>The stake that votes, and when it and the committee size are in range: the stake fits 64 bits and
  the size is a positive \<open>int\<close>.\<close>

definition voting_stake :: "pos_env \<Rightarrow> StakeRegistry \<Rightarrow> nat" where
  "voting_stake E R = sum_list (map (\<lambda>(pk, w). unat w) (voters E R))"

definition seats_in_range :: "pos_env \<Rightarrow> StakeRegistry \<Rightarrow> bool" where
  "seats_in_range E R \<longleftrightarrow> 0 < g_pos_committee_size E \<and> g_pos_committee_size E < 2 ^ 31 \<and> voting_stake E R < 2 ^ 64"

lemma voters_weight: "(pk, w) \<in> set (voters E R) \<Longrightarrow> w \<noteq> 0 \<and> GetWeight R pk = w"
  using eligible_nonzero by (auto simp: GetWeight_get fm_get_def Weights_def)

lemma length_le_stake: "length (voters E R) \<le> voting_stake E R"
proof -
  have "length xs \<le> sum_list (map (\<lambda>(pk, w). unat w) xs)" if "\<And>pk w. (pk, w) \<in> set xs \<Longrightarrow> w \<noteq> 0" for xs :: "(CPubKey \<times> u64) list"
    using that
  proof (induction xs)
    case (Cons x xs)
    have "snd x \<noteq> 0" using Cons.prems [of "fst x" "snd x"] by simp
    then have "1 \<le> unat (snd x)" by (simp add: Suc_le_eq unat_gt_0)
    moreover have "length xs \<le> sum_list (map (\<lambda>(pk, w). unat w) xs)"
    proof (rule Cons.IH)
      show "w \<noteq> 0" if "(pk, w) \<in> set xs" for pk w using Cons.prems [of pk w] that by simp
    qed
    ultimately show ?case by (simp add: case_prod_unfold)
  qed simp
  then show ?thesis unfolding voting_stake_def using voters_weight by blast
qed

lemma seat_offset_lt: "W \<noteq> 0 \<Longrightarrow> unat (seat_offset seed W) < unat W"
proof -
  assume "W \<noteq> 0"
  then have pos: "0 < unat W" by (simp add: unat_gt_0)
  have low: "unat (ucast (x :: u128) :: u64) = unat x mod 2 ^ 64" for x
    by (simp add: unsigned_ucast_eq take_bit_eq_mod)
  have "unat (ucast (x mod ucast W :: u128) :: u64) < unat W" for x
    unfolding low unat_mod unat_wide using pos by (metis mod_less_divisor mod_less_eq_dividend le_less_trans)
  then show ?thesis by (simp add: seat_offset_def Let_def)
qed

lemma sorted_pool_sums:
  "sum_list (map (\<lambda>(t, pk, w). w) (sort_key f (seat_pool E R seed))) = sum_list (map (\<lambda>(t, pk, w). w) (seat_pool E R seed))"
  "sum_list (map unat (map (\<lambda>(t, pk, w). w) (sort_key f (seat_pool E R seed)))) = voting_stake E R"
proof -
  have perm: "sum_list (map g (sort_key f xs)) = sum_list (map g xs)" for g :: "'b \<Rightarrow> 'c :: comm_monoid_add" and f xs
    by (metis mset_map mset_sort sum_mset_sum_list)
  show "sum_list (map (\<lambda>(t, pk, w). w) (sort_key f (seat_pool E R seed))) = sum_list (map (\<lambda>(t, pk, w). w) (seat_pool E R seed))"
    by (rule perm)
  have "sum_list (map unat (map (\<lambda>(t, pk, w). w) (sort_key f (seat_pool E R seed)))) =
      sum_list (map (unat \<circ> (\<lambda>(t, pk, w). w)) (seat_pool E R seed))" unfolding map_map by (rule perm)
  also have "\<dots> = voting_stake E R" by (simp add: voting_stake_def seat_pool_def comp_def case_prod_unfold)
  finally show "sum_list (map unat (map (\<lambda>(t, pk, w). w) (sort_key f (seat_pool E R seed)))) = voting_stake E R" .
qed

abbreviation pool_weight :: "pos_env \<Rightarrow> StakeRegistry \<Rightarrow> uint256 \<Rightarrow> u64" where
  "pool_weight E R seed \<equiv> sum_list (map (\<lambda>(t, pk, w). w) (seat_pool E R seed))"

abbreviation seats_total :: "pos_env \<Rightarrow> StakeRegistry \<Rightarrow> uint256 \<Rightarrow> u64" where
  "seats_total E R seed \<equiv> min (word_of_int (max (g_pos_committee_size E) 0)) (word_of_nat (length (seat_pool E R seed)))"

lemma seat_numbers:
  assumes range: "seats_in_range E R" and ne: "voters E R \<noteq> []"
  shows "unat (pool_weight E R seed) = voting_stake E R" "pool_weight E R seed \<noteq> 0"
    "unat (seats_total E R seed) = nat (PosPublicCommitteeSize E R)" "unat (seats_total E R seed) < 2 ^ 31"
    "(word_of_int (max (g_pos_committee_size E) 0) :: u64) \<noteq> 0" "seat_pool E R seed \<noteq> []"
proof -
  let ?p = "seat_pool E R seed" and ?K = "word_of_int (max (g_pos_committee_size E) 0) :: u64"
  have len: "length ?p = length (voters E R)" by (simp add: seat_pool_def)
  show "?p \<noteq> []" using ne len by (metis length_0_conv)
  have stake: "voting_stake E R < 2 ^ 64" "length (voters E R) \<le> voting_stake E R" "0 < length (voters E R)"
    using range ne length_le_stake [of E R] by (simp_all add: seats_in_range_def)
  have "sum_list (map (\<lambda>x. unat (case x of (t, pk, w) \<Rightarrow> w)) ?p) = voting_stake E R"
    by (simp add: voting_stake_def seat_pool_def comp_def case_prod_unfold)
  then show W: "unat (pool_weight E R seed) = voting_stake E R"
    using unat_sum_list [of "\<lambda>(t, pk, w). w" ?p] stake(1) by (simp add: case_prod_unfold)
  then show "pool_weight E R seed \<noteq> 0" using stake(2,3) by (metis le_zero_eq not_less0 unat_0)
  have g: "0 < g_pos_committee_size E" "g_pos_committee_size E < 2 ^ 31" using range by (simp_all add: seats_in_range_def)
  have "uint ?K = g_pos_committee_size E" using g by (subst uint_word_of_int) simp
  then have K: "unat ?K = committee_cap E" using g by (simp add: unat_eq_nat_uint committee_cap_def del: nat_uint_eq)
  then show "?K \<noteq> 0" using g by (metis committee_cap_def max.strict_order_iff nat_0_iff unat_0 not_less max_def)
  have "unat (word_of_nat (length ?p) :: u64) = length (voters E R)" using stake len by (simp add: unat_of_nat)
  then have "unat (seats_total E R seed) = min (committee_cap E) (length (voters E R))"
    using K by (simp add: min_def word_le_nat_alt)
  then show "unat (seats_total E R seed) = nat (PosPublicCommitteeSize E R)" "unat (seats_total E R seed) < 2 ^ 31"
    using g by (simp_all add: PosPublicCommitteeSize_def min.commute committee_cap_def)
qed

lemma seats_form:
  assumes act: "PosSeatsActiveAt E height" and range: "seats_in_range E R" and ne: "voters E R \<noteq> []"
  obtains pool hs where "mset pool = mset (seat_pool E R seed)" "length hs = length pool" "set hs \<subseteq> {0, 1 :: nat}"
    "sum_list (map2 (\<lambda>(t, pk, w) h. nat (PosPublicCommitteeSize E R) * unat w div voting_stake E R + h) pool hs) =
       nat (PosPublicCommitteeSize E R)"
    "PosPublicCommitteeSeats E R seed height = add_seats no_seats
       (map2 (\<lambda>(t, pk, w) h. (pk, int (nat (PosPublicCommitteeSize E R) * unat w div voting_stake E R + h))) pool hs)"
proof -
  let ?pool = "sort_key (\<lambda>(t, pk, w). (t, pk)) (seat_pool E R seed)" and ?W = "pool_weight E R seed" and ?S = "seats_total E R seed"
  note n = seat_numbers [OF range ne]
  let ?q = "map (\<lambda>(t, pk, w). (pk, quota_whole ?S ?W w, quota_rem ?S ?W w)) ?pool"
  have form: "PosPublicCommitteeSeats E R seed height =
      draw_seats ?W (?S - sum_list (map (\<lambda>(pk, whole, rem). whole) ?q)) (seat_offset seed ?W) ?q 0 0 no_seats"
    using act n(2,5,6) by (simp add: PosPublicCommitteeSeats_def Let_def)
  have fits: "sum_list (map unat (map (\<lambda>(t, pk, w). w) ?pool)) < 2 ^ 64"
    using range unfolding sorted_pool_sums(2) by (simp add: seats_in_range_def)
  obtain hs where "length hs = length ?pool" "set hs \<subseteq> {0, 1}"
    "sum_list (map2 (\<lambda>(t, pk, w) h. unat ?S * unat w div unat ?W + h) ?pool hs) = unat ?S"
    "PosPublicCommitteeSeats E R seed height = add_seats no_seats
       (map2 (\<lambda>(t, pk, w) h. (pk, int (unat ?S * unat w div unat ?W + h))) ?pool hs)"
    using apportion [where pool = ?pool and S = ?S and u = "seat_offset seed ?W" and out = no_seats, unfolded sorted_pool_sums(1), OF fits n(2,4) seat_offset_lt [OF n(2)]]
    unfolding form by blast
  then show thesis using that [of ?pool hs] unfolding n(1,3) by simp
qed

definition seat_list :: "PosCommitteeSeats \<Rightarrow> (CPubKey \<times> int) list" where
  "seat_list C = zip (members C) (seats C)"

lemma add_seats_parts:
  "seat_list (add_seats no_seats xs) = filter (\<lambda>x. snd x > 0) xs"
  "members (add_seats no_seats xs) = map fst (filter (\<lambda>x. snd x > 0) xs)"
  "seats (add_seats no_seats xs) = map snd (filter (\<lambda>x. snd x > 0) xs)"
  by (simp_all add: seat_list_def add_seats_def no_seats_def Let_def zip_map_fst_snd)

lemma sum_positive: "(\<And>x. x \<in> set xs \<Longrightarrow> 0 \<le> f x) \<Longrightarrow> sum_list (map f (filter (\<lambda>x. f x > 0) xs)) = sum_list (map f xs)" for f :: "'a \<Rightarrow> int"
  by (induction xs) (auto simp: order_antisym not_less)

text \<open>The votes that a set of keys has in a committee.\<close>

definition votes :: "PosCommitteeSeats \<Rightarrow> (CPubKey \<Rightarrow> bool) \<Rightarrow> int" where
  "votes C A = sum_list (map snd (filter (\<lambda>x. A (fst x)) (seat_list C)))"

lemma votes_overlap:
  assumes "\<And>x. x \<in> set (seat_list C) \<Longrightarrow> 0 \<le> snd x"
  shows "votes C A + votes C B \<le> sum_list (map snd (seat_list C)) + votes C (\<lambda>pk. A pk \<and> B pk)"
proof -
  have "sum_list (map snd (filter (\<lambda>x. A (fst x)) xs)) + sum_list (map snd (filter (\<lambda>x. B (fst x)) xs)) \<le>
      sum_list (map snd xs) + sum_list (map snd (filter (\<lambda>x. A (fst x) \<and> B (fst x)) xs))"
    if "\<And>x. x \<in> set xs \<Longrightarrow> 0 \<le> snd x" for xs :: "(CPubKey \<times> int) list"
    using that
  proof (induction xs)
    case (Cons x xs)
    then show ?case using Cons.prems [of x] by fastforce
  qed simp
  then show ?thesis using assms unfolding votes_def by blast
qed

definition quota :: "pos_env \<Rightarrow> StakeRegistry \<Rightarrow> CPubKey \<Rightarrow> int" where
  "quota E R pk = PosPublicCommitteeSize E R * int (unat (GetWeight R pk)) div int (voting_stake E R)"

lemma map2_parts:
  assumes "length us = length pool"
  shows "map fst (map2 (\<lambda>(t, pk, w) h. (pk, int (f w + h))) pool us) = map (\<lambda>(t, pk, w). pk) pool"
    "sum_list (map snd (map2 (\<lambda>(t, pk, w) h. (pk, int (f w + h))) pool us)) = int (sum_list (map2 (\<lambda>(t, pk, w) h. f w + h) pool us))"
  using assms by (induction us pool rule: list_induct2) auto

lemma map2_member:
  assumes "(pk, n) \<in> set (map2 (\<lambda>(t, pk, w) h. (pk, int (f w + h))) pool us)" "set us \<subseteq> {0, 1 :: nat}"
  obtains t w where "(t, pk, w) \<in> set pool" "n = int (f w) \<or> n = int (f w) + 1"
proof -
  obtain t w h where e: "((t, pk, w), h) \<in> set (zip pool us)" "n = int (f w + h)" using assms(1) by auto
  then have "h = 0 \<or> h = 1" using assms(2) set_zip_rightD [OF e(1)] by auto
  then show thesis using that [OF set_zip_leftD [OF e(1)]] e(2) by auto
qed

lemma distinct_pool_keys: "distinct (map (\<lambda>(t, pk, w). pk) (seat_pool E R seed))"
proof -
  have "map (\<lambda>(t, pk, w). pk) (seat_pool E R seed) = map fst (voters E R)" by (simp add: seat_pool_def case_prod_unfold comp_def)
  then show ?thesis using distinct_fst_entries [of "Weights R"] by (simp add: distinct_map_filter)
qed

lemma seats_ok:
  fixes seed :: uint256
  assumes act: "PosSeatsActiveAt E height" and range: "seats_in_range E R" and ne: "voters E R \<noteq> []"
  defines "C \<equiv> PosPublicCommitteeSeats E R seed height"
  shows "total C = PosPublicCommitteeSize E R \<and> sum_list (seats C) = total C \<and> length (seats C) = length (members C) \<and>
    distinct (members C)" (is "?A")
    "(pk, n) \<in> set (seat_list C) \<Longrightarrow> 0 < n \<and> PosIsEligibleStake E (GetWeight R pk) \<and> HasBls R pk \<and>
       (n = quota E R pk \<or> n = quota E R pk + 1)"
proof -
  define f where "f w = nat (PosPublicCommitteeSize E R) * unat w div voting_stake E R" for w :: u64
  have S: "int (nat (PosPublicCommitteeSize E R)) = PosPublicCommitteeSize E R" by (simp add: PosPublicCommitteeSize_def)
  obtain pool hs where p: "mset pool = mset (seat_pool E R seed)" "length hs = length pool" "set hs \<subseteq> {0, 1 :: nat}"
    "sum_list (map2 (\<lambda>(t, pk, w) h. f w + h) pool hs) = nat (PosPublicCommitteeSize E R)"
    "C = add_seats no_seats (map2 (\<lambda>(t, pk, w) h. (pk, int (f w + h))) pool hs)"
    unfolding f_def C_def by (rule seats_form [OF act range ne])
  define xs where "xs = map2 (\<lambda>(t, pk, w) h. (pk, int (f w + h))) pool hs"
  have C: "C = add_seats no_seats xs" unfolding xs_def by (rule p(5))
  have "sum_list (map snd xs) = PosPublicCommitteeSize E R" unfolding xs_def map2_parts(2) [OF p(2)] p(4) S ..
  moreover have "0 \<le> snd x" if "x \<in> set xs" for x using that unfolding xs_def by auto
  ultimately have sum: "sum_list (map snd (filter (\<lambda>x. snd x > 0) xs)) = PosPublicCommitteeSize E R"
    using sum_positive [of xs snd] by simp
  have "mset (map fst xs) = mset (map (\<lambda>(t, pk, w). pk) (seat_pool E R seed))"
    unfolding xs_def map2_parts(1) [OF p(2)] mset_map p(1) ..
  then have "distinct (map fst xs)" using distinct_pool_keys mset_eq_imp_distinct_iff by blast
  then show ?A using sum unfolding C add_seats_parts by (simp add: add_seats_def no_seats_def Let_def distinct_map_filter)
  assume "(pk, n) \<in> set (seat_list C)"
  then have n: "0 < n" "(pk, n) \<in> set xs" unfolding C add_seats_parts by simp_all
  obtain t w where e: "(t, pk, w) \<in> set pool" "n = int (f w) \<or> n = int (f w) + 1"
    by (rule map2_member [OF n(2) [unfolded xs_def] p(3)])
  have "(t, pk, w) \<in> set (seat_pool E R seed)" using e(1) mset_eq_setD [OF p(1)] by simp
  then have v: "(pk, w) \<in> set (voters E R)" by (auto simp: seat_pool_def)
  have w: "GetWeight R pk = w" using voters_weight [OF v] by simp
  have "quota E R pk = int (f w)" unfolding quota_def f_def w zdiv_int of_nat_mult S ..
  then show "0 < n \<and> PosIsEligibleStake E (GetWeight R pk) \<and> HasBls R pk \<and> (n = quota E R pk \<or> n = quota E R pk + 1)"
    using n(1) e(2) v w by simp
qed

section \<open>A committee at every height\<close>

text \<open>One vote per member below the hardening height, seats from it.\<close>

lemma no_voters: "voters E R = [] \<Longrightarrow> PosSeatsActiveAt E height \<Longrightarrow> PosPublicCommitteeSeats E R seed height = no_seats"
  by (simp add: PosPublicCommitteeSeats_def seat_pool_def Let_def)

lemma replicate_sum: "length xs = n \<Longrightarrow> sum_list (map snd (zip xs (replicate n 1))) = int n"
  by (simp add: sum_list_replicate)

lemma committee_votes:
  fixes seed :: uint256 and height :: int
  assumes range: "seats_in_range E R"
  defines "C \<equiv> PosPublicCommitteeSeats E R seed height"
  shows "total C = PosPublicCommitteeSize E R" "sum_list (map snd (seat_list C)) = total C" "x \<in> set (seat_list C) \<Longrightarrow> 0 \<le> snd x"
proof -
  consider "\<not> PosSeatsActiveAt E height" | "PosSeatsActiveAt E height" "voters E R = []"
    | "PosSeatsActiveAt E height" "voters E R \<noteq> []" by blast
  then have "total C = PosPublicCommitteeSize E R \<and> sum_list (map snd (seat_list C)) = total C \<and>
      (x \<in> set (seat_list C) \<longrightarrow> 0 \<le> snd x)"
  proof cases
    case 1
    then show ?thesis using range committee_size [of E R seed]
      by (auto simp: C_def PosPublicCommitteeSeats_def seat_list_def seats_in_range_def sum_list_replicate Let_def
          in_set_zip)
  next
    case 2
    then show ?thesis using range
      by (simp add: C_def no_voters no_seats_def seat_list_def PosPublicCommitteeSize_def)
  next
    case 3
    note ok = seats_ok [OF 3(1) range 3(2), where seed = seed]
    have "0 \<le> snd x" if "x \<in> set (seat_list C)" using ok(2) [of "fst x" "snd x"] that by (simp add: C_def)
    then show ?thesis using ok(1) by (simp add: C_def seat_list_def)
  qed
  then show "total C = PosPublicCommitteeSize E R" "sum_list (map snd (seat_list C)) = total C"
    "x \<in> set (seat_list C) \<Longrightarrow> 0 \<le> snd x" by blast+
qed

lemma quorum_at: "g_pos_public_committee E \<Longrightarrow> PosSlotQuorumAt E R height = PosPublicQuorum (PosPublicCommitteeSize E R)"
  by (simp add: PosSlotQuorumAt_def PosPublicSeatTotal_def PosSlotQuorum_def)

lemma two_quorums: "k + min 2 k \<le> 2 * PosPublicQuorum k"
  unfolding PosPublicQuorum_def by presburger

text \<open>Two stakers that may certify.\<close>

definition sample_stakers :: StakeRegistry where
  "sample_stakers = SetBls (sample_key 2) (replicate 48 2) (SetBls (sample_key 1) (replicate 48 1)
     (SetStake (sample_key 2) 300 (SetStake (sample_key 1) 500 Reg_Clear)))"

lemma append_less_same: "xs @ ys < xs @ zs \<longleftrightarrow> ys < zs" for xs :: "'a::linorder list"
  by (induction xs) simp_all

lemma sample_voters: "voters sample_env sample_stakers = [(sample_key 1, 500), (sample_key 2, 300)]"
proof -
  have "sample_key 1 < sample_key 2" by (simp add: sample_key_def less_CPubKey_def append_less_same)
  then have ne: "sample_key 1 \<noteq> sample_key 2" "\<not> sample_key 2 \<le> sample_key 1" "sample_key 1 \<le> sample_key 2" by auto
  have "MergedLocked sample_stakers = fmupd (sample_key 2) 300 (fmupd (sample_key 1) 500 fmempty)"
    by (simp add: MergedLocked_def sample_stakers_def SetBls_def SetStake_def Reg_Clear_def)
  then have "Weights sample_stakers = fmupd (sample_key 2) 300 (fmupd (sample_key 1) 500 fmempty)"
    using ne
    by (simp add: Weights_def WeightsLocked_def SignerForLocked_def sorted_list_of_fmap_def sorted_list_of_fset_def
       sample_stakers_def SetBls_def SetStake_def Reg_Clear_def fm_plus_def fm_get_def insort_key.simps)
  then show ?thesis using ne
    by (simp add: sorted_list_of_fmap_def sorted_list_of_fset_def HasBls_def sample_stakers_def SetBls_def SetStake_def Reg_Clear_def
       sample_env_def PosIsEligibleStake_def)
qed

lemma sample_range: "seats_in_range sample_env sample_stakers"
  unfolding seats_in_range_def voting_stake_def sample_voters by (simp add: sample_env_def)

lemma sample_size: "PosPublicCommitteeSize sample_env sample_stakers = 2"
  unfolding PosPublicCommitteeSize_def sample_voters by (simp add: sample_env_def committee_cap_def)

section \<open>Properties\<close>

text \<open>C7. From the hardening height, and with the eligible stake below 2 to the 64, the committee of a
  slot holds exactly as many seats as the quorum is computed from, each counted once to one member; every
  member is an eligible staker with a BLS key and holds the whole part of its quota or one seat more.\<close>

theorem seats_apportioned:
  assumes "PosSeatsActiveAt E height" "seats_in_range E R" "voters E R \<noteq> []"
  shows "let C = PosPublicCommitteeSeats E R seed height in
    total C = PosPublicSeatTotal E R height \<and> sum_list (seats C) = total C \<and> length (seats C) = length (members C) \<and>
    distinct (members C) \<and>
    (\<forall>(pk, n) \<in> set (zip (members C) (seats C)). 0 < n \<and> PosIsEligibleStake E (GetWeight R pk) \<and> HasBls R pk \<and>
       (let q = total C * int (unat (GetWeight R pk)) div int (voting_stake E R) in n = q \<or> n = q + 1))"
  using seats_ok [OF assms, where seed = seed]
  by (clarsimp simp: PosPublicSeatTotal_def seat_list_def quota_def Let_def)

theorem seats_apportioned_witness:
  "voters sample_env sample_stakers \<noteq> [] \<and> PosSeatsActiveAt sample_env 10 \<and> seats_in_range sample_env sample_stakers \<and>
   total (PosPublicCommitteeSeats sample_env sample_stakers uint256_zero 10) = 2"
proof -
  have a: "PosSeatsActiveAt sample_env 10" by (simp add: PosSeatsActiveAt_def sample_env_def)
  have ne: "voters sample_env sample_stakers \<noteq> []" unfolding sample_voters by simp
  show ?thesis using seats_apportioned [OF a sample_range ne, of uint256_zero] a ne sample_range
    by (simp add: PosPublicSeatTotal_def sample_size Let_def)
qed

text \<open>C31. At every height, two sets of members that both reach the quorum of the slot have at least two seats
  of the committee in common, or its only seat when the committee has one. The committee size is
  set, and the weights of the stakers add up without wrapping.\<close>

theorem quorums_share_seats:
  assumes "g_pos_public_committee E" "seats_in_range E R"
    and "PosSlotQuorumAt E R height \<le> votes (PosPublicCommitteeSeats E R seed height) A"
    and "PosSlotQuorumAt E R height \<le> votes (PosPublicCommitteeSeats E R seed height) B"
  shows "min 2 (PosPublicCommitteeSize E R) \<le> votes (PosPublicCommitteeSeats E R seed height) (\<lambda>pk. A pk \<and> B pk)"
  using votes_overlap [of "PosPublicCommitteeSeats E R seed height" A B] committee_votes [OF assms(2), where seed = seed and height = height]
    two_quorums [of "PosPublicCommitteeSize E R"] assms(3,4) by (simp add: quorum_at [OF assms(1)])

theorem quorums_share_seats_witness:
  "2 \<le> votes (PosPublicCommitteeSeats sample_env sample_stakers uint256_zero 10) (\<lambda>pk. True)"
proof -
  let ?C = "PosPublicCommitteeSeats sample_env sample_stakers uint256_zero 10"
  have p: "g_pos_public_committee sample_env" by (simp add: sample_env_def)
  have "PosSlotQuorumAt sample_env sample_stakers 10 = 2" by (simp add: quorum_at [OF p] sample_size PosPublicQuorum_def)
  moreover have "votes ?C (\<lambda>pk. True) = 2"
    using committee_votes [OF sample_range, where seed = uint256_zero and height = 10] by (simp add: votes_def sample_size)
  ultimately show ?thesis
    using quorums_share_seats [OF p sample_range, of 10 uint256_zero "\<lambda>_. True" "\<lambda>_. True"] by (simp add: sample_size)
qed

text \<open>C32. The quorum never exceeds the committee, so that a committee whose members all sign certifies the
  slot, at every height.\<close>

theorem full_committee_certifies:
  assumes "g_pos_public_committee E" "seats_in_range E R"
  shows "PosSlotQuorumAt E R height \<le> votes (PosPublicCommitteeSeats E R seed height) (\<lambda>pk. True)"
  using committee_votes [OF assms(2), where seed = seed and height = height]
  by (simp add: votes_def quorum_at [OF assms(1)] PosPublicQuorum_def PosPublicCommitteeSize_def)

theorem full_committee_certifies_witness:
  "g_pos_public_committee sample_env \<and> seats_in_range sample_env sample_stakers \<and>
   2 \<le> votes (PosPublicCommitteeSeats sample_env sample_stakers uint256_zero 5) (\<lambda>pk. True)"
proof -
  have p: "g_pos_public_committee sample_env" by (simp add: sample_env_def)
  show ?thesis using full_committee_certifies [OF p sample_range, of 5 uint256_zero] p sample_range
    by (simp add: quorum_at [OF p] sample_size PosPublicQuorum_def)
qed

text \<open>Exactly how far two quorums of a committee of \<open>k\<close> overlap: in two members when \<open>k\<close> is even, in three
  when it is odd and above one, but in one when \<open>k\<close> is one.\<close>

theorem quorum_overlap_exact:
  "2 * PosPublicQuorum k - k = (if k \<le> 0 then - k else if k = 1 then 1 else if even k then 2 else 3)"
  unfolding PosPublicQuorum_def by presburger

text \<open>C33. The schedule lists every eligible staker once, in the order of the weighted tickets with ties by
  key, and the rank of a staker is its place in it; no other key has a rank.\<close>

theorem schedule_is_the_ranking:
  "distinct (PosSchedule E R seed) \<and> set (PosSchedule E R seed) = {pk. PosIsEligibleStake E (GetWeight R pk)} \<and>
   sorted (map (\<lambda>pk. (WeightedTicket seed pk (GetWeight R pk), pk)) (PosSchedule E R seed)) \<and>
   (PosRank E R seed pk = Some i \<longleftrightarrow> i < length (PosSchedule E R seed) \<and> PosSchedule E R seed ! i = pk)"
proof -
  have "map (\<lambda>pk. (WeightedTicket seed pk (GetWeight R pk), pk)) (PosSchedule E R seed) = sort (ranked E R seed)"
    using schedule_ticket [of _ E R seed] by (intro nth_equalityI) (simp_all add: PosSchedule_def)
  then show ?thesis using PosRank_iff set_schedule distinct_schedule by simp
qed

end
