(* ===== verification/Challenge.thy ===== *)
theory Challenge
  imports Records Standard Election
begin

text \<open>
  The challenge of a block and its proof (\<open>src/pos.cpp\<close>): the four forms of the challenge, that names the
  leader and perhaps a committee; the VRF proofs in the coinbase; and the two forms of the BLS certificate
  in the solution, a list of members or a bitfield over the committee of the slot.
\<close>

section \<open>Challenges\<close>

abbreviation MAX_POS_COMMITTEE_SIZE :: nat where "MAX_POS_COMMITTEE_SIZE \<equiv> 16"

definition BuildPosChallenge :: "CPubKey \<Rightarrow> bytes" where
  "BuildPosChallenge pubkey = push_vch (PubKey_bytes pubkey) @ [OP_CHECKSIG]"

definition BuildPosBlockChallenge :: "CPubKey \<Rightarrow> CPubKey list \<Rightarrow> int \<Rightarrow> bytes" where
  "BuildPosBlockChallenge leader committee quorum_override =
     (if length committee \<le> 1 then BuildPosChallenge leader
      else let quorum = (if quorum_override > 0 then quorum_override else PosQuorum (length committee))
        in push_vch (PubKey_bytes leader) @ [OP_CHECKSIGVERIFY] @ push_int64 quorum
           @ concat (map (\<lambda>member. push_vch (PubKey_bytes member)) committee)
           @ push_int64 (int (length committee)) @ [OP_CHECKMULTISIG])"

definition PosChallengeToPubKey :: "pos_env \<Rightarrow> bytes \<Rightarrow> CPubKey option" where
  "PosChallengeToPubKey E challenge = do {
     (pubkey, pc) \<leftarrow> expect_key E challenge;
     pc \<leftarrow> expect_op OP_CHECKSIG pc;
     at_end pc pubkey
   }"

definition BuildPosAggChallenge :: "CPubKey \<Rightarrow> bytes \<Rightarrow> bytes" where
  "BuildPosAggChallenge leader agg_key32 = [OP_1] @ push_vch (PubKey_bytes leader) @ push_vch agg_key32"

definition BuildPosBlsChallenge :: "CPubKey \<Rightarrow> bytes" where
  "BuildPosBlsChallenge leader = [OP_2] @ push_vch (PubKey_bytes leader)"

definition PosLeaderFeeScript :: "CPubKey \<Rightarrow> bytes" where
  "PosLeaderFeeScript leader = GetScriptForDestination (WitnessV0KeyHash (PubKey_GetID leader))"

record PosChallengeParts =
  leader :: CPubKey
  committee :: "CPubKey list"
  quorum :: int
  agg_key :: bytes
  is_bls :: bool

text \<open>The three forms after the leader-only one.\<close>

definition parse_agg :: "pos_env \<Rightarrow> bytes \<Rightarrow> PosChallengeParts option" where
  "parse_agg E pc = do {
     (l, pc) \<leftarrow> expect_key E pc;
     (opcode, data, pc) \<leftarrow> GetScriptOp pc;
     (if length data \<noteq> 32 then None
      else at_end pc \<lparr>leader = l, committee = [], quorum = 0, agg_key = data, is_bls = False\<rparr>)
   }"

definition parse_bls :: "pos_env \<Rightarrow> bytes \<Rightarrow> PosChallengeParts option" where
  "parse_bls E pc = do {
     (l, pc) \<leftarrow> expect_key E pc;
     at_end pc \<lparr>leader = l, committee = [], quorum = 0, agg_key = [], is_bls = True\<rparr>
   }"

function parse_members :: "pos_env \<Rightarrow> bytes \<Rightarrow> CPubKey list \<Rightarrow> (CPubKey list \<times> bytes) option" where
  "parse_members E pc ms =
     (case GetScriptOp pc of None \<Rightarrow> None
      | Some (opcode, data, pc') \<Rightarrow>
          if data = [] then
            (let m = DecodeSmallInt opcode
             in if m < 1 \<or> nat m \<noteq> length ms then None else Some (ms, pc'))
          else (case key_of E data of None \<Rightarrow> None
            | Some member \<Rightarrow>
                if length ms \<ge> MAX_POS_COMMITTEE_SIZE then None else parse_members E pc' (ms @ [member])))"
  by pat_completeness auto
termination
  by (relation "measure (\<lambda>(E, pc, ms). length pc)") (auto dest: GetScriptOp_shorter)

declare parse_members.simps [simp del]

definition parse_committee :: "pos_env \<Rightarrow> bytes \<Rightarrow> PosChallengeParts option" where
  "parse_committee E pc = do {
     (l, pc) \<leftarrow> expect_key E pc;
     pc \<leftarrow> expect_op OP_CHECKSIGVERIFY pc;
     (opcode, data, pc) \<leftarrow> GetScriptOp pc;
     let q = DecodeSmallInt opcode;
     (if q < 1 then None
      else do {
        (ms, pc) \<leftarrow> parse_members E pc [];
        (if q > int (length ms) then None
         else do {
           pc \<leftarrow> expect_op OP_CHECKMULTISIG pc;
           at_end pc \<lparr>leader = l, committee = ms, quorum = q, agg_key = [], is_bls = False\<rparr>
         })
      })
   }"

definition ParsePosBlockChallenge :: "pos_env \<Rightarrow> bytes \<Rightarrow> PosChallengeParts option" where
  "ParsePosBlockChallenge E challenge =
     (case PosChallengeToPubKey E challenge of
        Some l \<Rightarrow> Some \<lparr>leader = l, committee = [], quorum = 0, agg_key = [], is_bls = False\<rparr>
      | None \<Rightarrow>
          (case GetScriptOp challenge of
             Some (opcode, data, pc) \<Rightarrow>
               if opcode = OP_1 then parse_agg E pc
               else if opcode = OP_2 then parse_bls E pc
               else parse_committee E challenge
           | None \<Rightarrow> parse_committee E challenge))"

section \<open>Sortition proofs in the coinbase\<close>

abbreviation POS_VRF_TAG :: bytes where "POS_VRF_TAG \<equiv> ascii ''SEQVRF''"
abbreviation POS_CMT_TAG :: bytes where "POS_CMT_TAG \<equiv> ascii ''SEQCMT''"
abbreviation VRF_PROOF_SIZE :: nat where "VRF_PROOF_SIZE \<equiv> 81"

definition BuildPosVrfCommitment :: "bytes \<Rightarrow> bytes" where
  "BuildPosVrfCommitment proof = [OP_RETURN] @ push_vch (POS_VRF_TAG @ proof)"

text \<open>\<open>OP_RETURN\<close>, then a push of the tag and of \<open>n\<close> more bytes; what follows in the script is not read.\<close>

definition tagged_return :: "bytes \<Rightarrow> nat \<Rightarrow> bytes \<Rightarrow> bytes option" where
  "tagged_return tag n spk = do {
     pc \<leftarrow> expect_op OP_RETURN spk;
     (opcode, data, pc) \<leftarrow> GetScriptOp pc;
     (if length data \<noteq> length tag + n then None
      else if take (length tag) data \<noteq> tag then None
      else Some (drop (length tag) data))
   }"

fun first_some :: "('a \<Rightarrow> 'b option) \<Rightarrow> 'a list \<Rightarrow> 'b option" where
  "first_some f [] = None"
| "first_some f (x # xs) = (case f x of None \<Rightarrow> first_some f xs | Some y \<Rightarrow> Some y)"

definition ExtractPosVrfProof :: "CBlock \<Rightarrow> bytes option" where
  "ExtractPosVrfProof block =
     (if block = [] then None
      else first_some (\<lambda>out. tagged_return POS_VRF_TAG VRF_PROOF_SIZE (scriptPubKey out)) (vout (block ! 0)))"

definition BuildPosVrfMemberCommitment :: "CPubKey \<Rightarrow> bytes \<Rightarrow> bytes" where
  "BuildPosVrfMemberCommitment member proof = [OP_RETURN] @ push_vch (POS_CMT_TAG @ PubKey_bytes member @ proof)"

record PosVrfMember =
  vm_pubkey :: CPubKey
  vm_proof :: bytes

definition vrf_member_of :: "CTxOut \<Rightarrow> PosVrfMember option" where
  "vrf_member_of out = do {
     data \<leftarrow> tagged_return POS_CMT_TAG (COMPRESSED_SIZE + VRF_PROOF_SIZE) (scriptPubKey out);
     let pk = PubKey_Set (take COMPRESSED_SIZE data);
     (if \<not> PubKey_IsValid pk then None
      else Some \<lparr>vm_pubkey = pk, vm_proof = drop COMPRESSED_SIZE data\<rparr>)
   }"

definition ExtractPosVrfMembers :: "CBlock \<Rightarrow> PosVrfMember list" where
  "ExtractPosVrfMembers block = (if block = [] then [] else List.map_filter vrf_member_of (vout (block ! 0)))"

section \<open>Certificates\<close>

abbreviation MAX_POS_AGG_COMMITTEE_SIZE :: nat where "MAX_POS_AGG_COMMITTEE_SIZE \<equiv> 100"
abbreviation MAX_POS_PUBLIC_COMMITTEE_SIZE :: nat where "MAX_POS_PUBLIC_COMMITTEE_SIZE \<equiv> 1000"

record PosBlsMember =
  bm_pubkey :: CPubKey
  bm_proof :: bytes
  bm_bls_pubkey :: bytes
  bm_bls_pop :: bytes

record PosBlsCertificate =
  bc_leader_sig :: bytes
  bc_agg_sig :: bytes
  bc_members :: "PosBlsMember list"

definition member_blob :: "PosBlsMember \<Rightarrow> bytes" where
  "member_blob m = PubKey_bytes (bm_pubkey m) @ bm_proof m @ bm_bls_pubkey m @ bm_bls_pop m"

definition BuildPosBlsSolution :: "bytes \<Rightarrow> bytes \<Rightarrow> PosBlsMember list \<Rightarrow> bytes" where
  "BuildPosBlsSolution leader_sig agg_sig ms =
     push_vch leader_sig @ push_vch agg_sig @ concat (map (\<lambda>m. push_vch (member_blob m)) ms)"

definition member_of_blob :: "bytes \<Rightarrow> PosBlsMember option" where
  "member_of_blob data =
     (if length data \<noteq> COMPRESSED_SIZE + VRF_PROOF_SIZE + BLS_PK_SIZE + BLS_SIG_SIZE then None
      else let pk = PubKey_Set (take COMPRESSED_SIZE data); data = drop COMPRESSED_SIZE data
        in if \<not> PubKey_IsValid pk then None
           else Some \<lparr>bm_pubkey = pk, bm_proof = take VRF_PROOF_SIZE data,
             bm_bls_pubkey = take BLS_PK_SIZE (drop VRF_PROOF_SIZE data),
             bm_bls_pop = take BLS_SIG_SIZE (drop (VRF_PROOF_SIZE + BLS_PK_SIZE) data)\<rparr>)"

text \<open>\<open>while (solution.GetOp(pc, opcode, data))\<close>: the loop ends at the end of the script and also at a token
  that cannot be read.\<close>

function solution_members :: "bytes \<Rightarrow> PosBlsMember list \<Rightarrow> PosBlsMember list option" where
  "solution_members pc ms =
     (case GetScriptOp pc of None \<Rightarrow> Some ms
      | Some (opcode, data, pc') \<Rightarrow>
          if length data \<noteq> COMPRESSED_SIZE + VRF_PROOF_SIZE + BLS_PK_SIZE + BLS_SIG_SIZE then None
          else if length ms \<ge> MAX_POS_AGG_COMMITTEE_SIZE then None
          else (case member_of_blob data of None \<Rightarrow> None | Some m \<Rightarrow> solution_members pc' (ms @ [m])))"
  by pat_completeness auto
termination
  by (relation "measure (\<lambda>(pc, ms). length pc)") (auto dest: GetScriptOp_shorter)

declare solution_members.simps [simp del]

definition ParsePosBlsSolution :: "bytes \<Rightarrow> PosBlsCertificate option" where
  "ParsePosBlsSolution solution = do {
     (opcode, leader_sig, pc) \<leftarrow> GetScriptOp solution;
     (if leader_sig = [] then None
      else do {
        (opcode, agg_sig, pc) \<leftarrow> GetScriptOp pc;
        (if length agg_sig \<noteq> BLS_SIG_SIZE then None
         else do {
           ms \<leftarrow> solution_members pc [];
           Some \<lparr>bc_leader_sig = leader_sig, bc_agg_sig = agg_sig, bc_members = ms\<rparr>
         })
      })
   }"

definition PosBitfieldTest :: "bytes \<Rightarrow> nat \<Rightarrow> bool" where
  "PosBitfieldTest bitfield i =
     (let byte = i div 8
      in if byte \<ge> length bitfield then False else drop_bit (i mod 8) (bitfield ! byte) AND 1 \<noteq> 0)"

definition PosBitfieldSet :: "bytes \<Rightarrow> nat \<Rightarrow> bytes" where
  "PosBitfieldSet bitfield i =
     (let byte = i div 8;
          bitfield = (if byte \<ge> length bitfield then bitfield @ replicate (byte + 1 - length bitfield) 0 else bitfield)
      in bitfield[byte := bitfield ! byte OR push_bit (i mod 8) 1])"

lemma half_byte: "b \<noteq> 0 \<Longrightarrow> unat (drop_bit 1 b) < unat b" for b :: byte
proof -
  assume "b \<noteq> 0"
  then have "unat b \<noteq> 0" by (simp add: unat_eq_0)
  moreover have "unat (drop_bit 1 b) = unat b div 2" by (subst unat_drop_bit_eq) (simp add: drop_bit_Suc)
  ultimately show ?thesis by simp
qed

function pop_byte :: "byte \<Rightarrow> int" where
  "pop_byte b = (if b = 0 then 0 else uint (b AND 1) + pop_byte (drop_bit 1 b))"
  by pat_completeness auto
termination
  by (relation "measure unat") (use half_byte in auto)

declare pop_byte.simps [simp del]

definition PosBitfieldPopcount :: "bytes \<Rightarrow> int" where
  "PosBitfieldPopcount bitfield = fold (\<lambda>b n. n + pop_byte b) bitfield 0"

text \<open>A negative number of seats is that of a certificate that carries none.\<close>

record PosBlsBitfieldCert =
  bf_leader_sig :: bytes
  bf_agg_sig :: bytes
  bf_bitfield :: bytes
  bf_seats :: int

definition BuildPosBlsBitfieldSolution :: "bytes \<Rightarrow> bytes \<Rightarrow> bytes \<Rightarrow> int \<Rightarrow> bytes" where
  "BuildPosBlsBitfieldSolution leader_sig agg_sig bitfield n =
     push_vch leader_sig @ push_vch agg_sig @ push_vch bitfield @ (if n \<ge> 0 then push_int64 n else [])"

definition seat_count :: "byte \<Rightarrow> bytes \<Rightarrow> int option" where
  "seat_count opcode data =
     (if opcode = OP_0 then Some 0
      else if is_small_int_op opcode then Some (small_int_of opcode)
      else if data = [] \<or> length data > 4 then None
      else map_option ScriptNum_getint (CScriptNum data True 4))"

definition ParsePosBlsBitfieldSolution :: "bytes \<Rightarrow> PosBlsBitfieldCert option" where
  "ParsePosBlsBitfieldSolution solution = do {
     (opcode, leader_sig, pc) \<leftarrow> GetScriptOp solution;
     (if leader_sig = [] then None
      else do {
        (opcode, agg_sig, pc) \<leftarrow> GetScriptOp pc;
        (if length agg_sig \<noteq> BLS_SIG_SIZE then None
         else do {
           (opcode, bitfield, pc) \<leftarrow> GetScriptOp pc;
           (if bitfield = [] \<or> length bitfield > (MAX_POS_PUBLIC_COMMITTEE_SIZE + 7) div 8 then None
            else if pc = [] then
              Some \<lparr>bf_leader_sig = leader_sig, bf_agg_sig = agg_sig, bf_bitfield = bitfield, bf_seats = -1\<rparr>
            else do {
              (opcode, data, pc) \<leftarrow> GetScriptOp pc;
              n \<leftarrow> seat_count opcode data;
              (if n < 0 \<or> n > int MAX_POS_PUBLIC_COMMITTEE_SIZE then None
               else at_end pc \<lparr>bf_leader_sig = leader_sig, bf_agg_sig = agg_sig, bf_bitfield = bitfield, bf_seats = n\<rparr>)
            })
         })
      })
   }"

section \<open>Challenges read back\<close>

definition parts_ok :: "pos_env \<Rightarrow> PosChallengeParts \<Rightarrow> bool" where
  "parts_ok E p \<longleftrightarrow> good_key E (leader p) \<and> list_all (good_key E) (committee p) \<and>
     length (committee p) \<le> MAX_POS_COMMITTEE_SIZE \<and>
     (agg_key p = [] \<or> length (agg_key p) = 32 \<and> \<not> is_bls p) \<and>
     (if committee p = [] then quorum p = 0
      else 1 \<le> quorum p \<and> quorum p \<le> int (length (committee p)) \<and> agg_key p = [] \<and> \<not> is_bls p)"

lemma parse_members_ok:
  "parse_members E pc ms = Some (ms', pc') \<Longrightarrow> list_all (good_key E) ms \<Longrightarrow> length ms \<le> 16 \<Longrightarrow>
   list_all (good_key E) ms' \<and> length ms' \<le> 16 \<and> ms' \<noteq> []"
proof (induction E pc ms rule: parse_members.induct)
  case (1 E pc ms)
  obtain opcode data pc2 where g: "GetScriptOp pc = Some (opcode, data, pc2)"
    using "1.prems"(1) by (subst (asm) parse_members.simps) (auto split: option.splits)
  show ?case
  proof (cases "data = []")
    case True
    then show ?thesis using "1.prems" g
      by (subst (asm) parse_members.simps) (auto simp: Let_def split: if_splits)
  next
    case False
    then obtain m where k: "key_of E data = Some m" and l: "length ms < 16" and
      r: "parse_members E pc2 (ms @ [m]) = Some (ms', pc')"
      using "1.prems"(1) g by (subst (asm) parse_members.simps) (auto split: option.splits if_splits)
    have "\<not> 16 \<le> length ms" using l by simp
    from "1.IH" [OF g refl refl False k this r] show ?thesis using "1.prems"(2) key_of_good [OF k] l by simp
  qed
qed

lemma parse_members_build:
  "list_all (good_key E) ms \<Longrightarrow> length acc + length ms \<le> 16 \<Longrightarrow> acc @ ms \<noteq> [] \<Longrightarrow>
   parse_members E (concat (map (\<lambda>m. push_vch (PubKey_bytes m)) ms) @ push_int64 (int (length (acc @ ms))) @ rest) acc =
     Some (acc @ ms, rest)"
proof (induction ms arbitrary: acc)
  case Nil
  then have n: "1 \<le> int (length acc)" "int (length acc) \<le> 16" by (cases acc, simp_all)
  have "DecodeSmallInt (word_of_int (int (length acc) + 0x50)) = int (length acc)"
    using small_int_token(1,2) [OF n] by (simp add: DecodeSmallInt_def)
  then show ?case using n Nil.prems(3) by (subst parse_members.simps) (simp add: GetScriptOp_push_small Let_def)
next
  case (Cons m ms)
  have k: "key_of E (PubKey_bytes m) = Some m" using Cons.prems(1) by (simp add: key_of_bytes)
  then have "PubKey_bytes m \<noteq> []" by (auto simp: key_of_def)
  then show ?case using Cons.IH [of "acc @ [m]"] Cons.prems k
    by (subst parse_members.simps) (simp add: GetScriptOp_push_vch [OF length_key_push])
qed

lemma parse_committee_build:
  assumes "good_key E l" "list_all (good_key E) ms" "ms \<noteq> []" "length ms \<le> 16" "1 \<le> q" "q \<le> int (length ms)"
  shows "parse_committee E (push_vch (PubKey_bytes l) @ [OP_CHECKSIGVERIFY] @ push_int64 q
      @ concat (map (\<lambda>m. push_vch (PubKey_bytes m)) ms) @ push_int64 (int (length ms)) @ [OP_CHECKMULTISIG]) =
    Some \<lparr>leader = l, committee = ms, quorum = q, agg_key = [], is_bls = False\<rparr>"
proof -
  have q: "q \<le> 16" using assms(4,6) by simp
  have "DecodeSmallInt (word_of_int (q + 0x50)) = q"
    using small_int_token(1,2) [OF assms(5) q] by (simp add: DecodeSmallInt_def)
  then show ?thesis using assms q parse_members_build [of E ms "[]" "[OP_CHECKMULTISIG]"]
    by (simp add: parse_committee_def script_simps at_end_def)
qed

lemma leader_token: "good_key E l \<Longrightarrow> GetScriptOp (push_vch (PubKey_bytes l) @ rest) = Some (push_op (PubKey_bytes l), PubKey_bytes l, rest)"
  by (rule GetScriptOp_push_vch [OF length_key_push])

lemma push_op_not_form [simp]: "push_op b \<noteq> OP_1" "push_op b \<noteq> OP_2"
  using push_op_less_byte [of OP_1 b] push_op_less_byte [of OP_2 b] by auto

lemma parse_forms:
  assumes "good_key E l"
  shows "ParsePosBlockChallenge E (BuildPosChallenge l) = Some \<lparr>leader = l, committee = [], quorum = 0, agg_key = [], is_bls = False\<rparr>"
    "ParsePosBlockChallenge E (BuildPosBlsChallenge l) = Some \<lparr>leader = l, committee = [], quorum = 0, agg_key = [], is_bls = True\<rparr>"
    "length k = 32 \<Longrightarrow> ParsePosBlockChallenge E (BuildPosAggChallenge l k) =
       Some \<lparr>leader = l, committee = [], quorum = 0, agg_key = k, is_bls = False\<rparr>"
proof -
  show "ParsePosBlockChallenge E (BuildPosChallenge l) = Some \<lparr>leader = l, committee = [], quorum = 0, agg_key = [], is_bls = False\<rparr>"
    using assms by (simp add: ParsePosBlockChallenge_def PosChallengeToPubKey_def BuildPosChallenge_def script_simps at_end_def)
  have none: "PosChallengeToPubKey E (op # rest) = None" if "OP_PUSHDATA4 < op" for op rest
    using that by (simp add: PosChallengeToPubKey_def expect_key_def GetScriptOp_op key_of_def)
  have l: "expect_key E (push_vch (PubKey_bytes l)) = Some (l, [])" using expect_key_push [OF assms, of "[]"] by simp
  show "ParsePosBlockChallenge E (BuildPosBlsChallenge l) = Some \<lparr>leader = l, committee = [], quorum = 0, agg_key = [], is_bls = True\<rparr>"
    using l by (simp add: ParsePosBlockChallenge_def BuildPosBlsChallenge_def none GetScriptOp_op parse_bls_def at_end_def)
  assume k: "length k = 32"
  have "GetScriptOp (push_vch k) = Some (push_op k, k, [])" using GetScriptOp_push_vch [of k "[]"] k by simp
  then show "ParsePosBlockChallenge E (BuildPosAggChallenge l k) =
       Some \<lparr>leader = l, committee = [], quorum = 0, agg_key = k, is_bls = False\<rparr>"
    using assms k by (simp add: ParsePosBlockChallenge_def BuildPosAggChallenge_def none GetScriptOp_op parse_agg_def at_end_def script_simps)
qed

lemma parse_block_challenge:
  assumes "good_key E l" "list_all (good_key E) ms" "2 \<le> length ms" "length ms \<le> 16" "1 \<le> q" "q \<le> int (length ms)"
  shows "ParsePosBlockChallenge E (BuildPosBlockChallenge l ms q) =
    Some \<lparr>leader = l, committee = ms, quorum = q, agg_key = [], is_bls = False\<rparr>"
proof -
  define rest where "rest = push_int64 q @ concat (map (\<lambda>m. push_vch (PubKey_bytes m)) ms) @ push_int64 (int (length ms)) @ [OP_CHECKMULTISIG]"
  have ne: "ms \<noteq> []" using assms(3) by auto
  have b: "BuildPosBlockChallenge l ms q = push_vch (PubKey_bytes l) @ [OP_CHECKSIGVERIFY] @ rest"
    using assms(3,5) by (simp add: BuildPosBlockChallenge_def rest_def)
  have c: "PosChallengeToPubKey E (push_vch (PubKey_bytes l) @ [OP_CHECKSIGVERIFY] @ rest) = None"
    using assms(1) by (simp add: PosChallengeToPubKey_def script_simps expect_op_def)
  show ?thesis unfolding b unfolding ParsePosBlockChallenge_def c leader_token [OF assms(1)]
    using parse_committee_build [OF assms(1,2) ne assms(4-6)] by (simp add: rest_def)
qed

lemma parse_agg_ok: "parse_agg E pc = Some p \<Longrightarrow> parts_ok E p"
  using expect_key_good [of E pc]
  by (auto simp: parse_agg_def parts_ok_def at_end_def split: Option.bind_split_asm if_split_asm)

lemma parse_bls_ok: "parse_bls E pc = Some p \<Longrightarrow> parts_ok E p"
  using expect_key_good [of E pc]
  by (auto simp: parse_bls_def parts_ok_def at_end_def split: Option.bind_split_asm if_split_asm)

lemma leader_only_ok:
  "PosChallengeToPubKey E s = Some l \<Longrightarrow> parts_ok E \<lparr>leader = l, committee = [], quorum = 0, agg_key = [], is_bls = False\<rparr>"
  by (auto simp: PosChallengeToPubKey_def parts_ok_def at_end_def split: Option.bind_split_asm if_split_asm dest: expect_key_good)

lemma parse_committee_ok:
  assumes "parse_committee E s = Some p"
  shows "parts_ok E p"
proof -
  obtain l pc where k: "expect_key E s = Some (l, pc)" using assms
    by (auto simp: parse_committee_def split: Option.bind_split_asm)
  obtain pc2 where o1: "expect_op OP_CHECKSIGVERIFY pc = Some pc2" using assms
    by (auto simp: parse_committee_def k split: Option.bind_split_asm)
  obtain opcode data pc3 where o2: "GetScriptOp pc2 = Some (opcode, data, pc3)" using assms
    by (auto simp: parse_committee_def k o1 split: Option.bind_split_asm)
  have q: "1 \<le> DecodeSmallInt opcode" using assms by (simp add: parse_committee_def k o1 o2 Let_def split: if_split_asm)
  obtain ms pc4 where m: "parse_members E pc3 [] = Some (ms, pc4)" using assms q
    by (auto simp: parse_committee_def k o1 o2 Let_def split: Option.bind_split_asm if_split_asm)
  have "DecodeSmallInt opcode \<le> int (length ms)" "p = \<lparr>leader = l, committee = ms, quorum = DecodeSmallInt opcode, agg_key = [], is_bls = False\<rparr>"
    using assms q by (auto simp: parse_committee_def k o1 o2 m Let_def at_end_def split: Option.bind_split_asm if_split_asm)
  then show ?thesis using parse_members_ok [OF m] expect_key_good [OF k] q by (simp add: parts_ok_def)
qed

lemma parse_challenge_ok: "ParsePosBlockChallenge E s = Some p \<Longrightarrow> parts_ok E p"
  using parse_agg_ok parse_bls_ok leader_only_ok parse_committee_ok
  by (simp add: ParsePosBlockChallenge_def split: option.split_asm prod.split_asm if_split_asm) blast+

section \<open>Bitfields\<close>

lemma test_bit: "PosBitfieldTest bf i \<longleftrightarrow> i div 8 < length bf \<and> bit (bf ! (i div 8)) (i mod 8)"
  by (auto simp: PosBitfieldTest_def bit_iff_and_drop_bit_eq_1 and_one_eq Let_def)

lemma test_set: "PosBitfieldTest (PosBitfieldSet bf i) j \<longleftrightarrow> j = i \<or> PosBitfieldTest bf j"
proof -
  define g where "g = (if i div 8 \<ge> length bf then bf @ replicate (i div 8 + 1 - length bf) 0 else bf)"
  have len: "i div 8 < length g" by (auto simp: g_def)
  have old: "k < length g \<and> bit (g ! k) n \<longleftrightarrow> k < length bf \<and> bit (bf ! k) n" for k n
    by (auto simp: g_def nth_append)
  have e: "PosBitfieldSet bf i = g[i div 8 := g ! (i div 8) OR push_bit (i mod 8) 1]"
    by (simp add: PosBitfieldSet_def g_def Let_def)
  have j: "j div 8 = i div 8 \<and> j mod 8 = i mod 8 \<longleftrightarrow> j = i" by (metis div_mult_mod_eq)
  have b: "bit (push_bit (i mod 8) 1 :: byte) (j mod 8) \<longleftrightarrow> j mod 8 = i mod 8"
    by (auto simp: bit_exp_iff)
  show ?thesis
  proof (cases "j div 8 = i div 8")
    case True
    then show ?thesis using len b j old [of "j div 8" "j mod 8"] by (auto simp: test_bit e bit_or_iff)
  next
    case False
    then show ?thesis using j old [of "j div 8" "j mod 8"] by (auto simp: test_bit e)
  qed
qed

lemma pop_byte_card: "pop_byte b = int (card {k. bit b k})"
proof (induction b rule: pop_byte.induct)
  case (1 b)
  show ?case
  proof (cases "b = 0")
    case True
    have "card {k. bit (0 :: byte) k} = 0" by (simp only: bit_0_eq bot_fun_def bot_bool_def) simp
    then show ?thesis unfolding True by (subst pop_byte.simps) (simp only: if_True of_nat_0 simp_thms)
  next
    case False
    have s: "{k. bit b k} = (if odd b then {0} else {}) \<union> Suc ` {k. bit (drop_bit 1 b) k}"
      by (auto simp: bit_drop_bit_eq bit_0 image_iff) (metis bit_0 not0_implies_Suc, metis bit_0 not0_implies_Suc)
    have fin: "finite {k. bit (drop_bit 1 b) k}" by (rule finite_subset [of _ "{..<8}"]) (auto dest: bit_imp_le_length)
    have "uint (b AND 1) = of_bool (odd b)" by (simp add: and_one_eq mod_2_eq_odd)
    moreover have "card {k. bit b k} = of_bool (odd b) + card {k. bit (drop_bit 1 b) k}"
      unfolding s using fin by (simp add: card_insert_if card_image image_iff)
    ultimately show ?thesis using "1.IH" [OF False] False by (subst pop_byte.simps) simp
  qed
qed

lemma popcount_card: "PosBitfieldPopcount bf = int (card {i. PosBitfieldTest bf i})"
proof -
  have fold: "fold (\<lambda>b n. n + pop_byte b) bf n = n + sum_list (map pop_byte bf)" for n
    by (induction bf arbitrary: n) simp_all
  have s: "{i. PosBitfieldTest bf i} = (\<lambda>(j, k). 8 * j + k) ` (SIGMA j:{..<length bf}. {k. bit (bf ! j) k})"
  proof (intro set_eqI iffI)
    fix i assume "i \<in> {i. PosBitfieldTest bf i}"
    then show "i \<in> (\<lambda>(j, k). 8 * j + k) ` (SIGMA j:{..<length bf}. {k. bit (bf ! j) k})"
      by (intro image_eqI [of _ _ "(i div 8, i mod 8)"]) (auto simp: test_bit)
  next
    fix i assume "i \<in> (\<lambda>(j, k). 8 * j + k) ` (SIGMA j:{..<length bf}. {k. bit (bf ! j) k})"
    then obtain j k where "i = 8 * j + k" "j < length bf" "bit (bf ! j) k" by auto
    moreover have "k < 8" using bit_imp_le_length [OF \<open>bit (bf ! j) k\<close>] by simp
    ultimately show "i \<in> {i. PosBitfieldTest bf i}" by (simp add: test_bit)
  qed
  have "inj_on (\<lambda>(j, k). 8 * j + k) (SIGMA j:{..<length bf}. {k. bit (bf ! j) k})"
  proof (rule inj_onI, clarify)
    fix j k j' k' :: nat assume "8 * j + k = 8 * j' + k'" "bit (bf ! j) k" "bit (bf ! j') k'"
    then show "j = j' \<and> k = k'" by (auto dest!: bit_imp_le_length) presburger+
  qed
  then have "card {i. PosBitfieldTest bf i} = (\<Sum>j<length bf. card {k. bit (bf ! j) k})"
    unfolding s by (simp add: card_image finite_subset [OF _ finite_lessThan [of 8]] subset_iff bit_imp_le_length)
  then show ?thesis unfolding PosBitfieldPopcount_def fold
    by (simp add: pop_byte_card sum_list_sum_nth atLeast0LessThan)
qed

section \<open>Certificates read back\<close>

definition member_ok :: "PosBlsMember \<Rightarrow> bool" where
  "member_ok m \<longleftrightarrow> PubKey_wf (bm_pubkey m) \<and> IsCompressed (bm_pubkey m) \<and> length (bm_proof m) = VRF_PROOF_SIZE \<and>
     length (bm_bls_pubkey m) = BLS_PK_SIZE \<and> length (bm_bls_pop m) = BLS_SIG_SIZE"

lemma compressed_bytes:
  assumes "PubKey_wf pk" "IsCompressed pk"
  shows "length (PubKey_bytes pk) = 33" "PubKey_Set (PubKey_bytes pk) = pk" "PubKey_IsValid pk"
  using assms by (auto simp: IsCompressed_def PubKey_IsValid_def PubKey_wf_def PubKey_bytes_def PubKey_size_def ValidSize_def
      PubKey_Set_def PubKey_Invalid_def GetLen_def split: if_splits)

lemma member_blob_roundtrip: "member_ok m \<Longrightarrow> member_of_blob (member_blob m) = Some m"
  using compressed_bytes [of "bm_pubkey m"] by (simp add: member_ok_def member_of_blob_def member_blob_def Let_def)

lemma length_member_blob: "member_ok m \<Longrightarrow> length (member_blob m) = 258"
  using compressed_bytes [of "bm_pubkey m"] by (simp add: member_ok_def member_blob_def)

lemma solution_members_build:
  "list_all member_ok ms \<Longrightarrow> length acc + length ms \<le> 100 \<Longrightarrow>
   solution_members (concat (map (\<lambda>m. push_vch (member_blob m)) ms)) acc = Some (acc @ ms)"
proof (induction ms arbitrary: acc)
  case Nil
  then show ?case by (subst solution_members.simps) simp
next
  case (Cons m ms)
  have m: "member_ok m" using Cons.prems(1) by simp
  then show ?case using Cons.IH [of "acc @ [m]"] Cons.prems
    by (subst solution_members.simps) (simp add: GetScriptOp_push_vch length_member_blob member_blob_roundtrip)
qed

lemma bls_solution_roundtrip:
  assumes "list_all member_ok ms" "length ms \<le> 100" "sig \<noteq> []" "length sig < 2 ^ 32" "length agg = 96"
  shows "ParsePosBlsSolution (BuildPosBlsSolution sig agg ms) = Some \<lparr>bc_leader_sig = sig, bc_agg_sig = agg, bc_members = ms\<rparr>"
  using assms solution_members_build [of ms "[]"]
  by (simp add: ParsePosBlsSolution_def BuildPosBlsSolution_def GetScriptOp_push_vch)

text \<open>A solution that ends in a push cut short reads as if it ended before it.\<close>

lemma truncated_member_ignored:
  "ParsePosBlsSolution (push_vch (replicate 70 1) @ push_vch (replicate 96 2) @ [OP_PUSHDATA1]) =
     Some \<lparr>bc_leader_sig = replicate 70 1, bc_agg_sig = replicate 96 2, bc_members = []\<rparr>"
proof -
  have "solution_members [OP_PUSHDATA1] [] = Some []" by (subst solution_members.simps) (simp add: GetScriptOp_def)
  then show ?thesis by (simp add: ParsePosBlsSolution_def GetScriptOp_push_vch)
qed

lemma seat_count_push:
  assumes "0 \<le> n" "n \<le> 1000"
  obtains opcode data where "GetScriptOp (push_int64 n) = Some (opcode, data, [])" "seat_count opcode data = Some n"
proof -
  consider "n = 0" | "1 \<le> n" "n \<le> 16" | "16 < n" using assms(1) by linarith
  then show thesis
  proof cases
    case 1
    then show thesis using that GetScriptOp_push_zero [of "[]"] by (simp add: seat_count_def)
  next
    case 2
    have "(word_of_int (n + 80) :: byte) \<noteq> 0" using small_int_token(3) [OF 2] by (metis word_not_simps(1))
    then show thesis using that [OF GetScriptOp_push_small [OF 2, of "[]", simplified]] small_int_token(1,2) [OF 2]
      by (simp add: seat_count_def)
  next
    case 3
    have l: "length (ScriptNum_serialize n) \<le> 3" using length_num_3 [of n] assms by simp
    then have "GetScriptOp (push_int64 n) = Some (push_op (ScriptNum_serialize n), ScriptNum_serialize n, [])"
      using GetScriptOp_push_num [OF 3, of "[]"] by simp
    moreover have "ScriptNum_getint n = n" using assms by (simp add: ScriptNum_getint_def)
    ultimately show thesis using that l 3 by (simp add: seat_count_def)
  qed
qed

lemma bitfield_solution_roundtrip:
  assumes "sig \<noteq> []" "length sig < 2 ^ 32" "length agg = 96" "bf \<noteq> []" "length bf \<le> 125" "-1 \<le> n" "n \<le> 1000"
  shows "ParsePosBlsBitfieldSolution (BuildPosBlsBitfieldSolution sig agg bf n) =
    Some \<lparr>bf_leader_sig = sig, bf_agg_sig = agg, bf_bitfield = bf, bf_seats = n\<rparr>"
proof (cases "0 \<le> n")
  case True
  obtain opcode data where "GetScriptOp (push_int64 n) = Some (opcode, data, [])" "seat_count opcode data = Some n"
    by (rule seat_count_push [OF True assms(7)])
  moreover from this have "push_int64 n \<noteq> []" by auto
  ultimately show ?thesis using assms True
    by (simp add: ParsePosBlsBitfieldSolution_def BuildPosBlsBitfieldSolution_def GetScriptOp_push_vch at_end_def)
next
  case False
  then have "n = -1" using assms(6) by simp
  moreover have "GetScriptOp (push_vch bf) = Some (push_op bf, bf, [])" using GetScriptOp_push_vch [of bf "[]"] assms(5) by simp
  ultimately show ?thesis using assms
    by (simp add: ParsePosBlsBitfieldSolution_def BuildPosBlsBitfieldSolution_def GetScriptOp_push_vch)
qed

lemma tagged_return_build:
  "length d = n \<Longrightarrow> length tag + n < 2 ^ 32 \<Longrightarrow> tagged_return tag n ([OP_RETURN] @ push_vch (tag @ d)) = Some d"
  using GetScriptOp_push_vch [of "tag @ d" "[]"] by (simp add: tagged_return_def expect_op_Cons)

lemma first_some_skip: "list_all (\<lambda>x. f x = None) xs \<Longrightarrow> first_some f (xs @ y # ys) = (case f y of None \<Rightarrow> first_some f ys | Some z \<Rightarrow> Some z)"
  by (induction xs) simp_all

section \<open>Properties\<close>

text \<open>C38. Every form of the block challenge reads back as what it was built from: the leader alone, the leader
  with a committee of two to sixteen keys and a quorum of it, with an aggregate key, and with a BLS certificate.\<close>

theorem challenge_roundtrip:
  assumes "good_key E l" "list_all (good_key E) ms" "2 \<le> length ms" "length ms \<le> 16" "1 \<le> q" "q \<le> int (length ms)" "length k = 32"
  shows "ParsePosBlockChallenge E (BuildPosChallenge l) = Some \<lparr>leader = l, committee = [], quorum = 0, agg_key = [], is_bls = False\<rparr> \<and>
    ParsePosBlockChallenge E (BuildPosBlockChallenge l ms q) = Some \<lparr>leader = l, committee = ms, quorum = q, agg_key = [], is_bls = False\<rparr> \<and>
    ParsePosBlockChallenge E (BuildPosAggChallenge l k) = Some \<lparr>leader = l, committee = [], quorum = 0, agg_key = k, is_bls = False\<rparr> \<and>
    ParsePosBlockChallenge E (BuildPosBlsChallenge l) = Some \<lparr>leader = l, committee = [], quorum = 0, agg_key = [], is_bls = True\<rparr>"
  using parse_forms [OF assms(1)] parse_block_challenge [OF assms(1-6)] assms(7) by simp

theorem challenge_roundtrip_witness:
  "ParsePosBlockChallenge sample_env (BuildPosBlockChallenge (sample_key 1) [sample_key 2, sample_key 3] 2) =
     Some \<lparr>leader = sample_key 1, committee = [sample_key 2, sample_key 3], quorum = 2, agg_key = [], is_bls = False\<rparr>"
  using challenge_roundtrip [of sample_env "sample_key 1" "[sample_key 2, sample_key 3]" 2 "replicate 32 9"]
  by (simp add: good_key_def)

text \<open>A challenge that parses names only valid keys, at most sixteen members, a quorum that is positive and not
  above the committee, and takes exactly one of the forms.\<close>

theorem challenge_well_formed:
  assumes "ParsePosBlockChallenge E s = Some p"
  shows "good_key E (leader p) \<and> list_all (good_key E) (committee p) \<and> length (committee p) \<le> 16 \<and>
    (agg_key p = [] \<or> length (agg_key p) = 32) \<and>
    (if committee p = [] then quorum p = 0 \<and> (if is_bls p then agg_key p = [] else True)
     else 1 \<le> quorum p \<and> quorum p \<le> int (length (committee p)) \<and> agg_key p = [] \<and> is_bls p = False)"
  using parse_challenge_ok [OF assms] by (auto simp: parts_ok_def split: if_splits)

theorem challenge_well_formed_witness:
  "1 \<le> quorum (the (ParsePosBlockChallenge sample_env (BuildPosBlockChallenge (sample_key 1) [sample_key 2, sample_key 3] 2)))"
proof -
  have "ParsePosBlockChallenge sample_env (BuildPosBlockChallenge (sample_key 1) [sample_key 2, sample_key 3] 2) =
     Some \<lparr>leader = sample_key 1, committee = [sample_key 2, sample_key 3], quorum = 2, agg_key = [], is_bls = False\<rparr>"
    using parse_block_challenge [of sample_env "sample_key 1" "[sample_key 2, sample_key 3]" 2] by (simp add: good_key_def)
  from challenge_well_formed [OF this] this show ?thesis by simp
qed

text \<open>Both forms of the BLS certificate read back as what they were built from: up to a hundred members with
  their proofs and keys, or a bitfield of at most 125 bytes with the seats of the signers, -1 for none.\<close>

theorem certificate_roundtrip:
  assumes "sig \<noteq> []" "length sig < 2 ^ 32" "length agg = 96"
    and "list_all member_ok ms" "length ms \<le> 100" "bf \<noteq> []" "length bf \<le> 125" "-1 \<le> n" "n \<le> 1000"
  shows "ParsePosBlsSolution (BuildPosBlsSolution sig agg ms) = Some \<lparr>bc_leader_sig = sig, bc_agg_sig = agg, bc_members = ms\<rparr> \<and>
    ParsePosBlsBitfieldSolution (BuildPosBlsBitfieldSolution sig agg bf n) =
      Some \<lparr>bf_leader_sig = sig, bf_agg_sig = agg, bf_bitfield = bf, bf_seats = n\<rparr>"
  using bls_solution_roundtrip [OF assms(4,5,1-3)] bitfield_solution_roundtrip [OF assms(1-3,6-9)] by simp

theorem certificate_roundtrip_witness:
  "ParsePosBlsBitfieldSolution (BuildPosBlsBitfieldSolution [1] (replicate 96 2) [7] 200) =
     Some \<lparr>bf_leader_sig = [1], bf_agg_sig = replicate 96 2, bf_bitfield = [7], bf_seats = 200\<rparr>"
  using certificate_roundtrip [of "[1]" "replicate 96 2"
      "[\<lparr>bm_pubkey = sample_key 1, bm_proof = replicate 81 0, bm_bls_pubkey = replicate 48 1, bm_bls_pop = replicate 96 2\<rparr>]" "[7]" 200]
  by (simp add: member_ok_def)

text \<open>Setting a bit sets that bit and no other, growing the field when needed, and the number that the code
  counts is the number of set bits.\<close>

theorem bitfield_operations:
  "(PosBitfieldTest (PosBitfieldSet bf i) j \<longleftrightarrow> j = i \<or> PosBitfieldTest bf j) \<and>
   PosBitfieldPopcount bf = int (card {i. PosBitfieldTest bf i})"
  using test_set popcount_card by simp

end
