(* ===== verification/PotClaim.thy ===== *)
theory PotClaim
  imports Challenge
begin

text \<open>
  Claims on reward pots, first generation (\<open>PosComputePotShares\<close> and \<open>CheckPosPotClaim\<close> of
  \<open>src/pos.cpp\<close>). A pot output holds the rewards of a split pool; anyone may spend it, and the
  claim rules are its whole spend condition. The theory holds the shares of a pot, the
  classification of a claim's inputs and outputs, the checks on them, and what they give: every
  payable delegator gets exactly its share and the pool loses at most one part in 99 of it.
  Amounts are integers; the code keeps them in \<open>int64\<close>, where the sums of a transaction's
  explicit amounts fit.
\<close>

section \<open>Constants and maps of amounts\<close>

abbreviation POS_SPLIT_MIN_PAYOUT :: int where "POS_SPLIT_MIN_PAYOUT \<equiv> 1000"
abbreviation POS_SPLIT_WITHHOLD_RATIO :: int where "POS_SPLIT_WITHHOLD_RATIO \<equiv> 99"
abbreviation POS_SPLIT_RESERVE_DENOM :: int where "POS_SPLIT_RESERVE_DENOM \<equiv> 100"
abbreviation POS_SPLIT_MAX_PARTICIPANTS :: nat where "POS_SPLIT_MAX_PARTICIPANTS \<equiv> 100"

type_synonym claim_reason = string
type_synonym amounts = "(CAsset, int) fmap"
type_synonym key_amounts = "(CPubKey, amounts) fmap"

text \<open>\<open>m[k][a] += v\<close> and the lookup of an amount that counts as 0 when it is missing.\<close>

definition owed_plus :: "CPubKey \<Rightarrow> CAsset \<Rightarrow> int \<Rightarrow> key_amounts \<Rightarrow> key_amounts" where
  "owed_plus k a v m = fmupd k (fm_plus a v (fm_get fmempty m k)) m"

definition owed_get :: "key_amounts \<Rightarrow> CPubKey \<Rightarrow> CAsset \<Rightarrow> int" where
  "owed_get m k a = fm_get 0 (fm_get fmempty m k) a"

definition payee_script :: "CPubKey \<Rightarrow> bytes" where
  "payee_script k = GetScriptForDestination (WitnessV0KeyHash (PubKey_GetID k))"

section \<open>The shares of a pot\<close>

record PosPotShares =
  owed :: key_amounts
  swept :: amounts

text \<open>A cut: a 128-bit product divided by the total weight, read as \<open>int64\<close>.\<close>

definition pot_cut :: "int \<Rightarrow> u64 \<Rightarrow> u64 \<Rightarrow> int" where
  "pot_cut d w tot = sint (ucast ((word_of_int d :: u128) * ucast w div ucast tot) :: u64)"

text \<open>Values are positive, so the division of the code is the division downwards.\<close>

definition after_reserve :: "int \<Rightarrow> int" where
  "after_reserve value = value - value div POS_SPLIT_RESERVE_DENOM"

text \<open>The comparator is a strict total order on the entries of a map, so the sorted vector is
  unique: heaviest first, ties by key.\<close>

definition capped_participants :: "pos_env \<Rightarrow> int \<Rightarrow> (CPubKey, u64) fmap \<Rightarrow> (CPubKey, u64) fmap" where
  "capped_participants E height participants =
     (if g_pos_hardening_height E > 0 \<and> height \<ge> g_pos_hardening_height E
         \<and> length (fm_entries participants) > POS_SPLIT_MAX_PARTICIPANTS
      then fmap_of_list (take POS_SPLIT_MAX_PARTICIPANTS
             (sort_key (\<lambda>e. (- int (unat (snd e)), fst e)) (fm_entries participants)))
      else participants)"

definition pot_input_shares :: "pos_env \<Rightarrow> StakeRegistry \<Rightarrow> CPubKey \<Rightarrow> CAsset \<times> int \<times> int \<Rightarrow> PosPotShares \<Rightarrow> PosPotShares" where
  "pot_input_shares E R signer i shares =
     (let (asset, value, height) = i;
          shares = shares\<lparr>swept := fm_plus asset value (swept shares)\<rparr>;
          participants = capped_participants E height (ParticipantsBefore R signer height);
          tot = fm_total participants
      in if tot = 0 then shares
         else shares\<lparr>owed := fold (\<lambda>(k, w) o1.
                let cut = pot_cut (after_reserve value) w tot
                in if cut > 0 then owed_plus k asset cut o1 else o1) (fm_entries participants) (owed shares)\<rparr>)"

definition PosComputePotShares :: "pos_env \<Rightarrow> StakeRegistry \<Rightarrow> CPubKey \<Rightarrow> (CAsset \<times> int \<times> int) list \<Rightarrow> PosPotShares" where
  "PosComputePotShares E R signer pot_inputs =
     fold (pot_input_shares E R signer) pot_inputs \<lparr>owed = fmempty, swept = fmempty\<rparr>"

section \<open>The inputs of a claim\<close>

fun claim_inputs :: "pos_env \<Rightarrow> Coin list \<Rightarrow> CPubKey option \<Rightarrow> (CAsset \<times> int \<times> int) list \<Rightarrow> amounts
    \<Rightarrow> claim_reason + CPubKey option \<times> (CAsset \<times> int \<times> int) list \<times> amounts" where
  "claim_inputs E [] signer pots external = Inr (signer, pots, external)"
| "claim_inputs E (coin # coins) signer pots external =
     (if IsSpent coin then claim_inputs E coins signer pots external
      else case PotFromTxOut E (coin_out coin) of
        Some pot \<Rightarrow>
          if signer \<noteq> None \<and> signer \<noteq> Some (pot_signer pot)
          then Inl ''claim sweeps pots of two different pools''
          else claim_inputs E coins (Some (pot_signer pot))
                 (pots @ [(pot_asset pot, pot_value pot, int (nHeight coin))]) external
      | None \<Rightarrow>
          if explicit_out (coin_out coin)
          then claim_inputs E coins signer pots
                 (fm_plus (GetAsset (nAsset (coin_out coin))) (GetAmount (nValue (coin_out coin))) external)
          else claim_inputs E coins signer pots external)"

definition spends_blinded :: "pos_env \<Rightarrow> Coin list \<Rightarrow> bool" where
  "spends_blinded E coins \<longleftrightarrow> (\<exists>coin \<in> set coins. \<not> IsSpent coin \<and> PotFromTxOut E (coin_out coin) = None
     \<and> \<not> explicit_out (coin_out coin))"

section \<open>The outputs of a claim\<close>

record claim_outs =
  co_fee :: amounts
  co_keeper :: amounts
  co_repot :: amounts
  co_paid :: amounts
  co_repot_count :: amounts
  co_paid_to :: key_amounts

definition no_outs :: claim_outs where
  "no_outs = \<lparr>co_fee = fmempty, co_keeper = fmempty, co_repot = fmempty, co_paid = fmempty,
     co_repot_count = fmempty, co_paid_to = fmempty\<rparr>"

text \<open>The first owed controller, in key order, whose script the output pays.\<close>

definition matched_payee :: "key_amounts \<Rightarrow> bytes \<Rightarrow> CPubKey option" where
  "matched_payee o1 script = map_option fst (find (\<lambda>e. script = payee_script (fst e)) (fm_entries o1))"

definition claim_output :: "pos_env \<Rightarrow> CPubKey \<Rightarrow> key_amounts \<Rightarrow> CTxOut \<Rightarrow> claim_outs \<Rightarrow> claim_reason + claim_outs" where
  "claim_output E signer o1 out st =
     (let asset = GetAsset (nAsset out); value = GetAmount (nValue out)
      in if IsFee out then Inr (st\<lparr>co_fee := fm_plus asset value (co_fee st)\<rparr>)
         else if \<not> explicit_out out then Inl ''claim creates a blinded output''
         else case ParsePotScript E (scriptPubKey out) of
           Some pot \<Rightarrow>
             if pot \<noteq> signer then Inl ''claim re-pots value under a different pool''
             else if fm_get 0 (co_repot_count st) asset + 1 > 1 then Inl ''claim creates two pot outputs in one asset''
             else Inr (st\<lparr>co_repot_count := fm_plus asset 1 (co_repot_count st),
                          co_repot := fm_plus asset value (co_repot st)\<rparr>)
         | None \<Rightarrow>
             (case matched_payee o1 (scriptPubKey out) of
                Some k \<Rightarrow> Inr (st\<lparr>co_paid_to := owed_plus k asset value (co_paid_to st),
                                  co_paid := fm_plus asset value (co_paid st)\<rparr>)
              | None \<Rightarrow> Inr (st\<lparr>co_keeper := fm_plus asset value (co_keeper st)\<rparr>)))"

fun claim_outputs :: "pos_env \<Rightarrow> CPubKey \<Rightarrow> key_amounts \<Rightarrow> CTxOut list \<Rightarrow> claim_outs \<Rightarrow> claim_reason + claim_outs" where
  "claim_outputs E signer o1 [] st = Inr st"
| "claim_outputs E signer o1 (out # outs) st =
     (case claim_output E signer o1 out st of Inl r \<Rightarrow> Inl r | Inr st \<Rightarrow> claim_outputs E signer o1 outs st)"

section \<open>The checks\<close>

fun first_fail :: "('a \<Rightarrow> claim_reason option) \<Rightarrow> 'a list \<Rightarrow> claim_reason option" where
  "first_fail f [] = None"
| "first_fail f (x # xs) = (case f x of None \<Rightarrow> first_fail f xs | Some r \<Rightarrow> Some r)"

text \<open>The entries \<open>(controller, asset, amount)\<close> of a nested map, in iteration order.\<close>

definition owed_entries :: "key_amounts \<Rightarrow> (CPubKey \<times> CAsset \<times> int) list" where
  "owed_entries m = concat (map (\<lambda>(k, by_asset). map (\<lambda>(a, v). (k, a, v)) (fm_entries by_asset)) (fm_entries m))"

definition check_share :: "key_amounts \<Rightarrow> CPubKey \<times> CAsset \<times> int \<Rightarrow> claim_reason option" where
  "check_share paid_to e =
     (let (k, a, amount) = e; got = owed_get paid_to k a
      in if amount \<ge> POS_SPLIT_MIN_PAYOUT
         then if got \<noteq> amount then Some ''claim pays a delegator part of what it is owed'' else None
         else if got \<noteq> 0 then Some ''claim pays a delegator more than its share'' else None)"

definition is_owed :: "key_amounts \<Rightarrow> CPubKey \<Rightarrow> CAsset \<Rightarrow> bool" where
  "is_owed o1 k a \<longleftrightarrow> (case fmlookup o1 k of None \<Rightarrow> False | Some m \<Rightarrow> fmlookup m a \<noteq> None)"

definition check_paid :: "key_amounts \<Rightarrow> CPubKey \<times> CAsset \<times> int \<Rightarrow> claim_reason option" where
  "check_paid o1 e = (let (k, a, _) = e
     in if \<not> is_owed o1 k a then Some ''claim pays a delegator in an asset it is not owed'' else None)"

definition withheld :: "amounts \<Rightarrow> amounts \<Rightarrow> amounts \<Rightarrow> CAsset \<Rightarrow> int" where
  "withheld fee keeper external asset =
     (let raw = fm_get 0 fee asset + fm_get 0 keeper asset - fm_get 0 external asset in if raw > 0 then raw else 0)"

definition check_cap :: "amounts \<Rightarrow> amounts \<Rightarrow> amounts \<Rightarrow> amounts \<Rightarrow> CAsset \<Rightarrow> claim_reason option" where
  "check_cap fee keeper external delivered asset =
     (if withheld fee keeper external asset * POS_SPLIT_WITHHOLD_RATIO > fm_get 0 delivered asset
      then Some ''claim withholds more than the cap'' else None)"

text \<open>The first generation's rules, the part of \<open>CheckPosPotClaim\<close> after the dispatch. The
  result is the reason of a refusal.\<close>

definition CheckPosPotClaimV1 :: "pos_env \<Rightarrow> StakeRegistry \<Rightarrow> CTransaction \<Rightarrow> Coin list \<Rightarrow> claim_reason option" where
  "CheckPosPotClaimV1 E R tx spent_coins =
     (let coins = take (length (vin tx)) spent_coins
      in case claim_inputs E coins None [] fmempty of Inl r \<Rightarrow> Some r
         | Inr (None, _, _) \<Rightarrow> None
         | Inr (Some signer, pot_inputs, external) \<Rightarrow>
             if spends_blinded E coins then Some ''claim spends a blinded input''
             else let shares = PosComputePotShares E R signer pot_inputs
             in case claim_outputs E signer (owed shares) (vout tx) no_outs of Inl r \<Rightarrow> Some r
                | Inr st \<Rightarrow>
                    (case first_fail (check_share (co_paid_to st)) (owed_entries (owed shares)) of Some r \<Rightarrow> Some r
                     | None \<Rightarrow>
                        (case first_fail (check_paid (owed shares)) (owed_entries (co_paid_to st)) of Some r \<Rightarrow> Some r
                         | None \<Rightarrow> first_fail (check_cap (co_fee st) (co_keeper st) external (co_paid st))
                                     (fm_keys (swept shares)))))"

section \<open>Nested maps and checks\<close>

lemma owed_get_plus [simp]:
  "owed_get (owed_plus k a v m) k' a' = owed_get m k' a' + (if k' = k \<and> a' = a then v else 0)"
  by (auto simp: owed_get_def owed_plus_def)

lemma owed_get_empty [simp]: "owed_get fmempty k a = 0"
  by (simp add: owed_get_def)

lemma in_owed_entries:
  "(k, a, v) \<in> set (owed_entries m) \<longleftrightarrow> (\<exists>m'. fmlookup m k = Some m' \<and> fmlookup m' a = Some v)"
proof
  assume "\<exists>m'. fmlookup m k = Some m' \<and> fmlookup m' a = Some v"
  then obtain m' where "(k, m') \<in> set (fm_entries m)" "(a, v) \<in> set (fm_entries m')" by auto
  then show "(k, a, v) \<in> set (owed_entries m)" unfolding owed_entries_def by force
qed (auto simp: owed_entries_def)

lemma is_owed_entries: "is_owed m k a \<longleftrightarrow> (k, a, owed_get m k a) \<in> set (owed_entries m)"
  by (auto simp: is_owed_def in_owed_entries owed_get_def fm_get_def split: option.splits)

lemma first_fail_None: "first_fail f xs = None \<longleftrightarrow> (\<forall>x \<in> set xs. f x = None)"
  by (induction xs) (auto split: option.splits)

lemma is_owed_plus [simp]: "is_owed (owed_plus k a v m) k' a' \<longleftrightarrow> k' = k \<and> a' = a \<or> is_owed m k' a'"
  by (auto simp: is_owed_def owed_plus_def fm_get_def fmlookup_fm_plus split: option.splits)

lemma is_owed_empty [simp]: "\<not> is_owed fmempty k a"
  by (simp add: is_owed_def)

lemma not_owed_get: "\<not> is_owed m k a \<Longrightarrow> owed_get m k a = 0"
  by (auto simp: is_owed_def owed_get_def fm_get_def split: option.splits)

section \<open>Sums over outputs\<close>

text \<open>The amount of an asset in the outputs that satisfy a predicate, and in the coins spent.\<close>

definition out_sum :: "(CTxOut \<Rightarrow> bool) \<Rightarrow> CAsset \<Rightarrow> CTxOut list \<Rightarrow> int" where
  "out_sum P a outs = sum_list (map (\<lambda>out. GetAmount (nValue out)) (filter (\<lambda>out. P out \<and> GetAsset (nAsset out) = a) outs))"

definition paid_at :: "CTxOut list \<Rightarrow> bytes \<Rightarrow> CAsset \<Rightarrow> int" where
  "paid_at outs script a = out_sum (\<lambda>out. scriptPubKey out = script) a outs"

lemma out_sum_simps [simp]:
  "out_sum P a [] = 0"
  "out_sum P a (out # outs) = (if P out \<and> GetAsset (nAsset out) = a then GetAmount (nValue out) else 0) + out_sum P a outs"
  by (simp_all add: out_sum_def)

lemma out_sum_split: "out_sum P a outs = out_sum (\<lambda>out. P out \<and> Q out) a outs + out_sum (\<lambda>out. P out \<and> \<not> Q out) a outs"
  by (induction outs) auto

lemma out_sum_cong: "(\<And>out. out \<in> set outs \<Longrightarrow> P out \<longleftrightarrow> Q out) \<Longrightarrow> out_sum P a outs = out_sum Q a outs"
  by (simp add: out_sum_def cong: filter_cong)

text \<open>The four kinds of output that the classification tells apart.\<close>

definition is_repot :: "pos_env \<Rightarrow> CTxOut \<Rightarrow> bool" where
  "is_repot E out \<longleftrightarrow> \<not> IsFee out \<and> ParsePotScript E (scriptPubKey out) \<noteq> None"

definition is_payout :: "pos_env \<Rightarrow> key_amounts \<Rightarrow> CTxOut \<Rightarrow> CPubKey option" where
  "is_payout E o1 out = (if IsFee out \<or> ParsePotScript E (scriptPubKey out) \<noteq> None then None
     else matched_payee o1 (scriptPubKey out))"

definition is_keeper :: "pos_env \<Rightarrow> key_amounts \<Rightarrow> CTxOut \<Rightarrow> bool" where
  "is_keeper E o1 out \<longleftrightarrow> \<not> IsFee out \<and> \<not> is_repot E out \<and> is_payout E o1 out = None"

lemmas out_kinds = is_repot_def is_payout_def is_keeper_def

lemma claim_output_sums:
  assumes "claim_output E signer o1 out st = Inr st'"
  shows "fm_get 0 (co_fee st') a = fm_get 0 (co_fee st) a + out_sum IsFee a [out]"
    and "fm_get 0 (co_keeper st') a = fm_get 0 (co_keeper st) a + out_sum (is_keeper E o1) a [out]"
    and "fm_get 0 (co_repot st') a = fm_get 0 (co_repot st) a + out_sum (is_repot E) a [out]"
    and "fm_get 0 (co_paid st') a = fm_get 0 (co_paid st) a + out_sum (\<lambda>out. is_payout E o1 out \<noteq> None) a [out]"
    and "owed_get (co_paid_to st') k a = owed_get (co_paid_to st) k a + out_sum (\<lambda>out. is_payout E o1 out = Some k) a [out]"
    and "explicit_out out"
  using assms
  by (auto simp: claim_output_def Let_def out_kinds IsFee_def split: if_splits option.splits)

lemma claim_outputs_sums:
  assumes "claim_outputs E signer o1 outs st = Inr st'"
  shows "fm_get 0 (co_fee st') a = fm_get 0 (co_fee st) a + out_sum IsFee a outs \<and>
    fm_get 0 (co_keeper st') a = fm_get 0 (co_keeper st) a + out_sum (is_keeper E o1) a outs \<and>
    fm_get 0 (co_repot st') a = fm_get 0 (co_repot st) a + out_sum (is_repot E) a outs \<and>
    fm_get 0 (co_paid st') a = fm_get 0 (co_paid st) a + out_sum (\<lambda>out. is_payout E o1 out \<noteq> None) a outs \<and>
    owed_get (co_paid_to st') k a = owed_get (co_paid_to st) k a + out_sum (\<lambda>out. is_payout E o1 out = Some k) a outs \<and>
    (\<forall>out \<in> set outs. explicit_out out)"
  using assms
proof (induction outs arbitrary: st)
  case (Cons out outs)
  obtain st1 where 1: "claim_output E signer o1 out st = Inr st1" and 2: "claim_outputs E signer o1 outs st1 = Inr st'"
    using Cons.prems by (auto split: sum.splits)
  show ?case using claim_output_sums(1-4) [OF 1, where a = a] claim_output_sums(6) [OF 1] claim_output_sums(5) [OF 1, where k = k and a = a] Cons.IH [OF 2] by simp
qed simp

section \<open>Sums over inputs\<close>

definition live_outs :: "Coin list \<Rightarrow> CTxOut list" where
  "live_outs coins = map coin_out (filter (\<lambda>coin. \<not> IsSpent coin) coins)"

definition pots_sum :: "CAsset \<Rightarrow> (CAsset \<times> int \<times> int) list \<Rightarrow> int" where
  "pots_sum a pots = sum_list (map (\<lambda>(_, v, _). v) (filter (\<lambda>(b, _). b = a) pots))"

lemma pots_sum_simps [simp]:
  "pots_sum a [] = 0" "pots_sum a ((b, v, h) # pots) = (if b = a then v else 0) + pots_sum a pots"
  "pots_sum a (ps @ qs) = pots_sum a ps + pots_sum a qs"
  by (simp_all add: pots_sum_def)

lemma live_outs_simps [simp]:
  "live_outs [] = []"
  "live_outs (coin # coins) = (if IsSpent coin then live_outs coins else coin_out coin # live_outs coins)"
  by (simp_all add: live_outs_def)

lemma PotFromTxOut_Some:
  assumes "PotFromTxOut E out = Some pot"
  shows "explicit_out out" "pot_asset pot = GetAsset (nAsset out)" "pot_value pot = GetAmount (nValue out)"
    "0 < pot_value pot" "ParsePotScript E (scriptPubKey out) = Some (pot_signer pot)"
  using assms by (auto simp: PotFromTxOut_def split: if_splits Option.bind_splits)

lemma claim_inputs_sums:
  assumes "claim_inputs E coins s pots ext = Inr (s', pots', ext')"
  shows "pots_sum a pots' = pots_sum a pots + out_sum (\<lambda>out. PotFromTxOut E out \<noteq> None) a (live_outs coins) \<and>
    fm_get 0 ext' a = fm_get 0 ext a + out_sum (\<lambda>out. PotFromTxOut E out = None \<and> explicit_out out) a (live_outs coins)"
  using assms
  by (induction E coins s pots ext rule: claim_inputs.induct)
     (auto simp: PotFromTxOut_Some split: if_splits option.splits)

lemma claim_inputs_pos:
  assumes "claim_inputs E coins s pots ext = Inr (s', pots', ext')" "\<forall>p \<in> set pots. 0 < fst (snd p)"
  shows "\<forall>p \<in> set pots'. 0 < fst (snd p)"
  using assms
  by (induction E coins s pots ext rule: claim_inputs.induct)
     (auto simp: PotFromTxOut_Some(4) split: if_splits option.splits)

lemma swept_sum: "fm_get 0 (swept (fold (pot_input_shares E R signer) pots sh)) a = fm_get 0 (swept sh) a + pots_sum a pots"
  by (induction pots arbitrary: sh) (auto simp: pot_input_shares_def Let_def split: prod.splits)

lemma shares_swept: "fm_get 0 (swept (PosComputePotShares E R signer pots)) a = pots_sum a pots"
  by (simp add: PosComputePotShares_def swept_sum)

section \<open>Payees\<close>

lemma payee_script_Cons: "payee_script k = OP_0 # push_vch (PubKey_GetID k)"
  by (simp add: payee_script_def)

lemma ParsePot_OP_0: "ParsePotScript E (OP_0 # rest) = None"
  by (simp add: ParsePotScript_def expect_data_def GetScriptOp_def POT_MARKER_def ascii_def)

lemma payee_not_pot [simp]: "ParsePotScript E (payee_script k) = None" "payee_script k \<noteq> []" "[] \<noteq> payee_script k"
  by (simp_all add: payee_script_Cons ParsePot_OP_0)

lemma find_SomeD: "find P xs = Some x \<Longrightarrow> P x \<and> x \<in> set xs"
  by (induction xs) (auto split: if_splits)

lemma matched_payee_Some:
  assumes "matched_payee o1 script = Some k"
  shows "script = payee_script k" "k |\<in>| fmdom o1"
  using assms by (auto simp: matched_payee_def dest!: find_SomeD intro: fmdomI)

lemma matched_payee_None: "matched_payee o1 script = None \<longleftrightarrow> (\<forall>k. k |\<in>| fmdom o1 \<longrightarrow> script \<noteq> payee_script k)"
  by (auto simp: matched_payee_def find_None_iff fmlookup_dom_iff) (metis option.distinct(1))

lemma is_payout_Some: "is_payout E o1 out = Some k \<longleftrightarrow> matched_payee o1 (scriptPubKey out) = Some k"
  using matched_payee_Some(1) [of o1 "scriptPubKey out" k] by (auto simp: is_payout_def IsFee_def)

text \<open>A controller with any payment recorded is the first of its script, so all that its script
  receives is recorded for it.\<close>

lemma out_sum_nonzero: "out_sum P a outs \<noteq> 0 \<Longrightarrow> \<exists>out. P out"
  by (induction outs) (auto split: if_splits)

lemma recorded_is_all:
  assumes "out_sum (\<lambda>out. is_payout E o1 out = Some k) a outs \<noteq> 0"
  shows "out_sum (\<lambda>out. is_payout E o1 out = Some k) a outs = paid_at outs (payee_script k) a"
proof -
  obtain out where "is_payout E o1 out = Some k" using out_sum_nonzero [OF assms] by blast
  then have "matched_payee o1 (payee_script k) = Some k" using matched_payee_Some(1) is_payout_Some by metis
  then have "is_payout E o1 out = Some k \<longleftrightarrow> scriptPubKey out = payee_script k" for out
    using matched_payee_Some(1) is_payout_Some by metis
  then show ?thesis by (simp add: paid_at_def)
qed

section \<open>What an accepted claim does\<close>

lemma claim_accepted:
  assumes "CheckPosPotClaimV1 E R tx spent = None"
    and "claim_inputs E (take (length (vin tx)) spent) None [] fmempty = Inr (Some signer, pots, ext)"
  obtains st where "claim_outputs E signer (owed (PosComputePotShares E R signer pots)) (vout tx) no_outs = Inr st"
    and "\<forall>e \<in> set (owed_entries (owed (PosComputePotShares E R signer pots))). check_share (co_paid_to st) e = None"
    and "\<forall>e \<in> set (owed_entries (co_paid_to st)). check_paid (owed (PosComputePotShares E R signer pots)) e = None"
    and "\<forall>a |\<in>| fmdom (swept (PosComputePotShares E R signer pots)).
           check_cap (co_fee st) (co_keeper st) ext (co_paid st) a = None"
    and "\<not> spends_blinded E (take (length (vin tx)) spent)"
  using assms
  by (auto simp: CheckPosPotClaimV1_def Let_def first_fail_None split: sum.splits option.splits if_splits)

lemma no_outs_zero [simp]:
  "fm_get 0 (co_fee no_outs) a = 0" "fm_get 0 (co_keeper no_outs) a = 0" "fm_get 0 (co_repot no_outs) a = 0"
  "fm_get 0 (co_paid no_outs) a = 0" "owed_get (co_paid_to no_outs) k a = 0"
  by (simp_all add: no_outs_def)

lemma out_sum_kinds:
  "out_sum (\<lambda>_. True) a outs = out_sum IsFee a outs + out_sum (is_keeper E o1) a outs + out_sum (is_repot E) a outs
     + out_sum (\<lambda>out. is_payout E o1 out \<noteq> None) a outs"
  by (induction outs) (auto simp: out_kinds)

lemma live_inputs_split:
  assumes "\<not> spends_blinded E coins"
  shows "out_sum (\<lambda>_. True) a (live_outs coins) = out_sum (\<lambda>out. PotFromTxOut E out \<noteq> None) a (live_outs coins)
    + out_sum (\<lambda>out. PotFromTxOut E out = None \<and> explicit_out out) a (live_outs coins)"
  using assms by (induction coins) (auto simp: spends_blinded_def)

text \<open>The withhold cap, read on a balanced transaction.\<close>

lemma cap_balanced:
  assumes "check_cap fee keeper ext delivered a = None"
    and "sw + fm_get 0 ext a = fm_get 0 fee a + fm_get 0 keeper a + rp + fm_get 0 delivered a"
  shows "99 * (sw - rp - fm_get 0 delivered a) \<le> fm_get 0 delivered a"
  using assms by (auto simp: check_cap_def withheld_def Let_def split: if_splits)

section \<open>Shares as fractions\<close>

text \<open>The share of one participant in a pot of value \<open>v\<close> created at height \<open>h\<close>, over the integers.\<close>

definition weight_sum :: "(CPubKey, u64) fmap \<Rightarrow> nat" where
  "weight_sum m = sum_list (map (\<lambda>e. unat (snd e)) (fm_entries m))"

definition pot_share :: "pos_env \<Rightarrow> StakeRegistry \<Rightarrow> CPubKey \<Rightarrow> int \<Rightarrow> int \<Rightarrow> CPubKey \<Rightarrow> int" where
  "pot_share E R signer v h k =
     (let P = capped_participants E h (ParticipantsBefore R signer h)
      in after_reserve v * int (unat (fm_get 0 P k)) div int (weight_sum P))"

lemma fm_total_unat: "weight_sum m < 2 ^ 64 \<Longrightarrow> unat (fm_total m) = weight_sum m"
  using unat_sum_list [of snd "fm_entries m"] by (simp add: weight_sum_def fm_total_def)

lemma pot_cut_div:
  assumes "0 \<le> d" "d < 2 ^ 63" "unat w \<le> unat tot" "tot \<noteq> 0"
  shows "pot_cut d w tot = d * int (unat w) div int (unat tot)" (is "_ = ?q")
proof -
  have t: "0 < int (unat tot)" using assms(4) unat_gt_0 of_nat_0_less_iff by blast
  have w64: "int (unat w) < 2 ^ 64" using unsigned_less [of w] by (simp del: of_nat_unat)
  have lt: "d * int (unat w) < 2 ^ 128"
    using mult_strict_mono [of d "2 ^ 63" "int (unat w)" "2 ^ 64"] assms(1,2) w64 by simp
  have le: "?q \<le> d"
  proof -
    have "?q \<le> d * int (unat tot) div int (unat tot)"
      using assms(1,3) t by (intro zdiv_mono1 mult_left_mono) (simp_all del: of_nat_unat)
    then show ?thesis using t by (simp del: of_nat_unat)
  qed
  have u: "uint ((word_of_int d :: u128) * ucast w div ucast tot) = ?q"
  proof -
    have d: "uint (word_of_int d :: u128) = d" using assms(1,2) by (simp add: uint_word_of_int)
    have w: "uint (ucast w :: u128) = int (unat w)" "uint (ucast tot :: u128) = int (unat tot)"
      by (simp_all add: uint_up_ucast is_up)
    have "uint ((word_of_int d :: u128) * ucast w) = d * int (unat w)"
      using assms(1) lt by (simp add: uint_word_ariths d w del: of_nat_unat)
    then show ?thesis by (simp only: uint_div w)
  qed
  have q: "0 \<le> ?q" "?q < 2 ^ 63" using le assms(1,2) t by (simp_all add: pos_imp_zdiv_nonneg_iff del: of_nat_unat)
  have "(ucast ((word_of_int d :: u128) * ucast w div ucast tot) :: u64) = word_of_int ?q"
    unfolding u [symmetric] by (rule ucast_eq)
  then show ?thesis unfolding pot_cut_def using q by (simp add: sint_word_of_int_64 del: of_nat_unat)
qed

text \<open>Shares of a list of weights: each is rounded down, so together they stay below the whole.\<close>

lemma sum_shares_le:
  fixes d :: int
  assumes "finite A"
  shows "(\<Sum>k \<in> A. d * int (f k) div int t) \<le> d * int (\<Sum>k \<in> A. f k) div int t"
  using assms
proof (induction A rule: finite_induct)
  case (insert k A)
  have "x div int t + y div int t \<le> (x + y) div int t" for x y :: int
    by (cases "t = 0") (simp_all add: div_add1_eq [of x y] pos_imp_zdiv_nonneg_iff)
  then have "d * int (f k) div int t + d * int (\<Sum>k \<in> A. f k) div int t \<le> (d * int (f k) + d * int (\<Sum>k \<in> A. f k)) div int t" .
  then show ?case using insert by (simp add: distrib_left)
qed simp

lemma weight_le_sum: "unat (fm_get 0 m k) \<le> weight_sum m"
proof (cases "fmlookup m k")
  case (Some w)
  then have "(k, w) \<in> set (fm_entries m)" by simp
  then have "unat w \<in> set (map (\<lambda>e. unat (snd e)) (fm_entries m))" unfolding set_map by (rule rev_image_eqI) simp
  then show ?thesis using member_le_sum_list [of "unat w"] Some by (simp add: weight_sum_def fm_get_def)
qed (simp add: fm_get_def)

lemma weight_sum_Sum: "weight_sum m = (\<Sum>k \<in> fset (fmdom m). unat (fm_get 0 m k))"
proof -
  have "weight_sum m = \<Sum>\<^sub># (image_mset (\<lambda>e. unat (snd e)) (mset (fm_entries m)))"
    by (metis mset_map sum_mset_sum_list weight_sum_def)
  also have "\<dots> = (\<Sum>k \<in> fset (fmdom m). unat (the (fmlookup m k)))"
    by (simp add: mset_entries multiset.map_comp comp_def sum_unfold_sum_mset)
  also have "\<dots> = (\<Sum>k \<in> fset (fmdom m). unat (fm_get 0 m k))"
    by (rule sum.cong) (auto simp: fm_get_def split: option.split)
  finally show ?thesis .
qed

lemma weight_sum_mono:
  assumes "\<And>k w. fmlookup m k = Some w \<Longrightarrow> fmlookup n k = Some w"
  shows "weight_sum m \<le> weight_sum n"
proof -
  have "(\<Sum>k \<in> fset (fmdom m). unat (fm_get 0 m k)) = (\<Sum>k \<in> fset (fmdom m). unat (fm_get 0 n k))"
    by (rule sum.cong) (use assms in \<open>auto simp: fm_get_def fmlookup_dom_iff split: option.split\<close>)
  also have "\<dots> \<le> (\<Sum>k \<in> fset (fmdom n). unat (fm_get 0 n k))"
    by (rule sum_mono2) (use assms in \<open>simp, metis fmdomE fmdomI subsetI, simp\<close>)
  finally show ?thesis by (simp only: weight_sum_Sum)
qed

lemma capped_sub: "fmlookup (capped_participants E h P) k = Some w \<Longrightarrow> fmlookup P k = Some w"
proof -
  let ?s = "sort_key (\<lambda>e. (- int (unat (snd e)), fst e)) (fm_entries P)"
  assume a: "fmlookup (capped_participants E h P) k = Some w"
  have "(k, w) \<in> set ?s" if "map_of (take POS_SPLIT_MAX_PARTICIPANTS ?s) k = Some w"
    using map_of_SomeD [OF that] by (rule in_set_takeD)
  then show ?thesis using a by (auto simp: capped_participants_def fmlookup_of_list split: if_splits)
qed

text \<open>One pot's loop over its participants.\<close>

lemma owed_fold:
  assumes "distinct (map fst xs)"
  shows "owed_get (fold (\<lambda>(k, w) o1. let cut = f w in if cut > 0 then owed_plus k a cut o1 else o1) xs o1) k' a' =
    owed_get o1 k' a' + (if a' = a then (case map_of xs k' of None \<Rightarrow> 0 | Some w \<Rightarrow> max 0 (f w)) else 0)"
  using assms
  by (induction xs arbitrary: o1) (auto simp: Let_def map_of_eq_None_iff image_iff split: option.splits)

definition pot_in_bounds :: "StakeRegistry \<Rightarrow> CPubKey \<Rightarrow> CAsset \<times> int \<times> int \<Rightarrow> bool" where
  "pot_in_bounds R signer i \<longleftrightarrow> (let (a, v, h) = i
     in 0 < v \<and> v < 2 ^ 63 \<and> weight_sum (ParticipantsBefore R signer h) < 2 ^ 64)"

lemma after_reserve_bounds: "0 < v \<Longrightarrow> 0 \<le> after_reserve v \<and> after_reserve v \<le> v"
  unfolding after_reserve_def by presburger

lemma capped_weight: "weight_sum (capped_participants E h P) \<le> weight_sum P"
  by (rule weight_sum_mono) (rule capped_sub)

lemma pot_input_owed:
  assumes "pot_in_bounds R signer (b, v, h)"
  shows "owed_get (owed (pot_input_shares E R signer (b, v, h) sh)) k a =
    owed_get (owed sh) k a + (if a = b then pot_share E R signer v h k else 0)"
proof -
  let ?P = "capped_participants E h (ParticipantsBefore R signer h)"
  have v: "0 \<le> after_reserve v" "after_reserve v < 2 ^ 63"
    using assms after_reserve_bounds [of v] by (auto simp: pot_in_bounds_def)
  have tot: "unat (fm_total ?P) = weight_sum ?P"
    using assms capped_weight [of E h "ParticipantsBefore R signer h"] by (intro fm_total_unat) (simp add: pot_in_bounds_def)
  show ?thesis
  proof (cases "fm_total ?P = 0")
    case True
    then show ?thesis using tot by (simp add: pot_input_shares_def pot_share_def Let_def)
  next
    case False
    have cut: "pot_cut (after_reserve v) w (fm_total ?P) = pot_share E R signer v h k" if "fmlookup ?P k = Some w" for k w
    proof -
      have "unat w \<le> unat (fm_total ?P)" using weight_le_sum [of ?P k] tot that by (simp add: fm_get_def)
      then show ?thesis using pot_cut_div [OF v _ False] that tot by (simp add: pot_share_def fm_get_def Let_def)
    qed
    have nonneg: "0 \<le> pot_share E R signer v h k" using v by (simp add: pot_share_def Let_def div_int_pos_iff)
    have none: "pot_share E R signer v h k = 0" if "fmlookup ?P k = None" using that by (simp add: pot_share_def fm_get_def Let_def)
    have "(case fmlookup ?P k of None \<Rightarrow> 0 | Some w \<Rightarrow> max 0 (pot_cut (after_reserve v) w (fm_total ?P))) = pot_share E R signer v h k"
      using cut [of k] nonneg none by (auto split: option.splits)
    then show ?thesis
      using False owed_fold [OF distinct_fst_entries, of "\<lambda>w. pot_cut (after_reserve v) w (fm_total ?P)" b ?P "owed sh" k a]
      by (simp add: pot_input_shares_def map_of_sorted_list Let_def)
  qed
qed

lemma pot_shares_sum:
  assumes "\<forall>i \<in> set pots. pot_in_bounds R signer i"
  shows "owed_get (owed (fold (pot_input_shares E R signer) pots sh)) k a =
    owed_get (owed sh) k a + (\<Sum>(b, v, h) \<leftarrow> pots. if a = b then pot_share E R signer v h k else 0)"
  using assms
proof (induction pots arbitrary: sh)
  case (Cons i pots)
  obtain b v h where i: "i = (b, v, h)" by (cases i)
  then show ?case using Cons.prems by (simp add: Cons.IH pot_input_owed)
qed simp

lemma pot_shares_le:
  assumes "0 < v" "finite K"
  shows "(\<Sum>k \<in> K. pot_share E R signer v h k) \<le> after_reserve v"
proof -
  let ?P = "capped_participants E h (ParticipantsBefore R signer h)" and ?D = "K \<inter> fset (fmdom (capped_participants E h (ParticipantsBefore R signer h)))"
  have "(\<Sum>k \<in> K. pot_share E R signer v h k) = (\<Sum>k \<in> ?D. pot_share E R signer v h k)"
    using assms(2) by (intro sum.mono_neutral_right) (auto simp: pot_share_def fm_get_def Let_def split: option.split intro: fmdomI)
  also have "\<dots> \<le> after_reserve v * int (\<Sum>k \<in> ?D. unat (fm_get 0 ?P k)) div int (weight_sum ?P)"
    unfolding pot_share_def Let_def by (rule sum_shares_le) simp
  also have "\<dots> \<le> after_reserve v * int (weight_sum ?P) div int (weight_sum ?P)"
  proof -
    have "(\<Sum>k \<in> ?D. unat (fm_get 0 ?P k)) \<le> weight_sum ?P" unfolding weight_sum_Sum by (rule sum_mono2) auto
    then have "after_reserve v * int (\<Sum>k \<in> ?D. unat (fm_get 0 ?P k)) \<le> after_reserve v * int (weight_sum ?P)"
      using after_reserve_bounds [OF assms(1)] by (intro mult_left_mono) (simp_all del: of_nat_sum)
    then show ?thesis by (cases "weight_sum ?P = 0") (simp, intro zdiv_mono1, simp_all)
  qed
  also have "\<dots> \<le> after_reserve v" using after_reserve_bounds [OF assms(1)] by simp
  finally show ?thesis .
qed

section \<open>A pool with one participant\<close>

text \<open>Concrete outputs in the policy asset, and a registry in which one configured staker is its own pool.\<close>

abbreviation gold :: CAsset where "gold \<equiv> replicate 32 7"

definition gold_out :: "int \<Rightarrow> bytes \<Rightarrow> CTxOut" where
  "gold_out v spk = \<lparr>nAsset = SetToAsset gold, nValue = SetToAmount v, nNonce = [], scriptPubKey = spk\<rparr>"

definition gold_coin :: "nat \<Rightarrow> int \<Rightarrow> bytes \<Rightarrow> Coin" where
  "gold_coin h v spk = \<lparr>coin_out = gold_out v spk, fCoinBase = False, nHeight = h\<rparr>"

definition solo_pool :: StakeRegistry where
  "solo_pool = SetStake (sample_key 1) 5 Reg_Clear"

lemma gold_out_simps [simp]:
  "explicit_out (gold_out v spk)" "GetAsset (nAsset (gold_out v spk)) = gold" "scriptPubKey (gold_out v spk) = spk"
  "IsFee (gold_out v spk) \<longleftrightarrow> spk = []" "0 \<le> v \<Longrightarrow> v < 2 ^ 63 \<Longrightarrow> GetAmount (nValue (gold_out v spk)) = v"
  "coin_out (gold_coin h v spk) = gold_out v spk" "nHeight (gold_coin h v spk) = h" "\<not> IsSpent (gold_coin h v spk)"
proof -
  have "SetToAsset gold \<noteq> []" by (simp add: SetToAsset_def)
  then show "\<not> IsSpent (gold_coin h v spk)" by (simp add: gold_coin_def gold_out_def IsSpent_def TxOut_IsNull_def Conf_IsNull_def)
qed (use GetAmount_SetToAmount [of v] in
  \<open>simp_all add: gold_out_def gold_coin_def GetAsset_SetToAsset IsFee_def\<close>)

lemma gold_pot:
  "0 < v \<Longrightarrow> v < 2 ^ 63 \<Longrightarrow> PotFromTxOut sample_env (gold_out v (BuildPotScript (sample_key b))) =
    Some \<lparr>pot_signer = sample_key b, pot_asset = gold, pot_value = v\<rparr>"
  using gold_out_simps(1) [of v "BuildPotScript (sample_key b)"] by (simp add: PotFromTxOut_def ParsePot_Build)

lemma fm_entries_single [simp]: "fm_entries (fmupd k v fmempty) = [(k, v)]"
  by (simp add: sorted_list_of_fmap_def sorted_list_of_fset.rep_eq)

lemma solo_participants: "0 < h \<Longrightarrow> ParticipantsBefore solo_pool (sample_key 1) h = fmupd (sample_key 1) 5 fmempty"
  by (simp add: ParticipantsBefore_def solo_pool_def SetStake_def Reg_Clear_def SignerForLocked_def WeightBefore_def
      sorted_list_of_fset.rep_eq)

lemma solo_shares:
  assumes "0 < h" "0 < v" "v < 2 ^ 63"
  shows "PosComputePotShares sample_env solo_pool (sample_key 1) [(gold, v, h)] =
    \<lparr>owed = (if 0 < after_reserve v then fmupd (sample_key 1) (fmupd gold (after_reserve v) fmempty) fmempty else fmempty),
     swept = fmupd gold v fmempty\<rparr>"
proof -
  have "pot_cut (after_reserve v) 5 5 = after_reserve v"
    using pot_cut_div [of "after_reserve v" 5 5] after_reserve_bounds [OF assms(2)] assms(3) by simp
  then show ?thesis using assms
    by (simp add: PosComputePotShares_def pot_input_shares_def solo_participants capped_participants_def fm_total_def
        owed_plus_def fm_plus_def)
qed

definition solo_claim :: CTransaction where
  "solo_claim = \<lparr>tx_hash = replicate 32 1, vin = [\<lparr>prevout = COutPoint (replicate 32 2) 0, m_is_pegin = False\<rparr>],
     vout = [gold_out 198000 (payee_script (sample_key 1)), gold_out 2000 []]\<rparr>"

definition solo_spent :: "Coin list" where
  "solo_spent = [gold_coin 15 200000 (BuildPotScript (sample_key 1))]"

lemma solo_inputs:
  "claim_inputs sample_env (take (length (vin solo_claim)) solo_spent) None [] fmempty =
     Inr (Some (sample_key 1), [(gold, 200000, 15)], fmempty)"
  by (simp add: solo_claim_def solo_spent_def gold_pot)

lemma solo_accepted: "CheckPosPotClaimV1 sample_env solo_pool solo_claim solo_spent = None"
proof -
  have "\<not> spends_blinded sample_env (take (length (vin solo_claim)) solo_spent)"
    by (simp add: spends_blinded_def solo_claim_def solo_spent_def gold_pot)
  moreover have "PosComputePotShares sample_env solo_pool (sample_key 1) [(gold, 200000, 15)] =
      \<lparr>owed = fmupd (sample_key 1) (fmupd gold 198000 fmempty) fmempty, swept = fmupd gold 200000 fmempty\<rparr>"
    by (simp add: solo_shares after_reserve_def)
  ultimately show ?thesis
    by (simp add: CheckPosPotClaimV1_def solo_inputs Let_def)
      (simp add: solo_claim_def claim_output_def matched_payee_def Let_def no_outs_def owed_entries_def check_share_def
        check_paid_def check_cap_def withheld_def owed_plus_def owed_get_def is_owed_def fm_plus_def sorted_list_of_fset.rep_eq)
qed

section \<open>Properties\<close>

text \<open>C12. An accepted claim pays every delegator that is owed a payable amount exactly that amount, at the
  address of its key; and in every asset it sweeps whose inputs and outputs balance, what the pool's
  pots lose beside the payments to delegators is at most one part in 99 of those payments.\<close>

theorem pot_claim_pays_shares:
  assumes ok: "CheckPosPotClaimV1 E R tx spent = None"
    and ins: "claim_inputs E (take (length (vin tx)) spent) None [] fmempty = Inr (Some signer, pots, ext)"
  shows "(\<forall>(k, a, v) \<in> set (owed_entries (owed (PosComputePotShares E R signer pots))).
           POS_SPLIT_MIN_PAYOUT \<le> v \<longrightarrow> paid_at (vout tx) (payee_script k) a = v) \<and>
    (\<forall>a. a |\<in>| fmdom (swept (PosComputePotShares E R signer pots)) \<longrightarrow>
       out_sum (\<lambda>_. True) a (live_outs (take (length (vin tx)) spent)) = out_sum (\<lambda>_. True) a (vout tx) \<longrightarrow>
       (let delivered = out_sum (\<lambda>out. is_payout E (owed (PosComputePotShares E R signer pots)) out \<noteq> None) a (vout tx)
        in 99 * (pots_sum a pots - out_sum (is_repot E) a (vout tx) - delivered) \<le> delivered))"
proof -
  let ?o = "owed (PosComputePotShares E R signer pots)" and ?coins = "take (length (vin tx)) spent"
  obtain st where st: "claim_outputs E signer ?o (vout tx) no_outs = Inr st"
      "\<forall>e \<in> set (owed_entries ?o). check_share (co_paid_to st) e = None"
      "\<forall>a |\<in>| fmdom (swept (PosComputePotShares E R signer pots)). check_cap (co_fee st) (co_keeper st) ext (co_paid st) a = None"
      "\<not> spends_blinded E ?coins"
    by (rule claim_accepted [OF ok ins])
  have paid: "paid_at (vout tx) (payee_script k) a = v"
    if "(k, a, v) \<in> set (owed_entries ?o)" "POS_SPLIT_MIN_PAYOUT \<le> v" for k a v
  proof -
    have "owed_get (co_paid_to st) k a = v" using st(2) that by (force simp: check_share_def Let_def split: if_splits)
    then have "out_sum (\<lambda>out. is_payout E ?o out = Some k) a (vout tx) = v"
      using claim_outputs_sums [OF st(1), of a k] by simp
    then show ?thesis using recorded_is_all [of E ?o k a "vout tx"] that(2) by simp
  qed
  have cap: "99 * (pots_sum a pots - out_sum (is_repot E) a (vout tx) - fm_get 0 (co_paid st) a) \<le> fm_get 0 (co_paid st) a"
    if "a |\<in>| fmdom (swept (PosComputePotShares E R signer pots))"
      "out_sum (\<lambda>_. True) a (live_outs ?coins) = out_sum (\<lambda>_. True) a (vout tx)" for a
  proof (rule cap_balanced)
    show "check_cap (co_fee st) (co_keeper st) ext (co_paid st) a = None" using st(3) that(1) by blast
    show "pots_sum a pots + fm_get 0 ext a = fm_get 0 (co_fee st) a + fm_get 0 (co_keeper st) a
        + out_sum (is_repot E) a (vout tx) + fm_get 0 (co_paid st) a"
      using that(2) claim_inputs_sums [OF ins, of a] claim_outputs_sums [OF st(1), of a] live_inputs_split [OF st(4), of a]
        out_sum_kinds [of a "vout tx" E ?o] by simp
  qed
  show ?thesis using paid cap claim_outputs_sums [OF st(1)] by (fastforce simp: Let_def)
qed

theorem pot_claim_pays_shares_witness:
  "CheckPosPotClaimV1 sample_env solo_pool solo_claim solo_spent = None \<and>
   paid_at (vout solo_claim) (payee_script (sample_key 1)) gold = 198000"
proof -
  have "(sample_key 1, gold, 198000) \<in> set (owed_entries (owed (PosComputePotShares sample_env solo_pool (sample_key 1) [(gold, 200000, 15)])))"
    by (simp add: solo_shares after_reserve_def owed_entries_def)
  then show ?thesis using pot_claim_pays_shares [OF solo_accepted solo_inputs] solo_accepted by fastforce
qed

text \<open>A delegator's share of the pots is, per asset, the sum over the pots of its fraction of the 99% of each
  that is distributable, by its weight among the participants at the pot's height and rounded down;
  and the shares of one pot never exceed what it distributes.\<close>

theorem pot_shares_proportional:
  assumes "\<forall>i \<in> set pots. pot_in_bounds R signer i"
  shows "owed_get (owed (PosComputePotShares E R signer pots)) k a =
      (\<Sum>(b, v, h) \<leftarrow> pots. if a = b then pot_share E R signer v h k else 0) \<and>
    (\<forall>(b, v, h) \<in> set pots. \<forall>K. finite K \<longrightarrow> (\<Sum>j \<in> K. pot_share E R signer v h j) \<le> v - v div POS_SPLIT_RESERVE_DENOM)"
proof
  show "owed_get (owed (PosComputePotShares E R signer pots)) k a =
      (\<Sum>(b, v, h) \<leftarrow> pots. if a = b then pot_share E R signer v h k else 0)"
    using pot_shares_sum [OF assms] by (simp add: PosComputePotShares_def)
  show "\<forall>(b, v, h) \<in> set pots. \<forall>K. finite K \<longrightarrow> (\<Sum>j \<in> K. pot_share E R signer v h j) \<le> v - v div POS_SPLIT_RESERVE_DENOM"
    using assms pot_shares_le by (fastforce simp: pot_in_bounds_def after_reserve_def)
qed

theorem pot_shares_proportional_witness:
  "owed_get (owed (PosComputePotShares sample_env solo_pool (sample_key 1) [(gold, 5000, 15), (gold, 2000, 16)])) (sample_key 1) gold =
     6930"
proof -
  have "\<forall>i \<in> set [(gold, 5000, 15), (gold, 2000, 16)]. pot_in_bounds solo_pool (sample_key 1) i"
    by (simp add: pot_in_bounds_def solo_participants weight_sum_def)
  from pot_shares_proportional [OF this, of sample_env "sample_key 1" gold] show ?thesis
    by (simp add: pot_share_def solo_participants capped_participants_def weight_sum_def after_reserve_def)
qed

end
