(* ===== verification/RoundClaim.thy ===== *)
theory RoundClaim
  imports PotClaim
begin

text \<open>
  Claims on rounds, second generation (\<open>CheckPosPotClaimV2\<close> of \<open>src/pos.cpp\<close>, and the dispatch
  of \<open>CheckPosPotClaim\<close>). The pots of one epoch and asset become a round, whose delegators fall
  into buckets by a salted hash; a claim pays one more bucket of every round it touches. The
  theory holds the bucket functions, every pass of the claim check with its state, what an
  accepted claim pays and keeps, and that a round can pay all its buckets.
\<close>

section \<open>Buckets\<close>

abbreviation POS_ROUND_BUCKET_TARGET :: nat where "POS_ROUND_BUCKET_TARGET \<equiv> 32"
abbreviation POS_COIN_UNCONFIRMED :: nat where "POS_COIN_UNCONFIRMED \<equiv> 0x7FFFFFFF"
abbreviation INT_MAX :: int where "INT_MAX \<equiv> 2147483647"

text \<open>The doubling loop ends because the count stays below its bound.\<close>

function grow_buckets :: "nat \<Rightarrow> nat \<Rightarrow> nat" where
  "grow_buckets want n = (if n < want \<and> n < POS_ROUND_MAX_BUCKETS \<and> 0 < n then grow_buckets want (2 * n) else n)"
  by auto
termination
  by (relation "measure (\<lambda>(want, n). POS_ROUND_MAX_BUCKETS - n)") auto

declare grow_buckets.simps [simp del]

definition PosRoundBucketCount :: "nat \<Rightarrow> nat" where
  "PosRoundBucketCount participants =
     (let want = (participants + POS_ROUND_BUCKET_TARGET - 1) div POS_ROUND_BUCKET_TARGET
      in grow_buckets want 1)"

definition PosRoundBucket :: "uint256 \<Rightarrow> CPubKey \<Rightarrow> nat \<Rightarrow> nat" where
  "PosRoundBucket s controller n =
     (let sha = CSHA256_Write (CSHA256_Write (CSHA256_Write CSHA256 (ascii ''SEQBKT'')) s) (PubKey_bytes controller);
          out = CSHA256_Finalize sha;
          v = ((ucast (out ! 0) OR push_bit 8 (ucast (out ! 1))) OR push_bit 16 (ucast (out ! 2)))
              OR push_bit 24 (ucast (out ! 3)) :: u32
      in unat (v AND (word_of_nat n - 1)))"

definition PosRoundSalt :: "COutPoint list \<Rightarrow> uint256" where
  "PosRoundSalt sorted_pots =
     HashWriter_GetSHA256 (fold (\<lambda>o1 hw. CSHA256_Write hw (ser_outpoint o1)) sorted_pots
       (CSHA256_Write CSHA256 (ser_string ''SEQRNDSALT'')))"

definition round_start :: "pos_env \<Rightarrow> PosRound \<Rightarrow> int" where
  "round_start E r = min (int (unat (epoch r)) * g_pos_split_epoch E) INT_MAX"

definition bucket_cut :: "CPubKey \<Rightarrow> PosRound \<Rightarrow> CPubKey \<Rightarrow> u64 \<Rightarrow> int" where
  "bucket_cut signer r controller current =
     (let w = (if controller = signer then min current (signer_weight r) else current)
      in pot_cut (after_reserve (distributable r)) w (weight r))"

definition PosRoundBucketOwed :: "pos_env \<Rightarrow> StakeRegistry \<Rightarrow> CPubKey \<Rightarrow> PosRound \<Rightarrow> nat \<Rightarrow> (CPubKey, int) fmap" where
  "PosRoundBucketOwed E R signer r b =
     fold (\<lambda>(controller, current) o1.
       if PosRoundBucket (salt r) controller (unat (buckets r)) \<noteq> b then o1
       else let cut = bucket_cut signer r controller current
         in if cut \<ge> POS_SPLIT_MIN_PAYOUT then fmupd controller cut o1 else o1)
       (fm_entries (ParticipantsBefore R signer (round_start E r))) fmempty"

section \<open>The state of the check\<close>

record Work =
  w_asset :: CAsset
  w_round :: PosRound
  in_value :: int
  w_fresh :: bool
  repot_only :: bool
  w_pots :: "COutPoint list"
  w_bucket :: int
  out_value :: int

definition new_Work :: Work where
  "new_Work = \<lparr>w_asset = uint256_zero,
     w_round = \<lparr>epoch = 0, weight = 0, signer_weight = 0, distributable = 0, buckets = 1, salt = uint256_zero, paid = []\<rparr>,
     in_value = 0, w_fresh = False, repot_only = False, w_pots = [], w_bucket = - 1, out_value = 0\<rparr>"

type_synonym round_key = "u32 \<times> CAsset \<times> uint256"

record claim_in =
  ci_signer :: "CPubKey option"
  ci_spent_rounds :: "(round_key, Work) fmap"
  ci_fresh :: "(u32 \<times> CAsset, Work) fmap"
  ci_external :: amounts

section \<open>Inputs\<close>

definition one_pool :: "CPubKey \<Rightarrow> claim_in \<Rightarrow> claim_reason + claim_in" where
  "one_pool s st =
     (if ci_signer st \<noteq> None \<and> ci_signer st \<noteq> Some s then Inl ''claim sweeps pots of two different pools''
      else Inr (st\<lparr>ci_signer := Some s\<rparr>))"

definition add_round :: "RoundOut \<Rightarrow> claim_in \<Rightarrow> claim_reason + claim_in" where
  "add_round r st =
     (case one_pool (ro_signer r) st of Inl e \<Rightarrow> Inl e
      | Inr st \<Rightarrow>
         let key = (epoch (ro_round r), ro_asset r, salt (ro_round r))
         in if fmlookup (ci_spent_rounds st) key \<noteq> None then Inl ''claim spends two rounds with one identity''
            else Inr (st\<lparr>ci_spent_rounds := fmupd key
                   (new_Work\<lparr>w_asset := ro_asset r, w_round := ro_round r, in_value := ro_value r\<rparr>)
                   (ci_spent_rounds st)\<rparr>))"

definition pot_epoch :: "pos_env \<Rightarrow> nat \<Rightarrow> u32" where
  "pot_epoch E height = word_of_nat height div word_of_int (g_pos_split_epoch E)"

definition add_pot :: "pos_env \<Rightarrow> COutPoint \<Rightarrow> nat \<Rightarrow> PotOut \<Rightarrow> claim_in \<Rightarrow> claim_reason + claim_in" where
  "add_pot E prev height pot st =
     (if \<not> PosSplitV2Coin E height then Inl ''claim mixes first- and second-generation pots''
      else if height \<ge> POS_COIN_UNCONFIRMED then Inl ''claim sweeps an unconfirmed pot''
      else case one_pool (pot_signer pot) st of Inl e \<Rightarrow> Inl e
      | Inr st \<Rightarrow>
         let ep = pot_epoch E height; key = (ep, pot_asset pot); w = fm_get new_Work (ci_fresh st) key
         in Inr (st\<lparr>ci_fresh := fmupd key
              (w\<lparr>w_asset := pot_asset pot, w_fresh := True, w_round := (w_round w)\<lparr>epoch := ep\<rparr>,
                 in_value := in_value w + pot_value pot, w_pots := w_pots w @ [prev]\<rparr>) (ci_fresh st)\<rparr>))"

definition claim_in_step :: "pos_env \<Rightarrow> Coin \<times> CTxIn \<Rightarrow> claim_in \<Rightarrow> claim_reason + claim_in" where
  "claim_in_step E ci st =
     (let (coin, txin) = ci; out = coin_out coin
      in if IsSpent coin then Inr st
         else case (if PosSplitV2Coin E (nHeight coin) then RoundFromTxOut E out else None) of
           Some r \<Rightarrow> add_round r st
         | None \<Rightarrow>
             (case PotFromTxOut E out of Some pot \<Rightarrow> add_pot E (prevout txin) (nHeight coin) pot st
              | None \<Rightarrow> if \<not> explicit_out out then Inl ''claim spends a blinded input''
                  else Inr (st\<lparr>ci_external := fm_plus (GetAsset (nAsset out)) (GetAmount (nValue out)) (ci_external st)\<rparr>)))"

fun fold_steps :: "('a \<Rightarrow> 's \<Rightarrow> claim_reason + 's) \<Rightarrow> 'a list \<Rightarrow> 's \<Rightarrow> claim_reason + 's" where
  "fold_steps f [] st = Inr st"
| "fold_steps f (x # xs) st = (case f x st of Inl r \<Rightarrow> Inl r | Inr st \<Rightarrow> fold_steps f xs st)"

section \<open>New rounds\<close>

text \<open>The terms of a round made of the pots of one epoch and asset; with nobody eligible the value
  goes back into a pot.\<close>

definition fresh_round :: "pos_env \<Rightarrow> StakeRegistry \<Rightarrow> CPubKey \<Rightarrow> Work \<Rightarrow> Work" where
  "fresh_round E R signer w =
     (let start = round_start E (w_round w);
          members = ParticipantsBefore R signer start;
          tot = fm_total members;
          pots = sort (w_pots w);
          r = (w_round w)\<lparr>salt := PosRoundSalt pots\<rparr>;
          w = w\<lparr>w_pots := pots, w_round := r\<rparr>
      in if tot = 0 then w\<lparr>repot_only := True\<rparr>
         else let n = word_of_nat (PosRoundBucketCount (length (fm_entries members)))
         in w\<lparr>w_round := r\<lparr>weight := tot, signer_weight := fm_get 0 members signer, distributable := in_value w,
                buckets := n, paid := replicate ((unat n + 7) div 8) 0\<rparr>\<rparr>)"

definition fresh_step :: "pos_env \<Rightarrow> StakeRegistry \<Rightarrow> CPubKey \<Rightarrow> (u32 \<times> CAsset) \<times> Work
    \<Rightarrow> (u32 \<times> CAsset, Work) fmap \<Rightarrow> claim_reason + (u32 \<times> CAsset, Work) fmap" where
  "fresh_step E R signer e m =
     (let (key, w) = e in if \<not> MoneyRange E (in_value w) then Inl ''claim sweeps more than MAX_MONEY in one asset''
      else Inr (fmupd key (fresh_round E R signer w) m))"

section \<open>Round and pot outputs\<close>

record round_outs =
  rs_spent :: "(round_key, Work) fmap"
  rs_fresh :: "(u32 \<times> CAsset, Work) fmap"
  rs_taken :: "bool list"
  rs_pot_out :: amounts
  rs_pot_count :: amounts

text \<open>The one bucket that a continued round marks paid.\<close>

fun added_bucket :: "PosRound \<Rightarrow> PosRound \<Rightarrow> nat list \<Rightarrow> int \<Rightarrow> claim_reason + int" where
  "added_bucket r r' [] added = Inr added"
| "added_bucket r r' (b # bs) added =
     (if IsPaid r b \<and> \<not> IsPaid r' b then Inl ''claim marks a paid bucket unpaid''
      else if \<not> IsPaid r b \<and> IsPaid r' b
      then if added \<ge> 0 then Inl ''claim pays two buckets of one round'' else added_bucket r r' bs (int b)
      else added_bucket r r' bs added)"

text \<open>The checks on a round output \<open>r\<close> that continues the work \<open>w\<close>; the result is the work with
  the bucket it pays and the value it leaves.\<close>

definition continue_round :: "RoundOut \<Rightarrow> Work \<Rightarrow> claim_reason + Work" where
  "continue_round r w =
     (let a = ro_round r; b = w_round w
      in if w_bucket w \<ge> 0 then Inl ''claim creates a round output that continues no round of the claim, or one twice''
         else if weight a \<noteq> weight b \<or> signer_weight a \<noteq> signer_weight b \<or> distributable a \<noteq> distributable b
                 \<or> buckets a \<noteq> buckets b
         then Inl ''claim changes the terms of a round''
         else case added_bucket b a [0..<unat (buckets b)] (- 1) of Inl e \<Rightarrow> Inl e
           | Inr added \<Rightarrow>
               if added < 0 then Inl ''claim continues a round without paying a bucket of it''
               else if Unpaid a = 0 then Inl ''claim keeps a fully paid round; it must close into a pot''
               else Inr (w\<lparr>w_bucket := added, out_value := ro_value r\<rparr>))"

definition round_output :: "RoundOut \<Rightarrow> round_outs \<Rightarrow> claim_reason + round_outs" where
  "round_output r st =
     (let key = (epoch (ro_round r), ro_asset r, salt (ro_round r)); fkey = (epoch (ro_round r), ro_asset r)
      in case fmlookup (rs_spent st) key of
           Some w \<Rightarrow> (case continue_round r w of Inl e \<Rightarrow> Inl e
                      | Inr w \<Rightarrow> Inr (st\<lparr>rs_spent := fmupd key w (rs_spent st)\<rparr>))
         | None \<Rightarrow>
            (case fmlookup (rs_fresh st) fkey of
               Some w \<Rightarrow>
                 if \<not> repot_only w \<and> salt (w_round w) = salt (ro_round r)
                 then (case continue_round r w of Inl e \<Rightarrow> Inl e
                       | Inr w \<Rightarrow> Inr (st\<lparr>rs_fresh := fmupd fkey w (rs_fresh st)\<rparr>))
                 else Inl ''claim creates a round output that continues no round of the claim, or one twice''
             | None \<Rightarrow> Inl ''claim creates a round output that continues no round of the claim, or one twice''))"

definition claim_out_step :: "pos_env \<Rightarrow> CPubKey \<Rightarrow> nat \<times> CTxOut \<Rightarrow> round_outs \<Rightarrow> claim_reason + round_outs" where
  "claim_out_step E signer no st =
     (let (n, out) = no; asset = GetAsset (nAsset out)
      in if IsFee out then Inr st
         else if \<not> explicit_out out then Inl ''claim creates a blinded output''
         else case RoundFromTxOut E out of
           Some r \<Rightarrow>
             if ro_signer r \<noteq> signer then Inl ''claim creates a round for a different pool''
             else (case round_output r st of Inl e \<Rightarrow> Inl e
                   | Inr st \<Rightarrow> Inr (st\<lparr>rs_taken := (rs_taken st)[n := True]\<rparr>))
         | None \<Rightarrow>
             (case ParsePotScript E (scriptPubKey out) of
                Some pot \<Rightarrow>
                  if pot \<noteq> signer then Inl ''claim re-pots value under a different pool''
                  else if fm_get 0 (rs_pot_count st) asset + 1 > 1 then Inl ''claim creates two pot outputs in one asset''
                  else Inr (st\<lparr>rs_pot_count := fm_plus asset 1 (rs_pot_count st),
                               rs_pot_out := fm_plus asset (GetAmount (nValue out)) (rs_pot_out st),
                               rs_taken := (rs_taken st)[n := True]\<rparr>)
              | None \<Rightarrow> Inr st))"

section \<open>What each round pays and keeps\<close>

record settlement =
  need_pot :: amounts
  s_owed :: key_amounts

definition round_keep :: "int \<Rightarrow> int \<Rightarrow> int" where
  "round_keep value pay = value - pay - pay div POS_SPLIT_WITHHOLD_RATIO"

text \<open>The bucket that a work pays, and whether the round closes with it.\<close>

definition work_bucket :: "Work \<Rightarrow> claim_reason + int \<times> bool" where
  "work_bucket w =
     (if w_bucket w < 0
      then if Unpaid (w_round w) \<noteq> 1 then Inl ''claim drops a round that still has more than one bucket to pay''
        else Inr (fold (\<lambda>b k. if \<not> IsPaid (w_round w) b then int b else k) [0..<unat (buckets (w_round w))] (w_bucket w), True)
      else Inr (w_bucket w, False))"

definition settle_step :: "pos_env \<Rightarrow> StakeRegistry \<Rightarrow> CPubKey \<Rightarrow> Work \<Rightarrow> settlement \<Rightarrow> claim_reason + settlement" where
  "settle_step E R signer w st =
     (if repot_only w then Inr (st\<lparr>need_pot := fm_plus (w_asset w) (in_value w) (need_pot st)\<rparr>)
      else case work_bucket w of Inl e \<Rightarrow> Inl e
      | Inr (b, closing) \<Rightarrow>
          let due = PosRoundBucketOwed E R signer (w_round w) (nat b);
              st = st\<lparr>s_owed := fold (\<lambda>(k, cut). owed_plus k (w_asset w) cut) (fm_entries due) (s_owed st)\<rparr>;
              pay = fm_total due;
              keep = round_keep (in_value w) pay
          in if pay > in_value w then Inl ''claim pays a bucket more than its round holds''
             else if closing then Inr (st\<lparr>need_pot := fm_plus (w_asset w) keep (need_pot st)\<rparr>)
             else if out_value w < keep then Inl ''claim leaves a round less than it must keep''
             else Inr st)"

definition check_need :: "amounts \<Rightarrow> CAsset \<times> int \<Rightarrow> claim_reason option" where
  "check_need pot_out e = (let (asset, need) = e
     in if fm_get 0 pot_out asset < need then Some ''claim re-pots less than a closing round leaves'' else None)"

section \<open>The remaining outputs\<close>

record pay_outs =
  po_fee :: amounts
  po_keeper :: amounts
  po_delivered :: amounts
  po_paid_to :: key_amounts

definition payee_map :: "key_amounts \<Rightarrow> (bytes, CPubKey) fmap" where
  "payee_map o1 = fold (\<lambda>(k, _). fmupd (payee_script k) k) (fm_entries o1) fmempty"

definition pay_step :: "(bytes, CPubKey) fmap \<Rightarrow> bool \<times> CTxOut \<Rightarrow> pay_outs \<Rightarrow> pay_outs" where
  "pay_step payee to st =
     (let (taken, out) = to; asset = GetAsset (nAsset out); value = GetAmount (nValue out)
      in if taken then st
         else if IsFee out then st\<lparr>po_fee := fm_plus asset value (po_fee st)\<rparr>
         else case fmlookup payee (scriptPubKey out) of
           Some k \<Rightarrow> st\<lparr>po_paid_to := owed_plus k asset value (po_paid_to st),
                        po_delivered := fm_plus asset value (po_delivered st)\<rparr>
         | None \<Rightarrow> st\<lparr>po_keeper := fm_plus asset value (po_keeper st)\<rparr>)"

definition check_exact :: "key_amounts \<Rightarrow> CPubKey \<times> CAsset \<times> int \<Rightarrow> claim_reason option" where
  "check_exact paid_to e =
     (let (k, a, amount) = e
      in if owed_get paid_to k a \<noteq> amount then Some ''claim pays a delegator part of what it is owed'' else None)"

section \<open>The check\<close>

text \<open>The passes over the outputs once the rounds of the claim are known: \<open>all\<close> are the spent
  rounds and then the new ones, each in key order.\<close>

definition claim_payments :: "pos_env \<Rightarrow> StakeRegistry \<Rightarrow> CPubKey \<Rightarrow> CTransaction \<Rightarrow> amounts \<Rightarrow> round_outs \<Rightarrow> claim_reason option" where
  "claim_payments E R signer tx external rs =
     (let all = map snd (fm_entries (rs_spent rs)) @ map snd (fm_entries (rs_fresh rs))
      in case fold_steps (settle_step E R signer) all \<lparr>need_pot = fmempty, s_owed = fmempty\<rparr> of Inl r \<Rightarrow> Some r
         | Inr st \<Rightarrow>
            (case first_fail (check_need (rs_pot_out rs)) (fm_entries (need_pot st)) of Some r \<Rightarrow> Some r
             | None \<Rightarrow>
               let po = fold (pay_step (payee_map (s_owed st))) (zip (rs_taken rs) (vout tx))
                          \<lparr>po_fee = fmempty, po_keeper = fmempty, po_delivered = fmempty, po_paid_to = fmempty\<rparr>
               in case first_fail (check_exact (po_paid_to po)) (owed_entries (s_owed st)) of Some r \<Rightarrow> Some r
                  | None \<Rightarrow>
                     (case first_fail (check_paid (s_owed st)) (owed_entries (po_paid_to po)) of Some r \<Rightarrow> Some r
                      | None \<Rightarrow> first_fail (check_cap (po_fee po) (po_keeper po) external (po_delivered po))
                                  (sort (remdups (map w_asset all))))))"

definition CheckPosPotClaimV2 :: "pos_env \<Rightarrow> StakeRegistry \<Rightarrow> CTransaction \<Rightarrow> Coin list \<Rightarrow> claim_reason option" where
  "CheckPosPotClaimV2 E R tx spent_coins =
     (case fold_steps (claim_in_step E) (zip spent_coins (vin tx))
             \<lparr>ci_signer = None, ci_spent_rounds = fmempty, ci_fresh = fmempty, ci_external = fmempty\<rparr> of
        Inl r \<Rightarrow> Some r
      | Inr ci \<Rightarrow>
          (case ci_signer ci of None \<Rightarrow> None
           | Some signer \<Rightarrow>
              (case fold_steps (fresh_step E R signer) (fm_entries (ci_fresh ci)) (ci_fresh ci) of Inl r \<Rightarrow> Some r
               | Inr fresh \<Rightarrow>
                  (case fold_steps (claim_out_step E signer) (enumerate 0 (vout tx))
                          \<lparr>rs_spent = ci_spent_rounds ci, rs_fresh = fresh, rs_taken = replicate (length (vout tx)) False,
                           rs_pot_out = fmempty, rs_pot_count = fmempty\<rparr> of Inl r \<Rightarrow> Some r
                   | Inr rs \<Rightarrow> claim_payments E R signer tx (ci_external ci) rs))))"

definition spends_second_generation :: "pos_env \<Rightarrow> Coin list \<Rightarrow> bool" where
  "spends_second_generation E coins \<longleftrightarrow> (\<exists>coin \<in> set coins. \<not> (IsSpent coin \<or> \<not> PosSplitV2Coin E (nHeight coin))
     \<and> (PotFromTxOut E (coin_out coin) \<noteq> None \<or> RoundFromTxOut E (coin_out coin) \<noteq> None))"

definition CheckPosPotClaim :: "pos_env \<Rightarrow> StakeRegistry \<Rightarrow> CTransaction \<Rightarrow> Coin list \<Rightarrow> int \<Rightarrow> claim_reason option" where
  "CheckPosPotClaim E R tx spent_coins spend_height =
     (if g_pos_records_v2_height E > 0 \<and> spend_height \<ge> g_pos_records_v2_height E \<and> spends_second_generation E spent_coins
      then CheckPosPotClaimV2 E R tx spent_coins
      else CheckPosPotClaimV1 E R tx spent_coins)"

section \<open>Buckets of a round\<close>

lemma grow_buckets_pos: "0 < n \<Longrightarrow> 0 < grow_buckets want n"
  by (induction want n rule: grow_buckets.induct) (subst grow_buckets.simps, simp)

lemma grow_buckets_le: "n \<le> 2048 \<Longrightarrow> \<exists>i. n = 2 ^ i \<Longrightarrow> grow_buckets want n \<le> 2048"
proof (induction want n rule: grow_buckets.induct)
  case (1 want n)
  obtain i where i: "n = 2 ^ i" using "1.prems" by blast
  show ?case
  proof (cases "n < want \<and> n < POS_ROUND_MAX_BUCKETS \<and> 0 < n")
    case True
    then have "i < 11" using i power_strict_increasing_iff [of "2::nat" i 11] by simp
    then have "2 * n \<le> 2048" using i power_increasing [of "Suc i" 11 "2::nat"] by simp
    moreover have "\<exists>j. 2 * n = 2 ^ j" using i by (metis power_Suc)
    ultimately show ?thesis using "1.IH" True by (subst grow_buckets.simps) simp
  next
    case False
    then show ?thesis using "1.prems"(1) by (subst grow_buckets.simps) (simp only: if_False)
  qed
qed

lemma bucket_count_bounds: "0 < PosRoundBucketCount p \<and> PosRoundBucketCount p \<le> POS_ROUND_MAX_BUCKETS"
  using grow_buckets_pos [of 1] grow_buckets_le [of 1] power_0 [of "2::nat"] unfolding PosRoundBucketCount_def Let_def
  by (metis one_le_numeral zero_less_one)

lemma bucket_less:
  assumes "0 < n" "n < 2 ^ 32"
  shows "PosRoundBucket s k n < n"
proof -
  have eq: "(word_of_nat n :: u32) - 1 = word_of_nat (n - 1)" using assms(1) by (simp add: of_nat_diff)
  have "n - 1 < 2 ^ LENGTH(32)" using assms(2) by simp
  then have m: "unat (word_of_nat n - 1 :: u32) = n - 1" unfolding eq by (simp only: unat_of_nat mod_less)
  obtain v :: u32 where v: "PosRoundBucket s k n = unat (v AND (word_of_nat n - 1))"
    unfolding PosRoundBucket_def Let_def by blast
  have "unat (v AND (word_of_nat n - 1)) \<le> unat (word_of_nat n - 1 :: u32)"
    using word_and_le1 [of v "word_of_nat n - 1"] unfolding word_le_nat_alt .
  then show ?thesis unfolding v m using assms(1) by linarith
qed

section \<open>What a bucket can cost\<close>

text \<open>The most that bucket \<open>b\<close> can be owed, by the weights \<open>m\<close> with which the round was made.\<close>

definition cut_most :: "int \<Rightarrow> (CPubKey, u64) fmap \<Rightarrow> CPubKey \<Rightarrow> int" where
  "cut_most d m k = (let c = d * int (unat (fm_get 0 m k)) div int (weight_sum m) in if c \<ge> POS_SPLIT_MIN_PAYOUT then c else 0)"

definition bucket_most :: "PosRound \<Rightarrow> (CPubKey, u64) fmap \<Rightarrow> nat \<Rightarrow> int" where
  "bucket_most r m b = (\<Sum>k \<in> {k. k |\<in>| fmdom m \<and> PosRoundBucket (salt r) k (unat (buckets r)) = b}.
     cut_most (after_reserve (distributable r)) m k)"

lemma cut_most_pos: "0 \<le> cut_most d m k"
  by (simp add: cut_most_def Let_def)

lemma bucket_most_step: "bucket_most r m b = 0 \<or> 1000 \<le> bucket_most r m b"
proof (cases "\<exists>k. k |\<in>| fmdom m \<and> PosRoundBucket (salt r) k (unat (buckets r)) = b \<and> cut_most (after_reserve (distributable r)) m k \<noteq> 0")
  case True
  then obtain k where k: "k |\<in>| fmdom m" "PosRoundBucket (salt r) k (unat (buckets r)) = b"
    "cut_most (after_reserve (distributable r)) m k \<noteq> 0" by blast
  then have "1000 \<le> cut_most (after_reserve (distributable r)) m k" by (auto simp: cut_most_def Let_def split: if_splits)
  also have "\<dots> \<le> bucket_most r m b" unfolding bucket_most_def using k(1,2)
    by (intro member_le_sum) (auto simp: cut_most_pos)
  finally show ?thesis by simp
next
  case False
  then show ?thesis unfolding bucket_most_def by (intro disjI1 sum.neutral) auto
qed

lemma buckets_most_le:
  assumes "0 \<le> after_reserve (distributable r)" "finite B"
  shows "(\<Sum>b \<in> B. bucket_most r m b) \<le> after_reserve (distributable r)"
proof -
  let ?d = "after_reserve (distributable r)" and ?n = "unat (buckets r)"
  let ?A = "{k. k |\<in>| fmdom m \<and> PosRoundBucket (salt r) k ?n \<in> B}"
  have "(\<Sum>b \<in> B. bucket_most r m b) = (\<Sum>k \<in> ?A. cut_most ?d m k)"
  proof -
    have eq: "{k. k |\<in>| fmdom m \<and> PosRoundBucket (salt r) k ?n = b} = {k \<in> ?A. PosRoundBucket (salt r) k ?n = b}" if "b \<in> B" for b
      using that by auto
    have "(\<Sum>b \<in> B. bucket_most r m b) = (\<Sum>b \<in> B. \<Sum>k \<in> {k \<in> ?A. PosRoundBucket (salt r) k ?n = b}. cut_most ?d m k)"
      unfolding bucket_most_def by (rule sum.cong) (simp_all only: eq)
    also have "\<dots> = (\<Sum>k \<in> ?A. cut_most ?d m k)" using assms(2) by (intro sum.group) auto
    finally show ?thesis .
  qed
  also have "\<dots> \<le> (\<Sum>k \<in> fset (fmdom m). cut_most ?d m k)" by (rule sum_mono2) (auto simp: cut_most_pos)
  also have "\<dots> \<le> (\<Sum>k \<in> fset (fmdom m). ?d * int (unat (fm_get 0 m k)) div int (weight_sum m))"
    by (rule sum_mono) (use assms(1) in \<open>simp add: cut_most_def Let_def div_int_pos_iff\<close>)
  also have "\<dots> \<le> ?d * int (weight_sum m) div int (weight_sum m)"
    unfolding weight_sum_Sum by (rule sum_shares_le) simp
  also have "\<dots> \<le> ?d" using assms(1) by simp
  finally show ?thesis .
qed

text \<open>The weights seen by a later claim: those of everyone but the signer have not grown.\<close>

definition weights_shrunk :: "pos_env \<Rightarrow> CPubKey \<Rightarrow> (CPubKey, u64) fmap \<Rightarrow> PosRound \<Rightarrow> StakeRegistry \<Rightarrow> bool" where
  "weights_shrunk E signer m r R \<longleftrightarrow>
     (\<forall>k w. fmlookup (ParticipantsBefore R signer (round_start E r)) k = Some w \<longrightarrow> k \<noteq> signer \<longrightarrow> w \<le> fm_get 0 m k)"

text \<open>The terms of a round made by a claim from the participants \<open>m\<close>.\<close>

definition round_made :: "CPubKey \<Rightarrow> (CPubKey, u64) fmap \<Rightarrow> PosRound \<Rightarrow> bool" where
  "round_made signer m r \<longleftrightarrow> weight_sum m < 2 ^ 64 \<and> 0 < weight_sum m \<and> weight r = fm_total m \<and> signer_weight r = fm_get 0 m signer
     \<and> 0 < distributable r \<and> distributable r < 2 ^ 63"

lemma bucket_cut_le:
  assumes "round_made signer m r" "weights_shrunk E signer m r R"
    and "fmlookup (ParticipantsBefore R signer (round_start E r)) k = Some w"
    and "bucket_cut signer r k w \<ge> POS_SPLIT_MIN_PAYOUT"
  shows "bucket_cut signer r k w \<le> cut_most (after_reserve (distributable r)) m k \<and> k |\<in>| fmdom m"
proof -
  let ?d = "after_reserve (distributable r)" and ?w = "if k = signer then min w (signer_weight r) else w"
  have d: "0 \<le> ?d" "?d < 2 ^ 63" using assms(1) after_reserve_bounds [of "distributable r"] by (auto simp: round_made_def)
  have tot: "unat (weight r) = weight_sum m" "weight r \<noteq> 0"
    using assms(1) fm_total_unat [of m] by (auto simp: round_made_def)
  have "?w \<le> fm_get 0 m k" using assms(1,2,3) by (auto simp: round_made_def weights_shrunk_def)
  then have w: "unat ?w \<le> unat (fm_get 0 m k)" by (simp add: word_le_nat_alt)
  then have "unat ?w \<le> unat (weight r)" using weight_le_sum [of m k] tot by linarith
  then have cut: "bucket_cut signer r k w = ?d * int (unat ?w) div int (weight_sum m)"
    using pot_cut_div [OF d _ tot(2), of ?w] unfolding bucket_cut_def Let_def tot(1) by blast
  also have "\<dots> \<le> ?d * int (unat (fm_get 0 m k)) div int (weight_sum m)"
    using w d(1) tot assms(1) by (intro zdiv_mono1 mult_left_mono) (simp_all add: round_made_def del: of_nat_unat)
  finally have le: "bucket_cut signer r k w \<le> ?d * int (unat (fm_get 0 m k)) div int (weight_sum m)" .
  have "fm_get 0 m k \<noteq> 0" using le assms(4) by (auto simp: Let_def)
  then have "k |\<in>| fmdom m" by (auto simp: fm_get_def split: option.splits intro: fmdomI)
  then show ?thesis using le assms(4) by (auto simp: cut_most_def Let_def)
qed

lemma owed_lookup:
  "fmlookup (PosRoundBucketOwed E R signer r b) k =
   (case fmlookup (ParticipantsBefore R signer (round_start E r)) k of None \<Rightarrow> None
    | Some w \<Rightarrow> if PosRoundBucket (salt r) k (unat (buckets r)) = b \<and> bucket_cut signer r k w \<ge> POS_SPLIT_MIN_PAYOUT
        then Some (bucket_cut signer r k w) else None)"
proof -
  have "fmlookup (fold (\<lambda>(k, w) o1. if PosRoundBucket (salt r) k (unat (buckets r)) \<noteq> b then o1
      else let cut = bucket_cut signer r k w in if cut \<ge> POS_SPLIT_MIN_PAYOUT then fmupd k cut o1 else o1) xs o1) k =
    (case map_of xs k of None \<Rightarrow> fmlookup o1 k
     | Some w \<Rightarrow> if PosRoundBucket (salt r) k (unat (buckets r)) = b \<and> bucket_cut signer r k w \<ge> POS_SPLIT_MIN_PAYOUT
        then Some (bucket_cut signer r k w) else fmlookup o1 k)" if "distinct (map fst xs)" for xs o1
    using that by (induction xs arbitrary: o1) (auto simp: Let_def map_of_eq_None_iff image_iff split: option.splits)
  from this [OF distinct_fst_entries] show ?thesis by (simp add: PosRoundBucketOwed_def map_of_sorted_list split: option.splits)
qed

lemma bucket_pays_most:
  assumes "round_made signer m r" "weights_shrunk E signer m r R"
  shows "fm_total (PosRoundBucketOwed E R signer r b) \<le> bucket_most r m b"
proof -
  let ?O = "PosRoundBucketOwed E R signer r b"
  have dom: "fm_get 0 ?O k \<le> cut_most (after_reserve (distributable r)) m k" "k |\<in>| fmdom m"
      "PosRoundBucket (salt r) k (unat (buckets r)) = b" if "k |\<in>| fmdom ?O" for k
    using that bucket_cut_le [OF assms, of k] owed_lookup [of E R signer r b k]
    by (auto simp: fm_get_def fmlookup_dom_iff split: option.splits if_splits)
  have "fm_total ?O = (\<Sum>k \<in> fset (fmdom ?O). fm_get 0 ?O k)" by (rule fm_total_sum)
  also have "\<dots> \<le> (\<Sum>k \<in> fset (fmdom ?O). cut_most (after_reserve (distributable r)) m k)"
    using dom(1) by (intro sum_mono)
  also have "\<dots> \<le> bucket_most r m b" unfolding bucket_most_def
    using dom(2,3) by (intro sum_mono2) (auto simp: cut_most_pos)
  finally show ?thesis .
qed

section \<open>The life of a round\<close>

text \<open>The terms that a round keeps for as long as it lives.\<close>

definition same_terms :: "PosRound \<Rightarrow> PosRound \<Rightarrow> bool" where
  "same_terms a b \<longleftrightarrow> epoch a = epoch b \<and> salt a = salt b \<and> weight a = weight b \<and> signer_weight a = signer_weight b
     \<and> distributable a = distributable b \<and> buckets a = buckets b"

definition paid_buckets :: "PosRound \<Rightarrow> nat set" where
  "paid_buckets r = {b. b < unat (buckets r) \<and> IsPaid r b}"

lemma added_bucket_spec:
  assumes "added_bucket r r' bs a = Inr x" "distinct bs"
  shows "x = a \<and> (\<forall>c \<in> set bs. IsPaid r' c = IsPaid r c) \<or>
    (\<exists>b \<in> set bs. a < 0 \<and> x = int b \<and> \<not> IsPaid r b \<and> IsPaid r' b \<and> (\<forall>c \<in> set bs. c \<noteq> b \<longrightarrow> IsPaid r' c = IsPaid r c))"
  using assms
proof (induction r r' bs a rule: added_bucket.induct)
  case (2 r r' b bs a)
  show ?case
  proof (cases "\<not> IsPaid r b \<and> IsPaid r' b")
    case True
    then have "a < 0" "added_bucket r r' bs (int b) = Inr x" using "2.prems" by (auto split: if_splits)
    then show ?thesis using "2.IH"(1) True "2.prems"(2) by (auto split: if_splits)
  next
    case False
    then have "IsPaid r' b = IsPaid r b" "added_bucket r r' bs a = Inr x" using "2.prems" by (auto split: if_splits)
    then show ?thesis using "2.IH"(2) False "2.prems"(2) by auto
  qed
qed simp

lemma continue_round_spec:
  assumes "continue_round ro w = Inr w'" "epoch (ro_round ro) = epoch (w_round w)" "salt (ro_round ro) = salt (w_round w)"
  obtains b where "w' = w\<lparr>w_bucket := int b, out_value := ro_value ro\<rparr>" "b \<notin> paid_buckets (w_round w)"
    "paid_buckets (ro_round ro) = insert b (paid_buckets (w_round w))" "same_terms (ro_round ro) (w_round w)"
proof -
  let ?a = "ro_round ro" and ?r = "w_round w"
  obtain x where x: "added_bucket ?r ?a [0..<unat (buckets ?r)] (- 1) = Inr x" "0 \<le> x"
      "w' = w\<lparr>w_bucket := x, out_value := ro_value ro\<rparr>" and same: "same_terms ?a ?r"
    using assms by (auto simp: continue_round_def same_terms_def Let_def split: if_splits sum.splits)
  have eq: "buckets ?a = buckets ?r" using same by (simp add: same_terms_def)
  obtain b where b: "b < unat (buckets ?r)" "x = int b" "\<not> IsPaid ?r b" "IsPaid ?a b"
      "\<forall>c < unat (buckets ?r). c \<noteq> b \<longrightarrow> IsPaid ?a c = IsPaid ?r c"
    using added_bucket_spec [OF x(1)] x(2) by auto
  have "paid_buckets ?a = insert b (paid_buckets ?r)"
    unfolding paid_buckets_def eq using b by auto
  then show ?thesis using that x(3) b same by (auto simp: paid_buckets_def)
qed

lemma settle_continue:
  assumes "settle_step E R signer w st = Inr st'" "\<not> repot_only w" "w_bucket w = int b"
  shows "fm_total (PosRoundBucketOwed E R signer (w_round w) b) \<le> in_value w"
    "round_keep (in_value w) (fm_total (PosRoundBucketOwed E R signer (w_round w) b)) \<le> out_value w"
  using assms by (auto simp: settle_step_def work_bucket_def Let_def split: if_splits)

text \<open>
  The states that a round goes through, from the one it was made with: a claim continues it in an
  output \<open>ro\<close> of positive value with the same identity, and settles it by the registry of its time.
  \<open>m\<close> are the participants the round was made from.
\<close>

inductive round_reach :: "pos_env \<Rightarrow> CPubKey \<Rightarrow> (CPubKey, u64) fmap \<Rightarrow> PosRound \<Rightarrow> PosRound \<Rightarrow> int \<Rightarrow> bool"
  for E signer m r0 where
  made: "round_reach E signer m r0 r0 (distributable r0)"
| pays: "\<lbrakk>round_reach E signer m r0 (w_round w) (in_value w); \<not> repot_only w;
    epoch (ro_round ro) = epoch (w_round w); salt (ro_round ro) = salt (w_round w); 0 < ro_value ro;
    continue_round ro w = Inr w'; settle_step E R signer w' st = Inr st'; weights_shrunk E signer m (w_round w) R\<rbrakk>
   \<Longrightarrow> round_reach E signer m r0 (ro_round ro) (ro_value ro)"

lemma same_terms_round:
  assumes "same_terms a r"
  shows "round_made signer m a = round_made signer m r" "bucket_most a m b = bucket_most r m b" "buckets a = buckets r"
    "distributable a = distributable r" "round_start E a = round_start E r"
  using assms by (simp_all add: same_terms_def round_made_def bucket_most_def round_start_def)

text \<open>What is left covers the buckets not paid yet: the value stays above that of the start
  less 100/99 of what the paid buckets can have cost.\<close>

lemma round_reach_inv:
  assumes "round_reach E signer m r0 r v" "round_made signer m r0" and none: "paid_buckets r0 = {}"
  shows "round_made signer m r \<and> 0 < v \<and>
    99 * distributable r - 100 * (\<Sum>b \<in> paid_buckets r. bucket_most r m b) \<le> 99 * v"
  using assms(1)
proof induction
  case made
  then show ?case using assms(2,3) by (simp add: round_made_def)
next
  case (pays w ro w' R st st')
  let ?r = "w_round w"
  obtain b where b: "w' = w\<lparr>w_bucket := int b, out_value := ro_value ro\<rparr>" "b \<notin> paid_buckets ?r"
      "paid_buckets (ro_round ro) = insert b (paid_buckets ?r)" "same_terms (ro_round ro) ?r"
    using continue_round_spec pays.hyps by metis
  let ?p = "fm_total (PosRoundBucketOwed E R signer ?r b)" and ?S = "\<Sum>c \<in> paid_buckets ?r. bucket_most ?r m c"
  have keep: "round_keep (in_value w) ?p \<le> ro_value ro"
    using settle_continue(2) [OF pays.hyps(7), of b] b(1) pays.hyps(2) by simp
  have le: "?p \<le> bucket_most ?r m b" using bucket_pays_most pays by blast
  have "99 * (?p div 99) \<le> ?p" by simp
  then have "99 * in_value w - 100 * ?p \<le> 99 * ro_value ro" using keep unfolding round_keep_def by linarith
  then have "99 * distributable ?r - 100 * (bucket_most ?r m b + ?S) \<le> 99 * ro_value ro"
    using le pays.IH [THEN conjunct2, THEN conjunct2] by (simp add: algebra_simps)
  moreover have "(\<Sum>c \<in> paid_buckets (ro_round ro). bucket_most (ro_round ro) m c) = bucket_most ?r m b + ?S"
  proof -
    have "finite (paid_buckets ?r)" by (simp add: paid_buckets_def)
    then show ?thesis unfolding b(3) same_terms_round(2) [OF b(4)] using b(2) by simp
  qed
  ultimately show ?case using pays.IH pays.hyps(5) same_terms_round [OF b(4)] by simp
qed

lemma reach_covers:
  assumes "round_reach E signer m r0 r v" "round_made signer m r0" "paid_buckets r0 = {}"
    and "\<not> IsPaid r b" "weights_shrunk E signer m r R"
  shows "fm_total (PosRoundBucketOwed E R signer r b) \<le> v"
proof -
  note inv = round_reach_inv [OF assms(1-3)]
  let ?S = "\<Sum>b \<in> paid_buckets r. bucket_most r m b"
  have d: "0 < distributable r" using inv by (simp add: round_made_def)
  have "b \<notin> paid_buckets r" "finite (paid_buckets r)" using assms(4) by (simp_all add: paid_buckets_def)
  then have "?S + bucket_most r m b \<le> after_reserve (distributable r)"
    using buckets_most_le [of r "insert b (paid_buckets r)" m] after_reserve_bounds [OF d] by simp
  moreover have "100 * after_reserve (distributable r) \<le> 99 * distributable r + 99"
    unfolding after_reserve_def by presburger
  ultimately have "100 * bucket_most r m b - 99 \<le> 99 * v" using inv by linarith
  then have "bucket_most r m b \<le> v" using bucket_most_step [of r m b] inv by linarith
  then show ?thesis using bucket_pays_most [OF _ assms(5)] inv by (meson order_trans)
qed

text \<open>A round that a claim makes has the terms of its participants and no paid bucket.\<close>

lemma fresh_round_made:
  fixes E R signer w
  defines "m \<equiv> ParticipantsBefore R signer (round_start E (w_round w))" and "r \<equiv> w_round (fresh_round E R signer w)"
  assumes "\<not> repot_only (fresh_round E R signer w)" "0 < in_value w" "in_value w < 2 ^ 63" "weight_sum m < 2 ^ 64"
  shows "round_made signer m r \<and> paid_buckets r = {} \<and> 0 < unat (buckets r) \<and> unat (buckets r) \<le> POS_ROUND_MAX_BUCKETS
    \<and> distributable r = in_value w"
proof -
  let ?n = "PosRoundBucketCount (length (fm_entries m))"
  have tot: "fm_total m \<noteq> 0" using assms(3) by (auto simp: fresh_round_def m_def Let_def)
  then have r: "weight r = fm_total m" "signer_weight r = fm_get 0 m signer" "distributable r = in_value w"
      "buckets r = word_of_nat ?n" "paid r = replicate ((unat (buckets r) + 7) div 8) 0"
    by (simp_all add: r_def m_def fresh_round_def Let_def)
  have n: "unat (buckets r) = ?n" using bucket_count_bounds [of "length (fm_entries m)"] by (simp add: r(4) unat_of_nat)
  have "\<not> IsPaid r b" if "b < unat (buckets r)" for b
  proof -
    have "b div 8 < (unat (buckets r) + 7) div 8" using that by linarith
    then show ?thesis by (simp add: IsPaid_def r(5))
  qed
  moreover have "0 < weight_sum m" using tot fm_total_unat [OF assms(6)] by (metis neq0_conv unat_eq_0)
  ultimately show ?thesis
    using assms r n bucket_count_bounds [of "length (fm_entries m)"] by (auto simp: round_made_def paid_buckets_def)
qed

section \<open>What an accepted claim pays\<close>

lemma fold_steps_Cons:
  "fold_steps f (x # xs) st = Inr st' \<longleftrightarrow> (\<exists>st1. f x st = Inr st1 \<and> fold_steps f xs st1 = Inr st')"
  by (simp split: sum.splits)

text \<open>What a work owes a delegator in an asset.\<close>

definition work_due :: "pos_env \<Rightarrow> StakeRegistry \<Rightarrow> CPubKey \<Rightarrow> Work \<Rightarrow> (CPubKey, int) fmap" where
  "work_due E R signer w = (if repot_only w then fmempty
     else case work_bucket w of Inl _ \<Rightarrow> fmempty | Inr (b, _) \<Rightarrow> PosRoundBucketOwed E R signer (w_round w) (nat b))"

definition works_owe :: "pos_env \<Rightarrow> StakeRegistry \<Rightarrow> CPubKey \<Rightarrow> Work list \<Rightarrow> CPubKey \<Rightarrow> CAsset \<Rightarrow> int" where
  "works_owe E R signer ws k a = (\<Sum>w \<leftarrow> ws. if w_asset w = a then fm_get 0 (work_due E R signer w) k else 0)"

text \<open>A work is settled when it pays no more than it holds and, unless it closes, leaves what it must keep.\<close>

definition work_settled :: "pos_env \<Rightarrow> StakeRegistry \<Rightarrow> CPubKey \<Rightarrow> Work \<Rightarrow> bool" where
  "work_settled E R signer w \<longleftrightarrow> repot_only w \<or>
     (\<exists>b closing. work_bucket w = Inr (b, closing) \<and> fm_total (work_due E R signer w) \<le> in_value w \<and>
        (closing \<or> round_keep (in_value w) (fm_total (work_due E R signer w)) \<le> out_value w))"

lemma fold_owed_plus:
  assumes "distinct (map fst xs)"
  shows "owed_get (fold (\<lambda>(k, cut). owed_plus k a cut) xs o1) k' a' =
      owed_get o1 k' a' + (if a' = a then (case map_of xs k' of None \<Rightarrow> 0 | Some v \<Rightarrow> v) else 0)"
    and "is_owed (fold (\<lambda>(k, cut). owed_plus k a cut) xs o1) k' a' \<longleftrightarrow>
      is_owed o1 k' a' \<or> a' = a \<and> k' \<in> fst ` set xs"
  using assms
  by (induction xs arbitrary: o1) (auto simp: map_of_eq_None_iff image_iff split: option.splits)

lemma settle_step_owed:
  assumes "settle_step E R signer w st = Inr st'"
  shows "owed_get (s_owed st') k a = owed_get (s_owed st) k a
      + (if w_asset w = a then fm_get 0 (work_due E R signer w) k else 0)"
    and "work_settled E R signer w"
    and "is_owed (s_owed st') k a \<longleftrightarrow> is_owed (s_owed st) k a \<or> w_asset w = a \<and> k |\<in>| fmdom (work_due E R signer w)"
  using assms fold_owed_plus [OF distinct_fst_entries, of "w_asset w" "work_due E R signer w" "s_owed st" k a]
  by (auto simp: settle_step_def work_due_def work_settled_def Let_def map_of_sorted_list fm_get_def fst_set_entries
      split: if_splits sum.splits option.splits)

lemma settle_owed:
  assumes "fold_steps (settle_step E R signer) ws st = Inr st'"
  shows "owed_get (s_owed st') k a = owed_get (s_owed st) k a + works_owe E R signer ws k a \<and>
    (is_owed (s_owed st') k a \<longleftrightarrow> is_owed (s_owed st) k a \<or> (\<exists>w \<in> set ws. w_asset w = a \<and> k |\<in>| fmdom (work_due E R signer w))) \<and>
    (\<forall>w \<in> set ws. work_settled E R signer w)"
  using assms
proof (induction ws arbitrary: st)
  case (Cons w ws)
  then obtain st1 where 1: "settle_step E R signer w st = Inr st1" and 2: "fold_steps (settle_step E R signer) ws st1 = Inr st'"
    by (auto simp: fold_steps_Cons simp del: fold_steps.simps)
  show ?case using Cons.IH [OF 2] settle_step_owed [OF 1] by (auto simp: works_owe_def)
qed (simp add: works_owe_def)

lemma payee_map_lookup:
  assumes "fmlookup (payee_map o1) script = Some k"
  shows "script = payee_script k"
proof -
  have "fmlookup (fold (\<lambda>(k, _). fmupd (payee_script k) k) xs m) script = Some k \<Longrightarrow>
      (\<forall>k. fmlookup m script = Some k \<longrightarrow> script = payee_script k) \<Longrightarrow> script = payee_script k"
    for xs :: "(CPubKey \<times> amounts) list" and m
    by (induction xs arbitrary: m) (auto split: if_splits)
  from this [of "fm_entries o1" fmempty] show ?thesis using assms by (simp add: payee_map_def)
qed

text \<open>The outputs recorded for a payee.\<close>

definition pays_to :: "(bytes, CPubKey) fmap \<Rightarrow> CPubKey \<Rightarrow> bool \<times> CTxOut \<Rightarrow> bool" where
  "pays_to payee k to \<longleftrightarrow> \<not> fst to \<and> \<not> IsFee (snd to) \<and> fmlookup payee (scriptPubKey (snd to)) = Some k"

lemma pay_fold:
  "owed_get (po_paid_to (fold (pay_step payee) tos st)) k a =
   owed_get (po_paid_to st) k a + out_sum (\<lambda>_. True) a (map snd (filter (pays_to payee k) tos))"
  by (induction tos arbitrary: st) (auto simp: pay_step_def pays_to_def Let_def split: option.splits prod.splits)

text \<open>Round and pot outputs do not pay a delegator's address.\<close>

lemma ParseRound_OP_0: "ParseRoundScript E (OP_0 # rest) = None"
  by (simp add: ParseRoundScript_def expect_data_def GetScriptOp_def ROUND_MARKER_def ascii_def)

definition taken_ok :: "CTxOut list \<Rightarrow> bool list \<Rightarrow> bool" where
  "taken_ok outs taken \<longleftrightarrow> length taken = length outs \<and>
     (\<forall>n < length outs. taken ! n \<longrightarrow> (\<forall>k. scriptPubKey (outs ! n) \<noteq> payee_script k))"

lemma claim_out_step_taken:
  assumes "claim_out_step E signer (n, outs ! n) st = Inr st'" "taken_ok outs (rs_taken st)" "n < length outs"
  shows "taken_ok outs (rs_taken st')"
proof (cases "rs_taken st' = rs_taken st")
  case False
  have "scriptPubKey (outs ! n) \<noteq> payee_script k" for k
    using False assms(1) by (auto simp: claim_out_step_def RoundFromTxOut_def round_output_def continue_round_def
        payee_script_Cons ParseRound_OP_0 ParsePot_OP_0 Let_def split: if_splits option.splits sum.splits)
  moreover have "rs_taken st' = (rs_taken st)[n := True]"
    using False assms(1) by (auto simp: claim_out_step_def round_output_def Let_def split: if_splits option.splits sum.splits)
  ultimately show ?thesis using assms(2,3) by (auto simp: taken_ok_def nth_list_update)
qed (use assms in simp)

lemma claim_outs_taken:
  assumes "fold_steps (claim_out_step E signer) (enumerate 0 outs) st = Inr st'" "taken_ok outs (rs_taken st)"
  shows "taken_ok outs (rs_taken st')"
proof -
  have "fold_steps (claim_out_step E signer) nos st = Inr st' \<Longrightarrow> taken_ok outs (rs_taken st) \<Longrightarrow>
      (\<forall>(n, out) \<in> set nos. n < length outs \<and> out = outs ! n) \<Longrightarrow> taken_ok outs (rs_taken st')" for nos
  proof (induction nos arbitrary: st)
    case (Cons no nos)
    then obtain st1 where "claim_out_step E signer no st = Inr st1" "fold_steps (claim_out_step E signer) nos st1 = Inr st'"
      by (auto simp: fold_steps_Cons simp del: fold_steps.simps)
    then show ?case using Cons claim_out_step_taken [of E signer "fst no" outs st st1] by (cases no) auto
  qed simp
  moreover have "\<forall>(n, out) \<in> set (enumerate 0 outs). n < length outs \<and> out = outs ! n"
    by (auto simp: in_set_enumerate_eq)
  ultimately show ?thesis using assms by blast
qed

lemma recorded_payouts:
  assumes "taken_ok outs taken" "filter (pays_to (payee_map o1) k) (zip taken outs) \<noteq> []"
  shows "out_sum (\<lambda>_. True) a (map snd (filter (pays_to (payee_map o1) k) (zip taken outs))) = paid_at outs (payee_script k) a"
proof -
  have "fmlookup (payee_map o1) (payee_script k) = Some k"
    using assms(2) payee_map_lookup by (fastforce simp: filter_empty_conv pays_to_def)
  then have eq: "pays_to (payee_map o1) k to \<longleftrightarrow> scriptPubKey (snd to) = payee_script k" if "to \<in> set (zip taken outs)" for to
    using that assms(1) payee_map_lookup [of o1 "scriptPubKey (snd to)" k]
    by (auto simp: pays_to_def taken_ok_def IsFee_def in_set_zip) (metis (no_types))
  have "filter (pays_to (payee_map o1) k) (zip taken outs) = filter (\<lambda>to. scriptPubKey (snd to) = payee_script k) (zip taken outs)"
    by (rule filter_cong) (use eq in auto)
  moreover have "map snd (filter (\<lambda>to. scriptPubKey (snd to) = payee_script k) (zip taken outs)) =
      filter (\<lambda>out. scriptPubKey out = payee_script k) outs"
    using filter_map [of "\<lambda>out. scriptPubKey out = payee_script k" snd "zip taken outs"] assms(1)
    by (simp add: taken_ok_def comp_def)
  ultimately show ?thesis by (simp add: paid_at_def out_sum_def conj_commute)
qed

text \<open>The cuts of a bucket are at least the smallest payment.\<close>

lemma work_due_min: "fmlookup (work_due E R signer w) k = Some v \<Longrightarrow> POS_SPLIT_MIN_PAYOUT \<le> v"
  by (auto simp: work_due_def owed_lookup split: if_splits sum.splits prod.splits option.splits)

lemma works_owe_pos:
  assumes "w \<in> set ws" "w_asset w = a" "k |\<in>| fmdom (work_due E R signer w)"
  shows "0 < works_owe E R signer ws k a"
proof -
  have nonneg: "0 \<le> fm_get 0 (work_due E R signer w) k" for w
    using work_due_min [of E R signer w k] by (auto simp: fm_get_def split: option.splits)
  have "0 < (if w_asset w = a then fm_get 0 (work_due E R signer w) k else 0)"
    using assms(2,3) work_due_min [of E R signer w k] by (auto simp: fm_get_def fmlookup_dom_iff)
  also have "\<dots> \<le> works_owe E R signer ws k a" unfolding works_owe_def
    using assms(1) nonneg by (intro member_le_sum_list) auto
  finally show ?thesis .
qed

abbreviation claim_start :: claim_in where
  "claim_start \<equiv> \<lparr>ci_signer = None, ci_spent_rounds = fmempty, ci_fresh = fmempty, ci_external = fmempty\<rparr>"

abbreviation outs_start :: "claim_in \<Rightarrow> (u32 \<times> CAsset, Work) fmap \<Rightarrow> CTransaction \<Rightarrow> round_outs" where
  "outs_start ci fresh tx \<equiv> \<lparr>rs_spent = ci_spent_rounds ci, rs_fresh = fresh, rs_taken = replicate (length (vout tx)) False,
     rs_pot_out = fmempty, rs_pot_count = fmempty\<rparr>"

definition claim_works :: "round_outs \<Rightarrow> Work list" where
  "claim_works rs = map snd (fm_entries (rs_spent rs)) @ map snd (fm_entries (rs_fresh rs))"

lemma accepted_payments:
  assumes "claim_payments E R signer tx ext rs = None" "taken_ok (vout tx) (rs_taken rs)"
  shows "(\<forall>w \<in> set (claim_works rs). work_settled E R signer w) \<and>
    (\<forall>w \<in> set (claim_works rs). \<forall>k. k |\<in>| fmdom (work_due E R signer w) \<longrightarrow>
       paid_at (vout tx) (payee_script k) (w_asset w) = works_owe E R signer (claim_works rs) k (w_asset w))"
proof -
  obtain st po where st: "fold_steps (settle_step E R signer) (claim_works rs) \<lparr>need_pot = fmempty, s_owed = fmempty\<rparr> = Inr st"
      and po: "po = fold (pay_step (payee_map (s_owed st))) (zip (rs_taken rs) (vout tx))
          \<lparr>po_fee = fmempty, po_keeper = fmempty, po_delivered = fmempty, po_paid_to = fmempty\<rparr>"
      and ex: "\<forall>e \<in> set (owed_entries (s_owed st)). check_exact (po_paid_to po) e = None"
    using assms(1) by (auto simp: claim_payments_def claim_works_def Let_def first_fail_None split: sum.splits option.splits)
  note settled = settle_owed [OF st]
  have "paid_at (vout tx) (payee_script k) (w_asset w) = works_owe E R signer (claim_works rs) k (w_asset w)"
    if w: "w \<in> set (claim_works rs)" and k: "k |\<in>| fmdom (work_due E R signer w)" for w k
  proof -
    let ?sel = "filter (pays_to (payee_map (s_owed st)) k) (zip (rs_taken rs) (vout tx))"
    have owe: "owed_get (s_owed st) k (w_asset w) = works_owe E R signer (claim_works rs) k (w_asset w)"
      "is_owed (s_owed st) k (w_asset w)" using settled [of k "w_asset w"] w k by auto
    have "owed_get (po_paid_to po) k (w_asset w) = owed_get (s_owed st) k (w_asset w)"
      using bspec [OF ex owe(2) [unfolded is_owed_entries]] by (simp add: check_exact_def split: if_splits)
    then have got: "out_sum (\<lambda>_. True) (w_asset w) (map snd ?sel) = works_owe E R signer (claim_works rs) k (w_asset w)"
      using owe(1) by (simp add: po pay_fold)
    then have "?sel \<noteq> []" using works_owe_pos [OF w refl k] by auto
    then show ?thesis using recorded_payouts [OF assms(2), of "s_owed st" k "w_asset w"] got by simp
  qed
  then show ?thesis using settled by blast
qed

section \<open>A pool with one delegator\<close>

text \<open>A delegator that bonded and delegated at height 35, and a round that nobody made from pots: an
  ordinary payment to a round script whose terms make its only bucket owe all that it holds.\<close>

definition lent_pool :: StakeRegistry where
  "lent_pool = AddUtxoDelegation (sample_key 2) (sample_key 1) 35 (AddUtxoStake (sample_key 2) 5 [] 35 Reg_Clear)"

definition handmade :: PosRound where
  "handmade = \<lparr>epoch = 4, weight = 5, signer_weight = 0, distributable = 100000, buckets = 1, salt = replicate 32 9, paid = [0]\<rparr>"

definition drain_spent :: "Coin list" where
  "drain_spent = [gold_coin 45 99000 (BuildRoundScript (sample_key 1) handmade), gold_coin 25 1000 (BuildPotScript (sample_key 1))]"

definition drain_tx :: CTransaction where
  "drain_tx = \<lparr>tx_hash = replicate 32 1, vin = [\<lparr>prevout = COutPoint (replicate 32 2) 0, m_is_pegin = False\<rparr>,
       \<lparr>prevout = COutPoint (replicate 32 2) 1, m_is_pegin = False\<rparr>],
     vout = [gold_out 99000 (payee_script (sample_key 2)), gold_out 1000 [OP_TRUE]]\<rparr>"

lemma sample_key_inj [simp]: "sample_key a = sample_key b \<longleftrightarrow> a = b"
  by (simp add: sample_key_def)

lemma lent_participants:
  "ParticipantsBefore lent_pool (sample_key 1) h = (if h \<le> 35 then fmempty else fmupd (sample_key 2) 5 fmempty)"
  by (simp add: ParticipantsBefore_def lent_pool_def AddUtxoDelegation_def AddUtxoStake_def Reg_Clear_def SignerForLocked_def
      WeightBefore_def tranches_before_def sorted_list_of_fset.rep_eq fm_plus_def)

lemma handmade_out:
  "RoundFromTxOut sample_env (gold_out 99000 (BuildRoundScript (sample_key 1) handmade)) =
    Some \<lparr>ro_signer = sample_key 1, ro_asset = gold, ro_value = 99000, ro_round = handmade\<rparr>"
proof -
  have "round_ok sample_env handmade"
    by (simp add: handmade_def round_ok_def round_canonical_def round_data_def MoneyRange_def sample_env_def)
  then have "ParseRoundScript sample_env (BuildRoundScript (sample_key 1) handmade) = Some (sample_key 1, handmade)"
    by (intro ParseRound_Build) simp_all
  then show ?thesis using gold_out_simps(1) [of 99000 "BuildRoundScript (sample_key 1) handmade"]
    by (simp add: RoundFromTxOut_def)
qed

lemma other_outs:
  "RoundFromTxOut sample_env (gold_out v (BuildPotScript (sample_key b))) = None"
  "RoundFromTxOut E (gold_out v (payee_script k)) = None"
  "RoundFromTxOut E (gold_out v [OP_TRUE]) = None" "ParsePotScript E [OP_TRUE] = None"
proof -
  have "ParseRoundScript sample_env (BuildPotScript (sample_key b)) = None"
    using kinds_exclusive [of sample_env "BuildPotScript (sample_key b)" PotRec RoundRec] ParsePot_Build [OF sample_good_key [of b]]
    by (cases "ParseRoundScript sample_env (BuildPotScript (sample_key b))") (auto simp: kind_accepts_def)
  then show "RoundFromTxOut sample_env (gold_out v (BuildPotScript (sample_key b))) = None" by (simp add: RoundFromTxOut_def)
  show "RoundFromTxOut E (gold_out v (payee_script k)) = None"
    by (simp add: RoundFromTxOut_def payee_script_Cons ParseRound_OP_0)
  show "RoundFromTxOut E (gold_out v [OP_TRUE]) = None" "ParsePotScript E [OP_TRUE] = None"
    by (simp_all add: RoundFromTxOut_def ParseRoundScript_def ParsePotScript_def expect_data_def GetScriptOp_def
        ROUND_MARKER_def POT_MARKER_def ascii_def)
qed

definition drain_round :: Work where
  "drain_round = new_Work\<lparr>w_asset := gold, w_round := handmade, in_value := 99000\<rparr>"

definition drain_pot :: Work where
  "drain_pot = new_Work\<lparr>w_asset := gold, w_fresh := True, w_round := (w_round new_Work)\<lparr>epoch := 2\<rparr>, in_value := 1000,
     w_pots := [COutPoint (replicate 32 2) 1]\<rparr>"

definition drain_in :: claim_in where
  "drain_in = \<lparr>ci_signer = Some (sample_key 1), ci_spent_rounds = fmupd (4, gold, replicate 32 9) drain_round fmempty,
     ci_fresh = fmupd (2, gold) drain_pot fmempty, ci_external = fmempty\<rparr>"

definition drain_fresh :: "(u32 \<times> CAsset, Work) fmap" where
  "drain_fresh = fmupd (2, gold) (fresh_round sample_env lent_pool (sample_key 1) drain_pot) fmempty"

lemma drain_inputs: "fold_steps (claim_in_step sample_env) (zip drain_spent (vin drain_tx)) claim_start = Inr drain_in"
  by (simp add: drain_spent_def drain_tx_def claim_in_step_def PosSplitV2Coin_def handmade_out gold_pot other_outs
      add_round_def add_pot_def one_pool_def Let_def pot_epoch_def drain_in_def drain_round_def drain_pot_def)
    (simp add: sample_env_def handmade_def fm_get_def new_Work_def)

lemma drain_repot: "fresh_round sample_env lent_pool (sample_key 1) drain_pot =
    drain_pot\<lparr>w_round := (w_round drain_pot)\<lparr>salt := PosRoundSalt [COutPoint (replicate 32 2) 1]\<rparr>, repot_only := True\<rparr>"
  by (simp add: fresh_round_def lent_participants round_start_def drain_pot_def new_Work_def Let_def sample_env_def)

lemma drain_news:
  "fold_steps (fresh_step sample_env lent_pool (sample_key 1)) (fm_entries (ci_fresh drain_in)) (ci_fresh drain_in) = Inr drain_fresh"
  by (simp add: drain_in_def fresh_step_def MoneyRange_def drain_fresh_def)
    (simp add: drain_pot_def sample_env_def new_Work_def)

lemma drain_outs:
  "fold_steps (claim_out_step sample_env (sample_key 1)) (enumerate 0 (vout drain_tx)) (outs_start drain_in drain_fresh drain_tx) =
    Inr (outs_start drain_in drain_fresh drain_tx)"
  by (simp add: drain_tx_def claim_out_step_def other_outs Let_def)

lemma bucket_one [simp]: "PosRoundBucket s k (Suc 0) = 0"
  using bucket_less [of 1 s k] by simp

lemma handmade_owed: "PosRoundBucketOwed sample_env lent_pool (sample_key 1) handmade 0 = fmupd (sample_key 2) 99000 fmempty"
proof -
  have "bucket_cut (sample_key 1) handmade (sample_key 2) 5 = 99000"
    using pot_cut_div [of 99000 5 5] by (simp add: bucket_cut_def handmade_def after_reserve_def)
  then show ?thesis by (simp add: PosRoundBucketOwed_def lent_participants round_start_def)
    (simp add: handmade_def sample_env_def)
qed

lemma drain_bucket: "work_bucket drain_round = Inr (0, True)"
  by (simp add: work_bucket_def drain_round_def new_Work_def handmade_def Unpaid_def IsPaid_def)

lemma drain_settled:
  "fold_steps (settle_step sample_env lent_pool (sample_key 1)) [drain_round, fresh_round sample_env lent_pool (sample_key 1) drain_pot]
     \<lparr>need_pot = fmempty, s_owed = fmempty\<rparr> =
   Inr \<lparr>need_pot = fmupd gold 0 fmempty, s_owed = fmupd (sample_key 2) (fmupd gold 99000 fmempty) fmempty\<rparr>"
proof -
  have "w_round drain_round = handmade" "in_value drain_round = 99000" "w_asset drain_round = gold" "\<not> repot_only drain_round"
    by (simp_all add: drain_round_def new_Work_def)
  then show ?thesis
    by (simp add: settle_step_def drain_bucket handmade_owed Let_def fm_total_def round_keep_def owed_plus_def fm_plus_def drain_repot)
      (simp add: drain_pot_def)
qed

lemma drain_accepted: "CheckPosPotClaimV2 sample_env lent_pool drain_tx drain_spent = None"
proof -
  let ?rs = "outs_start drain_in drain_fresh drain_tx"
  have ws: "map snd (fm_entries (rs_spent ?rs)) @ map snd (fm_entries (rs_fresh ?rs)) =
      [drain_round, fresh_round sample_env lent_pool (sample_key 1) drain_pot]"
    by (simp add: drain_in_def drain_fresh_def)
  have assets: "map w_asset [drain_round, fresh_round sample_env lent_pool (sample_key 1) drain_pot] = [gold, gold]"
    by (simp add: drain_repot) (simp add: drain_round_def drain_pot_def)
  have "claim_payments sample_env lent_pool (sample_key 1) drain_tx fmempty ?rs = None"
    unfolding claim_payments_def Let_def ws drain_settled assets
    by (simp add: check_need_def drain_tx_def pay_step_def payee_map_def Let_def check_exact_def check_paid_def check_cap_def
        owed_entries_def owed_get_def owed_plus_def is_owed_def withheld_def fm_plus_def payee_script_Cons)
  moreover have "ci_signer drain_in = Some (sample_key 1)" "ci_external drain_in = fmempty" by (simp_all add: drain_in_def)
  ultimately show ?thesis by (simp add: CheckPosPotClaimV2_def drain_inputs drain_news drain_outs)
qed

section \<open>Properties\<close>

text \<open>C10. A round can pay every bucket: however its claims are ordered and whatever they withhold within the
  rules, as long as delegators' weights only shrink, what the round still holds covers any bucket not
  paid yet; and every key falls in one of its buckets.\<close>

theorem round_covers_every_bucket:
  fixes E R0 signer w
  defines "m \<equiv> ParticipantsBefore R0 signer (round_start E (w_round w))"
  assumes "\<not> repot_only (fresh_round E R0 signer w)" "0 < in_value w" "in_value w < 2 ^ 63" "weight_sum m < 2 ^ 64"
    and "round_reach E signer m (w_round (fresh_round E R0 signer w)) r v"
    and "\<not> IsPaid r b" "weights_shrunk E signer m r R"
  shows "fm_total (PosRoundBucketOwed E R signer r b) \<le> v \<and>
    PosRoundBucket s k (PosRoundBucketCount p) < PosRoundBucketCount p"
proof
  note made = fresh_round_made [OF assms(2-4) assms(5) [unfolded m_def], folded m_def]
  show "fm_total (PosRoundBucketOwed E R signer r b) \<le> v"
    using reach_covers [OF assms(6) _ _ assms(7,8)] made by blast
  show "PosRoundBucket s k (PosRoundBucketCount p) < PosRoundBucketCount p"
    using bucket_count_bounds [of p] by (intro bucket_less) auto
qed

theorem round_covers_every_bucket_witness:
  "fm_total (PosRoundBucketOwed sample_env lent_pool (sample_key 1)
      (w_round (fresh_round sample_env lent_pool (sample_key 1) (drain_pot\<lparr>w_round := handmade, in_value := 100000\<rparr>))) 0) \<le> 100000"
proof -
  let ?w = "drain_pot\<lparr>w_round := handmade, in_value := 100000\<rparr>"
  let ?f = "fresh_round sample_env lent_pool (sample_key 1) ?w"
  have start: "round_start sample_env (w_round ?w) = 40" by (simp add: round_start_def handmade_def sample_env_def)
  have one: "PosRoundBucketCount (Suc 0) = 1" by (simp add: PosRoundBucketCount_def grow_buckets.simps)
  have f: "\<not> repot_only ?f" "distributable (w_round ?f) = 100000" "round_start sample_env (w_round ?f) = 40" "\<not> IsPaid (w_round ?f) 0"
    by (simp_all add: fresh_round_def lent_participants Let_def round_start_def drain_pot_def new_Work_def handmade_def fm_total_def
        IsPaid_def one sample_env_def)
  have "round_reach sample_env (sample_key 1) (ParticipantsBefore lent_pool (sample_key 1) 40) (w_round ?f) (w_round ?f) 100000"
    using round_reach.made [of sample_env "sample_key 1" "ParticipantsBefore lent_pool (sample_key 1) 40" "w_round ?f"] f(2) by simp
  moreover have "weights_shrunk sample_env (sample_key 1) (ParticipantsBefore lent_pool (sample_key 1) 40) (w_round ?f) lent_pool"
    by (simp add: weights_shrunk_def f(3) fm_get_def)
  ultimately show ?thesis
    using round_covers_every_bucket [of sample_env lent_pool "sample_key 1" ?w "w_round ?f" 100000 0 lent_pool] f(1,4)
    unfolding start by (simp add: lent_participants weight_sum_def)
qed

text \<open>C11. An accepted claim on rounds pays every delegator of the buckets it pays exactly what those buckets owe it, in
  each asset; no round pays more than it holds, and a round that continues keeps its value less what it
  paid and one part in 99 of that.\<close>

theorem round_claim_exact:
  assumes "CheckPosPotClaimV2 E R tx spent = None"
    and "fold_steps (claim_in_step E) (zip spent (vin tx)) claim_start = Inr ci" "ci_signer ci = Some signer"
    and "fold_steps (fresh_step E R signer) (fm_entries (ci_fresh ci)) (ci_fresh ci) = Inr fresh"
    and "fold_steps (claim_out_step E signer) (enumerate 0 (vout tx)) (outs_start ci fresh tx) = Inr rs"
  shows "(\<forall>w \<in> set (claim_works rs). work_settled E R signer w) \<and>
    (\<forall>w \<in> set (claim_works rs). \<forall>k. k |\<in>| fmdom (work_due E R signer w) \<longrightarrow>
       paid_at (vout tx) (payee_script k) (w_asset w) = works_owe E R signer (claim_works rs) k (w_asset w))"
proof -
  have "taken_ok (vout tx) (rs_taken rs)"
    by (rule claim_outs_taken [OF assms(5)]) (simp add: taken_ok_def)
  moreover have "claim_payments E R signer tx (ci_external ci) rs = None"
    using assms by (simp add: CheckPosPotClaimV2_def)
  ultimately show ?thesis by (intro accepted_payments)
qed

theorem round_claim_exact_witness:
  "CheckPosPotClaimV2 sample_env lent_pool drain_tx drain_spent = None \<and>
   paid_at (vout drain_tx) (payee_script (sample_key 2)) gold = 99000"
proof -
  have d: "work_due sample_env lent_pool (sample_key 1) drain_round = fmupd (sample_key 2) 99000 fmempty"
    unfolding work_due_def drain_bucket by (simp add: drain_round_def new_Work_def handmade_owed)
  have p: "work_due sample_env lent_pool (sample_key 1) (fresh_round sample_env lent_pool (sample_key 1) drain_pot) = fmempty"
    by (simp add: work_due_def drain_repot)
  have ws: "claim_works (outs_start drain_in drain_fresh drain_tx) = [drain_round, fresh_round sample_env lent_pool (sample_key 1) drain_pot]"
    by (simp add: claim_works_def drain_in_def drain_fresh_def)
  have a: "w_asset drain_round = gold" "ci_signer drain_in = Some (sample_key 1)"
    by (simp_all add: drain_round_def drain_in_def)
  have "works_owe sample_env lent_pool (sample_key 1) [drain_round, fresh_round sample_env lent_pool (sample_key 1) drain_pot]
      (sample_key 2) gold = 99000"
    by (simp add: works_owe_def d a p)
  then show ?thesis
    using round_claim_exact [OF drain_accepted drain_inputs a(2) drain_news drain_outs] drain_accepted
    unfolding ws by (simp add: d a)
qed

text \<open>C13. The rules do not keep every round's value apart: a round made by hand, which holds just what its bucket owes, lets a claim
  take the whole of a pot that nobody is owed anything from. The claim is accepted, its inputs and
  outputs balance, no pot is left and the pot's value goes to an output of the claimer.\<close>

theorem handmade_round_drains_pot:
  "CheckPosPotClaim sample_env lent_pool drain_tx drain_spent 50 = None \<and>
   out_sum (\<lambda>_. True) gold (live_outs drain_spent) = out_sum (\<lambda>_. True) gold (vout drain_tx) \<and>
   out_sum (\<lambda>out. PotFromTxOut sample_env out \<noteq> None) gold (live_outs drain_spent) = 1000 \<and>
   ParticipantsBefore lent_pool (sample_key 1) (round_start sample_env (w_round drain_pot)) = fmempty \<and>
   out_sum (is_repot sample_env) gold (vout drain_tx) = 0 \<and> paid_at (vout drain_tx) [OP_TRUE] gold = 1000"
proof -
  have "PotFromTxOut sample_env (gold_out 99000 (BuildRoundScript (sample_key 1) handmade)) = None"
  proof -
    have "kind_accepts sample_env (BuildRoundScript (sample_key 1) handmade) RoundRec"
      using handmade_out by (auto simp: kind_accepts_def RoundFromTxOut_def split: if_splits Option.bind_splits)
    then show ?thesis using kinds_exclusive [of sample_env "BuildRoundScript (sample_key 1) handmade" PotRec RoundRec]
      by (cases "ParsePotScript sample_env (BuildRoundScript (sample_key 1) handmade)") (auto simp: kind_accepts_def PotFromTxOut_def)
  qed
  moreover have "g_pos_records_v2_height sample_env = 20" "round_start sample_env (w_round drain_pot) = 20"
    by (simp_all add: sample_env_def round_start_def drain_pot_def new_Work_def)
  moreover from this(1) have "CheckPosPotClaim sample_env lent_pool drain_tx drain_spent 50 = None"
    using drain_accepted by (simp add: CheckPosPotClaim_def spends_second_generation_def drain_spent_def handmade_out PosSplitV2Coin_def)
  moreover have "is_repot sample_env (gold_out 99000 (payee_script (sample_key 2))) = False" by (simp add: is_repot_def)
  ultimately show ?thesis
    by (simp add: lent_participants) (simp add: drain_spent_def drain_tx_def gold_pot is_repot_def other_outs paid_at_def payee_script_Cons)
qed

end
