(* ===== verification/Timing.thy ===== *)
theory Timing
  imports Election
begin

text \<open>
  What a block takes from its ancestors (\<open>src/pos.cpp\<close>, \<open>src/pos.h\<close>): the election seed and the seed of the
  payout draw, the test for a stalled chain, the rules on the time of a proposal, and the checkpoints that an
  operator configures. A block index is a chain of entries through \<open>pprev\<close>; a null pointer is \<open>None\<close>.
\<close>

section \<open>Block index and seeds\<close>

datatype CBlockIndex = CBlockIndex
  (bi_height: int) (bi_time: u32) (m_anchor_hash: uint256) (m_anchor_height: u32) (pprev: "CBlockIndex option")

definition PosSeedForChild :: "CBlockIndex option \<Rightarrow> uint256" where
  "PosSeedForChild pindexPrev =
     (case pindexPrev of None \<Rightarrow> uint256_zero
      | Some prev \<Rightarrow> ComputePosSeed (m_anchor_hash prev) (word_of_int (bi_height prev + 1)))"

definition PosPayoutSeedForChild :: "pos_env \<Rightarrow> CBlockIndex option \<Rightarrow> uint256" where
  "PosPayoutSeedForChild E pindexPrev =
     (case pindexPrev of None \<Rightarrow> uint256_zero
      | Some prev \<Rightarrow>
          let height = bi_height prev + 1
          in if g_pos_hardening_height E \<le> 0 \<or> height < g_pos_hardening_height E \<or> height < 3
             then PosSeedForChild pindexPrev
             else (case (case pprev prev of None \<Rightarrow> None | Some parent \<Rightarrow> pprev parent) of
                 None \<Rightarrow> PosSeedForChild pindexPrev
               | Some source \<Rightarrow>
                   HashWriter_GetSHA256 (CSHA256_Write (CSHA256_Write (CSHA256_Write CSHA256
                     (ser_string ''SEQPAYSEED'')) (m_anchor_hash source)) (WriteLE32 (word_of_int height)))))"

section \<open>Stalls and proposals\<close>

abbreviation POS_ESCAPING_STALL_ANCHOR_GAP :: u32 where "POS_ESCAPING_STALL_ANCHOR_GAP \<equiv> 3"

definition PosEscapingStallAllowed :: "u32 \<Rightarrow> u32 \<Rightarrow> bool" where
  "PosEscapingStallAllowed parent_anchor_height block_anchor_height \<longleftrightarrow>
     block_anchor_height \<ge> parent_anchor_height \<and>
     block_anchor_height - parent_anchor_height \<ge> POS_ESCAPING_STALL_ANCHOR_GAP"

abbreviation POS_PROPOSAL_AHEAD_SECONDS :: int where "POS_PROPOSAL_AHEAD_SECONDS \<equiv> 300"
abbreviation POS_CLOCK_AGREEMENT_SECONDS :: int where "POS_CLOCK_AGREEMENT_SECONDS \<equiv> 60"
abbreviation POS_PARENT_AHEAD_SLACK_SECONDS :: int where "POS_PARENT_AHEAD_SLACK_SECONDS \<equiv> 5"

definition PosClockAgreesWithPeers :: "int option \<Rightarrow> bool" where
  "PosClockAgreesWithPeers peer_offset =
     (case peer_offset of None \<Rightarrow> False
      | Some d \<Rightarrow> d \<ge> - POS_CLOCK_AGREEMENT_SECONDS \<and> d \<le> POS_CLOCK_AGREEMENT_SECONDS)"

definition PosProposalTooFarAhead :: "int \<Rightarrow> int \<Rightarrow> int \<Rightarrow> bool \<Rightarrow> bool" where
  "PosProposalTooFarAhead stamp consensus_min now clock_trusted =
     (if \<not> clock_trusted then False else stamp > max (now + POS_PROPOSAL_AHEAD_SECONDS) consensus_min)"

definition PosProposalStartMs :: "int \<Rightarrow> int \<Rightarrow> int \<Rightarrow> int \<Rightarrow> int" where
  "PosProposalStartMs parent_time earliest_sec parent_seen_ms now_ms =
     (if parent_time * 1000 \<le> now_ms + POS_PARENT_AHEAD_SLACK_SECONDS * 1000 then earliest_sec * 1000
      else parent_seen_ms + max 0 (earliest_sec - parent_time) * 1000)"

section \<open>Configured checkpoints\<close>

definition ClearConfiguredPosCheckpoints :: "(int, uint256) fmap" where
  "ClearConfiguredPosCheckpoints = fmempty"

definition AddConfiguredPosCheckpoint :: "int \<Rightarrow> uint256 \<Rightarrow> (int, uint256) fmap \<Rightarrow> string + (int, uint256) fmap" where
  "AddConfiguredPosCheckpoint height hash cps =
     (if height < 0 then Inl ''checkpoint height must be non-negative''
      else case fmlookup cps height of
          Some h \<Rightarrow> if h \<noteq> hash then Inl ''conflicting checkpoint'' else Inr (fmupd height hash cps)
        | None \<Rightarrow> Inr (fmupd height hash cps))"

definition GetConfiguredPosCheckpoints :: "(int, uint256) fmap \<Rightarrow> (int, uint256) fmap" where
  "GetConfiguredPosCheckpoints cps = cps"

lemma checkpoint_kept:
  "AddConfiguredPosCheckpoint height hash cps = Inr cps' \<Longrightarrow>
   fmlookup cps' height = Some hash \<and> (fmlookup cps k = Some h \<longrightarrow> fmlookup cps' k = Some h)"
  by (auto simp: AddConfiguredPosCheckpoint_def split: if_splits option.splits)

lemma proposal_not_stricter: "stamp \<le> consensus_min \<Longrightarrow> \<not> PosProposalTooFarAhead stamp consensus_min now trusted"
  by (simp add: PosProposalTooFarAhead_def)

lemma escaping_stall_exact:
  "PosEscapingStallAllowed parent_height block_height \<longleftrightarrow> unat parent_height + 3 \<le> unat block_height"
  by (auto simp: PosEscapingStallAllowed_def word_le_nat_alt unat_sub)

section \<open>Properties\<close>

text \<open>From the hardening height the payout draw is fixed three blocks before: neither the anchor nor any other
  field of the two blocks below the drawn one can change its seed.\<close>

theorem payout_seed_fixed_before:
  assumes "0 < g_pos_hardening_height E" "g_pos_hardening_height E \<le> h + 1" "2 \<le> h" "m_anchor_hash source = m_anchor_hash source'"
  shows "PosPayoutSeedForChild E (Some (CBlockIndex h t1 a1 b1 (Some (CBlockIndex h2 t2 a2 b2 (Some source))))) =
    PosPayoutSeedForChild E (Some (CBlockIndex h t1' a1' b1' (Some (CBlockIndex h2' t2' a2' b2' (Some source')))))"
  using assms by (simp add: PosPayoutSeedForChild_def)

theorem payout_seed_fixed_before_witness:
  "PosPayoutSeedForChild sample_env (Some (CBlockIndex 20 7 (replicate 32 1) 5 (Some (CBlockIndex 19 6 (replicate 32 2) 4
       (Some (CBlockIndex 18 5 (replicate 32 3) 3 None)))))) =
   PosPayoutSeedForChild sample_env (Some (CBlockIndex 20 8 (replicate 32 4) 6 (Some (CBlockIndex 19 7 (replicate 32 5) 5
       (Some (CBlockIndex 18 5 (replicate 32 3) 3 None))))))"
  by (rule payout_seed_fixed_before) (simp_all add: sample_env_def)

end
