(* ===== verification/Layers.thy ===== *)
theory Layers
  imports StakeRegistry
begin

text \<open>
  What the incremental maintenance of the registry rests on. \<open>reversible_layer\<close> is the
  contract of a pair of operations that add and remove one record: an admissible addition
  keeps the invariant and is undone by the removal, and two admissible additions commute.
  From it follow, once, that a set of records has one state whatever the order they were added
  in, and that removing some of them leaves the state of the rest. The two interpretations are
  the staking and pot records, and the delegation and payout records.
\<close>

section \<open>The contract\<close>

locale reversible_layer =
  fixes add sub :: "'op \<Rightarrow> 's \<Rightarrow> 's"
    and fits :: "'op \<Rightarrow> 's \<Rightarrow> bool"
    and inv :: "'s \<Rightarrow> bool"
  assumes inv_add: "inv s \<Longrightarrow> fits c s \<Longrightarrow> inv (add c s)"
    and sub_add: "inv s \<Longrightarrow> fits c s \<Longrightarrow> sub c (add c s) = s"
    and fits_swap: "inv s \<Longrightarrow> fits c s \<Longrightarrow> fits d (add c s) \<Longrightarrow> fits d s \<and> fits c (add d s)"
    and add_swap: "inv s \<Longrightarrow> fits c s \<Longrightarrow> fits d (add c s) \<Longrightarrow> add d (add c s) = add c (add d s)"
begin

fun fits_all :: "'op list \<Rightarrow> 's \<Rightarrow> bool" where
  "fits_all [] s = True"
| "fits_all (c # cs) s = (fits c s \<and> fits_all cs (add c s))"

lemma fits_all_append: "fits_all (cs @ ds) s \<longleftrightarrow> fits_all cs s \<and> fits_all ds (fold add cs s)"
  by (induction cs arbitrary: s) auto

lemma inv_adds: "inv s \<Longrightarrow> fits_all cs s \<Longrightarrow> inv (fold add cs s)"
  by (induction cs arbitrary: s) (auto intro: inv_add)

text \<open>An operation in the list may be taken first.\<close>

lemma fits_all_front:
  "inv s \<Longrightarrow> fits_all (cs @ c # ds) s \<Longrightarrow>
   fits_all (c # cs @ ds) s \<and> fold add (c # cs @ ds) s = fold add (cs @ c # ds) s"
proof (induction cs arbitrary: s)
  case (Cons b cs)
  then have b: "fits b s" and rest: "fits_all (cs @ c # ds) (add b s)" by auto
  have "inv (add b s)" using Cons.prems(1) b by (rule inv_add)
  from Cons.IH [OF this rest]
  have IH: "fits c (add b s)" "fits_all (cs @ ds) (add c (add b s))"
    "fold add (cs @ ds) (add c (add b s)) = fold add (cs @ c # ds) (add b s)" by auto
  have swap: "fits c s" "fits b (add c s)" "add c (add b s) = add b (add c s)"
    using fits_swap [OF Cons.prems(1) b IH(1)] add_swap [OF Cons.prems(1) b IH(1)] by auto
  then show ?case using IH by auto
qed simp

lemma fits_all_perm:
  "inv s \<Longrightarrow> fits_all cs s \<Longrightarrow> mset ds = mset cs \<Longrightarrow> fits_all ds s \<and> fold add ds s = fold add cs s"
proof (induction ds arbitrary: s cs)
  case (Cons d ds)
  have "d \<in> set cs" using Cons.prems(3) by (metis list.set_intros(1) set_mset_mset)
  then obtain as bs where cs: "cs = as @ d # bs" by (auto simp: in_set_conv_decomp)
  have front: "fits_all (d # as @ bs) s" "fold add (d # as @ bs) s = fold add cs s"
    using fits_all_front [OF Cons.prems(1)] Cons.prems(2) cs by auto
  have "mset ds = mset (as @ bs)" using Cons.prems(3) cs by simp
  moreover have "inv (add d s)" "fits_all (as @ bs) (add d s)"
    using front(1) Cons.prems(1) by (auto intro: inv_add)
  ultimately show ?case using Cons.IH front by auto
qed simp

text \<open>Removing records that are present leaves the state of the others.\<close>

lemma sub_present:
  assumes "inv s" "fits_all cs s" "mset cs = add_mset d (mset es)"
  shows "fits_all es s" and "sub d (fold add cs s) = fold add es s"
proof -
  have "mset (es @ [d]) = mset cs" using assms(3) by simp
  from fits_all_perm [OF assms(1,2) this]
  have es: "fits_all es s" "fits d (fold add es s)" and eq: "fold add cs s = add d (fold add es s)"
    by (simp_all add: fits_all_append)
  then show "fits_all es s" "sub d (fold add cs s) = fold add es s"
    using sub_add [OF inv_adds [OF assms(1) es(1)] es(2)] by simp_all
qed

lemma subs_present:
  assumes "inv s" "fits_all cs s" "mset cs = mset ds + mset es"
  shows "fits_all es s \<and> fold sub ds (fold add cs s) = fold add es s"
  using assms(2,3)
proof (induction ds arbitrary: cs)
  case Nil
  then show ?case using fits_all_perm [OF assms(1) Nil(1), of es] by simp
next
  case (Cons d ds)
  have "mset cs = add_mset d (mset (ds @ es))" using Cons.prems(2) by simp
  from sub_present [OF assms(1) Cons.prems(1) this]
  have "fits_all (ds @ es) s" "sub d (fold add cs s) = fold add (ds @ es) s" .
  with Cons.IH [of "ds @ es"] show ?case by simp
qed

text \<open>All additions and then all removals: the state of what is left. And the inverse: what was
  removed is added back, what was added is removed.\<close>

lemma add_then_sub:
  assumes "inv s" "fits_all (us @ cs) s" "mset us + mset cs = mset ds + mset vs"
  shows "fits_all vs s" "fold sub ds (fold add cs (fold add us s)) = fold add vs s"
  using subs_present [OF assms(1,2), of ds vs] assms(3) by simp_all

lemma readd_then_sub:
  assumes "inv s" "fits_all (us @ cs) s" "mset us + mset cs = mset ds + mset vs"
  shows "fold sub cs (fold add ds (fold add vs s)) = fold add us s"
proof -
  have "fold add ds (fold add vs s) = fold add (us @ cs) s"
    using fits_all_perm [OF assms(1,2), of "vs @ ds"] assms(3) by (simp add: add.commute)
  moreover have "fold sub cs (fold add (us @ cs) s) = fold add us s"
    using subs_present [OF assms(1,2), of cs us] by (simp add: add.commute)
  ultimately show ?thesis by simp
qed

text \<open>One transaction at a time: removals before additions. The inverse removes what was added
  and restores what was removed.\<close>

lemma sub_then_add:
  assumes "inv s" "fits_all us s" "mset us = mset ds + mset ws" "fits_all cs (fold add ws s)"
  shows "fits_all (ws @ cs) s" "fold add cs (fold sub ds (fold add us s)) = fold add (ws @ cs) s"
    "fold add ds (fold sub cs (fold add (ws @ cs) s)) = fold add us s"
proof -
  have ws: "fits_all ws s" "fold sub ds (fold add us s) = fold add ws s"
    using subs_present [OF assms(1-3)] by simp_all
  then show all: "fits_all (ws @ cs) s" using assms(4) by (simp add: fits_all_append)
  show "fold add cs (fold sub ds (fold add us s)) = fold add (ws @ cs) s" using ws by simp
  have "fold sub cs (fold add (ws @ cs) s) = fold add ws s"
    using subs_present [OF assms(1) all, of cs ws] by (simp add: add.commute)
  moreover have "fold add (ws @ ds) s = fold add us s"
    using fits_all_perm [OF assms(1,2), of "ws @ ds"] assms(3) by (simp add: add.commute)
  ultimately show "fold add ds (fold sub cs (fold add (ws @ cs) s)) = fold add us s" by simp
qed

end

section \<open>Maps of counters and of maps\<close>

definition fm_minus :: "'k \<Rightarrow> u64 \<Rightarrow> ('k, u64) fmap \<Rightarrow> ('k, u64) fmap" where
  "fm_minus k a m = (case fmlookup m k of None \<Rightarrow> m
     | Some b \<Rightarrow> let b = (if b \<ge> a then b - a else 0) in if b = 0 then fmdrop k m else fmupd k b m)"

definition tr_plus :: "'k \<Rightarrow> 'h \<Rightarrow> u64 \<Rightarrow> ('k, ('h, u64) fmap) fmap \<Rightarrow> ('k, ('h, u64) fmap) fmap" where
  "tr_plus k h a T = fmupd k (fm_plus h a (fm_get fmempty T k)) T"

lemma fm_plus_commute: "fm_plus k v (fm_plus j w m) = fm_plus j w (fm_plus k v m)"
  for v :: "'v::comm_monoid_add"
  by (rule fmap_ext) (simp add: fmlookup_fm_plus add.commute add.left_commute)

lemma tr_plus_commute: "tr_plus k h a (tr_plus j i b T) = tr_plus j i b (tr_plus k h a T)"
  by (rule fmap_ext) (simp add: tr_plus_def fm_plus_commute)

lemma fmupd_id: "fmlookup m k = Some v \<Longrightarrow> fmupd k v m = m"
  by (rule fmap_ext) auto

lemma fmdrop_upd: "fmlookup m k = None \<Longrightarrow> fmdrop k (fmupd k v m) = m"
  by (rule fmap_ext) auto

lemma fmdrop_id: "fmlookup m k = None \<Longrightarrow> fmdrop k m = m"
  by (rule fmap_ext) auto

lemma fmupd_upd [simp]: "fmupd k v (fmupd k w m) = fmupd k v m"
  by (rule fmap_ext) auto

lemma no_wrap: "unat b + unat a < 2 ^ 64 \<Longrightarrow> unat (b + a) = unat b + unat a" for a b :: u64
  by (simp add: unat_word_ariths)

lemma fm_minus_plus:
  assumes "a \<noteq> 0" "fmlookup m k \<noteq> Some 0" "unat (fm_get 0 m k) + unat a < 2 ^ 64"
  shows "fm_minus k a (fm_plus k a m) = m"
proof -
  have "a \<le> fm_get 0 m k + a" using no_wrap [OF assms(3)] by (simp add: word_le_nat_alt)
  then show ?thesis using assms
    by (cases "fmlookup m k") (auto simp: fm_minus_def fmlookup_fm_plus fm_plus_def fm_get_def fmdrop_upd fmupd_id)
qed

section \<open>Effect of the operations on each layer\<close>

lemma sub_tranche_minus:
  "sub_tranche pk a h T = (case fmlookup T pk of None \<Rightarrow> T
     | Some t \<Rightarrow> if fm_minus h a t = fmempty then fmdrop pk T else fmupd pk (fm_minus h a t) T)"
  by (simp add: sub_tranche_def fm_minus_def Let_def split: option.split)

lemma AddUtxoStake_simps [registry_simps]:
  "m_utxo (AddUtxoStake pk a b h R) = fm_plus pk a (m_utxo R)"
  "m_utxo_tranches (AddUtxoStake pk a b h R) = tr_plus pk h a (m_utxo_tranches R)"
  "m_bls_utxo (AddUtxoStake pk a b h R) = (if b \<noteq> [] then fmupd pk b (m_bls_utxo R) else m_bls_utxo R)"
  "m_bls_utxo_outputs (AddUtxoStake pk a b h R) =
     (if b \<noteq> [] then fm_plus pk 1 (m_bls_utxo_outputs R) else m_bls_utxo_outputs R)"
  "m_config (AddUtxoStake pk a b h R) = m_config R" "m_bls (AddUtxoStake pk a b h R) = m_bls R"
  "m_deleg_utxo (AddUtxoStake pk a b h R) = m_deleg_utxo R"
  "m_deleg_height (AddUtxoStake pk a b h R) = m_deleg_height R"
  "m_payout_utxo (AddUtxoStake pk a b h R) = m_payout_utxo R"
  "m_pot_utxo (AddUtxoStake pk a b h R) = m_pot_utxo R"
  by (simp_all add: AddUtxoStake_def Let_def tr_plus_def)

lemma AddUtxoPot_simps [registry_simps]:
  "m_pot_utxo (AddUtxoPot s out a v h c r R) = fmupd s (fmupd out
     \<lparr>pr_asset = a, pr_value = v, pr_height = h, pr_coinbase = c, pr_round = r\<rparr>
     (fm_get fmempty (m_pot_utxo R) s)) (m_pot_utxo R)"
  "m_utxo (AddUtxoPot s out a v h c r R) = m_utxo R"
  "m_utxo_tranches (AddUtxoPot s out a v h c r R) = m_utxo_tranches R"
  "m_bls_utxo (AddUtxoPot s out a v h c r R) = m_bls_utxo R"
  "m_bls_utxo_outputs (AddUtxoPot s out a v h c r R) = m_bls_utxo_outputs R"
  "m_config (AddUtxoPot s out a v h c r R) = m_config R" "m_bls (AddUtxoPot s out a v h c r R) = m_bls R"
  "m_deleg_utxo (AddUtxoPot s out a v h c r R) = m_deleg_utxo R"
  "m_deleg_height (AddUtxoPot s out a v h c r R) = m_deleg_height R"
  "m_payout_utxo (AddUtxoPot s out a v h c r R) = m_payout_utxo R"
  by (simp_all add: AddUtxoPot_def)

section \<open>Staking and pot records\<close>

datatype sp_op = SpNone | SpStake CPubKey u64 bytes int
  | SpPot CPubKey COutPoint CAsset int int bool "PosRound option"

fun sp_add :: "sp_op \<Rightarrow> StakeRegistry \<Rightarrow> StakeRegistry" where
  "sp_add SpNone R = R"
| "sp_add (SpStake pk a b h) R = AddUtxoStake pk a b h R"
| "sp_add (SpPot s out a v h c r) R = AddUtxoPot s out a v h c r R"

fun sp_sub :: "sp_op \<Rightarrow> StakeRegistry \<Rightarrow> StakeRegistry" where
  "sp_sub SpNone R = R"
| "sp_sub (SpStake pk a b h) R = SubUtxoStake pk a h (b \<noteq> []) R"
| "sp_sub (SpPot s out a v h c r) R = SubUtxoPot s out R"

text \<open>An addition is admissible when the weight of the staker stays a 64-bit number, when the
  output registers no second BLS key for the staker, and when the pot is new.\<close>

fun sp_fits :: "sp_op \<Rightarrow> StakeRegistry \<Rightarrow> bool" where
  "sp_fits SpNone R = True"
| "sp_fits (SpStake pk a b h) R =
     (a \<noteq> 0 \<and> unat (fm_get 0 (m_utxo R) pk) + unat a < 2 ^ 64 \<and>
      (b \<noteq> [] \<longrightarrow> fm_get b (m_bls_utxo R) pk = b \<and> unat (fm_get 0 (m_bls_utxo_outputs R) pk) + 1 < 2 ^ 32))"
| "sp_fits (SpPot s out a v h c r) R = (fmlookup (fm_get fmempty (m_pot_utxo R) s) out = None)"

text \<open>No zero weight, no empty or zero tranche, none above the weight of its staker; a BLS key
  exactly where outputs are counted, and only for stakers with weight; no empty set of pots;
  tranches for the stakers with weight.\<close>

definition sp_inv :: "StakeRegistry \<Rightarrow> bool" where
  "sp_inv R \<longleftrightarrow>
     (\<forall>pk. fmlookup (m_utxo R) pk \<noteq> Some 0) \<and>
     (\<forall>pk t. fmlookup (m_utxo_tranches R) pk = Some t \<longrightarrow> t \<noteq> fmempty \<and>
        (\<forall>h b. fmlookup t h = Some b \<longrightarrow> b \<noteq> 0 \<and> b \<le> fm_get 0 (m_utxo R) pk)) \<and>
     (\<forall>pk. fmlookup (m_bls_utxo_outputs R) pk \<noteq> Some 0) \<and>
     fmdom (m_bls_utxo R) = fmdom (m_bls_utxo_outputs R) \<and> fmdom (m_bls_utxo R) |\<subseteq>| fmdom (m_utxo R) \<and>
     (\<forall>s m. fmlookup (m_pot_utxo R) s = Some m \<longrightarrow> m \<noteq> fmempty) \<and>
     fmdom (m_utxo_tranches R) = fmdom (m_utxo R)"


lemma stake_fits_swap:
  assumes "sp_fits (SpStake pk a b h) R" "sp_fits (SpStake pk' a' b' h') (AddUtxoStake pk a b h R)"
  shows "sp_fits (SpStake pk' a' b' h') R \<and> sp_fits (SpStake pk a b h) (AddUtxoStake pk' a' b' h' R)"
proof (cases "pk = pk'")
  case False
  then show ?thesis using assms by (cases "b = []"; cases "b' = []") (simp_all add: registry_simps)
next
  case True
  let ?w = "unat (fm_get 0 (m_utxo R) pk)"
  have w: "unat (fm_get 0 (m_utxo R) pk + a) = ?w + unat a" using assms(1) by (intro no_wrap) simp
  then have sum: "?w + unat a + unat a' < 2 ^ 64" using assms(2) True by (simp add: registry_simps)
  then have w': "unat (fm_get 0 (m_utxo R) pk + a') = ?w + unat a'" by (intro no_wrap) simp
  show ?thesis
  proof (cases "b = [] \<or> b' = []")
    case True
    then show ?thesis using assms sum w' \<open>pk = pk'\<close> by (auto simp: registry_simps)
  next
    case False
    then have "b = b'" using assms(2) True by (simp add: registry_simps)
    then show ?thesis using assms sum w' False True
      by (auto simp: registry_simps unat_word_ariths)
  qed
qed

lemma sp_fits_swap: "sp_fits c R \<Longrightarrow> sp_fits d (sp_add c R) \<Longrightarrow> sp_fits d R \<and> sp_fits c (sp_add d R)"
proof (cases c; cases d)
  fix pk a b h pk' a' b' h'
  assume "c = SpStake pk a b h" "d = SpStake pk' a' b' h'" "sp_fits c R" "sp_fits d (sp_add c R)"
  then show ?thesis using stake_fits_swap [of pk a b h R pk' a' b' h'] by simp
next
  fix s out a v h cb r s' out' a' v' h' cb' r'
  assume "c = SpPot s out a v h cb r" "d = SpPot s' out' a' v' h' cb' r'" "sp_fits c R" "sp_fits d (sp_add c R)"
  then show ?thesis by (cases "s = s'") (auto simp: registry_simps split: if_splits)
qed (simp_all add: registry_simps)

lemma fmupd_swap: "k \<noteq> j \<or> v = w \<Longrightarrow> fmupd k v (fmupd j w m) = fmupd j w (fmupd k v m)"
  by (rule fmap_ext) auto

lemma pot_swap:
  assumes "s \<noteq> s' \<or> out \<noteq> out'"
  shows "AddUtxoPot s' out' a' v' h' c' r' (AddUtxoPot s out a v h c r R) =
    AddUtxoPot s out a v h c r (AddUtxoPot s' out' a' v' h' c' r' R)"
  using assms by (cases "s = s'") (auto simp: AddUtxoPot_def fmupd_swap)

lemma stake_swap:
  assumes "sp_fits (SpStake pk' a' b' h') (AddUtxoStake pk a b h R)"
  shows "AddUtxoStake pk' a' b' h' (AddUtxoStake pk a b h R) = AddUtxoStake pk a b h (AddUtxoStake pk' a' b' h' R)"
proof (rule StakeRegistry.equality)
  have "pk \<noteq> pk' \<or> b = b'" if "b \<noteq> []" "b' \<noteq> []" using assms that by (auto simp: registry_simps)
  then show "m_bls_utxo (AddUtxoStake pk' a' b' h' (AddUtxoStake pk a b h R)) =
      m_bls_utxo (AddUtxoStake pk a b h (AddUtxoStake pk' a' b' h' R))"
    using fmupd_swap [of pk pk' b b'] by (auto simp: registry_simps)
qed (simp_all add: registry_simps fm_plus_commute [of pk'] tr_plus_commute [of pk'])

lemma stake_pot_swap:
  "AddUtxoStake pk a b h (AddUtxoPot s out x v i c r R) = AddUtxoPot s out x v i c r (AddUtxoStake pk a b h R)"
  by (rule StakeRegistry.equality) (simp_all add: registry_simps)

lemma sp_add_swap: "sp_fits c R \<Longrightarrow> sp_fits d (sp_add c R) \<Longrightarrow> sp_add d (sp_add c R) = sp_add c (sp_add d R)"
proof (cases c; cases d)
  fix pk a b h pk' a' b' h'
  assume "c = SpStake pk a b h" "d = SpStake pk' a' b' h'" "sp_fits d (sp_add c R)"
  then show ?thesis using stake_swap [of pk' a' b' h' pk a b h R] by simp
next
  fix s out a v h cb r s' out' a' v' h' cb' r'
  assume "c = SpPot s out a v h cb r" "d = SpPot s' out' a' v' h' cb' r'" "sp_fits d (sp_add c R)"
  then have "s \<noteq> s' \<or> out \<noteq> out'" by (auto simp: registry_simps)
  then show ?thesis using \<open>c = _\<close> \<open>d = _\<close> by (simp only: sp_add.simps) (rule pot_swap)
qed (simp_all add: stake_pot_swap)

text \<open>The removal undoes the addition on every layer.\<close>

lemma tranche_undo:
  assumes "a \<noteq> 0" "unat w + unat a < 2 ^ 64"
    and "\<And>t. fmlookup T pk = Some t \<Longrightarrow> t \<noteq> fmempty \<and> (\<forall>i b. fmlookup t i = Some b \<longrightarrow> b \<noteq> 0 \<and> b \<le> w)"
  shows "sub_tranche pk a h (tr_plus pk h a T) = T"
proof -
  let ?t = "fm_get fmempty T pk"
  have "fmlookup ?t h \<noteq> Some 0" and le: "fm_get 0 ?t h \<le> w"
    using assms(3) by (auto simp: fm_get_def split: option.splits)
  moreover have "unat (fm_get 0 ?t h) + unat a < 2 ^ 64" using le assms(2) by (simp add: word_le_nat_alt)
  ultimately have "fm_minus h a (fm_plus h a ?t) = ?t" using assms(1) by (intro fm_minus_plus)
  then show ?thesis using assms(3)
    by (cases "fmlookup T pk") (auto simp: sub_tranche_minus tr_plus_def fm_get_def fmdrop_upd fmupd_id)
qed

lemma bls_undo:
  assumes "fmlookup N pk \<noteq> Some 0" "fmdom B = fmdom N" "fm_get b B pk = b"
    and Q: "m_bls_utxo Q = fmupd pk b B" "m_bls_utxo_outputs Q = fm_plus pk 1 N"
  shows "drop_bls_output pk Q = Q\<lparr>m_bls_utxo := B, m_bls_utxo_outputs := N\<rparr>"
proof (cases "fmlookup N pk")
  case None
  then have "fmlookup B pk = None" using assms(2) by (metis fmdom_notD fmdom_notI)
  then show ?thesis using None Q
    by (simp add: drop_bls_output_def fmlookup_fm_plus fm_plus_def fm_get_def fmdrop_upd)
next
  case (Some n)
  then obtain b' where "fmlookup B pk = Some b'" using assms(2) by (metis fmdomE fmdomI)
  then have b: "fmlookup B pk = Some b" using assms(3) by (simp add: fm_get_def)
  then show ?thesis using Some assms(1) Q
    by (simp add: drop_bls_output_def fmlookup_fm_plus fm_plus_def fm_get_def fmupd_id)
qed

lemma stake_bls_undo:
  assumes "sp_inv R" "sp_fits (SpStake pk a b h) R"
  shows "(if b \<noteq> [] then drop_bls_output pk else id)
      ((AddUtxoStake pk a b h R)\<lparr>m_utxo := u, m_utxo_tranches := m_utxo_tranches R\<rparr>) = R\<lparr>m_utxo := u\<rparr>"
proof (cases "b = []")
  case True
  then show ?thesis by (simp add: AddUtxoStake_def)
next
  case False
  let ?Q = "(AddUtxoStake pk a b h R)\<lparr>m_utxo := u, m_utxo_tranches := m_utxo_tranches R\<rparr>"
  have "drop_bls_output pk ?Q = ?Q\<lparr>m_bls_utxo := m_bls_utxo R, m_bls_utxo_outputs := m_bls_utxo_outputs R\<rparr>"
    using assms False by (intro bls_undo [of _ _ _ b]) (auto simp: sp_inv_def registry_simps)
  also have "\<dots> = R\<lparr>m_utxo := u\<rparr>" by (rule StakeRegistry.equality) (simp_all add: registry_simps)
  finally show ?thesis using False by simp
qed

lemma stake_undo:
  assumes inv: "sp_inv R" and fits: "sp_fits (SpStake pk a b h) R"
  shows "SubUtxoStake pk a h (b \<noteq> []) (AddUtxoStake pk a b h R) = R"
proof -
  let ?w = "fm_get 0 (m_utxo R) pk"
  have "\<not> ?w + a < a" using no_wrap [of ?w a] fits by (simp add: word_less_nat_alt)
  moreover have "fmlookup (m_utxo (AddUtxoStake pk a b h R)) pk = Some (?w + a)"
    by (simp add: registry_simps fmlookup_fm_plus)
  moreover have tr: "sub_tranche pk a h (tr_plus pk h a (m_utxo_tranches R)) = m_utxo_tranches R"
    using inv fits by (intro tranche_undo [of a ?w]) (auto simp: sp_inv_def)
  moreover note stake_bls_undo [OF inv fits, of "fmupd pk ?w (fm_plus pk a (m_utxo R))"]
  ultimately have eq: "SubUtxoStake pk a h (b \<noteq> []) (AddUtxoStake pk a b h R) =
      (let R' = R\<lparr>m_utxo := fmupd pk ?w (m_utxo R)\<rparr> in if ?w = 0
       then R'\<lparr>m_utxo := fmdrop pk (m_utxo R'), m_bls_utxo := fmdrop pk (m_bls_utxo R'),
               m_bls_utxo_outputs := fmdrop pk (m_bls_utxo_outputs R')\<rparr> else R')"
    unfolding SubUtxoStake_def by (auto simp: registry_simps Let_def fm_plus_def)
  show ?thesis
  proof (cases "fmlookup (m_utxo R) pk")
    case None
    then have "fmlookup (m_bls_utxo R) pk = None" "fmlookup (m_bls_utxo_outputs R) pk = None"
      using inv by (auto simp: sp_inv_def) (metis fmdom_notD fmdom_notI fsubsetD)+
    then show ?thesis using None by (simp add: eq fm_get_def fmdrop_upd fmdrop_id)
  next
    case (Some w)
    then show ?thesis using inv by (auto simp: eq fm_get_def fmupd_id sp_inv_def)
  qed
qed

lemma pot_undo:
  assumes "sp_inv R" "sp_fits (SpPot s out a v h c r) R"
  shows "SubUtxoPot s out (AddUtxoPot s out a v h c r R) = R"
proof (cases "fmlookup (m_pot_utxo R) s")
  case None
  then show ?thesis
    by (intro StakeRegistry.equality) (simp_all add: SubUtxoPot_def AddUtxoPot_def fm_get_def fmdrop_upd)
next
  case (Some m)
  then have "m \<noteq> fmempty" "fmlookup m out = None" using assms by (auto simp: sp_inv_def fm_get_def)
  then show ?thesis using Some
    by (intro StakeRegistry.equality) (simp_all add: SubUtxoPot_def AddUtxoPot_def fm_get_def fmdrop_upd fmupd_id)
qed

lemma tranche_bound:
  assumes inv: "sp_inv R" and a: "a \<noteq> 0" "unat (fm_get 0 (m_utxo R) pk) + unat a < 2 ^ 64"
    and t: "fmlookup (tr_plus pk h a (m_utxo_tranches R)) k = Some t"
  shows "t \<noteq> fmempty \<and> (\<forall>i b. fmlookup t i = Some b \<longrightarrow> b \<noteq> 0 \<and> b \<le> fm_get 0 (fm_plus pk a (m_utxo R)) k)"
proof (cases "k = pk")
  case False
  then show ?thesis using inv t by (auto simp: tr_plus_def sp_inv_def)
next
  case True
  let ?w = "fm_get 0 (m_utxo R) pk" and ?t = "fm_get fmempty (m_utxo_tranches R) pk"
  have t': "t = fm_plus h a ?t" using t True by (simp add: tr_plus_def)
  have w: "unat (?w + a) = unat ?w + unat a" using a(2) by (rule no_wrap)
  have old: "b \<noteq> 0 \<and> b \<le> ?w" if "fmlookup ?t i = Some b" for i b
    using inv that by (auto simp: sp_inv_def fm_get_def split: option.splits)
  then have "fm_get 0 ?t h \<le> ?w" by (cases "fmlookup ?t h") (auto simp: fm_get_def)
  then have le: "unat (fm_get 0 ?t h) \<le> unat ?w" by (simp add: word_le_nat_alt)
  have new: "unat (fm_get 0 ?t h + a) = unat (fm_get 0 ?t h) + unat a" using le a(2) by (intro no_wrap) simp
  have "b \<noteq> 0 \<and> b \<le> ?w + a" if b: "fmlookup t i = Some b" for i b
  proof (cases "i = h")
    case True
    then have "b = fm_get 0 ?t h + a" using b t' by (simp add: fmlookup_fm_plus)
    then show ?thesis using new le w a(1)
      by (metis add_is_0 add_le_cancel_right unat_eq_zero word_le_nat_alt)
  next
    case False
    then have "b \<noteq> 0 \<and> b \<le> ?w" using b t' old by (simp add: fmlookup_fm_plus)
    then show ?thesis using w by (simp add: word_le_nat_alt)
  qed
  moreover have "t \<noteq> fmempty" using t' by (metis fmempty_lookup fmlookup_fm_plus option.distinct(1))
  ultimately show ?thesis using True by simp
qed

lemma stake_inv:
  assumes inv: "sp_inv R" and fits: "sp_fits (SpStake pk a b h) R"
  shows "sp_inv (AddUtxoStake pk a b h R)"
proof -
  let ?w = "fm_get 0 (m_utxo R) pk"
  have "?w + a \<noteq> 0" using no_wrap [of ?w a] fits by (auto simp: word_unat_eq_iff)
  then have utxo: "fmlookup (fm_plus pk a (m_utxo R)) k \<noteq> Some 0" for k
    using inv by (auto simp: fmlookup_fm_plus sp_inv_def)
  have "fm_get 0 (m_bls_utxo_outputs R) pk + 1 \<noteq> 0" if "b \<noteq> []"
    using fits that by (auto simp: word_unat_eq_iff unat_word_ariths)
  then have outputs: "fmlookup (m_bls_utxo_outputs (AddUtxoStake pk a b h R)) k \<noteq> Some 0" for k
    using inv by (auto simp: fmlookup_fm_plus sp_inv_def registry_simps)
  have doms: "fmdom (m_bls_utxo (AddUtxoStake pk a b h R)) = fmdom (m_bls_utxo_outputs (AddUtxoStake pk a b h R))"
    "fmdom (m_bls_utxo (AddUtxoStake pk a b h R)) |\<subseteq>| fmdom (m_utxo (AddUtxoStake pk a b h R))"
    "fmdom (m_utxo_tranches (AddUtxoStake pk a b h R)) = fmdom (m_utxo (AddUtxoStake pk a b h R))"
    using inv by (auto simp: sp_inv_def registry_simps fm_plus_def tr_plus_def)
  show ?thesis using inv fits utxo outputs doms tranche_bound [OF inv, of a pk h]
    unfolding sp_inv_def by (simp add: registry_simps)
qed

lemma sp_inv_add: "sp_inv R \<Longrightarrow> sp_fits c R \<Longrightarrow> sp_inv (sp_add c R)"
proof (cases c)
  case (SpPot s out a v h cb r)
  then show "sp_inv R \<Longrightarrow> ?thesis" by (auto simp: sp_inv_def registry_simps)
qed (simp_all add: stake_inv)

lemma sp_sub_add: "sp_inv R \<Longrightarrow> sp_fits c R \<Longrightarrow> sp_sub c (sp_add c R) = R"
  by (cases c) (simp_all add: stake_undo pot_undo del: sp_fits.simps)

interpretation sp: reversible_layer sp_add sp_sub sp_fits sp_inv
  by unfold_locales (fact sp_inv_add sp_sub_add | erule (1) sp_fits_swap sp_add_swap)+

section \<open>Delegation and payout records\<close>

datatype dp_op = DpNone | DpDeleg CPubKey CPubKey int | DpPayout CPubKey PosPayoutPolicy

fun dp_add :: "dp_op \<Rightarrow> StakeRegistry \<Rightarrow> StakeRegistry" where
  "dp_add DpNone R = R"
| "dp_add (DpDeleg c s h) R = AddUtxoDelegation c s h R"
| "dp_add (DpPayout s p) R = AddUtxoPayout s p R"

fun dp_sub :: "dp_op \<Rightarrow> StakeRegistry \<Rightarrow> StakeRegistry" where
  "dp_sub DpNone R = R"
| "dp_sub (DpDeleg c s h) R = SubUtxoDelegation c s R"
| "dp_sub (DpPayout s p) R = SubUtxoPayout s p R"

text \<open>A controller has one delegation at a time, and a signer one policy per activation height.\<close>

fun dp_fits :: "dp_op \<Rightarrow> StakeRegistry \<Rightarrow> bool" where
  "dp_fits DpNone R = True"
| "dp_fits (DpDeleg c s h) R = (\<not> HasDelegation R c)"
| "dp_fits (DpPayout s p) R = (\<not> HasPayoutAt R s (pp_activation p))"

definition dp_inv :: "StakeRegistry \<Rightarrow> bool" where
  "dp_inv R \<longleftrightarrow> fmdom (m_deleg_height R) = fmdom (m_deleg_utxo R) \<and>
     (\<forall>s m. fmlookup (m_payout_utxo R) s = Some m \<longrightarrow> m \<noteq> fmempty)"

lemma HasPayoutAt_get: "HasPayoutAt R s h \<longleftrightarrow> fmlookup (fm_get fmempty (m_payout_utxo R) s) h \<noteq> None"
  by (auto simp: HasPayoutAt_def fm_get_def split: option.splits)

lemma AddUtxoDelegation_simps [registry_simps]:
  "m_deleg_utxo (AddUtxoDelegation c s h R) = fmupd c s (m_deleg_utxo R)"
  "m_deleg_height (AddUtxoDelegation c s h R) = fmupd c h (m_deleg_height R)"
  "m_payout_utxo (AddUtxoDelegation c s h R) = m_payout_utxo R"
  by (simp_all add: AddUtxoDelegation_def)

lemma AddUtxoPayout_simps [registry_simps]:
  "m_payout_utxo (AddUtxoPayout s p R) =
     fmupd s (fmupd (pp_activation p) p (fm_get fmempty (m_payout_utxo R) s)) (m_payout_utxo R)"
  "m_deleg_utxo (AddUtxoPayout s p R) = m_deleg_utxo R"
  "m_deleg_height (AddUtxoPayout s p R) = m_deleg_height R"
  by (simp_all add: AddUtxoPayout_def)

lemmas dp_defs = HasDelegation_def HasPayoutAt_get registry_simps

lemma dp_inv_add: "dp_inv R \<Longrightarrow> dp_fits c R \<Longrightarrow> dp_inv (dp_add c R)"
  by (cases c) (auto simp: dp_inv_def dp_defs)

lemma deleg_undo:
  assumes "dp_inv R" "\<not> HasDelegation R c"
  shows "SubUtxoDelegation c s (AddUtxoDelegation c s h R) = R"
proof -
  have "fmlookup (m_deleg_utxo R) c = None" "fmlookup (m_deleg_height R) c = None"
    using assms by (auto simp: HasDelegation_def dp_inv_def) (metis fmdom_notD fmdom_notI)
  then show ?thesis by (simp add: SubUtxoDelegation_def AddUtxoDelegation_def fmdrop_upd)
qed

lemma payout_undo:
  assumes "dp_inv R" "\<not> HasPayoutAt R s (pp_activation p)"
  shows "SubUtxoPayout s p (AddUtxoPayout s p R) = R"
proof (cases "fmlookup (m_payout_utxo R) s")
  case None
  then show ?thesis by (simp add: SubUtxoPayout_def AddUtxoPayout_def fm_get_def fmdrop_upd)
next
  case (Some m)
  then have "m \<noteq> fmempty" "fmlookup m (pp_activation p) = None"
    using assms by (auto simp: dp_inv_def HasPayoutAt_def)
  then show ?thesis using Some
    by (simp add: SubUtxoPayout_def AddUtxoPayout_def fm_get_def fmdrop_upd fmupd_id)
qed

lemma dp_sub_add: "dp_inv R \<Longrightarrow> dp_fits c R \<Longrightarrow> dp_sub c (dp_add c R) = R"
  by (cases c) (simp_all add: deleg_undo payout_undo)

lemma dp_fits_swap: "dp_fits c R \<Longrightarrow> dp_fits d (dp_add c R) \<Longrightarrow> dp_fits d R \<and> dp_fits c (dp_add d R)"
  by (cases c; cases d) (auto simp: dp_defs split: if_splits)

lemma payout_swap:
  assumes "s \<noteq> s' \<or> pp_activation p \<noteq> pp_activation p'"
  shows "AddUtxoPayout s' p' (AddUtxoPayout s p R) = AddUtxoPayout s p (AddUtxoPayout s' p' R)"
  using assms by (cases "s = s'") (auto simp: AddUtxoPayout_def fmupd_swap)

lemma dp_add_swap: "dp_fits c R \<Longrightarrow> dp_fits d (dp_add c R) \<Longrightarrow> dp_add d (dp_add c R) = dp_add c (dp_add d R)"
proof (cases c; cases d)
  fix s p s' p'
  assume "c = DpPayout s p" "d = DpPayout s' p'" "dp_fits d (dp_add c R)"
  moreover from this have "s \<noteq> s' \<or> pp_activation p \<noteq> pp_activation p'" by (auto simp: dp_defs)
  ultimately show ?thesis by (simp only: dp_add.simps) (rule payout_swap)
next
  fix x s h x' s' h'
  assume "c = DpDeleg x s h" "d = DpDeleg x' s' h'" "dp_fits d (dp_add c R)"
  moreover from this have "x \<noteq> x'" by (auto simp: dp_defs)
  ultimately show ?thesis by (simp add: AddUtxoDelegation_def fmupd_swap)
qed (simp_all add: AddUtxoDelegation_def AddUtxoPayout_def)

interpretation dp: reversible_layer dp_add dp_sub dp_fits dp_inv
  by unfold_locales (fact dp_inv_add dp_sub_add | erule (1) dp_fits_swap dp_add_swap)+

end
