(* ===== verification/Utxo.thy ===== *)
theory Utxo
  imports TxTypes
begin

text \<open>
  The set of unspent outputs: \<open>AddCoin\<close>, \<open>AddCoins\<close>, \<open>SpendCoin\<close> and \<open>AccessByTxid\<close> of
  \<open>src/coins.cpp\<close>, and what \<open>src/validation.cpp\<close> does with them when a block is connected
  (\<open>UpdateCoins\<close>, the loop of \<open>ConnectBlock\<close>) and disconnected (\<open>ApplyTxInUndo\<close>,
  \<open>DisconnectBlock\<close>). The cache hierarchy is flattened into one map of the coins that exist; an
  exception or a failed assertion is \<open>None\<close>. The set of spent peg-ins is kept apart by the
  code and is not part of this model: a peg-in input spends no coin of the map.
\<close>

section \<open>Settings\<close>

text \<open>The globals and constants read here, and whether undoing a given peg-in input is clean.\<close>

record coins_env =
  g_con_elementsmode :: bool
  connect_genesis_outputs :: bool
  MAX_OUTPUTS_PER_BLOCK :: nat
  pegin_undo_clean :: "CTxIn \<Rightarrow> bool"

type_synonym utxo = "(COutPoint, Coin) fmap"

abbreviation MAX_SCRIPT_SIZE :: nat where "MAX_SCRIPT_SIZE \<equiv> 10000"

section \<open>Coins\<close>

definition IsUnspendable :: "coins_env \<Rightarrow> bytes \<Rightarrow> bool" where
  "IsUnspendable C s \<longleftrightarrow>
     (length s > 0 \<and> hd s = OP_RETURN) \<or> length s > MAX_SCRIPT_SIZE \<or> (g_con_elementsmode C \<and> length s = 0)"

definition AddCoin :: "coins_env \<Rightarrow> COutPoint \<Rightarrow> Coin \<Rightarrow> bool \<Rightarrow> utxo \<Rightarrow> utxo option" where
  "AddCoin C outpoint coin possible_overwrite U =
     (if IsSpent coin then None
      else if IsUnspendable C (scriptPubKey (coin_out coin)) then Some U
      else if \<not> possible_overwrite \<and> fmlookup U outpoint \<noteq> None then None
      else Some (fmupd outpoint coin U))"

definition SpendCoin :: "COutPoint \<Rightarrow> utxo \<Rightarrow> (Coin \<times> utxo) option" where
  "SpendCoin outpoint U =
     (case fmlookup U outpoint of None \<Rightarrow> None | Some coin \<Rightarrow> Some (coin, fmdrop outpoint U))"

text \<open>The outputs of a transaction as coins, in the order of their indices.\<close>

definition tx_coins :: "nat \<Rightarrow> CTransaction \<Rightarrow> (COutPoint \<times> Coin) list" where
  "tx_coins height tx =
     map (\<lambda>(i, out). (COutPoint (tx_hash tx) (of_nat i), \<lparr>coin_out = out, fCoinBase = IsCoinBase tx, nHeight = height\<rparr>))
       (enumerate 0 (vout tx))"

fun add_coins :: "coins_env \<Rightarrow> bool \<Rightarrow> (COutPoint \<times> Coin) list \<Rightarrow> utxo \<Rightarrow> utxo option" where
  "add_coins C overwrite [] U = Some U"
| "add_coins C overwrite ((o', coin) # cs) U =
     (case AddCoin C o' coin overwrite U of None \<Rightarrow> None | Some U' \<Rightarrow> add_coins C overwrite cs U')"

text \<open>With \<open>check_for_overwrite\<close> unset, as every caller here has it.\<close>

definition AddCoins :: "coins_env \<Rightarrow> CTransaction \<Rightarrow> nat \<Rightarrow> utxo \<Rightarrow> utxo option" where
  "AddCoins C tx height U = add_coins C (IsCoinBase tx) (tx_coins height tx) U"

section \<open>Connecting transactions\<close>

definition coinEmpty :: Coin where
  "coinEmpty = \<lparr>coin_out = \<lparr>nAsset = [], nValue = [], nNonce = [], scriptPubKey = []\<rparr>, fCoinBase = False, nHeight = 0\<rparr>"

text \<open>The inputs are spent in order; a peg-in leaves a dummy in the undo data.\<close>

fun spend_inputs :: "CTxIn list \<Rightarrow> utxo \<Rightarrow> (CTxUndo \<times> utxo) option" where
  "spend_inputs [] U = Some ([], U)"
| "spend_inputs (txin # ins) U =
     (case (if m_is_pegin txin then Some (coinEmpty, U) else SpendCoin (prevout txin) U) of
        None \<Rightarrow> None
      | Some (coin, U') \<Rightarrow> (case spend_inputs ins U' of None \<Rightarrow> None | Some (undo, V) \<Rightarrow> Some (coin # undo, V)))"

definition UpdateCoins :: "coins_env \<Rightarrow> CTransaction \<Rightarrow> nat \<Rightarrow> utxo \<Rightarrow> (CTxUndo \<times> utxo) option" where
  "UpdateCoins C tx height U =
     (case (if IsCoinBase tx then Some ([], U) else spend_inputs (vin tx) U) of
        None \<Rightarrow> None
      | Some (undo, V) \<Rightarrow> (case AddCoins C tx height V of None \<Rightarrow> None | Some U' \<Rightarrow> Some (undo, U')))"

fun connect_txs :: "coins_env \<Rightarrow> nat \<Rightarrow> CTransaction list \<Rightarrow> utxo \<Rightarrow> (CBlockUndo \<times> utxo) option" where
  "connect_txs C height [] U = Some ([], U)"
| "connect_txs C height (tx # txs) U =
     (case UpdateCoins C tx height U of None \<Rightarrow> None
      | Some (undo, V) \<Rightarrow> (case connect_txs C height txs V of None \<Rightarrow> None | Some (undos, W) \<Rightarrow> Some (undo # undos, W)))"

text \<open>The undo of the first transaction, the coinbase, is thrown away.\<close>

definition connect_coins :: "coins_env \<Rightarrow> nat \<Rightarrow> CBlock \<Rightarrow> utxo \<Rightarrow> (CBlockUndo \<times> utxo) option" where
  "connect_coins C height block U =
     (case connect_txs C height block U of None \<Rightarrow> None | Some (undos, U') \<Rightarrow> Some (tl undos, U'))"

section \<open>Disconnecting\<close>

fun access_from :: "utxo \<Rightarrow> uint256 \<Rightarrow> nat \<Rightarrow> nat \<Rightarrow> Coin" where
  "access_from U txid i 0 = coinEmpty"
| "access_from U txid i (Suc left) =
     (case fmlookup U (COutPoint txid (of_nat i)) of
        Some alternate \<Rightarrow> if \<not> IsSpent alternate then alternate else access_from U txid (i + 1) left
      | None \<Rightarrow> access_from U txid (i + 1) left)"

definition AccessByTxid :: "coins_env \<Rightarrow> utxo \<Rightarrow> uint256 \<Rightarrow> Coin" where
  "AccessByTxid C U txid = access_from U txid 0 (MAX_OUTPUTS_PER_BLOCK C)"

text \<open>Undo results are the state with the flag \<open>fClean\<close>, or \<open>None\<close> for \<open>DISCONNECT_FAILED\<close>. A coin
  whose undo record has height 0 takes its metadata from an output of the same transaction.\<close>

definition undo_meta :: "coins_env \<Rightarrow> Coin \<Rightarrow> utxo \<Rightarrow> COutPoint \<Rightarrow> Coin option" where
  "undo_meta C undo U out =
     (if nHeight undo = 0
      then let alternate = AccessByTxid C U (op_hash out)
           in if \<not> IsSpent alternate
              then Some (undo\<lparr>nHeight := nHeight alternate, fCoinBase := fCoinBase alternate\<rparr>)
              else if \<not> connect_genesis_outputs C then None else Some undo
      else Some undo)"

definition ApplyTxInUndo :: "coins_env \<Rightarrow> Coin \<Rightarrow> CTxIn \<Rightarrow> utxo \<Rightarrow> (utxo \<times> bool) option" where
  "ApplyTxInUndo C undo txin U =
     (let out = prevout txin in
      if \<not> m_is_pegin txin
      then let fClean = (fmlookup U out = None)
           in case undo_meta C undo U out of None \<Rightarrow> None
              | Some coin \<Rightarrow> (case AddCoin C out coin (\<not> fClean) U of None \<Rightarrow> None | Some U' \<Rightarrow> Some (U', fClean))
      else Some (U, pegin_undo_clean C txin))"

definition TxOutDBEntryIsSame :: "CTxOut \<Rightarrow> CTxOut \<Rightarrow> bool" where
  "TxOutDBEntryIsSame block_txout txdb_txout \<longleftrightarrow>
     nValue txdb_txout = nValue block_txout \<and> nAsset txdb_txout = nAsset block_txout \<and>
     scriptPubKey txdb_txout = scriptPubKey block_txout"

definition remove_output :: "coins_env \<Rightarrow> COutPoint \<times> Coin \<Rightarrow> utxo \<times> bool \<Rightarrow> utxo \<times> bool" where
  "remove_output C e V =
     (case e of (out, created) \<Rightarrow> case V of (U, fClean) \<Rightarrow>
        if IsUnspendable C (scriptPubKey (coin_out created)) then (U, fClean)
        else case SpendCoin out U of
            None \<Rightarrow> (U, False)
          | Some (coin, U') \<Rightarrow> (U', fClean \<and> TxOutDBEntryIsSame (coin_out created) (coin_out coin) \<and>
              nHeight created = nHeight coin \<and> fCoinBase created = fCoinBase coin))"

text \<open>The inputs are restored from the last to the first.\<close>

fun restore_inputs :: "coins_env \<Rightarrow> (CTxIn \<times> Coin) list \<Rightarrow> utxo \<times> bool \<Rightarrow> (utxo \<times> bool) option" where
  "restore_inputs C [] V = Some V"
| "restore_inputs C ((txin, undo) # es) V =
     (case restore_inputs C es V of None \<Rightarrow> None
      | Some (U, fClean) \<Rightarrow> (case ApplyTxInUndo C undo txin U of None \<Rightarrow> None
          | Some (U', c) \<Rightarrow> Some (U', fClean \<and> c)))"

definition disconnect_tx :: "coins_env \<Rightarrow> nat \<Rightarrow> CTransaction \<Rightarrow> CTxUndo option \<Rightarrow> utxo \<times> bool \<Rightarrow> (utxo \<times> bool) option" where
  "disconnect_tx C height tx txundo V =
     (let V = fold (remove_output C) (tx_coins height tx) V
      in case txundo of None \<Rightarrow> Some V
         | Some undo \<Rightarrow> if length undo \<noteq> length (vin tx) then None else restore_inputs C (zip (vin tx) undo) V)"

text \<open>The transactions are undone from the last to the first.\<close>

fun disconnect_txs :: "coins_env \<Rightarrow> nat \<Rightarrow> (CTransaction \<times> CTxUndo option) list \<Rightarrow> utxo \<times> bool \<Rightarrow> (utxo \<times> bool) option" where
  "disconnect_txs C height [] V = Some V"
| "disconnect_txs C height ((tx, txundo) # es) V =
     (case disconnect_txs C height es V of None \<Rightarrow> None | Some V' \<Rightarrow> disconnect_tx C height tx txundo V')"

text \<open>At a height without the one-time recovery of outputs.\<close>

definition DisconnectBlock :: "coins_env \<Rightarrow> nat \<Rightarrow> CBlock \<Rightarrow> CBlockUndo \<Rightarrow> utxo \<Rightarrow> (utxo \<times> bool) option" where
  "DisconnectBlock C height block undo U =
     (if length undo + 1 \<noteq> length block then None
      else disconnect_txs C height (zip block (None # map Some undo)) (U, True))"

section \<open>What connecting does\<close>

abbreviation spendable :: "coins_env \<Rightarrow> (COutPoint \<times> Coin) list \<Rightarrow> (COutPoint \<times> Coin) list" where
  "spendable C \<equiv> filter (\<lambda>e. \<not> IsUnspendable C (scriptPubKey (coin_out (snd e))))"

definition adds :: "(COutPoint \<times> Coin) list \<Rightarrow> utxo \<Rightarrow> utxo" where
  "adds cs U = fold (\<lambda>(o', c). fmupd o' c) cs U"

definition fresh :: "(COutPoint \<times> Coin) list \<Rightarrow> utxo \<Rightarrow> bool" where
  "fresh cs U \<longleftrightarrow> distinct (map fst cs) \<and> (\<forall>e \<in> set cs. fmlookup U (fst e) = None)"

lemma adds_simps [simp]: "adds [] U = U" "adds ((o', c) # cs) U = adds cs (fmupd o' c U)"
  by (simp_all add: adds_def)

lemma fresh_Cons: "fresh ((o', c) # cs) U \<longleftrightarrow> fmlookup U o' = None \<and> fresh cs (fmupd o' c U)"
  by (force simp: fresh_def)

lemma fresh_filter: "fresh cs U \<Longrightarrow> fresh (filter P cs) U"
  by (auto simp: fresh_def distinct_map_filter)

lemma fresh_ConsD: "fresh ((o', c) # cs) U \<Longrightarrow> fresh cs U"
  by (auto simp: fresh_def)

lemma adds_mset: "fresh cs U \<Longrightarrow> mset (fm_entries (adds cs U)) = mset (fm_entries U) + mset cs"
proof (induction cs arbitrary: U)
  case (Cons e cs)
  then obtain o' c where "e = (o', c)" "fmlookup U o' = None" "fresh cs (fmupd o' c U)"
    by (cases e) (auto simp: fresh_Cons)
  then show ?case using Cons.IH [of "fmupd o' c U"] by (simp add: mset_entries_upd)
qed simp

lemma adds_first:
  "fresh ((o', c) # cs) U \<Longrightarrow> fmlookup (adds cs (fmupd o' c U)) o' = Some c \<and> fmdrop o' (adds cs (fmupd o' c U)) = adds cs U"
proof (induction cs arbitrary: U)
  case Nil
  then have "fmlookup U o' = None" by (simp add: fresh_def)
  then show ?case by (auto intro!: fmap_ext)
next
  case (Cons e cs)
  obtain p d where e: "e = (p, d)" by (cases e)
  then have "p \<noteq> o'" and fr: "fresh ((o', c) # cs) (fmupd p d U)" using Cons.prems by (auto simp: fresh_def)
  then have "fmupd p d (fmupd o' c U) = fmupd o' c (fmupd p d U)" by (auto intro!: fmap_ext)
  then show ?case using Cons.IH [OF fr] e by simp
qed

lemma add_coins_adds:
  assumes "add_coins C ov cs U = Some U'" "ov \<Longrightarrow> fresh cs U"
  shows "fresh (spendable C cs) U \<and> U' = adds (spendable C cs) U"
  using assms
proof (induction cs arbitrary: U)
  case (Cons e cs)
  obtain o' c where e: "e = (o', c)" by (cases e)
  show ?case
  proof (cases "IsUnspendable C (scriptPubKey (coin_out c))")
    case True
    then have "add_coins C ov cs U = Some U'" using Cons.prems(1) e by (auto simp: AddCoin_def split: if_splits)
    moreover have "ov \<Longrightarrow> fresh cs U" using Cons.prems(2) e by (auto dest: fresh_ConsD)
    ultimately show ?thesis using Cons.IH True e by simp
  next
    case False
    then have "add_coins C ov cs (fmupd o' c U) = Some U'" and none: "fmlookup U o' = None"
      using Cons.prems e by (auto simp: AddCoin_def fresh_Cons split: if_splits option.splits)
    moreover have "ov \<Longrightarrow> fresh cs (fmupd o' c U)" using Cons.prems(2) e by (simp add: fresh_Cons)
    ultimately show ?thesis using Cons.IH [of "fmupd o' c U"] False e by (simp add: fresh_Cons)
  qed
qed (simp add: fresh_def)

text \<open>The coins the inputs refer to, with the dummies of peg-ins left out.\<close>

definition spent_coins :: "CTxIn list \<Rightarrow> CTxUndo \<Rightarrow> (COutPoint \<times> Coin) list" where
  "spent_coins ins undo = map (\<lambda>(i, c). (prevout i, c)) (filter (\<lambda>(i, c). \<not> m_is_pegin i) (zip ins undo))"

lemma spend_inputs_mset:
  "spend_inputs ins U = Some (undo, V) \<Longrightarrow>
   length undo = length ins \<and> mset (fm_entries U) = mset (fm_entries V) + mset (spent_coins ins undo)"
proof (induction ins arbitrary: U undo)
  case (Cons i ins)
  then obtain c U' us where c: "(if m_is_pegin i then Some (coinEmpty, U) else SpendCoin (prevout i) U) = Some (c, U')"
    and us: "spend_inputs ins U' = Some (us, V)" "undo = c # us"
    by (auto split: option.splits prod.splits)
  from Cons.IH [OF us(1)] us(2) c show ?case
    by (auto simp: spent_coins_def SpendCoin_def dest: mset_entries_drop split: if_splits option.splits)
qed (simp add: spent_coins_def)

section \<open>Disconnecting is the inverse\<close>

text \<open>Every coin exists, can be spent and has its metadata; outputs of one transaction agree on it.\<close>

definition utxo_wf :: "coins_env \<Rightarrow> utxo \<Rightarrow> bool" where
  "utxo_wf C U \<longleftrightarrow>
     (\<forall>o' c. fmlookup U o' = Some c \<longrightarrow> \<not> IsSpent c \<and> \<not> IsUnspendable C (scriptPubKey (coin_out c)) \<and>
        (nHeight c = 0 \<longrightarrow> connect_genesis_outputs C)) \<and>
     (\<forall>o' c p d. fmlookup U o' = Some c \<longrightarrow> fmlookup U p = Some d \<longrightarrow> op_hash o' = op_hash p \<longrightarrow>
        nHeight c = nHeight d \<and> fCoinBase c = fCoinBase d)"

definition new_tx :: "utxo \<Rightarrow> CTransaction \<Rightarrow> bool" where
  "new_tx U tx \<longleftrightarrow> (\<forall>o'. fmlookup U o' \<noteq> None \<longrightarrow> op_hash o' \<noteq> tx_hash tx) \<and> length (vout tx) < 2 ^ 32"

lemma utxo_wf_coin:
  "utxo_wf C U \<Longrightarrow> fmlookup U o' = Some c \<Longrightarrow>
   \<not> IsSpent c \<and> \<not> IsUnspendable C (scriptPubKey (coin_out c)) \<and> (nHeight c = 0 \<longrightarrow> connect_genesis_outputs C)"
  unfolding utxo_wf_def by blast

lemma utxo_wf_meta:
  "utxo_wf C U \<Longrightarrow> fmlookup U o' = Some c \<Longrightarrow> fmlookup U p = Some d \<Longrightarrow> op_hash o' = op_hash p \<Longrightarrow>
   nHeight c = nHeight d \<and> fCoinBase c = fCoinBase d"
  unfolding utxo_wf_def by blast

lemma utxo_wf_mono: "utxo_wf C U \<Longrightarrow> (\<And>o' c. fmlookup V o' = Some c \<Longrightarrow> fmlookup U o' = Some c) \<Longrightarrow> utxo_wf C V"
  unfolding utxo_wf_def by meson

lemma utxo_wf_drop: "utxo_wf C U \<Longrightarrow> utxo_wf C (fmdrop o' U)"
  by (erule utxo_wf_mono) (simp split: if_splits)

lemma IsSpent_coinEmpty [simp]: "IsSpent coinEmpty"
  by (simp add: coinEmpty_def IsSpent_def TxOut_IsNull_def Conf_IsNull_def)

lemma access_from_coin:
  "\<not> IsSpent (access_from U txid i k) \<Longrightarrow> \<exists>p. fmlookup U p = Some (access_from U txid i k) \<and> op_hash p = txid"
proof (induction U txid i k rule: access_from.induct)
  case (2 U txid i k)
  then show ?case by (auto split: option.splits if_splits intro!: exI [of _ "COutPoint txid (of_nat i)"])
qed simp

lemma undo_meta_same:
  assumes wf: "utxo_wf C U" and c: "fmlookup U out = Some c"
  shows "undo_meta C c (fmdrop out U) out = Some c"
proof (cases "IsSpent (AccessByTxid C (fmdrop out U) (op_hash out))")
  case False
  let ?a = "AccessByTxid C (fmdrop out U) (op_hash out)"
  obtain p where p: "fmlookup (fmdrop out U) p = Some ?a" "op_hash p = op_hash out"
    using access_from_coin False unfolding AccessByTxid_def by blast
  then have "fmlookup U p = Some ?a" by (simp split: if_splits)
  from utxo_wf_meta [OF wf this c p(2)] show ?thesis using False by (simp add: undo_meta_def Let_def)
next
  case True
  then show ?thesis using utxo_wf_coin [OF wf c] by (simp add: undo_meta_def Let_def)
qed

lemma undo_spend:
  assumes "utxo_wf C U" "SpendCoin (prevout txin) U = Some (c, U')" "\<not> m_is_pegin txin"
  shows "ApplyTxInUndo C c txin U' = Some (U, True)"
proof -
  have c: "fmlookup U (prevout txin) = Some c" "U' = fmdrop (prevout txin) U"
    using assms(2) by (auto simp: SpendCoin_def split: option.splits)
  then have "fmupd (prevout txin) c U' = U" by (auto intro!: fmap_ext)
  then show ?thesis using assms undo_meta_same [OF assms(1) c(1)] utxo_wf_coin [OF assms(1) c(1)] c(2)
    by (simp add: ApplyTxInUndo_def AddCoin_def Let_def)
qed

text \<open>A block is undone cleanly up to its peg-ins, which are undone by the code not modelled here.\<close>

definition pegins_clean :: "coins_env \<Rightarrow> CTxIn list \<Rightarrow> bool" where
  "pegins_clean C ins \<longleftrightarrow> (\<forall>i \<in> set ins. m_is_pegin i \<longrightarrow> pegin_undo_clean C i)"

lemma restore_spent:
  "spend_inputs ins U = Some (undo, V) \<Longrightarrow> utxo_wf C U \<Longrightarrow>
   utxo_wf C V \<and> restore_inputs C (zip ins undo) (V, cl) = Some (U, cl \<and> pegins_clean C ins)"
proof (induction ins arbitrary: U undo)
  case (Cons i ins)
  then obtain c U' us where c: "(if m_is_pegin i then Some (coinEmpty, U) else SpendCoin (prevout i) U) = Some (c, U')"
    and us: "spend_inputs ins U' = Some (us, V)" "undo = c # us"
    by (auto split: option.splits prod.splits)
  have wf: "utxo_wf C U'" using c Cons.prems(2)
    by (auto simp: SpendCoin_def utxo_wf_drop split: if_splits option.splits)
  show ?case
  proof (cases "m_is_pegin i")
    case True
    then show ?thesis using Cons.IH [OF us(1) wf] us(2) c
      by (simp add: pegins_clean_def ApplyTxInUndo_def conj_ac)
  next
    case False
    then show ?thesis using Cons.IH [OF us(1) wf] us(2) c undo_spend [OF Cons.prems(2), of i c U']
      by (simp add: pegins_clean_def)
  qed
qed (simp add: pegins_clean_def)

lemma remove_adds:
  "fresh (spendable C cs) U \<Longrightarrow> fold (remove_output C) cs (adds (spendable C cs) U, cl) = (U, cl)"
proof (induction cs arbitrary: U)
  case (Cons e cs)
  obtain o' c where e: "e = (o', c)" by (cases e)
  show ?case
  proof (cases "IsUnspendable C (scriptPubKey (coin_out c))")
    case True
    then show ?thesis using Cons e by (simp add: remove_output_def)
  next
    case False
    then have fr: "fresh ((o', c) # spendable C cs) U" using Cons.prems e by simp
    from adds_first [OF this]
    have "remove_output C e (adds (spendable C cs) (fmupd o' c U), cl) = (adds (spendable C cs) U, cl)"
      using False e by (simp add: remove_output_def SpendCoin_def TxOutDBEntryIsSame_def)
    then show ?thesis using Cons.IH [OF fresh_ConsD [OF fr]] False e by simp
  qed
qed simp

lemma spend_inputs_sub:
  "spend_inputs ins U = Some (undo, V) \<Longrightarrow> fmlookup V o' = Some c \<Longrightarrow> fmlookup U o' = Some c"
proof (induction ins arbitrary: U undo)
  case (Cons i ins)
  then show ?case by (force simp: SpendCoin_def split: option.splits prod.splits if_splits)
qed simp

lemma tx_coins_hash: "e \<in> set (tx_coins h tx) \<Longrightarrow> op_hash (fst e) = tx_hash tx \<and> nHeight (snd e) = h \<and> fCoinBase (snd e) = IsCoinBase tx"
  by (auto simp: tx_coins_def)

lemma tx_coins_distinct:
  assumes "length (vout tx) < 2 ^ 32"
  shows "distinct (map fst (tx_coins h tx))"
proof -
  have "map fst (tx_coins h tx) = map (\<lambda>i. COutPoint (tx_hash tx) (of_nat i)) [0..<length (vout tx)]"
    by (rule nth_equalityI) (auto simp: tx_coins_def nth_enumerate_eq)
  moreover have "inj_on (\<lambda>i. COutPoint (tx_hash tx) (of_nat i)) {0..<length (vout tx)}"
    using assms by (intro inj_on_inverseI [where g = "\<lambda>p. unat (op_n p)"]) (simp add: unat_of_nat take_bit_nat_eq_self)
  ultimately show ?thesis by (simp add: distinct_map)
qed

lemma tx_coins_fresh: "new_tx U tx \<Longrightarrow> fresh (tx_coins h tx) U"
  using tx_coins_distinct [of tx h] tx_coins_hash [of _ h tx] by (fastforce simp: fresh_def new_tx_def)

lemma fresh_mono: "fresh cs U \<Longrightarrow> (\<And>o' c. fmlookup V o' = Some c \<Longrightarrow> fmlookup U o' = Some c) \<Longrightarrow> fresh cs V"
  unfolding fresh_def by (metis not_None_eq)

lemma fmlookup_adds:
  "fmlookup (adds cs U) o' = Some c \<Longrightarrow> (o', c) \<in> set cs \<or> fmlookup U o' = Some c"
proof (induction cs arbitrary: U)
  case (Cons e cs)
  obtain p d where e: "e = (p, d)" by (cases e)
  then show ?case using Cons.IH [of "fmupd p d U"] Cons.prems by (auto split: if_splits)
qed simp

lemma add_coins_unspent: "add_coins C ov cs U = Some U' \<Longrightarrow> e \<in> set cs \<Longrightarrow> \<not> IsSpent (snd e)"
  by (induction C ov cs U rule: add_coins.induct) (auto simp: AddCoin_def split: if_splits option.splits)

text \<open>One transaction: the coins before and after, what undoes it, and what the next ones need.\<close>

lemma UpdateCoinsE:
  assumes "UpdateCoins C tx h U = Some (undo, U')" "new_tx U tx"
  obtains V where "(if IsCoinBase tx then Some ([], U) else spend_inputs (vin tx) U) = Some (undo, V)"
    and "\<And>o' c. fmlookup V o' = Some c \<Longrightarrow> fmlookup U o' = Some c"
    and "fresh (spendable C (tx_coins h tx)) V" "U' = adds (spendable C (tx_coins h tx)) V"
    and "\<And>e. e \<in> set (tx_coins h tx) \<Longrightarrow> \<not> IsSpent (snd e)"
proof -
  obtain V where V: "(if IsCoinBase tx then Some ([], U) else spend_inputs (vin tx) U) = Some (undo, V)"
    and add: "add_coins C (IsCoinBase tx) (tx_coins h tx) V = Some U'"
    using assms(1) by (auto simp: UpdateCoins_def AddCoins_def split: option.splits)
  have sub: "fmlookup V o' = Some c \<Longrightarrow> fmlookup U o' = Some c" for o' c
    using V by (auto dest: spend_inputs_sub split: if_splits)
  have "fresh (tx_coins h tx) V" using tx_coins_fresh [OF assms(2)] sub by (rule fresh_mono)
  then have "fresh (spendable C (tx_coins h tx)) V \<and> U' = adds (spendable C (tx_coins h tx)) V"
    using add_coins_adds [OF add] by blast
  then show thesis using that [OF V sub] add_coins_unspent [OF add] by blast
qed

lemma UpdateCoins_between:
  assumes "UpdateCoins C tx h U = Some (undo, U')" "new_tx U tx"
  obtains V where "mset (fm_entries U) = mset (fm_entries V) + mset (spent_coins (vin tx) undo)"
    and "mset (fm_entries U') = mset (fm_entries V) + mset (spendable C (tx_coins h tx))"
proof -
  from assms obtain V where V: "(if IsCoinBase tx then Some ([], U) else spend_inputs (vin tx) U) = Some (undo, V)"
    and "fresh (spendable C (tx_coins h tx)) V" "U' = adds (spendable C (tx_coins h tx)) V" by (rule UpdateCoinsE)
  moreover have "mset (fm_entries U) = mset (fm_entries V) + mset (spent_coins (vin tx) undo)"
    using V spend_inputs_mset [of "vin tx" U undo V] by (auto simp: spent_coins_def split: if_splits)
  ultimately show thesis using that [of V] adds_mset by simp
qed

lemma UpdateCoins_mset:
  assumes "UpdateCoins C tx h U = Some (undo, U')" "new_tx U tx"
  shows "mset (fm_entries U') + mset (spent_coins (vin tx) undo) = mset (fm_entries U) + mset (spendable C (tx_coins h tx))"
  using assms by (rule UpdateCoins_between) simp

text \<open>The dummies of peg-ins are the only entries of the undo data that are no coins.\<close>

lemma spend_inputs_dummies:
  "spend_inputs ins U = Some (undo, V) \<Longrightarrow> (i, c) \<in> set (zip ins undo) \<Longrightarrow> m_is_pegin i \<Longrightarrow> c = coinEmpty"
proof (induction ins arbitrary: U undo)
  case (Cons j ins)
  then show ?case by (fastforce split: option.splits prod.splits if_splits)
qed simp

lemma UpdateCoins_dummies:
  assumes "UpdateCoins C tx h U = Some (undo, U')" "(i, c) \<in> set (zip (vin tx) undo)" "m_is_pegin i"
  shows "c = coinEmpty"
  using assms by (auto simp: UpdateCoins_def split: option.splits if_splits dest: spend_inputs_dummies)

lemma UpdateCoins_lookup:
  assumes "UpdateCoins C tx h U = Some (undo, U')" "new_tx U tx" "fmlookup U' o' = Some c"
  shows "fmlookup U o' = Some c \<or>
    ((o', c) \<in> set (tx_coins h tx) \<and> \<not> IsSpent c \<and> \<not> IsUnspendable C (scriptPubKey (coin_out c)))"
proof -
  from assms(1,2) obtain V where "\<And>o' c. fmlookup V o' = Some c \<Longrightarrow> fmlookup U o' = Some c"
    "U' = adds (spendable C (tx_coins h tx)) V" "\<And>e. e \<in> set (tx_coins h tx) \<Longrightarrow> \<not> IsSpent (snd e)"
    by (rule UpdateCoinsE) blast
  then show ?thesis using assms(3) fmlookup_adds [of "spendable C (tx_coins h tx)" V o' c] by fastforce
qed

lemma UpdateCoins_new:
  assumes "UpdateCoins C tx h U = Some (undo, U')" "new_tx U tx" "new_tx U t" "tx_hash t \<noteq> tx_hash tx"
  shows "new_tx U' t"
  unfolding new_tx_def
proof (intro conjI allI impI)
  fix o' assume "fmlookup U' o' \<noteq> None"
  then obtain c where "fmlookup U' o' = Some c" by blast
  from UpdateCoins_lookup [OF assms(1,2) this] show "op_hash o' \<noteq> tx_hash t"
    using assms(3,4) tx_coins_hash [of "(o', c)" h tx] by (auto simp: new_tx_def)
next
  show "length (vout t) < 2 ^ 32" using assms(3) by (simp add: new_tx_def)
qed

lemma UpdateCoins_wf:
  assumes up: "UpdateCoins C tx h U = Some (undo, U')" and new: "new_tx U tx" and wf: "utxo_wf C U" and h: "0 < h"
  shows "utxo_wf C U'"
proof -
  note look = UpdateCoins_lookup [OF up new]
  have "\<not> IsSpent c \<and> \<not> IsUnspendable C (scriptPubKey (coin_out c)) \<and> (nHeight c = 0 \<longrightarrow> connect_genesis_outputs C)"
    if "fmlookup U' o' = Some c" for o' c
    using look [OF that] utxo_wf_coin [OF wf, of o' c] tx_coins_hash [of "(o', c)" h tx] h by auto
  moreover have "nHeight c = nHeight d \<and> fCoinBase c = fCoinBase d"
    if "fmlookup U' o' = Some c" "fmlookup U' p = Some d" "op_hash o' = op_hash p" for o' c p d
  proof -
    have "fmlookup U q = Some e \<Longrightarrow> op_hash q \<noteq> tx_hash tx" for q e using new by (auto simp: new_tx_def)
    then show ?thesis
      using look [OF that(1)] look [OF that(2)] that(3) utxo_wf_meta [OF wf, of o' c p d]
        tx_coins_hash [of "(o', c)" h tx] tx_coins_hash [of "(p, d)" h tx] by (metis fst_conv snd_conv)
  qed
  ultimately show ?thesis unfolding utxo_wf_def by blast
qed

lemma UpdateCoins_undo:
  assumes "UpdateCoins C tx h U = Some (undo, U')" "new_tx U tx" and wf: "utxo_wf C U"
  shows "disconnect_tx C h tx (if IsCoinBase tx then None else Some undo) (U', cl) =
      Some (U, cl \<and> (IsCoinBase tx \<or> pegins_clean C (vin tx)))"
proof -
  from assms(1,2) obtain V where V: "(if IsCoinBase tx then Some ([], U) else spend_inputs (vin tx) U) = Some (undo, V)"
    and U': "fresh (spendable C (tx_coins h tx)) V" "U' = adds (spendable C (tx_coins h tx)) V" by (rule UpdateCoinsE)
  have "fold (remove_output C) (tx_coins h tx) (U', cl) = (V, cl)" using remove_adds [OF U'(1)] U'(2) by simp
  then show ?thesis
    using V restore_spent [of "vin tx" U undo V C cl] spend_inputs_mset [of "vin tx" U undo V] wf
    by (auto simp: disconnect_tx_def split: if_splits)
qed

definition block_new :: "utxo \<Rightarrow> CTransaction list \<Rightarrow> bool" where
  "block_new U txs \<longleftrightarrow> distinct (map tx_hash txs) \<and> (\<forall>tx \<in> set txs. new_tx U tx)"

lemma block_new_Cons:
  assumes "block_new U (tx # txs)" "UpdateCoins C tx h U = Some (undo, V)"
  shows "new_tx U tx" "block_new V txs"
proof -
  show new: "new_tx U tx" using assms(1) by (simp add: block_new_def)
  have "new_tx V t" if "t \<in> set txs" for t
  proof (rule UpdateCoins_new [OF assms(2) new])
    show "new_tx U t" "tx_hash t \<noteq> tx_hash tx" using assms(1) that by (auto simp: block_new_def) (metis imageI)
  qed
  then show "block_new V txs" using assms(1) by (simp add: block_new_def)
qed

lemma connect_txs_Cons:
  assumes "connect_txs C h (tx # txs) U = Some (undos, W)"
  obtains undo V us where "UpdateCoins C tx h U = Some (undo, V)" "connect_txs C h txs V = Some (us, W)" "undos = undo # us"
  using assms by (auto split: option.splits prod.splits)

lemma mset_chain: "a + b = c + d \<Longrightarrow> e + f = a + g \<Longrightarrow> e + (b + f) = c + (d + g)" for a :: "'a multiset"
  by (metis add.assoc add.commute)

lemma connect_txs_mset:
  "connect_txs C h txs U = Some (undos, U') \<Longrightarrow> block_new U txs \<Longrightarrow>
   mset (fm_entries U') + mset (concat (map (\<lambda>(tx, undo). spent_coins (vin tx) undo) (zip txs undos))) =
   mset (fm_entries U) + mset (spendable C (concat (map (tx_coins h) txs)))"
proof (induction txs arbitrary: U undos)
  case (Cons tx txs)
  from Cons.prems(1) obtain undo V us where up: "UpdateCoins C tx h U = Some (undo, V)"
    and rest: "connect_txs C h txs V = Some (us, U')" "undos = undo # us" by (rule connect_txs_Cons)
  note new = block_new_Cons [OF Cons.prems(2) up]
  have "mset (fm_entries V) + mset (spent_coins (vin tx) undo) = mset (fm_entries U) + mset (spendable C (tx_coins h tx))"
    using up new(1) by (rule UpdateCoins_mset)
  moreover have "mset (fm_entries U') + mset (concat (map (\<lambda>(tx, undo). spent_coins (vin tx) undo) (zip txs us))) =
      mset (fm_entries V) + mset (spendable C (concat (map (tx_coins h) txs)))"
    using rest(1) new(2) by (rule Cons.IH)
  ultimately show ?case using rest(2) by (simp del: filter_concat) (rule mset_chain)
qed simp

lemma connect_txs_undo:
  "connect_txs C h txs U = Some (undos, U') \<Longrightarrow> block_new U txs \<Longrightarrow> utxo_wf C U \<Longrightarrow> 0 < h \<Longrightarrow>
   \<forall>tx \<in> set txs. \<not> IsCoinBase tx \<Longrightarrow>
   length undos = length txs \<and> utxo_wf C U' \<and>
   disconnect_txs C h (zip txs (map Some undos)) (U', cl) = Some (U, cl \<and> (\<forall>tx \<in> set txs. pegins_clean C (vin tx)))"
proof (induction txs arbitrary: U undos)
  case (Cons tx txs)
  from Cons.prems(1) obtain undo V us where up: "UpdateCoins C tx h U = Some (undo, V)"
    and rest: "connect_txs C h txs V = Some (us, U')" "undos = undo # us" by (rule connect_txs_Cons)
  note new = block_new_Cons [OF Cons.prems(2) up]
  note wf = UpdateCoins_wf [OF up new(1) Cons.prems(3,4)]
  have "\<not> IsCoinBase tx" using Cons.prems(5) by simp
  then show ?case
    using Cons.IH [OF rest(1) new(2) wf Cons.prems(4)] UpdateCoins_undo [OF up new(1) Cons.prems(3)] Cons.prems(5) rest(2)
    by (simp add: conj_ac)
qed simp

text \<open>A block begins with its coinbase and has no other; its transactions are new.\<close>

definition block_form :: "utxo \<Rightarrow> CBlock \<Rightarrow> bool" where
  "block_form U block \<longleftrightarrow> block \<noteq> [] \<and> IsCoinBase (hd block) \<and> (\<forall>tx \<in> set (tl block). \<not> IsCoinBase tx) \<and> block_new U block"

lemma connect_coins_undo:
  assumes "connect_coins C h block U = Some (undo, U')" "block_form U block" "utxo_wf C U" "0 < h"
  shows "length undo + 1 = length block" "utxo_wf C U'"
    and "DisconnectBlock C h block undo U' = Some (U, \<forall>tx \<in> set (tl block). pegins_clean C (vin tx))"
proof -
  obtain tx txs where block: "block = tx # txs" using assms(2) by (cases block) (auto simp: block_form_def)
  obtain undos where "connect_txs C h (tx # txs) U = Some (undos, U')" and tl: "undo = tl undos"
    using assms(1) block by (auto simp: connect_coins_def split: option.splits prod.splits)
  then obtain u V where up: "UpdateCoins C tx h U = Some (u, V)" and rest: "connect_txs C h txs V = Some (undo, U')"
    by (metis connect_txs_Cons list.sel(3))
  have new: "new_tx U tx" "block_new V txs"
    using block_new_Cons [OF _ up, of txs] assms(2) block by (auto simp: block_form_def)
  note wf = UpdateCoins_wf [OF up new(1) assms(3,4)]
  have forms: "IsCoinBase tx" "\<forall>t \<in> set txs. \<not> IsCoinBase t" using assms(2) block by (simp_all add: block_form_def)
  note txs = connect_txs_undo [OF rest new(2) wf assms(4) forms(2), of True]
  then show "length undo + 1 = length block" "utxo_wf C U'" using block by simp_all
  show "DisconnectBlock C h block undo U' = Some (U, \<forall>tx \<in> set (tl block). pegins_clean C (vin tx))"
    using txs UpdateCoins_undo [OF up new(1) assms(3)] forms(1) block by (simp add: DisconnectBlock_def)
qed

end
