(* ===== verification/BlockStake.thy ===== *)
theory BlockStake
  imports Layers Utxo
begin

text \<open>
  How blocks change the registry (\<open>src/pos.cpp\<close>): \<open>PosApplyBlockStake\<close> when a block is
  connected, \<open>PosRevertBlockStake\<close> when it is disconnected, \<open>RebuildUtxoStake\<close> from a scan of
  the unspent outputs at startup, \<open>SeedGenesisStake\<close> before the chain is loaded. The
  claim of the code is that the registry is a function of the unspent outputs: applying a
  block gives what a rebuild from the new set gives, and reverting gives back the old.
\<close>

section \<open>One output\<close>

text \<open>What a staking, pot or round output adds to the registry when it is created, or when the
  spend of it is undone. For an output of the block the coin is the one \<open>AddCoins\<close> makes.\<close>

definition add_stake_pot :: "pos_env \<Rightarrow> COutPoint \<Rightarrow> Coin \<Rightarrow> StakeRegistry \<Rightarrow> StakeRegistry" where
  "add_stake_pot E outpoint coin R =
     (let out = coin_out coin;
          R = (case StakeFromTxOut E out of None \<Rightarrow> R
               | Some (pubkey, amount) \<Rightarrow>
                   let bls_pubkey = (case ParseStakeBlsRegistration E (scriptPubKey out) of None \<Rightarrow> [] | Some reg \<Rightarrow> fst reg)
                   in AddUtxoStake pubkey amount bls_pubkey (int (nHeight coin)) R);
          R = (case PotFromTxOut E out of None \<Rightarrow> R
               | Some pot \<Rightarrow> AddUtxoPot (pot_signer pot) outpoint (pot_asset pot) (pot_value pot)
                   (int (nHeight coin)) (fCoinBase coin) None R)
      in case RoundFromTxOut E out of None \<Rightarrow> R
         | Some r \<Rightarrow> if PosSplitV2Coin E (nHeight coin)
             then AddUtxoPot (ro_signer r) outpoint (ro_asset r) (ro_value r) (int (nHeight coin)) False (Some (ro_round r)) R
             else R)"

definition sub_stake_pot :: "pos_env \<Rightarrow> COutPoint \<Rightarrow> Coin \<Rightarrow> StakeRegistry \<Rightarrow> StakeRegistry" where
  "sub_stake_pot E outpoint coin R =
     (let out = coin_out coin;
          R = (case StakeFromTxOut E out of None \<Rightarrow> R
               | Some (pubkey, amount) \<Rightarrow> SubUtxoStake pubkey amount (int (nHeight coin))
                   (ParseStakeBlsRegistration E (scriptPubKey out) \<noteq> None) R);
          R = (case PotFromTxOut E out of None \<Rightarrow> R | Some pot \<Rightarrow> SubUtxoPot (pot_signer pot) outpoint R)
      in case RoundFromTxOut E out of None \<Rightarrow> R
         | Some r \<Rightarrow> if PosSplitV2Coin E (nHeight coin) then SubUtxoPot (ro_signer r) outpoint R else R)"

definition add_deleg_payout :: "pos_env \<Rightarrow> Coin \<Rightarrow> StakeRegistry \<Rightarrow> StakeRegistry" where
  "add_deleg_payout E coin R =
     (let R = (case DelegationFromTxOut E (coin_out coin) of None \<Rightarrow> R
               | Some (controller, signer) \<Rightarrow> AddUtxoDelegation controller signer (int (nHeight coin)) R)
      in case PayoutFromTxOut E (coin_out coin) of None \<Rightarrow> R
         | Some (signer, policy) \<Rightarrow> if PayoutRecordRecognized E policy (int (nHeight coin))
             then AddUtxoPayout signer policy R else R)"

definition sub_deleg_payout :: "pos_env \<Rightarrow> Coin \<Rightarrow> StakeRegistry \<Rightarrow> StakeRegistry" where
  "sub_deleg_payout E coin R =
     (let R = (case DelegationFromTxOut E (coin_out coin) of None \<Rightarrow> R
               | Some (controller, signer) \<Rightarrow> SubUtxoDelegation controller signer R)
      in case PayoutFromTxOut E (coin_out coin) of None \<Rightarrow> R
         | Some (signer, policy) \<Rightarrow> if PayoutRecordRecognized E policy (int (nHeight coin))
             then SubUtxoPayout signer policy R else R)"

section \<open>A block\<close>

text \<open>The coins spent by the \<open>t\<close>-th transaction, as the undo data has them; none for the coinbase.
  A loop over both the undo record and the inputs ends with the shorter.\<close>

definition spent_at :: "CBlock \<Rightarrow> CBlockUndo \<Rightarrow> nat \<Rightarrow> (COutPoint \<times> Coin) list" where
  "spent_at block undo t =
     (if t \<ge> 1 \<and> t - 1 < length undo then zip (map prevout (vin (block ! t))) (undo ! (t - 1)) else [])"

definition PosApplyBlockStake :: "pos_env \<Rightarrow> CBlock \<Rightarrow> CBlockUndo \<Rightarrow> nat \<Rightarrow> StakeRegistry \<Rightarrow> StakeRegistry" where
  "PosApplyBlockStake E block undo height R =
     (let R = fold (\<lambda>tx. fold (\<lambda>(o', c). add_stake_pot E o' c) (tx_coins height tx)) block R;
          R = fold (\<lambda>t. fold (\<lambda>(o', c). sub_stake_pot E o' c) (spent_at block undo t)) [1..<length block] R
      in fold (\<lambda>t R.
           let R = fold (\<lambda>(o', c). sub_deleg_payout E c) (spent_at block undo t) R
           in fold (\<lambda>(o', c). add_deleg_payout E c) (tx_coins height (block ! t)) R) [0..<length block] R)"

definition PosRevertBlockStake :: "pos_env \<Rightarrow> CBlock \<Rightarrow> CBlockUndo \<Rightarrow> nat \<Rightarrow> StakeRegistry \<Rightarrow> StakeRegistry" where
  "PosRevertBlockStake E block undo height R =
     (let R = fold (\<lambda>t R.
            let R = fold (\<lambda>(o', c). sub_deleg_payout E c) (tx_coins height (block ! t)) R
            in fold (\<lambda>(o', c). add_deleg_payout E c) (spent_at block undo t) R) (rev [0..<length block]) R;
          R = fold (\<lambda>t. fold (\<lambda>(o', c). add_stake_pot E o' c) (spent_at block undo t)) [1..<length block] R
      in fold (\<lambda>tx. fold (\<lambda>(o', c). sub_stake_pot E o' c) (tx_coins height tx)) block R)"

section \<open>The scan at startup\<close>

text \<open>The local maps of the scan are kept in a registry value \<open>L\<close>; the cursor yields the coins of
  the set in the order of its database, and \<open>None\<close> where a read fails.\<close>

definition scan_stake :: "pos_env \<Rightarrow> Coin \<Rightarrow> StakeRegistry \<Rightarrow> StakeRegistry" where
  "scan_stake E coin L =
     (case StakeFromTxOut E (coin_out coin) of None \<Rightarrow> L
      | Some (pk, amount) \<Rightarrow>
          let L = L\<lparr>m_utxo := fm_plus pk amount (m_utxo L),
                    m_utxo_tranches := fmupd pk (fm_plus (int (nHeight coin)) amount
                      (fm_get fmempty (m_utxo_tranches L) pk)) (m_utxo_tranches L)\<rparr>
          in case ParseStakeBlsRegistration E (scriptPubKey (coin_out coin)) of None \<Rightarrow> L
             | Some reg \<Rightarrow> L\<lparr>m_bls_utxo := fmupd pk (fst reg) (m_bls_utxo L),
                             m_bls_utxo_outputs := fm_plus pk 1 (m_bls_utxo_outputs L)\<rparr>)"

definition scan_deleg :: "pos_env \<Rightarrow> Coin \<Rightarrow> StakeRegistry \<Rightarrow> StakeRegistry" where
  "scan_deleg E coin L =
     (case DelegationFromTxOut E (coin_out coin) of None \<Rightarrow> L
      | Some (c, s) \<Rightarrow> L\<lparr>m_deleg_utxo := fmupd c s (m_deleg_utxo L),
                        m_deleg_height := fmupd c (int (nHeight coin)) (m_deleg_height L)\<rparr>)"

definition scan_payout :: "pos_env \<Rightarrow> Coin \<Rightarrow> StakeRegistry \<Rightarrow> StakeRegistry" where
  "scan_payout E coin L =
     (case PayoutFromTxOut E (coin_out coin) of None \<Rightarrow> L
      | Some (s, p) \<Rightarrow> if PayoutRecordRecognized E p (int (nHeight coin))
          then L\<lparr>m_payout_utxo := fmupd s (fmupd (pp_activation p) p
                 (fm_get fmempty (m_payout_utxo L) s)) (m_payout_utxo L)\<rparr> else L)"

definition scan_pot :: "pos_env \<Rightarrow> COutPoint \<Rightarrow> Coin \<Rightarrow> StakeRegistry \<Rightarrow> StakeRegistry" where
  "scan_pot E key coin L =
     (case PotFromTxOut E (coin_out coin) of None \<Rightarrow> L
      | Some pot \<Rightarrow> L\<lparr>m_pot_utxo := fmupd (pot_signer pot) (fmupd key
          \<lparr>pr_asset = pot_asset pot, pr_value = pot_value pot, pr_height = int (nHeight coin),
           pr_coinbase = fCoinBase coin, pr_round = None\<rparr>
          (fm_get fmempty (m_pot_utxo L) (pot_signer pot))) (m_pot_utxo L)\<rparr>)"

definition scan_round :: "pos_env \<Rightarrow> COutPoint \<Rightarrow> Coin \<Rightarrow> StakeRegistry \<Rightarrow> StakeRegistry" where
  "scan_round E key coin L =
     (case RoundFromTxOut E (coin_out coin) of None \<Rightarrow> L
      | Some r \<Rightarrow> if PosSplitV2Coin E (nHeight coin)
          then L\<lparr>m_pot_utxo := fmupd (ro_signer r) (fmupd key
            \<lparr>pr_asset = ro_asset r, pr_value = ro_value r, pr_height = int (nHeight coin),
             pr_coinbase = False, pr_round = Some (ro_round r)\<rparr>
            (fm_get fmempty (m_pot_utxo L) (ro_signer r))) (m_pot_utxo L)\<rparr>
          else L)"

definition scan_coin :: "pos_env \<Rightarrow> COutPoint \<Rightarrow> Coin \<Rightarrow> StakeRegistry \<Rightarrow> StakeRegistry" where
  "scan_coin E key coin L =
     scan_round E key coin (scan_pot E key coin (scan_payout E coin (scan_deleg E coin (scan_stake E coin L))))"

fun scan_coins :: "pos_env \<Rightarrow> (COutPoint \<times> Coin) option list \<Rightarrow> StakeRegistry \<Rightarrow> StakeRegistry option" where
  "scan_coins E [] L = Some L"
| "scan_coins E (None # es) L = None"
| "scan_coins E (Some (key, coin) # es) L = scan_coins E es (scan_coin E key coin L)"

text \<open>\<open>None\<close> stands for the return value \<open>false\<close>, which leaves the registry as it is.\<close>

definition RebuildUtxoStake :: "pos_env \<Rightarrow> (COutPoint \<times> Coin) option list option \<Rightarrow> StakeRegistry \<Rightarrow> StakeRegistry option" where
  "RebuildUtxoStake E cursor R =
     (case cursor of None \<Rightarrow> None
      | Some entries \<Rightarrow> (case scan_coins E entries Reg_Clear of None \<Rightarrow> None
          | Some L \<Rightarrow> Some (SetUtxoStake (m_utxo L) (m_bls_utxo L) (m_deleg_utxo L) (m_payout_utxo L)
              (m_utxo_tranches L) (m_deleg_height L) (m_pot_utxo L) (m_bls_utxo_outputs L) R)))"

definition SeedGenesisStake :: "pos_env \<Rightarrow> CBlock \<Rightarrow> StakeRegistry \<Rightarrow> StakeRegistry" where
  "SeedGenesisStake E genesis R =
     fold (\<lambda>tx. fold (\<lambda>out R. case StakeFromTxOut E out of None \<Rightarrow> R
         | Some (pubkey, amount) \<Rightarrow>
             let bls = (case ParseStakeBlsRegistration E (scriptPubKey out) of None \<Rightarrow> [] | Some reg \<Rightarrow> fst reg)
             in AddUtxoStake pubkey amount bls 0 R) (vout tx)) genesis R"

section \<open>Outputs as operations on the layers\<close>

definition sp_of :: "pos_env \<Rightarrow> COutPoint \<times> Coin \<Rightarrow> sp_op" where
  "sp_of E e = (case e of (o', c) \<Rightarrow> let out = coin_out c in
     case StakeFromTxOut E out of
       Some (pk, a) \<Rightarrow> SpStake pk a (case ParseStakeBlsRegistration E (scriptPubKey out) of None \<Rightarrow> [] | Some reg \<Rightarrow> fst reg) (int (nHeight c))
     | None \<Rightarrow> (case PotFromTxOut E out of
         Some p \<Rightarrow> SpPot (pot_signer p) o' (pot_asset p) (pot_value p) (int (nHeight c)) (fCoinBase c) None
       | None \<Rightarrow> (case RoundFromTxOut E out of
           Some r \<Rightarrow> if PosSplitV2Coin E (nHeight c)
             then SpPot (ro_signer r) o' (ro_asset r) (ro_value r) (int (nHeight c)) False (Some (ro_round r)) else SpNone
         | None \<Rightarrow> SpNone)))"

definition dp_of :: "pos_env \<Rightarrow> COutPoint \<times> Coin \<Rightarrow> dp_op" where
  "dp_of E e = (let c = snd e; out = coin_out c in
     case DelegationFromTxOut E out of Some (k, s) \<Rightarrow> DpDeleg k s (int (nHeight c))
     | None \<Rightarrow> (case PayoutFromTxOut E out of
         Some (s, p) \<Rightarrow> if PayoutRecordRecognized E p (int (nHeight c)) then DpPayout s p else DpNone
       | None \<Rightarrow> DpNone))"

text \<open>An output is at most one kind of record, so the tests in sequence come to one operation.\<close>

lemma from_out_kind:
  "StakeFromTxOut E out \<noteq> None \<Longrightarrow> kind_accepts E (scriptPubKey out) StakeRec"
  "PotFromTxOut E out \<noteq> None \<Longrightarrow> kind_accepts E (scriptPubKey out) PotRec"
  "RoundFromTxOut E out \<noteq> None \<Longrightarrow> kind_accepts E (scriptPubKey out) RoundRec"
  "DelegationFromTxOut E out \<noteq> None \<Longrightarrow> kind_accepts E (scriptPubKey out) DelegationRec"
  "PayoutFromTxOut E out \<noteq> None \<Longrightarrow> kind_accepts E (scriptPubKey out) PayoutRec"
  by (auto simp: kind_accepts_def StakeFromTxOut_def PotFromTxOut_def RoundFromTxOut_def DelegationFromTxOut_def
      PayoutFromTxOut_def ParseStakeScript_def Let_def bind_eq_Some_conv split: if_splits option.splits prod.splits)

lemma out_kinds_exclusive:
  "StakeFromTxOut E out \<noteq> None \<Longrightarrow> PotFromTxOut E out = None \<and> RoundFromTxOut E out = None"
  "PotFromTxOut E out \<noteq> None \<Longrightarrow> RoundFromTxOut E out = None"
  "DelegationFromTxOut E out \<noteq> None \<Longrightarrow> PayoutFromTxOut E out = None"
  using kinds_exclusive [OF from_out_kind(1) from_out_kind(2), of E out]
    kinds_exclusive [OF from_out_kind(1) from_out_kind(3), of E out]
    kinds_exclusive [OF from_out_kind(2) from_out_kind(3), of E out]
    kinds_exclusive [OF from_out_kind(4) from_out_kind(5), of E out]
  by (auto simp del: not_None_eq)

lemma bls_registration_ne: "ParseStakeBlsRegistration E s = Some reg \<Longrightarrow> fst reg \<noteq> []"
  by (auto simp: ParseStakeBlsRegistration_def split: option.splits if_splits)

lemma add_stake_pot_op: "add_stake_pot E o' c = sp_add (sp_of E (o', c))"
proof
  fix R show "add_stake_pot E o' c R = sp_add (sp_of E (o', c)) R"
    using out_kinds_exclusive(1,2) [of E "coin_out c"]
    by (cases "StakeFromTxOut E (coin_out c)"; cases "PotFromTxOut E (coin_out c)")
      (auto simp: add_stake_pot_def sp_of_def Let_def split: option.split prod.split)
qed

lemma sub_stake_pot_op: "sub_stake_pot E o' c = sp_sub (sp_of E (o', c))"
proof
  fix R show "sub_stake_pot E o' c R = sp_sub (sp_of E (o', c)) R"
    using out_kinds_exclusive(1,2) [of E "coin_out c"] bls_registration_ne [of E "scriptPubKey (coin_out c)"]
    by (cases "StakeFromTxOut E (coin_out c)"; cases "PotFromTxOut E (coin_out c)")
      (auto simp: sub_stake_pot_def sp_of_def Let_def split: option.split prod.split)
qed

lemma add_deleg_payout_op: "add_deleg_payout E c = dp_add (dp_of E (o', c))"
proof
  fix R show "add_deleg_payout E c R = dp_add (dp_of E (o', c)) R"
    using out_kinds_exclusive(3) [of E "coin_out c"]
    by (cases "DelegationFromTxOut E (coin_out c)")
      (auto simp: add_deleg_payout_def dp_of_def Let_def split: option.split prod.split)
qed

lemma sub_deleg_payout_op: "sub_deleg_payout E c = dp_sub (dp_of E (o', c))"
proof
  fix R show "sub_deleg_payout E c R = dp_sub (dp_of E (o', c)) R"
    using out_kinds_exclusive(3) [of E "coin_out c"]
    by (cases "DelegationFromTxOut E (coin_out c)")
      (auto simp: sub_deleg_payout_def dp_of_def Let_def split: option.split prod.split)
qed

section \<open>The two kinds of layer do not touch each other\<close>

lemma sp_add_keeps [simp]:
  "m_deleg_utxo (sp_add a R) = m_deleg_utxo R" "m_deleg_height (sp_add a R) = m_deleg_height R"
  "m_payout_utxo (sp_add a R) = m_payout_utxo R" "m_config (sp_add a R) = m_config R" "m_bls (sp_add a R) = m_bls R"
  by (cases a; simp add: registry_simps)+

lemma dp_add_keeps [simp]:
  "m_utxo (dp_add d R) = m_utxo R" "m_utxo_tranches (dp_add d R) = m_utxo_tranches R"
  "m_bls_utxo (dp_add d R) = m_bls_utxo R" "m_bls_utxo_outputs (dp_add d R) = m_bls_utxo_outputs R"
  "m_pot_utxo (dp_add d R) = m_pot_utxo R" "m_config (dp_add d R) = m_config R" "m_bls (dp_add d R) = m_bls R"
  by (cases d; simp add: AddUtxoDelegation_def AddUtxoPayout_def)+

lemma sp_dp_commute: "sp_add a (dp_add d R) = dp_add d (sp_add a R)"
  by (cases a; cases d)
    (auto simp: AddUtxoStake_def AddUtxoPot_def AddUtxoDelegation_def AddUtxoPayout_def Let_def)

lemma sp_fits_dp_add [simp]: "sp_fits a (dp_add d R) = sp_fits a R"
  by (cases a) simp_all

lemma dp_fits_sp_add [simp]: "dp_fits d (sp_add a R) = dp_fits d R"
  by (cases d) (simp_all add: HasDelegation_def HasPayoutAt_def)

lemma sp_adds_dp_add: "fold sp_add ops (dp_add d R) = dp_add d (fold sp_add ops R)"
  by (induction ops arbitrary: R) (simp_all add: sp_dp_commute)

lemma sp_dp_adds: "fold sp_add ops (fold dp_add ds R) = fold dp_add ds (fold sp_add ops R)"
  by (induction ds arbitrary: R) (simp_all add: sp_adds_dp_add)

lemma sp_fits_all_dp_add: "sp.fits_all ops (dp_add d R) = sp.fits_all ops R"
  by (induction ops arbitrary: R) (simp_all add: sp_dp_commute)

lemma sp_fits_all_dp_adds: "sp.fits_all ops (fold dp_add ds R) = sp.fits_all ops R"
  by (induction ds arbitrary: R) (simp_all add: sp_fits_all_dp_add)

lemma dp_fits_all_sp_add: "dp.fits_all ds (sp_add a R) = dp.fits_all ds R"
  by (induction ds arbitrary: R) (simp_all flip: sp_dp_commute)

lemma dp_fits_all_sp_adds: "dp.fits_all ds (fold sp_add ops R) = dp.fits_all ds R"
  by (induction ops arbitrary: R) (simp_all add: dp_fits_all_sp_add)

section \<open>The scan as operations\<close>

lemma scan_stake_op:
  "scan_stake E c L = add_stake_pot E o' c L" if "StakeFromTxOut E (coin_out c) \<noteq> None"
  using out_kinds_exclusive(1) [OF that] that bls_registration_ne [of E "scriptPubKey (coin_out c)"]
  by (auto simp: scan_stake_def add_stake_pot_def AddUtxoStake_def Let_def split: option.split)

lemma scan_deleg_payout: "scan_payout E c (scan_deleg E c L) = add_deleg_payout E c L"
  by (auto simp: scan_payout_def scan_deleg_def add_deleg_payout_def AddUtxoDelegation_def AddUtxoPayout_def
      Let_def split: option.split)

lemma scan_pot_round:
  "scan_round E o' c (scan_pot E o' c L) = add_stake_pot E o' c L" if "StakeFromTxOut E (coin_out c) = None"
  using that
  by (cases "PotFromTxOut E (coin_out c)"; cases "RoundFromTxOut E (coin_out c)")
    (simp_all add: scan_pot_def scan_round_def add_stake_pot_def AddUtxoPot_def)

lemma scan_coin_op: "scan_coin E o' c L = dp_add (dp_of E (o', c)) (sp_add (sp_of E (o', c)) L)"
proof (cases "StakeFromTxOut E (coin_out c)")
  case None
  then have "scan_stake E c L = L" by (simp add: scan_stake_def)
  then have "scan_coin E o' c L = add_stake_pot E o' c (add_deleg_payout E c L)"
    using scan_pot_round [OF None] by (simp add: scan_coin_def scan_deleg_payout)
  then show ?thesis by (simp add: add_stake_pot_op add_deleg_payout_op [of E c o'] sp_dp_commute)
next
  case (Some st)
  then have "PotFromTxOut E (coin_out c) = None" "RoundFromTxOut E (coin_out c) = None"
    using out_kinds_exclusive(1) [of E "coin_out c"] by auto
  then have "scan_coin E o' c L = add_deleg_payout E c (scan_stake E c L)"
    by (simp add: scan_coin_def scan_deleg_payout scan_round_def scan_pot_def)
  then show ?thesis using scan_stake_op [of E c L o'] Some
    by (simp add: add_stake_pot_op add_deleg_payout_op [of E c o'])
qed

section \<open>Outputs that are no records\<close>

lemma no_record_ops:
  assumes "\<And>k. \<not> kind_accepts E (scriptPubKey (coin_out (snd e))) k"
  shows "sp_of E e = SpNone" "dp_of E e = DpNone"
  using assms from_out_kind [of E "coin_out (snd e)"]
  by (auto simp: sp_of_def dp_of_def Let_def split: option.splits prod.splits)

lemma unspendable_no_record: "IsUnspendable C s \<Longrightarrow> \<not> kind_accepts E s k"
  using record_first_op [of E s k] record_length [of E s k] by (auto simp: IsUnspendable_def)

lemma coinEmpty_no_record: "\<not> kind_accepts E (scriptPubKey (coin_out coinEmpty)) k"
  using record_first_op [of E "[]" k] by (auto simp: coinEmpty_def)

text \<open>The operations of a list of coins, those that do nothing left out.\<close>

definition sps :: "pos_env \<Rightarrow> (COutPoint \<times> Coin) list \<Rightarrow> sp_op list" where
  "sps E es = filter (\<lambda>a. a \<noteq> SpNone) (map (sp_of E) es)"

definition dps :: "pos_env \<Rightarrow> (COutPoint \<times> Coin) list \<Rightarrow> dp_op list" where
  "dps E es = filter (\<lambda>d. d \<noteq> DpNone) (map (dp_of E) es)"

lemma sps_simps [simp]: "sps E [] = []" "sps E (es @ fs) = sps E es @ sps E fs"
  "sps E (e # es) = (if sp_of E e = SpNone then sps E es else sp_of E e # sps E es)"
  by (simp_all add: sps_def)

lemma dps_simps [simp]: "dps E [] = []" "dps E (es @ fs) = dps E es @ dps E fs"
  "dps E (e # es) = (if dp_of E e = DpNone then dps E es else dp_of E e # dps E es)"
  by (simp_all add: dps_def)

lemma mset_sps: "mset (sps E es) = filter_mset (\<lambda>a. a \<noteq> SpNone) (image_mset (sp_of E) (mset es))"
  by (simp add: sps_def)

lemma mset_dps: "mset (dps E es) = filter_mset (\<lambda>d. d \<noteq> DpNone) (image_mset (dp_of E) (mset es))"
  by (simp add: dps_def)

lemma sps_none: "(\<And>e. e \<in> set es \<Longrightarrow> \<not> P e \<Longrightarrow> sp_of E e = SpNone) \<Longrightarrow> sps E (filter P es) = sps E es"
  by (induction es) auto

lemma dps_none: "(\<And>e. e \<in> set es \<Longrightarrow> \<not> P e \<Longrightarrow> dp_of E e = DpNone) \<Longrightarrow> dps E (filter P es) = dps E es"
  by (induction es) auto

lemma sps_spendable [simp]: "sps E (spendable C es) = sps E es"
  by (rule sps_none) (simp add: no_record_ops unspendable_no_record)

lemma dps_spendable [simp]: "dps E (spendable C es) = dps E es"
  by (rule dps_none) (simp add: no_record_ops unspendable_no_record)

lemma folds_ops:
  "fold (\<lambda>(o', c). add_stake_pot E o' c) es R = fold sp_add (sps E es) R"
  "fold (\<lambda>(o', c). sub_stake_pot E o' c) es R = fold sp_sub (sps E es) R"
  "fold (\<lambda>(o', c). add_deleg_payout E c) es R = fold dp_add (dps E es) R"
  "fold (\<lambda>(o', c). sub_deleg_payout E c) es R = fold dp_sub (dps E es) R"
proof (induction es arbitrary: R)
  case (Cons e es)
  {
    case 1 then show ?case using Cons.IH(1) by (cases e) (simp add: add_stake_pot_op)
  next
    case 2 then show ?case using Cons.IH(2) by (cases e) (simp add: sub_stake_pot_op)
  next
    case 3 then show ?case using Cons.IH(3) by (cases e) (simp add: add_deleg_payout_op [of E _ "fst e"])
  next
    case 4 then show ?case using Cons.IH(4) by (cases e) (simp add: sub_deleg_payout_op [of E _ "fst e"])
  }
qed simp_all

section \<open>A block as operations\<close>

definition tx_spent :: "CTransaction \<Rightarrow> CTxUndo \<Rightarrow> (COutPoint \<times> Coin) list" where
  "tx_spent tx undo = zip (map prevout (vin tx)) undo"

lemma sps_map_none:
  "(\<And>x. x \<in> set xs \<Longrightarrow> \<not> P x \<Longrightarrow> sp_of E (g x) = SpNone) \<Longrightarrow> sps E (map g (filter P xs)) = sps E (map g xs)"
  by (induction xs) auto

lemma dps_map_none:
  "(\<And>x. x \<in> set xs \<Longrightarrow> \<not> P x \<Longrightarrow> dp_of E (g x) = DpNone) \<Longrightarrow> dps E (map g (filter P xs)) = dps E (map g xs)"
  by (induction xs) auto

lemma tx_spent_ops:
  assumes "UpdateCoins C tx h U = Some (undo, U')"
  shows "sps E (tx_spent tx undo) = sps E (spent_coins (vin tx) undo)" (is ?s)
    and "dps E (tx_spent tx undo) = dps E (spent_coins (vin tx) undo)" (is ?d)
proof -
  let ?f = "\<lambda>(i, c). (prevout i, c)"
  have z: "tx_spent tx undo = map ?f (zip (vin tx) undo)" by (simp add: tx_spent_def zip_map1)
  have none: "sp_of E (?f x) = SpNone \<and> dp_of E (?f x) = DpNone"
    if x: "x \<in> set (zip (vin tx) undo)" and p: "\<not> (case x of (i, c) \<Rightarrow> \<not> m_is_pegin i)" for x
  proof -
    obtain i c where ic: "x = (i, c)" by (cases x)
    then have "c = coinEmpty" using UpdateCoins_dummies [OF assms, of i c] x p by simp
    then show ?thesis using ic coinEmpty_no_record by (simp add: no_record_ops)
  qed
  show ?s unfolding z spent_coins_def by (rule sps_map_none [symmetric]) (use none in blast)
  show ?d unfolding z spent_coins_def by (rule dps_map_none [symmetric]) (use none in blast)
qed

lemma fold_upt_nth: "fold (\<lambda>i. f (xs ! i)) [0..<length xs] s = fold f xs s"
proof -
  have "fold f (map ((!) xs) [0..<length xs]) s = fold (\<lambda>i. f (xs ! i)) [0..<length xs] s"
    by (simp only: fold_map comp_def)
  then show ?thesis by (simp only: map_nth)
qed

text \<open>With one undo record for every transaction after the first, the loops over indices are loops
  over the transactions paired with what they spent; the coinbase spends nothing.\<close>

lemma spent_at_tx:
  assumes "length block = length undo + 1" "t < length block"
  shows "spent_at block undo t = tx_spent (block ! t) (([] # undo) ! t)"
  using assms by (cases t) (simp_all add: spent_at_def tx_spent_def)

lemma block_at:
  assumes "length block = length undo + 1" "t < length block"
  shows "F (block ! t) (spent_at block undo t) = (\<lambda>(tx, u). F tx (tx_spent tx u)) (zip block ([] # undo) ! t)"
proof -
  have "zip block ([] # undo) ! t = (block ! t, ([] # undo) ! t)" using assms by (intro nth_zip) simp_all
  then show ?thesis by (simp add: spent_at_tx [OF assms])
qed

lemma fold_block:
  assumes "length block = length undo + 1"
  shows "fold (\<lambda>t. F (block ! t) (spent_at block undo t)) [0..<length block] R =
    fold (\<lambda>(tx, u). F tx (tx_spent tx u)) (zip block ([] # undo)) R"
proof -
  let ?z = "zip block ([] # undo)"
  have n: "length ?z = length block" using assms by simp
  have "fold (\<lambda>t. F (block ! t) (spent_at block undo t)) [0..<length block] R =
      fold (\<lambda>t. (\<lambda>(tx, u). F tx (tx_spent tx u)) (?z ! t)) [0..<length ?z] R"
    unfolding n by (intro fold_cong refl block_at [OF assms]) simp
  then show ?thesis by (simp only: fold_upt_nth)
qed

lemma fold_block_rev:
  assumes "length block = length undo + 1"
  shows "fold (\<lambda>t. F (block ! t) (spent_at block undo t)) (rev [0..<length block]) R =
    fold (\<lambda>(tx, u). F tx (tx_spent tx u)) (rev (zip block ([] # undo))) R"
proof -
  let ?z = "zip block ([] # undo)"
  have "fold (\<lambda>t. F (block ! t) (spent_at block undo t)) (rev [0..<length block]) R =
      fold (\<lambda>t. (\<lambda>(tx, u). F tx (tx_spent tx u)) (?z ! t)) (rev [0..<length block]) R"
    by (intro fold_cong refl block_at [OF assms]) simp
  also have "\<dots> = fold (\<lambda>(tx, u). F tx (tx_spent tx u)) (map ((!) ?z) (rev [0..<length ?z])) R"
    using assms by (simp add: fold_map comp_def)
  also have "map ((!) ?z) (rev [0..<length ?z]) = rev ?z" by (simp only: rev_map [symmetric] map_nth)
  finally show ?thesis .
qed

lemma sps_concat: "sps E (concat xss) = concat (map (sps E) xss)"
  by (induction xss) simp_all

lemma fold_concat: "fold (\<lambda>x. fold g (h x)) xs R = fold g (concat (map h xs)) R"
  by (induction xs arbitrary: R) simp_all

text \<open>All that a block creates, and all that it spends.\<close>

definition block_created :: "nat \<Rightarrow> CBlock \<Rightarrow> (COutPoint \<times> Coin) list" where
  "block_created height block = concat (map (tx_coins height) block)"

definition block_spent :: "CBlock \<Rightarrow> CBlockUndo \<Rightarrow> (COutPoint \<times> Coin) list" where
  "block_spent block undo = concat (map (\<lambda>(tx, u). tx_spent tx u) (zip block ([] # undo)))"

lemma fold_block_spent:
  assumes "length block = length undo + 1"
  shows "fold (\<lambda>t. fold g (spent_at block undo t)) [1..<length block] R = fold g (block_spent block undo) R"
proof -
  have "[0..<length block] = 0 # [1..<length block]" using assms by (simp add: upt_rec)
  moreover have "spent_at block undo 0 = []" by (simp add: spent_at_def)
  ultimately have "fold (\<lambda>t. fold g (spent_at block undo t)) [1..<length block] R =
      fold (\<lambda>t. fold g (spent_at block undo t)) [0..<length block] R" by simp
  also have "\<dots> = fold (\<lambda>(tx, u). fold g (tx_spent tx u)) (zip block ([] # undo)) R"
    using fold_block [OF assms, of "\<lambda>_. fold g" R] .
  also have "\<dots> = fold g (block_spent block undo) R"
    using fold_concat [of g "\<lambda>(tx, u). tx_spent tx u"] by (simp add: block_spent_def case_prod_unfold)
  finally show ?thesis .
qed

definition dp_tx :: "pos_env \<Rightarrow> nat \<Rightarrow> CTransaction \<times> CTxUndo \<Rightarrow> StakeRegistry \<Rightarrow> StakeRegistry" where
  "dp_tx E height e R = (case e of (tx, u) \<Rightarrow>
     fold dp_add (dps E (tx_coins height tx)) (fold dp_sub (dps E (tx_spent tx u)) R))"

definition dp_untx :: "pos_env \<Rightarrow> nat \<Rightarrow> CTransaction \<times> CTxUndo \<Rightarrow> StakeRegistry \<Rightarrow> StakeRegistry" where
  "dp_untx E height e R = (case e of (tx, u) \<Rightarrow>
     fold dp_add (dps E (tx_spent tx u)) (fold dp_sub (dps E (tx_coins height tx)) R))"

lemma apply_ops:
  assumes "length block = length undo + 1"
  shows "PosApplyBlockStake E block undo height R =
    fold (dp_tx E height) (zip block ([] # undo))
      (fold sp_sub (sps E (block_spent block undo)) (fold sp_add (sps E (block_created height block)) R))"
proof -
  have "fold (dp_tx E height) es S = fold (\<lambda>(tx, u) R. fold dp_add (dps E (tx_coins height tx))
      (fold dp_sub (dps E (tx_spent tx u)) R)) es S" for es S
    by (simp add: dp_tx_def [abs_def] case_prod_unfold)
  then show ?thesis
    unfolding PosApplyBlockStake_def Let_def folds_ops fold_block_spent [OF assms]
      fold_block [OF assms, where F = "\<lambda>tx sp R. fold dp_add (dps E (tx_coins height tx)) (fold dp_sub (dps E sp) R)"]
    by (simp add: fold_concat folds_ops block_created_def sps_concat comp_def)
qed

lemma revert_ops:
  assumes "length block = length undo + 1"
  shows "PosRevertBlockStake E block undo height R =
    fold sp_sub (sps E (block_created height block)) (fold sp_add (sps E (block_spent block undo))
      (fold (dp_untx E height) (rev (zip block ([] # undo))) R))"
proof -
  have "fold (dp_untx E height) es S = fold (\<lambda>(tx, u) R. fold dp_add (dps E (tx_spent tx u))
      (fold dp_sub (dps E (tx_coins height tx)) R)) es S" for es S
    by (simp add: dp_untx_def [abs_def] case_prod_unfold)
  then show ?thesis
    unfolding PosRevertBlockStake_def Let_def folds_ops fold_block_spent [OF assms]
      fold_block_rev [OF assms, where F = "\<lambda>tx sp R. fold dp_add (dps E sp) (fold dp_sub (dps E (tx_coins height tx)) R)"]
    by (simp add: fold_concat folds_ops block_created_def sps_concat comp_def)
qed

end
