(* ===== verification/Rebuild.thy ===== *)
theory Rebuild
  imports BlockStake
begin

text \<open>
  The registry is a function of the unspent outputs. The conditions under which the code means it
  to be are stated on the outputs themselves: the stake fits 64 bits, a staker registers one BLS
  key, and no two unspent records name one controller, or one signer and activation height. Then a
  scan gives the same in whatever order it reads. A block that spends and creates records in an order
  in which none disturbs another (\<open>records_in_order\<close>) takes the registry of the old coins to that of
  the new ones when it is applied, and back when it is reverted; that the block rules give these
  conditions is shown in theory \<open>Tip\<close>.
\<close>

section \<open>Conditions on the unspent outputs\<close>

text \<open>What identifies a delegation or payout record.\<close>

fun dp_key :: "dp_op \<Rightarrow> CPubKey + CPubKey \<times> int" where
  "dp_key DpNone = Inl PubKey_Invalid"
| "dp_key (DpDeleg c s h) = Inl c"
| "dp_key (DpPayout s p) = Inr (s, pp_activation p)"

definition records_unique :: "pos_env \<Rightarrow> utxo \<Rightarrow> bool" where
  "records_unique E U \<longleftrightarrow> distinct (map dp_key (dps E (fm_entries U)))"

fun stake_amount :: "sp_op \<Rightarrow> nat" where
  "stake_amount (SpStake pk a b h) = unat a"
| "stake_amount SpNone = 0"
| "stake_amount (SpPot s out a v h c r) = 0"

fun bls_agree :: "sp_op \<Rightarrow> sp_op \<Rightarrow> bool" where
  "bls_agree (SpStake pk a b h) (SpStake pk' a' b' h') = (pk = pk' \<longrightarrow> b \<noteq> [] \<longrightarrow> b' \<noteq> [] \<longrightarrow> b = b')"
| "bls_agree _ _ = True"

definition registry_fits :: "pos_env \<Rightarrow> (COutPoint \<times> Coin) list \<Rightarrow> bool" where
  "registry_fits E es \<longleftrightarrow>
     distinct (map fst es) \<and> length es < 2 ^ 32 \<and> sum_list (map (\<lambda>e. stake_amount (sp_of E e)) es) < 2 ^ 64 \<and>
     list_all (\<lambda>e. list_all (\<lambda>f. bls_agree (sp_of E e) (sp_of E f)) es) es"

section \<open>They admit the additions\<close>

definition sp_empty :: "StakeRegistry \<Rightarrow> bool" where
  "sp_empty R \<longleftrightarrow> m_utxo R = fmempty \<and> m_utxo_tranches R = fmempty \<and> m_bls_utxo R = fmempty \<and>
     m_bls_utxo_outputs R = fmempty \<and> m_pot_utxo R = fmempty"

definition dp_empty :: "StakeRegistry \<Rightarrow> bool" where
  "dp_empty R \<longleftrightarrow> m_deleg_utxo R = fmempty \<and> m_deleg_height R = fmempty \<and> m_payout_utxo R = fmempty"

lemma sp_inv_empty: "sp_empty R \<Longrightarrow> sp_inv R"
  by (simp add: sp_empty_def sp_inv_def)

lemma dp_inv_empty: "dp_empty R \<Longrightarrow> dp_inv R"
  by (simp add: dp_empty_def dp_inv_def)

lemma dp_empty_adds [simp]: "dp_empty (fold sp_add ops R) = dp_empty R"
  by (induction ops arbitrary: R) (simp_all add: dp_empty_def)

lemma sp_empty_adds [simp]: "sp_empty (fold dp_add ds R) = sp_empty R"
  by (induction ds arbitrary: R) (simp_all add: sp_empty_def)

lemma has_record:
  assumes "dp_empty R" "DpNone \<notin> set ds"
  shows "HasDelegation (fold dp_add ds R) c \<longleftrightarrow> Inl c \<in> dp_key ` set ds"
    and "HasPayoutAt (fold dp_add ds R) s a \<longleftrightarrow> Inr (s, a) \<in> dp_key ` set ds"
  using assms(2)
proof (induction ds rule: rev_induct)
  case Nil
  { case 1 then show ?case using assms(1) by (simp add: HasDelegation_def dp_empty_def)
  next case 2 then show ?case using assms(1) by (simp add: HasPayoutAt_def dp_empty_def) }
next
  case (snoc d ds)
  { case 1 then show ?case using snoc.IH(1) by (cases d) (auto simp: HasDelegation_def registry_simps)
  next case 2 then show ?case using snoc.IH(2) by (cases d) (auto simp: HasPayoutAt_get registry_simps) }
qed

lemma dp_fits_distinct:
  "dp_empty R \<Longrightarrow> DpNone \<notin> set ds \<Longrightarrow> distinct (map dp_key ds) \<Longrightarrow> dp.fits_all ds R"
proof (induction ds rule: rev_induct)
  case (snoc d ds)
  then have "dp_key d \<notin> dp_key ` set ds" "DpNone \<notin> set ds" "d \<noteq> DpNone" by auto
  then have "dp_fits d (fold dp_add ds R)" using has_record [OF snoc.prems(1), of ds] by (cases d) auto
  then show ?case using snoc by (simp add: dp.fits_all_append)
qed simp

lemma records_fit: "dp_empty R \<Longrightarrow> records_unique E U \<Longrightarrow> dp.fits_all (dps E (fm_entries U)) R"
  by (rule dp_fits_distinct) (simp_all add: records_unique_def dps_def)

text \<open>What the layers hold after a list of additions, against the list itself.\<close>

lemma adds_weight:
  assumes "sp_empty R" "sum_list (map stake_amount ops) < 2 ^ 64"
  shows "unat (fm_get 0 (m_utxo (fold sp_add ops R)) pk) \<le> sum_list (map stake_amount ops)"
  using assms(2)
proof (induction ops rule: rev_induct)
  case Nil
  then show ?case using assms(1) by (simp add: sp_empty_def fm_get_def)
next
  case (snoc a ops)
  then have IH: "unat (fm_get 0 (m_utxo (fold sp_add ops R)) pk) \<le> sum_list (map stake_amount ops)" by simp
  show ?case
  proof (cases a)
    case (SpStake k x b h)
    then have "unat (fm_get 0 (m_utxo (fold sp_add ops R)) pk + x) = unat (fm_get 0 (m_utxo (fold sp_add ops R)) pk) + unat x"
      using IH snoc.prems by (intro no_wrap) simp
    then show ?thesis using IH SpStake by (simp add: registry_simps)
  qed (use IH in \<open>simp_all add: registry_simps\<close>)
qed

lemma adds_bls:
  assumes "sp_empty R" "fmlookup (m_bls_utxo (fold sp_add ops R)) pk = Some b"
  shows "\<exists>a h. SpStake pk a b h \<in> set ops \<and> b \<noteq> []"
  using assms(2)
proof (induction ops rule: rev_induct)
  case (snoc a ops)
  then show ?case by (cases a) (auto simp: registry_simps split: if_splits)
qed (use assms(1) in \<open>simp add: sp_empty_def\<close>)

lemma adds_outputs:
  assumes "sp_empty R" "length ops < 2 ^ 32"
  shows "unat (fm_get 0 (m_bls_utxo_outputs (fold sp_add ops R)) pk) \<le> length ops"
  using assms(2)
proof (induction ops rule: rev_induct)
  case Nil
  then show ?case using assms(1) by (simp add: sp_empty_def fm_get_def)
next
  case (snoc a ops)
  then show ?case by (cases a) (auto simp: registry_simps unat_word_ariths)
qed

lemma adds_pots:
  assumes "sp_empty R" "fmlookup (fm_get fmempty (m_pot_utxo (fold sp_add ops R)) s) out \<noteq> None"
  shows "\<exists>x \<in> set ops. \<exists>a v h c r. x = SpPot s out a v h c r"
  using assms(2)
proof (induction ops rule: rev_induct)
  case (snoc a ops)
  then show ?case by (cases a) (auto simp: registry_simps split: if_splits)
qed (use assms(1) in \<open>simp add: sp_empty_def fm_get_def\<close>)

lemma sps_in: "a \<in> set (sps E es) \<Longrightarrow> \<exists>e \<in> set es. sp_of E e = a"
  by (auto simp: sps_def)

lemma sps_sum: "sum_list (map stake_amount (sps E es)) = sum_list (map (\<lambda>e. stake_amount (sp_of E e)) es)"
  by (induction es) auto

lemma sps_length: "length (sps E es) \<le> length es"
  by (simp add: sps_def length_filter_le [THEN order_trans])

lemma StakeFromTxOut_amount: "StakeFromTxOut E out = Some (pk, a) \<Longrightarrow> a \<noteq> 0"
proof -
  assume "StakeFromTxOut E out = Some (pk, a)"
  then have "0 < GetAmount (nValue out)" "a = word_of_int (GetAmount (nValue out))"
    by (auto simp: StakeFromTxOut_def Let_def bind_eq_Some_conv split: prod.splits if_splits)
  moreover from this have "uint a = GetAmount (nValue out)"
    using GetAmount_range(2) [of "nValue out"] by (simp add: uint_word_of_int)
  ultimately show "a \<noteq> 0" by auto
qed

lemma sp_of_amount: "sp_of E e = SpStake pk a b h \<Longrightarrow> a \<noteq> 0"
  using StakeFromTxOut_amount [of E "coin_out (snd e)" pk a]
  by (auto simp: sp_of_def Let_def split: prod.splits option.splits if_splits)

lemma sp_of_pot: "sp_of E e = SpPot s out a v h c r \<Longrightarrow> out = fst e"
  by (auto simp: sp_of_def Let_def split: prod.splits option.splits if_splits)

lemma registry_fits_snoc: "registry_fits E (es @ [e]) \<Longrightarrow> registry_fits E es"
  by (auto simp: registry_fits_def list_all_iff)

lemma registry_fits_last:
  assumes R: "sp_empty R" and fits: "registry_fits E (es @ [e])"
  shows "sp_fits (sp_of E e) (fold sp_add (sps E es) R)"
proof (cases "sp_of E e")
  case (SpStake pk a b h)
  let ?S = "fold sp_add (sps E es) R"
  have sum: "sum_list (map stake_amount (sps E es)) + unat a < 2 ^ 64"
    using fits SpStake by (simp add: registry_fits_def sps_sum)
  then have "unat (fm_get 0 (m_utxo ?S) pk) + unat a < 2 ^ 64"
    using adds_weight [OF R, of "sps E es" pk] by simp
  moreover have "unat (fm_get 0 (m_bls_utxo_outputs ?S) pk) + 1 < 2 ^ 32"
    using adds_outputs [OF R, of "sps E es" pk] sps_length [of E es] fits by (simp add: registry_fits_def)
  moreover have "fm_get b (m_bls_utxo ?S) pk = b" if "b \<noteq> []"
  proof (cases "fmlookup (m_bls_utxo ?S) pk")
    case (Some b')
    from adds_bls [OF R this] obtain a' h' f where "f \<in> set es" "sp_of E f = SpStake pk a' b' h'" "b' \<noteq> []"
      using sps_in by meson
    moreover have "bls_agree (sp_of E f) (sp_of E e)" using fits \<open>f \<in> set es\<close>
      by (auto simp: registry_fits_def list_all_iff)
    ultimately show ?thesis using Some SpStake that by (simp add: fm_get_def)
  qed (simp add: fm_get_def)
  ultimately show ?thesis using SpStake sp_of_amount [OF SpStake] by simp
next
  case (SpPot s out a v h c r)
  show ?thesis
  proof (rule ccontr)
    assume "\<not> ?thesis"
    then have "fmlookup (fm_get fmempty (m_pot_utxo (fold sp_add (sps E es) R)) s) out \<noteq> None" using SpPot by simp
    from adds_pots [OF R this] obtain f where "f \<in> set es" "fst f = out"
      using sps_in sp_of_pot by metis
    then have "fst e \<in> fst ` set es" using sp_of_pot [OF SpPot] by (metis imageI)
    then show False using fits by (simp add: registry_fits_def)
  qed
qed simp

lemma stakes_fit: "sp_empty R \<Longrightarrow> registry_fits E es \<Longrightarrow> sp.fits_all (sps E es) R"
proof (induction es rule: rev_induct)
  case (snoc e es)
  then have "sp.fits_all (sps E es) R" by (blast dest: registry_fits_snoc)
  moreover have "sp_fits (sp_of E e) (fold sp_add (sps E es) R)" using snoc.prems by (intro registry_fits_last)
  ultimately show ?case by (simp add: sp.fits_all_append)
qed simp

section \<open>Rebuilding\<close>

definition registry_of :: "pos_env \<Rightarrow> (COutPoint \<times> Coin) list \<Rightarrow> StakeRegistry \<Rightarrow> StakeRegistry" where
  "registry_of E es R = fold dp_add (dps E es) (fold sp_add (sps E es) R)"

text \<open>The registry with nothing but its configuration.\<close>

definition config_only :: "StakeRegistry \<Rightarrow> StakeRegistry" where
  "config_only R = Reg_Clear\<lparr>m_config := m_config R, m_bls := m_bls R\<rparr>"

lemma config_only_empty [simp]: "sp_empty (config_only R)" "dp_empty (config_only R)"
  by (simp_all add: config_only_def Reg_Clear_def sp_empty_def dp_empty_def)

lemma scan_coins_registry: "scan_coins E (map Some es) L = Some (registry_of E es L)"
proof (induction es arbitrary: L)
  case (Cons e es)
  obtain k c where "e = (k, c)" by (cases e)
  then show ?case using Cons
    by (simp add: registry_of_def scan_coin_op sp_adds_dp_add)
qed (simp add: registry_of_def)

lemma sp_add_config: "sp_add a (R\<lparr>m_config := x, m_bls := y\<rparr>) = (sp_add a R)\<lparr>m_config := x, m_bls := y\<rparr>"
  by (cases a) (simp_all add: AddUtxoStake_def AddUtxoPot_def Let_def)

lemma dp_add_config: "dp_add a (R\<lparr>m_config := x, m_bls := y\<rparr>) = (dp_add a R)\<lparr>m_config := x, m_bls := y\<rparr>"
  by (cases a) (simp_all add: AddUtxoDelegation_def AddUtxoPayout_def)

lemma registry_of_config: "registry_of E es (R\<lparr>m_config := x, m_bls := y\<rparr>) = (registry_of E es R)\<lparr>m_config := x, m_bls := y\<rparr>"
proof -
  have "fold sp_add ops (R\<lparr>m_config := x, m_bls := y\<rparr>) = (fold sp_add ops R)\<lparr>m_config := x, m_bls := y\<rparr>" for ops R
    by (induction ops arbitrary: R) (simp_all add: sp_add_config)
  moreover have "fold dp_add ds (R\<lparr>m_config := x, m_bls := y\<rparr>) = (fold dp_add ds R)\<lparr>m_config := x, m_bls := y\<rparr>" for ds R
    by (induction ds arbitrary: R) (simp_all add: dp_add_config)
  ultimately show ?thesis by (simp add: registry_of_def)
qed

lemma fmdom_empty: "fmdom m = {||} \<longleftrightarrow> m = fmempty"
  by (metis fmdom_empty fmrestrict_fset_dom fmrestrict_fset_null)

lemma SetUtxoStake_layers:
  assumes "sp_inv L"
  shows "SetUtxoStake (m_utxo L) (m_bls_utxo L) (m_deleg_utxo L) (m_payout_utxo L) (m_utxo_tranches L)
      (m_deleg_height L) (m_pot_utxo L) (m_bls_utxo_outputs L) R = L\<lparr>m_config := m_config R, m_bls := m_bls R\<rparr>"
proof -
  have "m_bls_utxo L = fmempty" if "m_bls_utxo_outputs L = fmempty"
    using assms that by (auto simp: sp_inv_def fmdom_empty)
  moreover have "m_utxo L = fmempty" if "m_utxo_tranches L = fmempty"
    using assms that by (auto simp: sp_inv_def) (metis fmdom_empty)
  ultimately show ?thesis
    by (intro StakeRegistry.equality) (auto simp: SetUtxoStake_def)
qed

lemma sp_inv_dp_adds [simp]: "sp_inv (fold dp_add ds R) = sp_inv R"
  by (induction ds arbitrary: R) (simp_all add: sp_inv_def)

lemma Rebuild_registry:
  assumes "registry_fits E es"
  shows "RebuildUtxoStake E (Some (map Some es)) R = Some (registry_of E es (config_only R))"
proof -
  have empty: "sp_empty Reg_Clear" by (simp add: sp_empty_def Reg_Clear_def)
  have "sp_inv (registry_of E es Reg_Clear)" unfolding registry_of_def
    using sp.inv_adds [OF sp_inv_empty [OF empty] stakes_fit [OF empty assms]] by simp
  then show ?thesis
    by (simp add: RebuildUtxoStake_def scan_coins_registry SetUtxoStake_layers config_only_def registry_of_config)
qed

text \<open>The order of the scan does not matter.\<close>

lemma registry_of_perm:
  assumes "mset es = mset fs" "registry_fits E fs" "distinct (map dp_key (dps E fs))"
  shows "registry_of E es (config_only R) = registry_of E fs (config_only R)"
proof -
  have "mset (sps E es) = mset (sps E fs)" "mset (dps E es) = mset (dps E fs)"
    using assms(1) by (simp_all add: mset_sps mset_dps)
  moreover have "sp.fits_all (sps E fs) (config_only R)" using assms(2) by (simp add: stakes_fit)
  moreover have "dp.fits_all (dps E fs) (fold sp_add (sps E fs) (config_only R))"
    using assms(3) by (intro dp_fits_distinct) (simp_all add: dps_def)
  ultimately show ?thesis
    using sp.fits_all_perm [of "config_only R" "sps E fs" "sps E es"]
      dp.fits_all_perm [of "fold sp_add (sps E fs) (config_only R)" "dps E fs" "dps E es"]
    by (simp add: registry_of_def sp_inv_empty dp_inv_empty)
qed

section \<open>Blocks\<close>

subsection \<open>Records removed and added in some order\<close>

text \<open>The record that the registry holds under a key.\<close>

fun slot :: "StakeRegistry \<Rightarrow> CPubKey + CPubKey \<times> int \<Rightarrow> dp_op option" where
  "slot R (Inl c) = map_option (\<lambda>s. DpDeleg c s (the (fmlookup (m_deleg_height R) c))) (fmlookup (m_deleg_utxo R) c)"
| "slot R (Inr (s, a)) = map_option (DpPayout s) (fmlookup (fm_get fmempty (m_payout_utxo R) s) a)"

text \<open>Removing a record looks at what it says, not at the height of its coin.\<close>

fun dp_same :: "dp_op \<Rightarrow> dp_op \<Rightarrow> bool" where
  "dp_same (DpDeleg c s h) (DpDeleg c' s' h') = (c = c' \<and> s = s')"
| "dp_same (DpPayout s p) (DpPayout s' p') = (s = s' \<and> p = p')"
| "dp_same _ _ = False"

lemma dp_same_refl [simp]: "d \<noteq> DpNone \<Longrightarrow> dp_same d d"
  by (cases d) simp_all

lemma dp_same_key: "dp_same d e \<Longrightarrow> dp_key d = dp_key e"
  by (cases "(d, e)" rule: dp_same.cases) auto

lemma dp_inv_adds: "dp_inv R \<Longrightarrow> dp_inv (dp_add d R)"
  by (cases d) (auto simp: dp_inv_def dp_defs)

lemma dp_inv_subs: "dp_inv R \<Longrightarrow> dp_inv (dp_sub d R)"
  by (cases d) (auto simp: dp_inv_def SubUtxoDelegation_def SubUtxoPayout_def Let_def split: option.split)

lemma slot_add: "d \<noteq> DpNone \<Longrightarrow> slot (dp_add d R) k = (if k = dp_key d then Some d else slot R k)"
  by (cases d; cases "(R, k)" rule: slot.cases) (auto simp: registry_simps)

lemma fmdrop_empty: "fmdrop x m = fmempty \<Longrightarrow> a \<noteq> x \<Longrightarrow> fmlookup m a = None"
  by (metis fmempty_lookup fmlookup_drop)

lemma slot_sub:
  "slot (dp_sub d R) k = (if dp_key d = k \<and> (\<exists>e. slot R k = Some e \<and> dp_same d e) then None else slot R k)"
proof (cases d; cases "(R, k)" rule: slot.cases)
  fix s p R' s' a
  assume "d = DpPayout s p" "(R, k) = (R', Inr (s', a))"
  then show ?thesis
    by (cases "fmlookup (m_payout_utxo R) s")
      (auto simp: SubUtxoPayout_def Let_def fm_get_def fmdrop_empty split: option.splits)
qed (auto simp: SubUtxoDelegation_def SubUtxoPayout_def Let_def split: option.splits)

text \<open>What is left of a registry besides its records, and when two registries are equal.\<close>

abbreviation stripped :: "StakeRegistry \<Rightarrow> StakeRegistry" where
  "stripped R \<equiv> R\<lparr>m_deleg_utxo := fmempty, m_deleg_height := fmempty, m_payout_utxo := fmempty\<rparr>"

lemma stripped_ops: "stripped (dp_add d R) = stripped R" "stripped (dp_sub d R) = stripped R"
  by (cases d; simp add: AddUtxoDelegation_def AddUtxoPayout_def SubUtxoDelegation_def SubUtxoPayout_def Let_def split: option.split)+

lemma slots_determine:
  assumes "dp_inv R" "dp_inv S" "stripped R = stripped S" "\<And>k. slot R k = slot S k"
  shows "R = S"
proof -
  have dom: "fmlookup (m_deleg_height T) c = None \<longleftrightarrow> fmlookup (m_deleg_utxo T) c = None" if "dp_inv T" for T c
    using that unfolding dp_inv_def by (metis fmdom_notD fmdom_notI)
  have d: "fmlookup (m_deleg_utxo R) c = fmlookup (m_deleg_utxo S) c \<and> fmlookup (m_deleg_height R) c = fmlookup (m_deleg_height S) c" for c
    using assms(4) [of "Inl c"] dom [OF assms(1), of c] dom [OF assms(2), of c]
    by (cases "fmlookup (m_deleg_utxo R) c"; cases "fmlookup (m_deleg_utxo S) c") auto
  have "fmlookup (fm_get fmempty (m_payout_utxo R) s) a = fmlookup (fm_get fmempty (m_payout_utxo S) s) a" for s a
    using assms(4) [of "Inr (s, a)"]
    by (cases "fmlookup (fm_get fmempty (m_payout_utxo R) s) a"; cases "fmlookup (fm_get fmempty (m_payout_utxo S) s) a") auto
  then have "fm_get fmempty (m_payout_utxo R) s = fm_get fmempty (m_payout_utxo S) s" for s by (rule fmap_ext)
  then have "fmlookup (m_payout_utxo R) s = fmlookup (m_payout_utxo S) s" for s
    using assms(1,2) by (cases "fmlookup (m_payout_utxo R) s"; cases "fmlookup (m_payout_utxo S) s")
      (auto simp: dp_inv_def fm_get_def dest!: meta_spec [where x = s], blast+)
  then have "m_payout_utxo R = m_payout_utxo S" by (rule fmap_ext)
  moreover have "m_deleg_utxo R = m_deleg_utxo S" "m_deleg_height R = m_deleg_height S" using d by (auto intro: fmap_ext)
  ultimately show ?thesis using assms(3) by (cases R; cases S) simp
qed

text \<open>A run removes (\<open>False\<close>) and adds (\<open>True\<close>) records. It is undisturbed when no record is removed after
  one that says the same was added.\<close>

definition dp_run :: "(bool \<times> dp_op) list \<Rightarrow> StakeRegistry \<Rightarrow> StakeRegistry" where
  "dp_run = fold (\<lambda>(add, d). if add then dp_add d else dp_sub d)"

definition added :: "(bool \<times> dp_op) list \<Rightarrow> dp_op list" where
  "added ops = map snd (filter fst ops)"

definition removed :: "(bool \<times> dp_op) list \<Rightarrow> dp_op list" where
  "removed ops = map snd (filter (\<lambda>x. \<not> fst x) ops)"

lemma added_simps [simp]: "added [] = []" "added ((add, d) # ops) = (if add then [d] else []) @ added ops"
  "added (xs @ ys) = added xs @ added ys" "added (map (Pair True) ds) = ds" "added (map (Pair False) ds) = []"
  by (induction ds) (simp_all add: added_def)

lemma removed_simps [simp]: "removed [] = []" "removed ((add, d) # ops) = (if add then [] else [d]) @ removed ops"
  "removed (xs @ ys) = removed xs @ removed ys" "removed (map (Pair True) ds) = []" "removed (map (Pair False) ds) = ds"
  by (induction ds) (simp_all add: removed_def)

fun undisturbed :: "(bool \<times> dp_op) list \<Rightarrow> bool" where
  "undisturbed [] = True"
| "undisturbed ((add, d) # ops) = ((add \<longrightarrow> (\<forall>e \<in> set (removed ops). \<not> dp_same e d)) \<and> undisturbed ops)"

lemma dp_run_simps [simp]: "dp_run [] R = R" "dp_run ((add, d) # ops) R = dp_run ops (if add then dp_add d R else dp_sub d R)"
  "dp_run (xs @ ys) R = dp_run ys (dp_run xs R)"
  by (simp_all add: dp_run_def)

lemma dp_run_inv: "dp_inv R \<Longrightarrow> dp_inv (dp_run ops R)" "stripped (dp_run ops R) = stripped R"
  by (induction ops arbitrary: R) (auto simp: dp_inv_adds dp_inv_subs stripped_ops)

lemma find_key: "distinct (map dp_key ds) \<Longrightarrow> d \<in> set ds \<Longrightarrow> find (\<lambda>a. dp_key a = dp_key d) ds = Some d"
  "k \<notin> dp_key ` set ds \<Longrightarrow> find (\<lambda>a. dp_key a = k) ds = None"
  by (induction ds) auto

lemma run_slot:
  "undisturbed ops \<Longrightarrow> distinct (map dp_key (added ops)) \<Longrightarrow> DpNone \<notin> set (added ops) \<Longrightarrow>
   slot (dp_run ops R) k =
     (case find (\<lambda>a. dp_key a = k) (added ops) of Some a \<Rightarrow> Some a
      | None \<Rightarrow> if \<exists>d e. d \<in> set (removed ops) \<and> dp_key d = k \<and> slot R k = Some e \<and> dp_same d e then None else slot R k)"
proof (induction ops arbitrary: R)
  case (Cons x ops)
  obtain add d where x: "x = (add, d)" by (cases x)
  have "undisturbed ops" "distinct (map dp_key (added ops))" "DpNone \<notin> set (added ops)"
    using Cons.prems x by (auto split: if_splits)
  note IH = Cons.IH [OF this]
  show ?case
  proof (cases add)
    case True
    have "find (\<lambda>a. dp_key a = dp_key d) (added ops) = None" using Cons.prems(2) x True by (intro find_key(2)) simp
    then show ?thesis using IH [of "dp_add d R"] Cons.prems x True by (auto simp: slot_add split: option.split)
  next
    case False
    then show ?thesis using IH [of "dp_sub d R"] x by (auto simp: slot_sub split: option.split)
  qed
qed simp

lemma slot_adds:
  assumes "dp_empty R" "distinct (map dp_key ds)" "DpNone \<notin> set ds"
  shows "slot (fold dp_add ds R) k = find (\<lambda>a. dp_key a = k) ds"
proof -
  let ?ops = "map (Pair True) ds"
  have r: "fold dp_add ds R = dp_run ?ops R" by (induction ds arbitrary: R) simp_all
  have "undisturbed ?ops" by (induction ds) simp_all
  moreover have "slot R k = None" using assms(1) by (cases "(R, k)" rule: slot.cases) (auto simp: dp_empty_def fm_get_def)
  ultimately show ?thesis using run_slot [of ?ops R k] assms(2,3) by (simp add: r split: option.split)
qed

text \<open>Records taken from a registry and records put into it, in any undisturbed order.\<close>

lemma run_records:
  assumes R: "dp_empty R" and ops: "undisturbed ops" and old: "mset us = mset (removed ops) + mset ws" and new: "mset vs = mset ws + mset (added ops)"
    and uni: "distinct (map dp_key us)" "distinct (map dp_key vs)" and none: "DpNone \<notin> set us" "DpNone \<notin> set vs"
  shows "dp_run ops (fold dp_add us R) = fold dp_add vs R"
proof (rule slots_determine)
  have adds: "fold dp_add ds S = dp_run (map (Pair True) ds) S" for ds S by (induction ds arbitrary: S) simp_all
  show "dp_inv (dp_run ops (fold dp_add us R))" "dp_inv (fold dp_add vs R)"
    "stripped (dp_run ops (fold dp_add us R)) = stripped (fold dp_add vs R)"
    unfolding adds by (intro dp_run_inv(1) dp_inv_empty R, intro dp_run_inv(1) dp_inv_empty R, simp add: dp_run_inv(2))
  have sets: "set us = set (removed ops) \<union> set ws" "set vs = set ws \<union> set (added ops)"
    using old new by (metis set_mset_mset set_mset_union)+
  have "mset (map dp_key us) = mset (map dp_key (removed ops @ ws))" "mset (map dp_key vs) = mset (map dp_key (ws @ added ops))"
    using old new by simp_all
  then have d: "distinct (map dp_key (removed ops @ ws))" "distinct (map dp_key (ws @ added ops))"
    using uni by (metis mset_eq_imp_distinct_iff)+
  fix k
  have s: "slot (fold dp_add us R) k = find (\<lambda>a. dp_key a = k) us" "slot (fold dp_add vs R) k = find (\<lambda>a. dp_key a = k) vs"
    using slot_adds [OF R uni(1) none(1)] slot_adds [OF R uni(2) none(2)] by auto
  have run: "slot (dp_run ops (fold dp_add us R)) k = (case find (\<lambda>a. dp_key a = k) (added ops) of Some a \<Rightarrow> Some a
      | None \<Rightarrow> if \<exists>d e. d \<in> set (removed ops) \<and> dp_key d = k \<and> find (\<lambda>a. dp_key a = k) us = Some e \<and> dp_same d e then None
        else find (\<lambda>a. dp_key a = k) us)"
    using run_slot [OF ops, of "fold dp_add us R" k, unfolded s(1)] d(2) none sets by auto
  show "slot (dp_run ops (fold dp_add us R)) k = slot (fold dp_add vs R) k"
  proof (cases "k \<in> dp_key ` set (added ops)")
    case True
    then obtain a where a: "a \<in> set (added ops)" "k = dp_key a" by auto
    then have "find (\<lambda>a. dp_key a = k) (added ops) = Some a" "find (\<lambda>a. dp_key a = k) vs = Some a"
      using find_key(1) [of "added ops" a] find_key(1) [of vs a] d(2) uni(2) sets by auto
    then show ?thesis unfolding run s by simp
  next
    case False
    note none_added = find_key(2) [OF False]
    show ?thesis
    proof (cases "k \<in> dp_key ` set us")
      case True
      then obtain e where e: "e \<in> set us" "k = dp_key e" by auto
      note fe = find_key(1) [OF uni(1) e(1), folded e(2)]
      have "e \<noteq> DpNone" using e none by metis
      then have "(\<exists>d. d \<in> set (removed ops) \<and> dp_key d = k \<and> dp_same d e) \<longleftrightarrow> e \<in> set (removed ops)"
        using uni(1) e sets(1) by (metis UnI1 dp_same_refl distinct_map inj_onD)
      moreover have "find (\<lambda>a. dp_key a = k) vs = (if e \<in> set (removed ops) then None else Some e)"
      proof (cases "e \<in> set (removed ops)")
        case True
        then have "k \<notin> dp_key ` set vs" using d(1) False e(2) sets(2) by auto
        then show ?thesis using True by (simp add: find_key(2))
      next
        case False
        then have "e \<in> set vs" using e(1) sets by auto
        then show ?thesis using False find_key(1) [OF uni(2)] e(2) by simp
      qed
      ultimately show ?thesis unfolding run s none_added fe by auto
    next
      case False
      then have "k \<notin> dp_key ` set vs" using none_added sets \<open>k \<notin> dp_key ` set (added ops)\<close> by auto
      then show ?thesis unfolding run s none_added find_key(2) [OF False] by (simp add: find_key(2))
    qed
  qed
qed

subsection \<open>The records of a block\<close>

definition tx_ops :: "pos_env \<Rightarrow> nat \<Rightarrow> CTransaction \<times> CTxUndo \<Rightarrow> (bool \<times> dp_op) list" where
  "tx_ops E h e = (case e of (tx, u) \<Rightarrow> map (Pair False) (dps E (tx_spent tx u)) @ map (Pair True) (dps E (tx_coins h tx)))"

definition untx_ops :: "pos_env \<Rightarrow> nat \<Rightarrow> CTransaction \<times> CTxUndo \<Rightarrow> (bool \<times> dp_op) list" where
  "untx_ops E h e = (case e of (tx, u) \<Rightarrow> map (Pair False) (dps E (tx_coins h tx)) @ map (Pair True) (dps E (tx_spent tx u)))"

text \<open>No transaction creates a record that a later one spends: neither the record itself, nor one of the
  coins that says the same.\<close>

fun in_order :: "pos_env \<Rightarrow> nat \<Rightarrow> (CTransaction \<times> CTxUndo) list \<Rightarrow> bool" where
  "in_order E h [] = True"
| "in_order E h (e # es) =
     (list_all (\<lambda>d. list_all (\<lambda>(tx, u). list_all (\<lambda>d'. \<not> dp_same d' d) (dps E (tx_spent tx u))) es)
        (dps E (tx_coins h (fst e))) \<and> in_order E h es)"

definition records_in_order :: "pos_env \<Rightarrow> nat \<Rightarrow> CBlock \<Rightarrow> CBlockUndo \<Rightarrow> bool" where
  "records_in_order E h block undo = in_order E h (zip block ([] # undo))"

lemma tx_ops_pair:
  "tx_ops E h (tx, u) = map (Pair False) (dps E (tx_spent tx u)) @ map (Pair True) (dps E (tx_coins h tx))"
  "untx_ops E h (tx, u) = map (Pair False) (dps E (tx_coins h tx)) @ map (Pair True) (dps E (tx_spent tx u))"
  by (simp_all add: tx_ops_def untx_ops_def)

lemma run_adds: "fold dp_add ds R = dp_run (map (Pair True) ds) R" "fold dp_sub ds R = dp_run (map (Pair False) ds) R"
  by (induction ds arbitrary: R) simp_all

lemma fold_tx_ops: "fold (dp_tx E h) es R = dp_run (concat (map (tx_ops E h) es)) R"
  "fold (dp_untx E h) es R = dp_run (concat (map (untx_ops E h) es)) R"
  by (induction es arbitrary: R) (simp_all add: dp_tx_def dp_untx_def tx_ops_def untx_ops_def run_adds split: prod.split)

lemma ops_of_txs:
  "added (concat (map (tx_ops E h) es)) = dps E (concat (map (\<lambda>(tx, u). tx_coins h tx) es))"
  "removed (concat (map (tx_ops E h) es)) = dps E (concat (map (\<lambda>(tx, u). tx_spent tx u) es))"
  "added (concat (map (untx_ops E h) es)) = dps E (concat (map (\<lambda>(tx, u). tx_spent tx u) es))"
  "removed (concat (map (untx_ops E h) es)) = dps E (concat (map (\<lambda>(tx, u). tx_coins h tx) es))"
  by (induction es) (auto simp: tx_ops_pair dps_def)

lemma undisturbed_append:
  "undisturbed (xs @ ys) \<longleftrightarrow> undisturbed xs \<and> undisturbed ys \<and> (\<forall>d \<in> set (added xs). \<forall>e \<in> set (removed ys). \<not> dp_same e d)"
  by (induction xs rule: undisturbed.induct) auto

lemma undisturbed_simple [simp]: "undisturbed (map (Pair True) ds)" "undisturbed (map (Pair False) ds)"
  by (induction ds) simp_all

lemma dp_same_sym: "dp_same d e = dp_same e d"
  by (cases "(d, e)" rule: dp_same.cases; cases d; cases e) auto

lemma in_order_undisturbed:
  "in_order E h es \<Longrightarrow> undisturbed (concat (map (tx_ops E h) es)) \<and> undisturbed (concat (map (untx_ops E h) (rev es)))"
proof (induction es)
  case (Cons e es)
  obtain tx u where e: "e = (tx, u)" by (cases e)
  have sep: "\<not> dp_same b a" if "a \<in> set (dps E (tx_coins h tx))" "b \<in> set (dps E (concat (map (\<lambda>(tx, u). tx_spent tx u) es)))" for a b
    using Cons.prems that e by (fastforce simp: list_all_iff dps_def)
  then have sep': "\<not> dp_same a b" if "a \<in> set (dps E (tx_coins h tx))" "b \<in> set (dps E (concat (map (\<lambda>(tx, u). tx_spent tx u) (rev es))))" for a b
    using that by (subst dp_same_sym) (auto simp: dps_def)
  show ?case using Cons sep sep' e
    by (simp add: undisturbed_append ops_of_txs tx_ops_pair)
qed simp

lemma connect_coinsE:
  assumes "connect_coins C h block U = Some (undo, U')" "block_form U block"
  shows "connect_txs C h block U = Some ([] # undo, U')"
proof -
  obtain tx txs where block: "block = tx # txs" "IsCoinBase tx"
    using assms(2) by (cases block) (auto simp: block_form_def)
  then obtain undos where c: "connect_txs C h (tx # txs) U = Some (undos, U')" and "undo = tl undos"
    using assms(1) by (auto simp: connect_coins_def split: option.splits prod.splits)
  moreover obtain u V us where "UpdateCoins C tx h U = Some (u, V)" "undos = u # us"
    using c by (rule connect_txs_Cons)
  ultimately show ?thesis using block by (auto simp: UpdateCoins_def split: option.splits)
qed

lemma connect_txs_length: "connect_txs C h txs U = Some (us, U') \<Longrightarrow> length us = length txs"
proof (induction txs arbitrary: U us)
  case (Cons tx txs)
  from Cons.prems show ?case by (rule connect_txs_Cons) (auto dest: Cons.IH)
qed simp

lemma block_spent_ops:
  "connect_txs C h txs U = Some (us, U') \<Longrightarrow>
   sps E (concat (map (\<lambda>(tx, u). tx_spent tx u) (zip txs us))) =
   sps E (concat (map (\<lambda>(tx, u). spent_coins (vin tx) u) (zip txs us))) \<and>
   dps E (concat (map (\<lambda>(tx, u). tx_spent tx u) (zip txs us))) =
   dps E (concat (map (\<lambda>(tx, u). spent_coins (vin tx) u) (zip txs us)))"
proof (induction txs arbitrary: U us)
  case (Cons tx txs)
  from Cons.prems show ?case by (rule connect_txs_Cons) (simp add: Cons.IH tx_spent_ops)
qed simp

lemma mset_split:
  fixes v c s w :: "'a multiset"
  assumes "v + c = s + w" "\<And>x. x \<in># s \<Longrightarrow> x \<in># c \<Longrightarrow> False"
  shows "\<exists>w'. w = w' + c \<and> v = s + w'"
proof -
  have "c \<subseteq># w"
  proof (rule mset_subset_eqI)
    fix x
    have "count v x + count c x = count s x + count w x" using arg_cong [OF assms(1), of "\<lambda>M. count M x"] by simp
    moreover have "count s x = 0 \<or> count c x = 0" using assms(2) [of x] by (auto simp: count_eq_zero_iff)
    ultimately show "count c x \<le> count w x" by linarith
  qed
  then obtain w' where w: "w = c + w'" unfolding mset_subset_eq_exists_conv by blast
  then have "c + v = c + (s + w')" using assms(1) by (simp add: ac_simps)
  then have "v = s + w'" by (simp only: add_left_cancel)
  then show ?thesis using w by (auto simp: ac_simps)
qed

lemma txs_records:
  "connect_txs C h txs U = Some (us, U') \<Longrightarrow> block_new U txs \<Longrightarrow> in_order E h (zip txs us) \<Longrightarrow>
   \<exists>ws. mset (dps E (fm_entries U)) = mset (dps E (concat (map (\<lambda>(tx, u). tx_spent tx u) (zip txs us)))) + ws \<and>
     mset (dps E (fm_entries U')) = ws + mset (dps E (concat (map (\<lambda>(tx, u). tx_coins h tx) (zip txs us))))"
proof (induction txs arbitrary: U us)
  case (Cons tx txs)
  from Cons.prems(1) obtain undo V vs where up: "UpdateCoins C tx h U = Some (undo, V)"
    and rest: "connect_txs C h txs V = Some (vs, U')" "us = undo # vs" by (rule connect_txs_Cons)
  note new = block_new_Cons [OF Cons.prems(2) up]
  let ?s = "mset (dps E (tx_spent tx undo))" and ?c = "mset (dps E (tx_coins h tx))"
    and ?S = "mset (dps E (concat (map (\<lambda>(tx, u). tx_spent tx u) (zip txs vs))))"
    and ?N = "mset (dps E (concat (map (\<lambda>(tx, u). tx_coins h tx) (zip txs vs))))"
  obtain W where W: "mset (fm_entries U) = mset (fm_entries W) + mset (spent_coins (vin tx) undo)"
    "mset (fm_entries V) = mset (fm_entries W) + mset (spendable C (tx_coins h tx))"
    using up new(1) by (rule UpdateCoins_between)
  have U: "mset (dps E (fm_entries U)) = mset (dps E (fm_entries W)) + ?s"
    using W(1) by (simp only: tx_spent_ops(2) [OF up]) (simp add: mset_dps)
  have "mset (dps E (fm_entries V)) = mset (dps E (fm_entries W)) + mset (dps E (spendable C (tx_coins h tx)))"
    using W(2) by (simp only: mset_dps) simp
  then have V: "mset (dps E (fm_entries V)) = mset (dps E (fm_entries W)) + ?c" by simp
  from Cons.IH [OF rest(1) new(2)] Cons.prems(3) rest(2)
  obtain w where w: "mset (dps E (fm_entries V)) = ?S + w" "mset (dps E (fm_entries U')) = w + ?N" by auto
  have "False" if "d \<in># ?S" "d \<in># ?c" for d
    using that Cons.prems(3) rest(2) by (fastforce simp: list_all_iff dps_def)
  then obtain w' where w': "w = w' + ?c" "mset (dps E (fm_entries W)) = ?S + w'" using mset_split V w(1) by metis
  then have "mset (dps E (fm_entries U)) = (?s + ?S) + w'" "mset (dps E (fm_entries U')) = w' + (?c + ?N)"
    using U w(2) by (simp_all add: ac_simps)
  then show ?case using rest(2) by (auto simp: dps_def)
qed simp

lemma block_mset:
  assumes "connect_coins C h block U = Some (undo, U')" "block_form U block"
  shows "mset (fm_entries U') + mset (concat (map (\<lambda>(tx, u). spent_coins (vin tx) u) (zip block ([] # undo)))) =
      mset (fm_entries U) + mset (spendable C (block_created h block))"
  unfolding block_created_def using assms
  by (intro connect_txs_mset [OF connect_coinsE [OF assms]]) (simp add: block_form_def)

lemma block_sps_mset:
  assumes "connect_coins C h block U = Some (undo, U')" "block_form U block"
  shows "mset (sps E (fm_entries U)) + mset (sps E (block_created h block)) =
    mset (sps E (block_spent block undo)) + mset (sps E (fm_entries U'))"
proof -
  have "mset (sps E (fm_entries U')) + mset (sps E (concat (map (\<lambda>(tx, u). spent_coins (vin tx) u) (zip block ([] # undo))))) =
      mset (sps E (fm_entries U)) + mset (sps E (spendable C (block_created h block)))"
    unfolding mset_sps using block_mset [OF assms] by (metis filter_union_mset image_mset_union)
  then show ?thesis by (simp add: block_spent_def block_spent_ops [OF connect_coinsE [OF assms]] add.commute)
qed

lemma block_dps_mset:
  assumes "connect_coins C h block U = Some (undo, U')" "block_form U block"
  shows "mset (dps E (fm_entries U)) + mset (dps E (block_created h block)) =
    mset (dps E (block_spent block undo)) + mset (dps E (fm_entries U'))"
proof -
  have "mset (dps E (fm_entries U')) + mset (dps E (concat (map (\<lambda>(tx, u). spent_coins (vin tx) u) (zip block ([] # undo))))) =
      mset (dps E (fm_entries U)) + mset (dps E (spendable C (block_created h block)))"
    unfolding mset_dps using block_mset [OF assms] by (metis filter_union_mset image_mset_union)
  then show ?thesis by (simp add: block_spent_def block_spent_ops [OF connect_coinsE [OF assms]] add.commute)
qed

lemma block_lengths:
  "connect_coins C h block U = Some (undo, U') \<Longrightarrow> block_form U block \<Longrightarrow> length block = length undo + 1"
  by (drule (1) connect_coinsE) (auto dest: connect_txs_length)

text \<open>What is asked of a block, of its coins and of the records they hold.\<close>

definition records_replaced :: "pos_env \<Rightarrow> nat \<Rightarrow> CBlock \<Rightarrow> CBlockUndo \<Rightarrow> utxo \<Rightarrow> bool" where
  "records_replaced E h block undo U \<longleftrightarrow> distinct (map dp_key (dps E (block_created h block))) \<and>
     (\<forall>d \<in> set (dps E (block_created h block)). dp_key d \<in> dp_key ` set (dps E (fm_entries U)) \<longrightarrow>
        dp_key d \<in> dp_key ` set (dps E (block_spent block undo)))"

lemma created_zip: "length us = length txs \<Longrightarrow> concat (map (\<lambda>(tx, u). tx_coins h tx) (zip txs us)) = block_created h txs"
  by (induction txs us rule: list_induct2') (simp_all add: block_created_def)

lemma block_records:
  assumes con: "connect_coins C h block U = Some (undo, U')" and form: "block_form U block"
    and ord: "records_in_order E h block undo" and uni: "records_unique E U" and rep: "records_replaced E h block undo U"
    and R: "dp_empty R"
  shows "records_unique E U'"
    and "fold (dp_tx E h) (zip block ([] # undo)) (fold dp_add (dps E (fm_entries U)) R) = fold dp_add (dps E (fm_entries U')) R"
    and "fold (dp_untx E h) (rev (zip block ([] # undo))) (fold dp_add (dps E (fm_entries U')) R) = fold dp_add (dps E (fm_entries U)) R"
proof -
  let ?us = "dps E (fm_entries U)" and ?vs = "dps E (fm_entries U')" and ?ds = "dps E (block_spent block undo)"
    and ?cs = "dps E (block_created h block)"
  have created: "concat (map (\<lambda>(tx, u). tx_coins h tx) (zip block ([] # undo))) = block_created h block"
    using created_zip [of "[] # undo" block] block_lengths [OF con form] by simp
  obtain ws' where "mset ?us = mset ?ds + ws'" "mset ?vs = ws' + mset ?cs"
    using txs_records [OF connect_coinsE [OF con form]] form ord unfolding created
    by (auto simp: records_in_order_def block_form_def block_spent_def)
  moreover obtain ws where "ws' = mset ws" by (metis ex_mset)
  ultimately have sets: "mset ?us = mset ?ds + mset ws" "mset ?vs = mset ws + mset ?cs" by simp_all
  have key: "set ?us = set ?ds \<union> set ws" using sets(1) by (metis set_mset_mset set_mset_union)
  have keys: "mset (map dp_key ?us) = mset (map dp_key (?ds @ ws))" "mset (map dp_key ?vs) = mset (map dp_key (ws @ ?cs))"
    unfolding mset_map mset_append sets by simp_all
  have dist: "distinct (map dp_key (?ds @ ws))"
    using uni mset_eq_imp_distinct_iff [OF keys(1)] by (simp only: records_unique_def)
  have "False" if "d \<in> set ws" "c \<in> set ?cs" "dp_key d = dp_key c" for d c
  proof -
    have "dp_key c \<in> dp_key ` set ?us" using that key by (metis UnCI imageI)
    then have "dp_key d \<in> dp_key ` set ?ds" using rep that(2,3) by (simp add: records_replaced_def)
    then show False using dist that(1) by auto
  qed
  then have "distinct (map dp_key (ws @ ?cs))" using dist rep by (auto simp: records_replaced_def)
  then have vs: "distinct (map dp_key ?vs)" using mset_eq_imp_distinct_iff [OF keys(2)] by (simp only:)
  then show "records_unique E U'" by (simp add: records_unique_def)
  have us: "distinct (map dp_key ?us)" using uni by (simp add: records_unique_def)
  have none: "DpNone \<notin> set (dps E es)" for es by (simp add: dps_def)
  have rev: "mset (dps E (concat (map f (rev es)))) = mset (dps E (concat (map f es)))" for f :: "_ \<Rightarrow> (COutPoint \<times> Coin) list" and es
  proof -
    have "mset (concat (map f (rev es))) = mset (concat (map f es))" by (induction es) (simp_all add: ac_simps)
    then show ?thesis by (simp only: mset_dps)
  qed
  note ops = in_order_undisturbed [OF ord [unfolded records_in_order_def]]
  have un: "removed (concat (map (untx_ops E h) (rev (zip block ([] # undo))))) = dps E (concat (map (\<lambda>(tx, u). tx_coins h tx) (rev (zip block ([] # undo)))))"
    "added (concat (map (untx_ops E h) (rev (zip block ([] # undo))))) = dps E (concat (map (\<lambda>(tx, u). tx_spent tx u) (rev (zip block ([] # undo)))))"
    by (simp_all add: ops_of_txs)
  show "fold (dp_tx E h) (zip block ([] # undo)) (fold dp_add ?us R) = fold dp_add ?vs R"
    unfolding fold_tx_ops
    by (rule run_records [OF R conjunct1 [OF ops] _ _ us vs none none])
      (simp_all only: ops_of_txs created sets flip: block_spent_def)
  show "fold (dp_untx E h) (rev (zip block ([] # undo))) (fold dp_add ?vs R) = fold dp_add ?us R"
    unfolding fold_tx_ops
    by (rule run_records [OF R conjunct2 [OF ops] _ _ vs us none none])
      (simp_all only: un rev created sets add.commute flip: block_spent_def)
qed

definition block_ok :: "pos_env \<Rightarrow> nat \<Rightarrow> CBlock \<Rightarrow> CBlockUndo \<Rightarrow> utxo \<Rightarrow> bool" where
  "block_ok E h block undo U \<longleftrightarrow> block_form U block \<and> registry_fits E (fm_entries U @ block_created h block) \<and>
     records_unique E U \<and> records_replaced E h block undo U \<and> records_in_order E h block undo"

lemma block_registry:
  assumes con: "connect_coins C h block U = Some (undo, U')" and ok: "block_ok E h block undo U"
  shows "PosApplyBlockStake E block undo h (registry_of E (fm_entries U) (config_only R)) =
      registry_of E (fm_entries U') (config_only R)"
    and "PosRevertBlockStake E block undo h (registry_of E (fm_entries U') (config_only R)) =
      registry_of E (fm_entries U) (config_only R)"
    and "records_unique E U'"
proof -
  have form: "block_form U block" using ok by (simp add: block_ok_def)
  note len = block_lengths [OF con form] and mset = block_sps_mset [OF con form, of E]
  let ?B = "config_only R" and ?S = "sps E (fm_entries U)" and ?S' = "sps E (fm_entries U')"
    and ?D = "dps E (fm_entries U)" and ?D' = "dps E (fm_entries U')"
    and ?c = "sps E (block_created h block)" and ?d = "sps E (block_spent block undo)"
  let ?s = "fold dp_add ?D ?B"
  have "sp.fits_all (sps E (fm_entries U @ block_created h block)) ?B"
    using ok by (intro stakes_fit) (simp_all add: block_ok_def)
  then have fits: "sp.fits_all (?S @ ?c) ?s" by (simp add: sp_fits_all_dp_adds)
  have inv: "sp_inv ?s" by (simp add: sp_inv_empty)
  note dp = block_records [OF con form, of E "fold sp_add ?S' ?B"]
  then show "records_unique E U'" using ok by (simp add: block_ok_def)
  show "PosApplyBlockStake E block undo h (registry_of E (fm_entries U) ?B) = registry_of E (fm_entries U') ?B"
    using sp.add_then_sub(2) [OF inv fits mset] dp(2) ok
    by (simp add: apply_ops [OF len] registry_of_def block_ok_def flip: sp_dp_adds)
  show "PosRevertBlockStake E block undo h (registry_of E (fm_entries U') ?B) = registry_of E (fm_entries U) ?B"
    using sp.readd_then_sub [OF inv fits mset] dp(3) ok
    by (simp add: revert_ops [OF len] registry_of_def block_ok_def flip: sp_dp_adds)
qed

lemma registry_fits_sub:
  assumes sub: "mset es \<subseteq># mset fs" and dist: "distinct (map fst es)" and fits: "registry_fits E fs"
  shows "registry_fits E es"
proof -
  obtain gs where gs: "mset fs = mset (es @ gs)"
    using sub by (metis ex_mset mset_append mset_subset_eq_exists_conv)
  then have "mset (map (\<lambda>e. stake_amount (sp_of E e)) fs) = mset (map (\<lambda>e. stake_amount (sp_of E e)) (es @ gs))"
    by (simp only: mset_map)
  then have "sum_list (map (\<lambda>e. stake_amount (sp_of E e)) fs) = sum_list (map (\<lambda>e. stake_amount (sp_of E e)) (es @ gs))"
    by (metis sum_mset_sum_list)
  moreover have "length fs = length (es @ gs)" using gs by (metis size_mset)
  moreover have "set es \<subseteq> set fs" using sub by (metis set_mset_mset set_mset_mono)
  ultimately show ?thesis using fits dist unfolding registry_fits_def list_all_iff by auto
qed

lemma block_fits_after:
  assumes con: "connect_coins C h block U = Some (undo, U')" and ok: "block_ok E h block undo U"
  shows "registry_fits E (fm_entries U')"
proof (rule registry_fits_sub)
  have form: "block_form U block" using ok by (simp add: block_ok_def)
  let ?sp = "concat (map (\<lambda>(tx, u). spent_coins (vin tx) u) (zip block ([] # undo)))"
  have "mset (fm_entries U') + mset ?sp = mset (fm_entries U) + mset (spendable C (block_created h block))"
    using con form by (rule block_mset)
  moreover have "mset (spendable C (block_created h block)) \<subseteq># mset (block_created h block)" by simp
  moreover have "mset (fm_entries U') \<subseteq># mset (fm_entries U') + mset ?sp" by simp
  ultimately show "mset (fm_entries U') \<subseteq># mset (fm_entries U @ block_created h block)"
    by (simp only: mset_append) (blast intro: subset_mset.order_trans subset_mset.add_left_mono)
  show "distinct (map fst (fm_entries U'))" by (rule distinct_fst_entries)
  show "registry_fits E (fm_entries U @ block_created h block)" using ok by (simp add: block_ok_def)
qed

lemma block_fits_before: "block_ok E h block undo U \<Longrightarrow> registry_fits E (fm_entries U) \<and> records_unique E U"
  using registry_fits_sub [of "fm_entries U" "fm_entries U @ block_created h block" E, OF _ distinct_fst_entries]
  by (cases block) (auto simp: block_ok_def block_form_def)

lemma Rebuild_cursor:
  assumes es: "mset es = mset (fm_entries U)" and fits: "registry_fits E (fm_entries U)" and uni: "records_unique E U"
  shows "RebuildUtxoStake E (Some (map Some es)) R = Some (registry_of E (fm_entries U) (config_only R))"
proof -
  have "mset (map fst es) = mset (map fst (fm_entries U))" using es by (simp only: mset_map)
  then have "distinct (map fst es)" using distinct_fst_entries by (metis mset_eq_imp_distinct_iff)
  then have "registry_fits E es" using es fits by (intro registry_fits_sub [of es "fm_entries U"]) simp_all
  moreover have "distinct (map dp_key (dps E (fm_entries U)))" using uni by (simp add: records_unique_def)
  ultimately show ?thesis using registry_of_perm [OF es fits] by (simp add: Rebuild_registry)
qed

section \<open>Sample values\<close>

text \<open>A first block whose coinbase pays a pot, on an empty set of coins.\<close>

definition sample_coins :: coins_env where
  "sample_coins = \<lparr>g_con_elementsmode = True, connect_genesis_outputs = True, MAX_OUTPUTS_PER_BLOCK = 4,
     pegin_undo_clean = (\<lambda>_. True)\<rparr>"

definition sample_pot_out :: CTxOut where
  "sample_pot_out = \<lparr>nAsset = SetToAsset (policyAsset sample_env), nValue = SetToAmount 5, nNonce = [],
     scriptPubKey = BuildPotScript (sample_key 1)\<rparr>"

definition sample_coinbase :: CTransaction where
  "sample_coinbase = \<lparr>tx_hash = replicate 32 1,
     vin = [\<lparr>prevout = COutPoint uint256_zero NULL_INDEX, m_is_pegin = False\<rparr>], vout = [sample_pot_out]\<rparr>"

definition sample_coin :: Coin where
  "sample_coin = \<lparr>coin_out = sample_pot_out, fCoinBase = True, nHeight = 1\<rparr>"

definition sample_utxo :: utxo where
  "sample_utxo = fmupd (COutPoint (replicate 32 1) 0) sample_coin fmempty"

lemma sample_coinbase_simps [simp]:
  "IsCoinBase sample_coinbase" "tx_hash sample_coinbase = replicate 32 1" "vout sample_coinbase = [sample_pot_out]"
  "tx_coins (Suc 0) sample_coinbase = [(COutPoint (replicate 32 1) 0, sample_coin)]"
  by (simp_all add: sample_coinbase_def IsCoinBase_def OutPoint_IsNull_def tx_coins_def sample_coin_def)

lemma sample_pot [simp]: "PotFromTxOut sample_env sample_pot_out =
    Some \<lparr>pot_signer = sample_key 1, pot_asset = policyAsset sample_env, pot_value = 5\<rparr>"
  using GetAsset_SetToAsset [of "policyAsset sample_env"]
  by (simp add: PotFromTxOut_def sample_pot_out_def ParsePot_Build GetAmount_SetToAmount) (simp add: sample_env_def)

lemma sample_kind: "kind_accepts sample_env (scriptPubKey sample_pot_out) PotRec"
  using from_out_kind(2) [of sample_env sample_pot_out] by simp

lemma sample_ops [simp]:
  "sp_of sample_env (o', sample_coin) = SpPot (sample_key 1) o' (policyAsset sample_env) 5 1 True None"
  "dp_of sample_env (o', sample_coin) = DpNone"
proof -
  have "StakeFromTxOut sample_env sample_pot_out = None"
    using out_kinds_exclusive(1) [of sample_env sample_pot_out] by fastforce
  then show "sp_of sample_env (o', sample_coin) = SpPot (sample_key 1) o' (policyAsset sample_env) 5 1 True None"
    by (simp add: sp_of_def sample_coin_def)
  have "DelegationFromTxOut sample_env sample_pot_out = None" "PayoutFromTxOut sample_env sample_pot_out = None"
    using kinds_exclusive [OF sample_kind, of DelegationRec] kinds_exclusive [OF sample_kind, of PayoutRec]
      from_out_kind(4,5) [of sample_env sample_pot_out] by blast+
  then show "dp_of sample_env (o', sample_coin) = DpNone" by (simp add: dp_of_def sample_coin_def)
qed

lemma sample_not_spent: "\<not> IsSpent sample_coin" "\<not> IsUnspendable C (scriptPubKey (coin_out sample_coin))"
  using unspendable_no_record [of C _ sample_env PotRec] sample_kind
  by (auto simp: IsSpent_def TxOut_IsNull_def sample_coin_def sample_pot_out_def Conf_IsNull_def SetToAsset_def)

lemma sample_connect [simp]:
  "UpdateCoins sample_coins sample_coinbase (Suc 0) fmempty = Some ([], sample_utxo)"
  "connect_coins sample_coins (Suc 0) [sample_coinbase] fmempty = Some ([], sample_utxo)"
  using sample_not_spent
  by (simp_all add: connect_coins_def UpdateCoins_def AddCoins_def AddCoin_def sample_utxo_def)

lemma sample_entries [simp]: "fm_entries sample_utxo = [(COutPoint (replicate 32 1) 0, sample_coin)]"
proof -
  have "mset (fm_entries sample_utxo) = {#(COutPoint (replicate 32 1) 0, sample_coin)#}"
    unfolding sample_utxo_def by (subst mset_entries_upd) simp_all
  then show ?thesis by simp
qed

lemma sample_form: "block_form fmempty [sample_coinbase]"
  by (simp add: block_form_def block_new_def new_tx_def)

section \<open>Properties\<close>

text \<open>C27. Disconnecting a block restores the coins: the undo data written while connecting is
  enough to rebuild the set before it, and the result is clean when the peg-ins are.\<close>

theorem disconnect_restores_coins:
  assumes "connect_coins C h block U = Some (undo, U')" "block_form U block" "utxo_wf C U" "0 < h"
    and "\<And>tx. tx \<in> set (tl block) \<Longrightarrow> pegins_clean C (vin tx)"
  shows "DisconnectBlock C h block undo U' = Some (U, True) \<and> utxo_wf C U'"
  using connect_coins_undo [OF assms(1-4)] assms(5) by auto

theorem disconnect_restores_coins_witness:
  "DisconnectBlock sample_coins 1 [sample_coinbase] [] sample_utxo = Some (fmempty, True)"
  using disconnect_restores_coins [of sample_coins "Suc 0" "[sample_coinbase]" fmempty "[]" sample_utxo] sample_form
  by (simp add: utxo_wf_def)

end
