(* ===== verification/RecordRules.thy ===== *)
theory RecordRules
  imports Rebuild Standard
begin

text \<open>
  The rules on delegation and payout records. \<open>PosTxSpendsKey\<close> of \<open>src/pos.cpp\<close>; the part of
  \<open>ConnectBlock\<close> (\<open>src/validation.cpp\<close>) that refuses a block creating a second record for a
  controller, or for a signer and activation height, with the restrictions of the hardening
  height; and the same rules for one transaction at a time, as \<open>PosCheckTxRecords\<close>
  applies them to the mempool and to a block template. A refusal is the reason string.
\<close>

section \<open>Consensus parameters\<close>

text \<open>The fields of \<open>Consensus::Params\<close> and the globals that these rules read, with the verification of
  a BLS proof of possession, which is done by a library.\<close>

record rule_params =
  pos_hardening_height :: int
  split_payout_height :: int
  split_payout_chain_genesis :: uint256
  hashGenesisBlock :: uint256
  g_pos_payout_notice :: u32
  anyonecanspend_aremine :: bool
  con_elementsmode :: bool
  BlsVerifyPossession :: "bytes \<Rightarrow> bytes \<Rightarrow> bool"

definition PosHardeningActiveAt :: "rule_params \<Rightarrow> int \<Rightarrow> bool" where
  "PosHardeningActiveAt P height \<longleftrightarrow> pos_hardening_height P > 0 \<and> height \<ge> pos_hardening_height P"

definition SplitPayoutActiveAt :: "rule_params \<Rightarrow> int \<Rightarrow> bool" where
  "SplitPayoutActiveAt P height \<longleftrightarrow>
     (if split_payout_height P = 0 then True
      else if split_payout_chain_genesis P \<noteq> uint256_zero \<and> split_payout_chain_genesis P \<noteq> hashGenesisBlock P then True
      else height \<ge> split_payout_height P)"

section \<open>Who may create a record\<close>

definition coin_of_key :: "pos_env \<Rightarrow> rule_params \<Rightarrow> CPubKey \<Rightarrow> bytes \<Rightarrow> bool" where
  "coin_of_key E P key spk \<longleftrightarrow>
     (case Solver (anyonecanspend_aremine P) (con_elementsmode P) spk of (t, solutions) \<Rightarrow>
        (t = PUBKEY \<and> PubKey_Set (solutions ! 0) = key) \<or>
        ((t = PUBKEYHASH \<or> t = WITNESS_V0_KEYHASH) \<and> solutions ! 0 = PubKey_GetID key)) \<or>
     (case ParseStakeScript E spk of Some stake \<Rightarrow> fst stake = key | None \<Rightarrow> False) \<or>
     ParseUnbondScript E spk = Some key \<or>
     (case ParseDelegationScript E spk of Some deleg \<Rightarrow> fst deleg = key | None \<Rightarrow> False) \<or>
     (case ParsePayoutScript E spk of Some payout \<Rightarrow> fst payout = key | None \<Rightarrow> False)"

definition PosTxSpendsKey :: "pos_env \<Rightarrow> rule_params \<Rightarrow> CPubKey \<Rightarrow> Coin list \<Rightarrow> bool" where
  "PosTxSpendsKey E P key spent \<longleftrightarrow>
     list_ex (\<lambda>coin. \<not> IsSpent coin \<and> coin_of_key E P key (scriptPubKey (coin_out coin))) spent"

section \<open>The rules of a block\<close>

type_synonym reason = string

text \<open>The two loops over the outputs of the block, with the set of what was created so far.\<close>

fun deleg_outs :: "pos_env \<Rightarrow> StakeRegistry \<Rightarrow> CPubKey set \<Rightarrow> CTxOut list \<Rightarrow> CPubKey set \<Rightarrow> reason option" where
  "deleg_outs E R spent_records [] created = None"
| "deleg_outs E R spent_records (out # outs) created =
     (case DelegationFromTxOut E out of None \<Rightarrow> deleg_outs E R spent_records outs created
      | Some (c, s) \<Rightarrow>
          if c \<in> created then Some ''bad-delegation-conflict''
          else if HasDelegation R c \<and> c \<notin> spent_records then Some ''bad-delegation-exists''
          else deleg_outs E R spent_records outs (insert c created))"

fun payout_outs :: "pos_env \<Rightarrow> rule_params \<Rightarrow> StakeRegistry \<Rightarrow> int \<Rightarrow> (CPubKey \<times> int) set \<Rightarrow> CTxOut list
    \<Rightarrow> (CPubKey \<times> int) set \<Rightarrow> reason option" where
  "payout_outs E P R height spent_payouts [] created = None"
| "payout_outs E P R height spent_payouts (out # outs) created =
     (case PayoutFromTxOut E out of None \<Rightarrow> payout_outs E P R height spent_payouts outs created
      | Some (s, p) \<Rightarrow>
          if pp_mode p = SPLIT \<and> \<not> SplitPayoutActiveAt P height then payout_outs E P R height spent_payouts outs created
          else if pp_activation p < height + uint (g_pos_payout_notice P) then Some ''bad-payout-notice''
          else if (s, pp_activation p) \<in> created then Some ''bad-payout-conflict''
          else if HasPayoutAt R s (pp_activation p) \<and> (s, pp_activation p) \<notin> spent_payouts then Some ''bad-payout-exists''
          else payout_outs E P R height spent_payouts outs (insert (s, pp_activation p) created))"

text \<open>From the hardening height: the spent coins first, then the outputs with the coins their
  transaction spent.\<close>

definition payout_in_force :: "pos_env \<Rightarrow> StakeRegistry \<Rightarrow> int \<Rightarrow> Coin \<Rightarrow> bool" where
  "payout_in_force E R height coin =
     (case PayoutFromTxOut E (coin_out coin) of None \<Rightarrow> False | Some (s, p) \<Rightarrow> PosPayoutInForce R s p height)"

definition is_record_coin :: "pos_env \<Rightarrow> CTxOut \<Rightarrow> bool" where
  "is_record_coin E out \<longleftrightarrow> DelegationFromTxOut E out \<noteq> None \<or> PayoutFromTxOut E out \<noteq> None"

definition hardened_out :: "pos_env \<Rightarrow> rule_params \<Rightarrow> int \<Rightarrow> bytes set \<Rightarrow> Coin list \<Rightarrow> CTxOut \<Rightarrow> reason option" where
  "hardened_out E P height spent_record_scripts spent out =
     (if PosOutputWeightsUncompressedKey E out then Some ''bad-stake-uncompressed-key''
      else case DelegationFromTxOut E out of
        Some (c, s) \<Rightarrow>
          if scriptPubKey out \<in> spent_record_scripts then Some ''bad-record-recreated''
          else if c = s then Some ''bad-delegation-self''
          else if \<not> PosTxSpendsKey E P c spent then Some ''bad-delegation-unauthorized''
          else None
      | None \<Rightarrow> (case PayoutFromTxOut E out of
            None \<Rightarrow> None
          | Some (s, p) \<Rightarrow>
              if pp_mode p = SPLIT \<and> \<not> SplitPayoutActiveAt P height then None
              else if scriptPubKey out \<in> spent_record_scripts then Some ''bad-record-recreated''
              else if \<not> PosTxSpendsKey E P s spent then Some ''bad-payout-unauthorized''
              else None))"

fun first_reason :: "('a \<Rightarrow> reason option) \<Rightarrow> 'a list \<Rightarrow> reason option" where
  "first_reason f [] = None"
| "first_reason f (x # xs) = (case f x of None \<Rightarrow> first_reason f xs | Some r \<Rightarrow> Some r)"

definition hardened_rules :: "pos_env \<Rightarrow> rule_params \<Rightarrow> StakeRegistry \<Rightarrow> CBlock \<Rightarrow> CBlockUndo \<Rightarrow> int \<Rightarrow> reason option" where
  "hardened_rules E P R block undo height =
     (if list_ex (payout_in_force E R height) (concat undo) then Some ''bad-payout-in-force''
      else let spent_record_scripts = (\<lambda>c. scriptPubKey (coin_out c)) ` set (filter (\<lambda>c. is_record_coin E (coin_out c)) (concat undo))
        in first_reason (\<lambda>(tx, spent). first_reason (hardened_out E P height spent_record_scripts spent) (vout tx))
             (zip block ([] # undo)))"

text \<open>With the undo data of the block, one record for each transaction after the coinbase.\<close>

definition record_rules :: "pos_env \<Rightarrow> rule_params \<Rightarrow> StakeRegistry \<Rightarrow> CBlock \<Rightarrow> CBlockUndo \<Rightarrow> int \<Rightarrow> reason option" where
  "record_rules E P R block undo height =
     (let outs = concat (map vout block); coins = map coin_out (concat undo) in
      case deleg_outs E R (fst ` set (List.map_filter (DelegationFromTxOut E) coins)) outs {} of
        Some r \<Rightarrow> Some r
      | None \<Rightarrow> (case payout_outs E P R height
            ((\<lambda>(s, p). (s, pp_activation p)) ` set (List.map_filter (PayoutFromTxOut E) coins)) outs {} of
          Some r \<Rightarrow> Some r
        | None \<Rightarrow> if PosHardeningActiveAt P height then hardened_rules E P R block undo height else None))"

section \<open>The rules of a transaction\<close>

record PosRecordState =
  spent_delegations :: "CPubKey set"
  spent_payouts :: "(CPubKey \<times> int) set"
  spent_record_scripts :: "bytes set"
  created_delegations :: "CPubKey set"
  created_payouts :: "(CPubKey \<times> int) set"
  created_record_scripts :: "bytes set"
  bls_keys :: "(CPubKey, bytes) fmap"

definition PosRecordState_init :: PosRecordState where
  "PosRecordState_init = \<lparr>spent_delegations = {}, spent_payouts = {}, spent_record_scripts = {},
     created_delegations = {}, created_payouts = {}, created_record_scripts = {}, bls_keys = fmempty\<rparr>"

definition check_spent :: "pos_env \<Rightarrow> StakeRegistry \<Rightarrow> int \<Rightarrow> bool \<Rightarrow> Coin \<Rightarrow> PosRecordState \<Rightarrow> reason + PosRecordState" where
  "check_spent E R height hardening coin st =
     (let out = coin_out coin in
      if hardening \<and> is_record_coin E out \<and> scriptPubKey out \<in> created_record_scripts st
      then Inl ''bad-record-recreated''
      else let st = (case DelegationFromTxOut E out of None \<Rightarrow> st
                     | Some (c, s) \<Rightarrow> st\<lparr>spent_delegations := insert c (spent_delegations st),
                                        spent_record_scripts := insert (scriptPubKey out) (spent_record_scripts st)\<rparr>)
        in case PayoutFromTxOut E out of None \<Rightarrow> Inr st
           | Some (s, p) \<Rightarrow>
               if hardening \<and> PosPayoutInForce R s p height then Inl ''bad-payout-in-force''
               else Inr (st\<lparr>spent_payouts := insert (s, pp_activation p) (spent_payouts st),
                            spent_record_scripts := insert (scriptPubKey out) (spent_record_scripts st)\<rparr>))"

definition check_deleg :: "pos_env \<Rightarrow> rule_params \<Rightarrow> StakeRegistry \<Rightarrow> bool \<Rightarrow> Coin list \<Rightarrow> CTxOut \<Rightarrow> PosRecordState \<Rightarrow> reason + PosRecordState" where
  "check_deleg E P R hardening spent out st =
     (case DelegationFromTxOut E out of None \<Rightarrow> Inr st
      | Some (c, s) \<Rightarrow>
          if hardening \<and> scriptPubKey out \<in> spent_record_scripts st then Inl ''bad-record-recreated''
          else if hardening \<and> c = s then Inl ''bad-delegation-self''
          else if hardening \<and> \<not> PosTxSpendsKey E P c spent then Inl ''bad-delegation-unauthorized''
          else if c \<in> created_delegations st then Inl ''bad-delegation-conflict''
          else if HasDelegation R c \<and> c \<notin> spent_delegations st then Inl ''bad-delegation-exists''
          else Inr (st\<lparr>created_delegations := insert c (created_delegations st),
                       created_record_scripts := insert (scriptPubKey out) (created_record_scripts st)\<rparr>))"

text \<open>The flag says whether the loop body goes on to the staking rules: a skipped record ends it.\<close>

definition check_payout :: "pos_env \<Rightarrow> rule_params \<Rightarrow> StakeRegistry \<Rightarrow> int \<Rightarrow> bool \<Rightarrow> Coin list \<Rightarrow> CTxOut \<Rightarrow> PosRecordState
    \<Rightarrow> reason + PosRecordState \<times> bool" where
  "check_payout E P R height hardening spent out st =
     (case PayoutFromTxOut E out of None \<Rightarrow> Inr (st, True)
      | Some (s, p) \<Rightarrow>
          if pp_mode p = SPLIT \<and> \<not> SplitPayoutActiveAt P height then Inr (st, False)
          else if hardening \<and> scriptPubKey out \<in> spent_record_scripts st then Inl ''bad-record-recreated''
          else if hardening \<and> \<not> PosTxSpendsKey E P s spent then Inl ''bad-payout-unauthorized''
          else if pp_activation p < height + uint (g_pos_payout_notice P) then Inl ''bad-payout-notice''
          else if (s, pp_activation p) \<in> created_payouts st then Inl ''bad-payout-conflict''
          else if HasPayoutAt R s (pp_activation p) \<and> (s, pp_activation p) \<notin> spent_payouts st then Inl ''bad-payout-exists''
          else Inr (st\<lparr>created_payouts := insert (s, pp_activation p) (created_payouts st),
                       created_record_scripts := insert (scriptPubKey out) (created_record_scripts st)\<rparr>, True))"

definition check_bls :: "pos_env \<Rightarrow> rule_params \<Rightarrow> StakeRegistry \<Rightarrow> CTxOut \<Rightarrow> PosRecordState \<Rightarrow> reason + PosRecordState" where
  "check_bls E P R out st =
     (if g_pos_public_committee E \<and> StakeFromTxOut E out \<noteq> None
      then case ParseStakeScriptFull E (scriptPubKey out) of None \<Rightarrow> Inr st
        | Some full \<Rightarrow>
            if ps_bls_pubkey full = [] then Inr st
            else let existing = GetBls R (ps_pubkey full) in
              if existing \<noteq> [] \<and> existing \<noteq> ps_bls_pubkey full then Inl ''bad-stake-bls-conflict''
              else if fm_get (ps_bls_pubkey full) (bls_keys st) (ps_pubkey full) \<noteq> ps_bls_pubkey full
              then Inl ''bad-stake-bls-conflict''
              else if \<not> BlsVerifyPossession P (ps_bls_pubkey full) (ps_bls_pop full) then Inl ''bad-stake-bls-pop''
              else Inr (st\<lparr>bls_keys := fmupd (ps_pubkey full) (ps_bls_pubkey full) (bls_keys st)\<rparr>)
      else Inr st)"

definition check_out :: "pos_env \<Rightarrow> rule_params \<Rightarrow> StakeRegistry \<Rightarrow> int \<Rightarrow> bool \<Rightarrow> Coin list \<Rightarrow> CTxOut \<Rightarrow> PosRecordState \<Rightarrow> reason + PosRecordState" where
  "check_out E P R height hardening spent out st =
     (if hardening \<and> PosOutputWeightsUncompressedKey E out then Inl ''bad-stake-uncompressed-key''
      else case check_deleg E P R hardening spent out st of Inl r \<Rightarrow> Inl r
        | Inr st \<Rightarrow> (case check_payout E P R height hardening spent out st of Inl r \<Rightarrow> Inl r
          | Inr (st, goon) \<Rightarrow> if goon then check_bls E P R out st else Inr st))"

fun check_each :: "('a \<Rightarrow> 's \<Rightarrow> reason + 's) \<Rightarrow> 'a list \<Rightarrow> 's \<Rightarrow> reason + 's" where
  "check_each f [] st = Inr st"
| "check_each f (x # xs) st = (case f x st of Inl r \<Rightarrow> Inl r | Inr st' \<Rightarrow> check_each f xs st')"

text \<open>The record part of \<open>PosCheckTxRecords\<close>: everything but the supervision rules and the pot claim,
  which come after it. A refused transaction leaves the state as it was.\<close>

definition check_tx_records :: "pos_env \<Rightarrow> rule_params \<Rightarrow> StakeRegistry \<Rightarrow> CTransaction \<Rightarrow> Coin list \<Rightarrow> int \<Rightarrow> PosRecordState \<Rightarrow> reason + PosRecordState" where
  "check_tx_records E P R tx spent height st =
     (let hardening = PosHardeningActiveAt P height in
      case check_each (check_spent E R height hardening) spent st of Inl r \<Rightarrow> Inl r
      | Inr st \<Rightarrow> check_each (check_out E P R height hardening spent) (vout tx) st)"

section \<open>What the rules of a block give\<close>

lemma map_filter_Cons: "List.map_filter f (x # xs) = (case f x of None \<Rightarrow> List.map_filter f xs | Some y \<Rightarrow> y # List.map_filter f xs)"
  by (simp add: List.map_filter_simps)

lemma map_filter_append: "List.map_filter f (xs @ ys) = List.map_filter f xs @ List.map_filter f ys"
  by (simp add: List.map_filter_def)

text \<open>The controllers of the delegations, and the signers with the activation heights of the payouts, among outputs.\<close>

definition deleg_keys :: "pos_env \<Rightarrow> CTxOut list \<Rightarrow> CPubKey list" where
  "deleg_keys E outs = map fst (List.map_filter (DelegationFromTxOut E) outs)"

definition payout_keys :: "pos_env \<Rightarrow> CTxOut list \<Rightarrow> (CPubKey \<times> int) list" where
  "payout_keys E outs = map (\<lambda>(s, p). (s, pp_activation p)) (List.map_filter (PayoutFromTxOut E) outs)"

lemma deleg_keys_Cons [simp]: "deleg_keys E [] = []"
  "deleg_keys E (out # outs) = (case DelegationFromTxOut E out of None \<Rightarrow> [] | Some d \<Rightarrow> [fst d]) @ deleg_keys E outs"
  by (simp_all add: deleg_keys_def List.map_filter_simps split: option.split)

lemma payout_keys_Cons [simp]: "payout_keys E [] = []"
  "payout_keys E (out # outs) =
     (case PayoutFromTxOut E out of None \<Rightarrow> [] | Some d \<Rightarrow> [(fst d, pp_activation (snd d))]) @ payout_keys E outs"
  by (simp_all add: payout_keys_def List.map_filter_simps split: option.split prod.split)

lemma deleg_outs_ok:
  "deleg_outs E R S outs cr = None \<Longrightarrow>
   distinct (deleg_keys E outs) \<and> set (deleg_keys E outs) \<inter> cr = {} \<and>
   (\<forall>c \<in> set (deleg_keys E outs). HasDelegation R c \<longrightarrow> c \<in> S)"
proof (induction outs arbitrary: cr)
  case (Cons out outs)
  show ?case
  proof (cases "DelegationFromTxOut E out")
    case (Some d)
    then have "fst d \<notin> cr" "HasDelegation R (fst d) \<longrightarrow> fst d \<in> S" "deleg_outs E R S outs (insert (fst d) cr) = None"
      using Cons.prems by (auto split: if_splits prod.splits)
    then show ?thesis using Cons.IH [of "insert (fst d) cr"] Some by auto
  qed (use Cons in simp)
qed simp

lemma payout_outs_ok:
  assumes "SplitPayoutActiveAt P height"
  shows "payout_outs E P R height S outs cr = None \<Longrightarrow>
   distinct (payout_keys E outs) \<and> set (payout_keys E outs) \<inter> cr = {} \<and>
   (\<forall>k \<in> set (payout_keys E outs). HasPayoutAt R (fst k) (snd k) \<longrightarrow> k \<in> S)"
proof (induction outs arbitrary: cr)
  case (Cons out outs)
  show ?case
  proof (cases "PayoutFromTxOut E out")
    case (Some d)
    then have "(fst d, pp_activation (snd d)) \<notin> cr"
      "HasPayoutAt R (fst d) (pp_activation (snd d)) \<longrightarrow> (fst d, pp_activation (snd d)) \<in> S"
      "payout_outs E P R height S outs (insert (fst d, pp_activation (snd d)) cr) = None"
      using Cons.prems assms by (auto split: if_splits prod.splits)
    then show ?thesis using Cons.IH [of "insert (fst d, pp_activation (snd d)) cr"] Some by auto
  qed (use Cons in simp)
qed simp

text \<open>The keys of the records among a list of coins.\<close>

definition rec_keys :: "pos_env \<Rightarrow> (COutPoint \<times> Coin) list \<Rightarrow> (CPubKey + CPubKey \<times> int) list" where
  "rec_keys E es = map dp_key (dps E es)"

abbreviation outs_of :: "(COutPoint \<times> Coin) list \<Rightarrow> CTxOut list" where
  "outs_of es \<equiv> map (\<lambda>e. coin_out (snd e)) es"

text \<open>No payout record among the coins is inert, created before SPLIT payouts were recognised.\<close>

definition payouts_live :: "pos_env \<Rightarrow> (COutPoint \<times> Coin) list \<Rightarrow> bool" where
  "payouts_live E es = list_all (\<lambda>e. case PayoutFromTxOut E (coin_out (snd e)) of None \<Rightarrow> True
     | Some (s, p) \<Rightarrow> PayoutRecordRecognized E p (int (nHeight (snd e)))) es"

lemma rec_keys_deleg: "count (mset (rec_keys E es)) (Inl c) = count (mset (deleg_keys E (outs_of es))) c"
  by (induction es) (auto simp: rec_keys_def dps_def dp_of_def Let_def split: option.split)

lemma rec_keys_payout: "payouts_live E es \<Longrightarrow> count (mset (rec_keys E es)) (Inr k) = count (mset (payout_keys E (outs_of es))) k"
proof (induction es)
  case (Cons e es)
  then show ?case using out_kinds_exclusive(3) [of E "coin_out (snd e)"]
    by (cases "DelegationFromTxOut E (coin_out (snd e))"; cases "PayoutFromTxOut E (coin_out (snd e))")
      (auto simp: rec_keys_def dps_def dp_of_def Let_def payouts_live_def)
qed (simp add: rec_keys_def dps_def)

lemma created_outs: "outs_of (block_created h block) = concat (map vout block)"
  by (induction block) (auto simp: block_created_def tx_coins_def case_prod_unfold comp_def)

lemma UpdateCoins_undo_length: "UpdateCoins C tx h U = Some (undo, V) \<Longrightarrow> \<not> IsCoinBase tx \<Longrightarrow> length undo = length (vin tx)"
  using spend_inputs_mset by (auto simp: UpdateCoins_def split: option.splits)

lemma undo_coins:
  assumes "connect_txs C h txs U = Some (us, U')" "list_all (\<lambda>tx. \<not> IsCoinBase tx) txs"
  shows "map snd (concat (map (\<lambda>(tx, u). tx_spent tx u) (zip txs us))) = concat us"
  using assms
proof (induction txs arbitrary: U us)
  case (Cons tx txs)
  obtain undo V us' where up: "UpdateCoins C tx h U = Some (undo, V)"
    and rest: "connect_txs C h txs V = Some (us', U')" "us = undo # us'" using Cons.prems(1) by (rule connect_txs_Cons)
  then show ?case using Cons.IH [OF rest(1)] Cons.prems(2) UpdateCoins_undo_length [OF up] by (simp add: tx_spent_def)
qed simp

lemma block_undo_coins:
  assumes "connect_coins C h block U = Some (undo, U')" "block_form U block"
  shows "map snd (block_spent block undo) = concat undo"
proof -
  obtain tx txs where b: "block = tx # txs" "list_all (\<lambda>tx. \<not> IsCoinBase tx) txs"
    using assms(2) by (cases block) (auto simp: block_form_def list_all_iff)
  then obtain V where "connect_txs C h txs V = Some (undo, U')"
    using connect_coinsE [OF assms] by (auto split: option.splits prod.splits)
  then show ?thesis using undo_coins b by (simp add: block_spent_def tx_spent_def)
qed

lemma block_spent_outs:
  assumes "connect_coins C h block U = Some (undo, U')" "block_form U block"
  shows "outs_of (block_spent block undo) = map coin_out (concat undo)"
  by (simp flip: block_undo_coins [OF assms])

text \<open>A coin spent by the block was there before or is created in it, unless it is the dummy of a peg-in.\<close>

lemma undo_from:
  assumes "connect_txs C h txs U = Some (us, U')"
  shows "e \<in> set (concat (map (\<lambda>(tx, u). tx_spent tx u) (zip txs us))) \<Longrightarrow>
    snd e = coinEmpty \<or> e \<in> set (concat (map (\<lambda>(tx, u). spent_coins (vin tx) u) (zip txs us)))"
  using assms
proof (induction txs arbitrary: U us)
  case (Cons tx txs)
  obtain undo V us' where up: "UpdateCoins C tx h U = Some (undo, V)"
    and rest: "connect_txs C h txs V = Some (us', U')" "us = undo # us'" using Cons.prems(2) by (rule connect_txs_Cons)
  have "snd e = coinEmpty \<or> e \<in> set (spent_coins (vin tx) undo)" if "e \<in> set (tx_spent tx undo)"
    using that UpdateCoins_dummies [OF up] by (fastforce simp: tx_spent_def spent_coins_def zip_map1)
  then show ?case using Cons.IH [OF _ rest(1)] Cons.prems(1) rest(2) by auto
qed simp

lemma block_spent_from:
  assumes "connect_coins C h block U = Some (undo, U')" "block_form U block" "e \<in> set (block_spent block undo)"
  shows "snd e = coinEmpty \<or> e \<in> set (fm_entries U) \<or> e \<in> set (block_created h block)"
proof -
  have "e \<in># mset (fm_entries U') + mset (concat (map (\<lambda>(tx, u). spent_coins (vin tx) u) (zip block ([] # undo))))"
    if "snd e \<noteq> coinEmpty"
    using undo_from [OF connect_coinsE [OF assms(1,2)] assms(3) [unfolded block_spent_def]] that by simp
  then show ?thesis unfolding block_mset [OF assms(1,2)] by auto
qed

lemma block_spent_live:
  assumes "connect_coins C h block U = Some (undo, U')" "block_form U block"
    and "payouts_live E (fm_entries U)" "\<And>p. PayoutRecordRecognized E p (int h)"
  shows "payouts_live E (block_created h block)" "payouts_live E (block_spent block undo)"
proof -
  show new: "payouts_live E (block_created h block)"
    using assms(4) tx_coins_hash
    by (fastforce simp: payouts_live_def list_all_iff block_created_def split: option.split prod.split)
  have "PayoutFromTxOut E (coin_out coinEmpty) = None"
    using from_out_kind(5) coinEmpty_no_record by blast
  then show "payouts_live E (block_spent block undo)"
    using block_spent_from [OF assms(1,2)] assms(3) new
    unfolding payouts_live_def list_all_iff by fastforce
qed

lemma has_record_registry:
  shows "HasDelegation (registry_of E es (config_only R)) c \<longleftrightarrow> Inl c \<in> set (rec_keys E es)"
    and "HasPayoutAt (registry_of E es (config_only R)) s a \<longleftrightarrow> Inr (s, a) \<in> set (rec_keys E es)"
  unfolding registry_of_def rec_keys_def by (simp_all add: has_record dps_def)

lemma count_step: "a + b = s + (n :: nat) \<Longrightarrow> a \<le> 1 \<Longrightarrow> b \<le> 1 \<Longrightarrow> (0 < a \<Longrightarrow> 0 < b \<Longrightarrow> 0 < s) \<Longrightarrow> n \<le> 1"
  by linarith

lemma distinct_count: "distinct xs \<longleftrightarrow> (\<forall>x. count (mset xs) x \<le> 1)"
proof
  show "\<forall>x. count (mset xs) x \<le> 1 \<Longrightarrow> distinct xs"
  proof (induction xs)
    case (Cons a xs)
    have "count (mset xs) a = 0" using Cons.prems [rule_format, of a] by simp
    moreover have "\<forall>x. count (mset xs) x \<le> 1" using Cons.prems by (metis count_add_mset le_SucI mset.simps(2) nat_le_linear not_less_eq_eq)
    ultimately show ?case using Cons.IH by (simp add: count_eq_zero_iff)
  qed simp
qed (simp add: distinct_count_atmost_1)

lemma set_outs_spent: "set (deleg_keys E outs) = fst ` set (List.map_filter (DelegationFromTxOut E) outs)"
  by (simp add: deleg_keys_def)

lemma record_rulesE:
  assumes "record_rules E P R block undo height = None"
  shows "deleg_outs E R (set (deleg_keys E (map coin_out (concat undo)))) (concat (map vout block)) {} = None"
    and "payout_outs E P R height (set (payout_keys E (map coin_out (concat undo)))) (concat (map vout block)) {} = None"
    and "PosHardeningActiveAt P height \<Longrightarrow> hardened_rules E P R block undo height = None"
  using assms by (auto simp: record_rules_def deleg_keys_def payout_keys_def Let_def split: option.splits)

lemma rules_replaced:
  assumes con: "connect_coins C h block U = Some (undo, U')" and form: "block_form U block"
    and live: "payouts_live E (fm_entries U)"
    and split: "SplitPayoutActiveAt P (int h)" "\<And>p. PayoutRecordRecognized E p (int h)"
    and rules: "record_rules E P (registry_of E (fm_entries U) (config_only R)) block undo (int h) = None"
  shows "records_replaced E h block undo U"
proof -
  let ?K = "\<lambda>es k. count (mset (rec_keys E es)) k" and ?old = "fm_entries U" and ?new = "block_created h block"
    and ?sp = "block_spent block undo"
  note lives = block_spent_live [OF con form live split(2)] and outs = created_outs [of h block]
    and spent = block_spent_outs [OF con form]
  note d = deleg_outs_ok [OF record_rulesE(1) [OF rules], folded outs spent]
    and p = payout_outs_ok [OF split(1) record_rulesE(2) [OF rules], folded outs spent]
  have new: "?K ?new k \<le> 1" for k
    using d p by (cases k) (auto simp: rec_keys_deleg rec_keys_payout [OF lives(1)] distinct_count)
  have "0 < ?K ?sp k" if "0 < ?K ?old k" "0 < ?K ?new k" for k
  proof (cases k)
    case (Inl c)
    then have "c \<in> set (deleg_keys E (outs_of ?new))" using that(2) by (simp add: rec_keys_deleg)
    moreover have "HasDelegation (registry_of E ?old (config_only R)) c"
      using that(1) Inl by (simp add: has_record_registry)
    ultimately show ?thesis using d Inl by (auto simp: rec_keys_deleg)
  next
    case (Inr x)
    then have "x \<in> set (payout_keys E (outs_of ?new))" using that(2) by (simp add: rec_keys_payout [OF lives(1)])
    moreover have "HasPayoutAt (registry_of E ?old (config_only R)) (fst x) (snd x)"
      using that(1) Inr by (simp add: has_record_registry)
    ultimately show ?thesis using p Inr by (auto simp: rec_keys_payout [OF lives(2)])
  qed
  then show ?thesis using new by (fastforce simp: records_replaced_def distinct_count rec_keys_def)
qed

lemma rules_unique:
  assumes con: "connect_coins C h block U = Some (undo, U')" and form: "block_form U block"
    and uni: "records_unique E U" and live: "payouts_live E (fm_entries U)"
    and split: "SplitPayoutActiveAt P (int h)" "\<And>p. PayoutRecordRecognized E p (int h)"
    and rules: "record_rules E P (registry_of E (fm_entries U) (config_only R)) block undo (int h) = None"
  shows "records_unique E U'"
proof -
  let ?K = "\<lambda>es k. count (mset (rec_keys E es)) k"
  have rep: "records_replaced E h block undo U" using rules_replaced [OF con form live split rules] .
  have "?K (fm_entries U) k + ?K (block_created h block) k = ?K (block_spent block undo) k + ?K (fm_entries U') k" for k
    using arg_cong [OF block_dps_mset [OF con form, of E], of "\<lambda>M. count (image_mset dp_key M) k"] by (simp add: rec_keys_def)
  moreover have "?K (fm_entries U) k \<le> 1" "?K (block_created h block) k \<le> 1" for k
    using uni rep by (simp_all add: records_unique_def records_replaced_def rec_keys_def distinct_count)
  moreover have "0 < ?K (fm_entries U) k \<Longrightarrow> 0 < ?K (block_created h block) k \<Longrightarrow> 0 < ?K (block_spent block undo) k" for k
    using rep by (auto simp: records_replaced_def rec_keys_def) (metis imageI)
  ultimately have "?K (fm_entries U') k \<le> 1" for k using count_step by blast
  then show ?thesis by (simp add: records_unique_def distinct_count rec_keys_def)
qed

section \<open>The rules of a transaction give those of the block\<close>

lemma deleg_keys_append [simp]: "deleg_keys E (xs @ ys) = deleg_keys E xs @ deleg_keys E ys"
  by (simp add: deleg_keys_def map_filter_append)

lemma payout_keys_append [simp]: "payout_keys E (xs @ ys) = payout_keys E xs @ payout_keys E ys"
  by (simp add: payout_keys_def map_filter_append)

definition inert :: "rule_params \<Rightarrow> int \<Rightarrow> PosPayoutPolicy \<Rightarrow> bool" where
  "inert P height p \<longleftrightarrow> pp_mode p = SPLIT \<and> \<not> SplitPayoutActiveAt P height"

definition live_keys :: "pos_env \<Rightarrow> rule_params \<Rightarrow> int \<Rightarrow> CTxOut list \<Rightarrow> (CPubKey \<times> int) list" where
  "live_keys E P height outs = map (\<lambda>(s, p). (s, pp_activation p))
     (filter (\<lambda>(s, p). \<not> inert P height p) (List.map_filter (PayoutFromTxOut E) outs))"

lemma live_keys_simps [simp]: "live_keys E P h [] = []" "live_keys E P h (xs @ ys) = live_keys E P h xs @ live_keys E P h ys"
  "live_keys E P h [out] = (case PayoutFromTxOut E out of None \<Rightarrow> []
     | Some (s, p) \<Rightarrow> if inert P h p then [] else [(s, pp_activation p)])"
  by (simp_all add: live_keys_def map_filter_append List.map_filter_simps split: option.split prod.split)

lemma deleg_outs_append:
  "deleg_outs E R S (xs @ ys) cr = None \<longleftrightarrow>
   deleg_outs E R S xs cr = None \<and> deleg_outs E R S ys (cr \<union> set (deleg_keys E xs)) = None"
  by (induction xs arbitrary: cr) (auto split: option.split prod.split)

lemma payout_outs_Some:
  "PayoutFromTxOut E x = Some (s, p) \<Longrightarrow> payout_outs E P R h S (x # xs) cr = None \<longleftrightarrow>
   (if inert P h p then payout_outs E P R h S xs cr = None
    else h + uint (g_pos_payout_notice P) \<le> pp_activation p \<and> (s, pp_activation p) \<notin> cr \<and>
      (HasPayoutAt R s (pp_activation p) \<longrightarrow> (s, pp_activation p) \<in> S) \<and>
      payout_outs E P R h S xs (insert (s, pp_activation p) cr) = None)"
  by (auto simp: inert_def)

lemma payout_outs_append:
  "payout_outs E P R h S (xs @ ys) cr = None \<longleftrightarrow>
   payout_outs E P R h S xs cr = None \<and> payout_outs E P R h S ys (cr \<union> set (live_keys E P h xs)) = None"
proof (induction xs arbitrary: cr)
  case (Cons x xs)
  have x: "live_keys E P h (x # xs) = live_keys E P h [x] @ live_keys E P h xs" using live_keys_simps(2) [of E P h "[x]" xs] by simp
  show ?case
  proof (cases "PayoutFromTxOut E x")
    case (Some d)
    then show ?thesis using Cons.IH x
      by (cases d; cases "inert P h (snd d)") (simp_all add: payout_outs_Some del: payout_outs.simps)
  qed (use Cons.IH x in simp)
qed simp

lemma deleg_outs_mono: "deleg_outs E R S outs cr = None \<Longrightarrow> S \<subseteq> S' \<Longrightarrow> deleg_outs E R S' outs cr = None"
  by (induction outs arbitrary: cr) (auto split: option.splits prod.splits if_splits)

lemma payout_outs_mono: "payout_outs E P R h S outs cr = None \<Longrightarrow> S \<subseteq> S' \<Longrightarrow> payout_outs E P R h S' outs cr = None"
  by (induction outs arbitrary: cr) (auto split: option.splits prod.splits if_splits)

text \<open>The records that the hardening rules look at.\<close>

definition live_record :: "pos_env \<Rightarrow> rule_params \<Rightarrow> int \<Rightarrow> CTxOut \<Rightarrow> bool" where
  "live_record E P height out \<longleftrightarrow> DelegationFromTxOut E out \<noteq> None \<or>
     (case PayoutFromTxOut E out of None \<Rightarrow> False | Some (s, p) \<Rightarrow> \<not> inert P height p)"

lemma hardened_out_scripts:
  "hardened_out E P h S spent out = None \<longleftrightarrow>
   hardened_out E P h {} spent out = None \<and> (live_record E P h out \<longrightarrow> scriptPubKey out \<notin> S)"
  by (auto simp: hardened_out_def live_record_def inert_def split: option.splits if_splits)

text \<open>What the state says after the coins and outputs that were accepted, each output with the coins its transaction spends.\<close>

definition record_scripts :: "pos_env \<Rightarrow> Coin list \<Rightarrow> bytes set" where
  "record_scripts E coins = (\<lambda>c. scriptPubKey (coin_out c)) ` set (filter (\<lambda>c. is_record_coin E (coin_out c)) coins)"

definition accepted :: "pos_env \<Rightarrow> rule_params \<Rightarrow> StakeRegistry \<Rightarrow> int \<Rightarrow> Coin list \<Rightarrow> (Coin list \<times> CTxOut) list \<Rightarrow> PosRecordState \<Rightarrow> bool" where
  "accepted E P R height coins outs st \<longleftrightarrow>
     spent_delegations st = set (deleg_keys E (map coin_out coins)) \<and>
     spent_payouts st = set (payout_keys E (map coin_out coins)) \<and>
     created_delegations st = set (deleg_keys E (map snd outs)) \<and>
     created_payouts st = set (live_keys E P height (map snd outs)) \<and>
     deleg_outs E R (spent_delegations st) (map snd outs) {} = None \<and>
     payout_outs E P R height (spent_payouts st) (map snd outs) {} = None \<and>
     spent_record_scripts st = record_scripts E coins \<and>
     created_record_scripts st = scriptPubKey ` {out \<in> set (map snd outs). live_record E P height out} \<and>
     (PosHardeningActiveAt P height \<longrightarrow> \<not> list_ex (payout_in_force E R height) coins \<and>
        (\<forall>(spent, out) \<in> set outs. hardened_out E P height {} spent out = None) \<and>
        spent_record_scripts st \<inter> created_record_scripts st = {})"

lemma accepted_hard:
  "accepted E P R h coins outs st \<Longrightarrow> PosHardeningActiveAt P h \<Longrightarrow>
   \<not> list_ex (payout_in_force E R h) coins \<and> spent_record_scripts st \<inter> created_record_scripts st = {}"
  unfolding accepted_def by blast

lemma accepted_spent:
  assumes acc: "accepted E P R h coins outs st" and ok: "check_spent E R h (PosHardeningActiveAt P h) c st = Inr st'"
  shows "accepted E P R h (coins @ [c]) outs st'"
proof -
  let ?out = "coin_out c"
  have same: "created_delegations st' = created_delegations st" "created_payouts st' = created_payouts st"
    "created_record_scripts st' = created_record_scripts st"
    using ok by (auto simp: check_spent_def Let_def split: option.splits if_splits)
  have d: "spent_delegations st' = spent_delegations st \<union> set (deleg_keys E [?out])"
    and p: "spent_payouts st' = spent_payouts st \<union> set (payout_keys E [?out])"
    and r: "spent_record_scripts st' = spent_record_scripts st \<union> record_scripts E [c]"
    using ok by (auto simp: check_spent_def record_scripts_def is_record_coin_def Let_def split: option.splits if_splits)
  have new: "\<not> payout_in_force E R h c" "record_scripts E [c] \<inter> created_record_scripts st = {}" if "PosHardeningActiveAt P h"
    using ok that by (auto simp: check_spent_def record_scripts_def payout_in_force_def Let_def split: option.splits if_splits)
  have "PosHardeningActiveAt P h \<longrightarrow> spent_record_scripts st' \<inter> created_record_scripts st = {} \<and>
      \<not> list_ex (payout_in_force E R h) (coins @ [c])"
    using new accepted_hard [OF acc] by (simp add: r Int_Un_distrib2)
  moreover have "record_scripts E (coins @ [c]) = record_scripts E coins \<union> record_scripts E [c]"
    by (auto simp: record_scripts_def)
  moreover have "deleg_outs E R (spent_delegations st') (map snd outs) {} = None"
    "payout_outs E P R h (spent_payouts st') (map snd outs) {} = None"
    using acc d p by (auto simp: accepted_def elim: deleg_outs_mono payout_outs_mono)
  ultimately show ?thesis
    using acc d p r unfolding accepted_def same map_append list.map deleg_keys_append payout_keys_append set_append by simp
qed

lemma set_live_snoc: "scriptPubKey ` {out \<in> set (outs @ [x]). f out} =
    scriptPubKey ` {out \<in> set outs. f out} \<union> (if f x then {scriptPubKey x} else {})"
  by auto

lemma check_bls_records: "check_bls E P R out st = Inr st' \<Longrightarrow> \<exists>m. st' = st\<lparr>bls_keys := m\<rparr>"
proof -
  assume "check_bls E P R out st = Inr st'"
  then have "st' = st \<or> (\<exists>m. st' = st\<lparr>bls_keys := m\<rparr>)"
    by (auto simp: check_bls_def Let_def split: if_splits option.splits)
  moreover have "st = st\<lparr>bls_keys := bls_keys st\<rparr>" by simp
  ultimately show ?thesis by blast
qed

text \<open>The delegation and the payout part of the loop body come to one update of the created records.\<close>

lemma check_out_parts:
  assumes "check_out E P R h hard spent out st = Inr st'"
  obtains st1 st2 g m where "\<not> (hard \<and> PosOutputWeightsUncompressedKey E out)"
    "check_deleg E P R hard spent out st = Inr st1" "check_payout E P R h hard spent out st1 = Inr (st2, g)"
    "st' = st2\<lparr>bls_keys := m\<rparr>"
proof -
  obtain st1 st2 g where parts: "\<not> (hard \<and> PosOutputWeightsUncompressedKey E out)"
    "check_deleg E P R hard spent out st = Inr st1" "check_payout E P R h hard spent out st1 = Inr (st2, g)"
    "(if g then check_bls E P R out st2 else Inr st2) = Inr st'"
    using assms by (auto simp: check_out_def split: if_splits sum.splits)
  have "st2 = st2\<lparr>bls_keys := bls_keys st2\<rparr>" by simp
  then obtain m where "st' = st2\<lparr>bls_keys := m\<rparr>" using parts(4) check_bls_records by (metis Inr_inject)
  then show thesis using that parts(1-3) by blast
qed

lemma check_delegE:
  assumes "check_deleg E P R hard spent out st = Inr st'" "DelegationFromTxOut E out = Some (c, s)"
  shows "st' = st\<lparr>created_delegations := insert c (created_delegations st),
      created_record_scripts := insert (scriptPubKey out) (created_record_scripts st)\<rparr>"
    "c \<notin> created_delegations st" "HasDelegation R c \<longrightarrow> c \<in> spent_delegations st"
    "hard \<Longrightarrow> scriptPubKey out \<notin> spent_record_scripts st \<and> c \<noteq> s \<and> PosTxSpendsKey E P c spent"
  using assms by (auto simp: check_deleg_def split: if_splits)

lemma check_payoutE:
  assumes "check_payout E P R h hard spent out st = Inr (st', g)" "PayoutFromTxOut E out = Some (s, p)" "\<not> inert P h p"
  shows "st' = st\<lparr>created_payouts := insert (s, pp_activation p) (created_payouts st),
      created_record_scripts := insert (scriptPubKey out) (created_record_scripts st)\<rparr>"
    "(s, pp_activation p) \<notin> created_payouts st"
    "HasPayoutAt R s (pp_activation p) \<longrightarrow> (s, pp_activation p) \<in> spent_payouts st"
    "h + uint (g_pos_payout_notice P) \<le> pp_activation p"
    "hard \<Longrightarrow> scriptPubKey out \<notin> spent_record_scripts st \<and> PosTxSpendsKey E P s spent"
  using assms by (auto simp: check_payout_def inert_def split: if_splits)

lemma check_payout_skip:
  "check_payout E P R h hard spent out st = Inr (st', g) \<Longrightarrow>
   PayoutFromTxOut E out = None \<or> (\<exists>s p. PayoutFromTxOut E out = Some (s, p) \<and> inert P h p) \<Longrightarrow> st' = st"
  by (auto simp: check_payout_def inert_def)

definition accepts_out :: "pos_env \<Rightarrow> rule_params \<Rightarrow> StakeRegistry \<Rightarrow> int \<Rightarrow> bool \<Rightarrow> Coin list \<Rightarrow> CTxOut \<Rightarrow> PosRecordState \<Rightarrow> PosRecordState \<Rightarrow> bool" where
  "accepts_out E P R h hard spent out st st' \<longleftrightarrow>
     spent_delegations st' = spent_delegations st \<and> spent_payouts st' = spent_payouts st \<and>
     spent_record_scripts st' = spent_record_scripts st \<and>
     created_delegations st' = created_delegations st \<union> set (deleg_keys E [out]) \<and>
     created_payouts st' = created_payouts st \<union> set (live_keys E P h [out]) \<and>
     created_record_scripts st' = created_record_scripts st \<union> (if live_record E P h out then {scriptPubKey out} else {}) \<and>
     deleg_outs E R (spent_delegations st) [out] (created_delegations st) = None \<and>
     payout_outs E P R h (spent_payouts st) [out] (created_payouts st) = None \<and>
     (hard \<longrightarrow> hardened_out E P h (spent_record_scripts st) spent out = None)"

lemma check_out_accepts:
  assumes "check_out E P R h hard spent out st = Inr st'"
  shows "accepts_out E P R h hard spent out st st'"
  using assms
proof (rule check_out_parts)
  fix st1 st2 g m
  assume unc: "\<not> (hard \<and> PosOutputWeightsUncompressedKey E out)" and d: "check_deleg E P R hard spent out st = Inr st1"
    and p: "check_payout E P R h hard spent out st1 = Inr (st2, g)" and st': "st' = st2\<lparr>bls_keys := m\<rparr>"
  show ?thesis
  proof (cases "DelegationFromTxOut E out")
    case None
    then have st1: "st1 = st" using d by (simp add: check_deleg_def)
    show ?thesis
    proof (cases "\<exists>s q. PayoutFromTxOut E out = Some (s, q) \<and> \<not> inert P h q")
      case True
      then obtain s q where q: "PayoutFromTxOut E out = Some (s, q)" "\<not> inert P h q" by blast
      note c = check_payoutE [OF p [unfolded st1] q]
      show ?thesis using None q c unc st'
        by (simp add: accepts_out_def live_record_def payout_outs_Some hardened_out_def del: payout_outs.simps(2))
    next
      case False
      then have "st2 = st" using check_payout_skip [OF p] st1 by (cases "PayoutFromTxOut E out") auto
      then show ?thesis using None False unc st' 
        by (auto simp: accepts_out_def live_record_def hardened_out_def inert_def split: option.split)
    qed
  next
    case (Some e)
    then obtain c s where cs: "DelegationFromTxOut E out = Some (c, s)" by (cases e) simp
    then have none: "PayoutFromTxOut E out = None" using out_kinds_exclusive(3) by fastforce
    then have "st2 = st1" using check_payout_skip [OF p] by simp
    then show ?thesis using check_delegE [OF d cs] cs none unc st'
      by (simp add: accepts_out_def live_record_def hardened_out_def)
  qed
qed

lemma accepted_out:
  assumes acc: "accepted E P R h coins outs st" and ok: "check_out E P R h (PosHardeningActiveAt P h) spent out st = Inr st'"
  shows "accepted E P R h coins (outs @ [(spent, out)]) st'"
proof -
  note new = check_out_accepts [OF ok, unfolded accepts_out_def]
  have "deleg_outs E R (spent_delegations st') (map snd (outs @ [(spent, out)])) {} = None"
    "payout_outs E P R h (spent_payouts st') (map snd (outs @ [(spent, out)])) {} = None"
    using acc new unfolding accepted_def
    by (elim conjE, simp add: deleg_outs_append payout_outs_append del: deleg_outs.simps(2) payout_outs.simps(2))+
  moreover have "PosHardeningActiveAt P h \<longrightarrow> \<not> list_ex (payout_in_force E R h) coins \<and>
      (\<forall>(spent, out) \<in> set (outs @ [(spent, out)]). hardened_out E P h {} spent out = None) \<and>
      spent_record_scripts st' \<inter> created_record_scripts st' = {}"
  proof
    assume hard: "PosHardeningActiveAt P h"
    have "\<forall>(spent, out) \<in> set outs. hardened_out E P h {} spent out = None"
      using acc hard unfolding accepted_def by blast
    then show "\<not> list_ex (payout_in_force E R h) coins \<and>
      (\<forall>(spent, out) \<in> set (outs @ [(spent, out)]). hardened_out E P h {} spent out = None) \<and>
      spent_record_scripts st' \<inter> created_record_scripts st' = {}"
      using hard new accepted_hard [OF acc hard] hardened_out_scripts [of E P h "spent_record_scripts st" spent out] by auto
  qed
  moreover have "created_record_scripts st' = scriptPubKey ` {o' \<in> set (map snd (outs @ [(spent, out)])). live_record E P h o'}"
    using acc new unfolding accepted_def map_append list.map snd_conv set_live_snoc by (elim conjE) (simp only:)
  moreover have "created_delegations st' = set (deleg_keys E (map snd (outs @ [(spent, out)])))"
    "created_payouts st' = set (live_keys E P h (map snd (outs @ [(spent, out)])))"
    using acc new unfolding accepted_def map_append list.map snd_conv deleg_keys_append live_keys_simps(2) set_append
    by (elim conjE, simp only:)+
  ultimately show ?thesis using acc new unfolding accepted_def by (elim conjE) (simp only:)
qed

lemma accepted_each:
  assumes "\<And>xs st st' x. A xs st \<Longrightarrow> f x st = Inr st' \<Longrightarrow> A (xs @ [x]) st'"
  shows "A xs st \<Longrightarrow> check_each f ys st = Inr st' \<Longrightarrow> A (xs @ ys) st'"
proof (induction ys arbitrary: xs st)
  case (Cons y ys)
  then obtain st1 where 1: "f y st = Inr st1" "check_each f ys st1 = Inr st'" by (auto split: sum.splits)
  show ?case using Cons.IH [OF assms [OF Cons.prems(1) 1(1)] 1(2)] by simp
qed simp

text \<open>A template: transactions taken one after the other, each with the coins it spends.\<close>

fun check_template :: "pos_env \<Rightarrow> rule_params \<Rightarrow> StakeRegistry \<Rightarrow> int \<Rightarrow> (CTransaction \<times> CTxUndo) list \<Rightarrow> PosRecordState \<Rightarrow> reason + PosRecordState" where
  "check_template E P R height [] st = Inr st"
| "check_template E P R height ((tx, spent) # txs) st =
     (case check_tx_records E P R tx spent height st of Inl r \<Rightarrow> Inl r | Inr st' \<Rightarrow> check_template E P R height txs st')"

abbreviation outs_with :: "(CTransaction \<times> CTxUndo) list \<Rightarrow> (Coin list \<times> CTxOut) list" where
  "outs_with txs \<equiv> concat (map (\<lambda>(tx, spent). map (Pair spent) (vout tx)) txs)"

lemma accepted_tx:
  assumes "accepted E P R h coins outs st" "check_tx_records E P R tx spent h st = Inr st'"
  shows "accepted E P R h (coins @ spent) (outs @ map (Pair spent) (vout tx)) st'"
proof -
  obtain st1 where st1: "check_each (check_spent E R h (PosHardeningActiveAt P h)) spent st = Inr st1"
    "check_each (check_out E P R h (PosHardeningActiveAt P h) spent) (vout tx) st1 = Inr st'"
    using assms(2) by (auto simp: check_tx_records_def Let_def split: sum.splits)
  have "accepted E P R h (coins @ spent) outs st1"
    using accepted_each [of "\<lambda>cs. accepted E P R h cs outs", OF accepted_spent assms(1) st1(1)] .
  then have "accepted E P R h (coins @ spent) (outs @ map (Pair spent) []) st1" by simp
  from accepted_each [of "\<lambda>os. accepted E P R h (coins @ spent) (outs @ map (Pair spent) os)", OF _ this st1(2)]
  show ?thesis using accepted_out [of E P R h "coins @ spent" "outs @ map (Pair spent) _"] by simp
qed

lemma accepted_template:
  "accepted E P R h coins outs st \<Longrightarrow> check_template E P R h txs st = Inr st' \<Longrightarrow>
   accepted E P R h (coins @ concat (map snd txs)) (outs @ outs_with txs) st'"
proof (induction txs arbitrary: coins outs st)
  case (Cons t txs)
  obtain tx spent where t: "t = (tx, spent)" by (cases t)
  then obtain st1 where 1: "check_tx_records E P R tx spent h st = Inr st1" "check_template E P R h txs st1 = Inr st'"
    using Cons.prems(2) by (auto split: sum.splits)
  show ?case using Cons.IH [OF accepted_tx [OF Cons.prems(1) 1(1)] 1(2)] t by simp
qed simp

lemma accepted_init: "accepted E P R h [] [] PosRecordState_init"
  by (simp add: accepted_def PosRecordState_init_def record_scripts_def)

text \<open>An output that none of these rules looks at, as a coinbase has.\<close>

definition plain_out :: "pos_env \<Rightarrow> CTxOut \<Rightarrow> bool" where
  "plain_out E out \<longleftrightarrow> DelegationFromTxOut E out = None \<and> PayoutFromTxOut E out = None \<and> \<not> PosOutputWeightsUncompressedKey E out"

lemma plain_outs:
  assumes "list_all (plain_out E) outs"
  shows "deleg_keys E outs = []" "live_keys E P h outs = []" "deleg_outs E R S outs cr = None"
    "payout_outs E P R h T outs cr' = None" "list_all (\<lambda>out. hardened_out E P h Q spent out = None) outs"
  using assms by (induction outs)
    (auto simp: plain_out_def hardened_out_def live_keys_def List.map_filter_simps)

lemma first_reason_None: "first_reason f xs = None \<longleftrightarrow> list_all (\<lambda>x. f x = None) xs"
  by (induction xs) (auto split: option.split)

lemma outs_with_zip: "length us = length txs \<Longrightarrow> map snd (outs_with (zip txs us)) = concat (map vout txs)"
  by (induction us txs rule: list_induct2) (simp_all add: comp_def)

lemma accepted_outs:
  assumes acc: "accepted E P R h coins outs st" and hard: "PosHardeningActiveAt P h" and out: "(spent, out) \<in> set outs"
  shows "hardened_out E P h (record_scripts E coins) spent out = None"
proof -
  have 1: "hardened_out E P h {} spent out = None" using acc hard out unfolding accepted_def by blast
  have "created_record_scripts st = scriptPubKey ` {out \<in> set (map snd outs). live_record E P h out}"
    and r: "spent_record_scripts st = record_scripts E coins" using acc unfolding accepted_def by blast+
  then have "scriptPubKey out \<in> created_record_scripts st" if "live_record E P h out" using that out by force
  then have "scriptPubKey out \<notin> record_scripts E coins" if "live_record E P h out"
    using that accepted_hard [OF acc hard] r by blast
  then show ?thesis using 1 by (subst hardened_out_scripts) blast
qed

lemma accepted_rules:
  assumes acc: "accepted E P R h (concat undo) (outs_with (zip txs undo)) st" and len: "length undo = length txs"
    and cb: "list_all (plain_out E) (vout cb)"
  shows "record_rules E P R (cb # txs) undo h = None"
proof -
  note plain = plain_outs [OF cb] and outs = outs_with_zip [OF len]
  have "deleg_outs E R (set (deleg_keys E (map coin_out (concat undo)))) (concat (map vout txs)) {} = None"
    "payout_outs E P R h (set (payout_keys E (map coin_out (concat undo)))) (concat (map vout txs)) {} = None"
    using acc unfolding accepted_def outs by (elim conjE; simp only:)+
  then have d: "deleg_outs E R (set (deleg_keys E (map coin_out (concat undo)))) (vout cb @ concat (map vout txs)) {} = None"
    and p: "payout_outs E P R h (set (payout_keys E (map coin_out (concat undo)))) (vout cb @ concat (map vout txs)) {} = None"
    using plain by (simp_all add: deleg_outs_append payout_outs_append)
  have "hardened_rules E P R (cb # txs) undo h = None" if hard: "PosHardeningActiveAt P h"
  proof -
    have "(spent, out) \<in> set (outs_with (zip txs undo))" if "(tx, spent) \<in> set (zip txs undo)" "out \<in> set (vout tx)" for tx spent out
      using that by force
    then have "list_all (\<lambda>(tx, spent). list_all (\<lambda>out. hardened_out E P h (record_scripts E (concat undo)) spent out = None) (vout tx)) (zip txs undo)"
      using accepted_outs [OF acc hard] by (fastforce simp: list_all_iff)
    then have "first_reason (\<lambda>(tx, spent). first_reason (hardened_out E P h (record_scripts E (concat undo)) spent) (vout tx))
        (zip (cb # txs) ([] # undo)) = None"
      using plain(5) by (simp add: first_reason_None case_prod_unfold del: first_reason.simps)
    then show ?thesis using accepted_hard [OF acc hard] by (simp add: hardened_rules_def record_scripts_def Let_def)
  qed
  then show ?thesis using d p
    by (simp add: record_rules_def Let_def deleg_keys_def payout_keys_def)
qed

section \<open>Sample values\<close>

text \<open>A controller with a delegation record and an unbonding coin. A block first creates the same
  delegation again, its marker pushed by \<open>OP_PUSHDATA1\<close>, and then spends the old record.\<close>

definition sample_rules :: rule_params where
  "sample_rules = \<lparr>pos_hardening_height = 1, split_payout_height = 0, split_payout_chain_genesis = uint256_zero,
     hashGenesisBlock = uint256_zero, g_pos_payout_notice = 10, anyonecanspend_aremine = False,
     con_elementsmode = True, BlsVerifyPossession = (\<lambda>_ _. True)\<rparr>"

definition sample_out :: "bytes \<Rightarrow> CTxOut" where
  "sample_out spk = \<lparr>nAsset = SetToAsset (replicate 32 7), nValue = SetToAmount 5, nNonce = [], scriptPubKey = spk\<rparr>"

abbreviation old_record :: bytes where
  "old_record \<equiv> BuildDelegationScript (sample_key 1) (sample_key 2)"

definition new_record :: bytes where
  "new_record = OP_PUSHDATA1 # 6 # DELEGATION_MARKER @ [OP_DROP] @ push_vch (PubKey_bytes (sample_key 2)) @ [OP_DROP]
     @ push_vch (PubKey_bytes (sample_key 1)) @ [OP_CHECKSIG]"

definition sample_tx :: "byte \<Rightarrow> COutPoint \<Rightarrow> CTxOut list \<Rightarrow> CTransaction" where
  "sample_tx b o' outs = \<lparr>tx_hash = replicate 32 b, vin = [\<lparr>prevout = o', m_is_pegin = False\<rparr>], vout = outs\<rparr>"

definition out_at :: "byte \<Rightarrow> COutPoint" where
  "out_at b = COutPoint (replicate 32 b) 0"

definition coin_at :: "nat \<Rightarrow> bytes \<Rightarrow> Coin" where
  "coin_at h spk = \<lparr>coin_out = sample_out spk, fCoinBase = False, nHeight = h\<rparr>"

abbreviation bonded_coin :: Coin where
  "bonded_coin \<equiv> coin_at 1 (BuildUnbondScript (sample_key 1))"

definition sample_before :: utxo where
  "sample_before = fmupd (out_at 1) bonded_coin (fmupd (out_at 2) (coin_at 1 old_record) fmempty)"

definition sample_after :: utxo where
  "sample_after = fmupd (out_at 4) (coin_at 2 new_record) fmempty"

definition sample_block :: CBlock where
  "sample_block = [sample_tx 3 (COutPoint uint256_zero NULL_INDEX) [], sample_tx 4 (out_at 1) [sample_out new_record],
     sample_tx 5 (out_at 2) []]"

definition sample_undo :: CBlockUndo where
  "sample_undo = [[bonded_coin], [coin_at 1 old_record]]"

lemma new_record_parse: "ParseDelegationScript sample_env new_record = Some (sample_key 1, sample_key 2)"
proof -
  have "GetScriptOp (OP_PUSHDATA1 # 6 # DELEGATION_MARKER @ rest) = Some (OP_PUSHDATA1, DELEGATION_MARKER, rest)" for rest
    by (simp add: GetScriptOp_def DELEGATION_MARKER_def ascii_def word_less_nat_alt)
  then show ?thesis
    by (simp add: ParseDelegationScript_def new_record_def expect_data_def script_simps at_end_def)
qed

lemma old_record_parse: "ParseDelegationScript sample_env old_record = Some (sample_key 1, sample_key 2)"
  by (simp add: ParseDelegation_Build)

lemma new_old: "new_record \<noteq> old_record"
  by (simp add: new_record_def BuildDelegationScript_def push_vch_def DELEGATION_MARKER_def ascii_def)

lemma delegation_only:
  assumes "ParseDelegationScript E spk = Some (c, s)"
  shows "DelegationFromTxOut E (sample_out spk) = Some (c, s)" "PayoutFromTxOut E (sample_out spk) = None"
    "StakeFromTxOut E (sample_out spk) = None" "PotFromTxOut E (sample_out spk) = None"
    "RoundFromTxOut E (sample_out spk) = None" "ParseStakeScript E spk = None"
proof -
  show d: "DelegationFromTxOut E (sample_out spk) = Some (c, s)"
    using assms by (simp add: DelegationFromTxOut_def sample_out_def)
  have k: "kind_accepts E (scriptPubKey (sample_out spk)) DelegationRec" using d from_out_kind(4) by fastforce
  note x = kinds_exclusive [OF k]
  show "PayoutFromTxOut E (sample_out spk) = None" "StakeFromTxOut E (sample_out spk) = None"
    "PotFromTxOut E (sample_out spk) = None" "RoundFromTxOut E (sample_out spk) = None"
    using x from_out_kind [of E "sample_out spk"] by blast+
  have "ParseStakeScriptFull E spk = None" using x [of StakeRec]
    by (cases "ParseStakeScriptFull E spk") (auto simp: kind_accepts_def sample_out_def)
  then show "ParseStakeScript E spk = None" by (simp add: ParseStakeScript_def)
qed

lemma unbond_only:
  assumes "ParseUnbondScript E spk = Some c"
  shows "DelegationFromTxOut E (sample_out spk) = None" "PayoutFromTxOut E (sample_out spk) = None"
    "StakeFromTxOut E (sample_out spk) = None" "PotFromTxOut E (sample_out spk) = None"
    "RoundFromTxOut E (sample_out spk) = None"
proof -
  have "kind_accepts E (scriptPubKey (sample_out spk)) UnbondRec" using assms by (simp add: kind_accepts_def sample_out_def)
  note x = kinds_exclusive [OF this]
  show "DelegationFromTxOut E (sample_out spk) = None" "PayoutFromTxOut E (sample_out spk) = None"
    "StakeFromTxOut E (sample_out spk) = None" "PotFromTxOut E (sample_out spk) = None" "RoundFromTxOut E (sample_out spk) = None"
    using x from_out_kind [of E "sample_out spk"] by blast+
qed

lemmas sample_records =
  delegation_only [OF new_record_parse] delegation_only [OF old_record_parse]
  unbond_only [OF ParseUnbond_Build [OF sample_good_key, of 1]]

lemma sample_dps:
  "dp_of sample_env (o', coin_at h new_record) = DpDeleg (sample_key 1) (sample_key 2) (int h)"
  "dp_of sample_env (o', coin_at h old_record) = DpDeleg (sample_key 1) (sample_key 2) (int h)"
  "dp_of sample_env (o', bonded_coin) = DpNone"
  "sp_of sample_env (o', coin_at h new_record) = SpNone" "sp_of sample_env (o', coin_at h old_record) = SpNone"
  "sp_of sample_env (o', bonded_coin) = SpNone"
  using sample_records by (simp_all add: dp_of_def sp_of_def coin_at_def)

lemma sample_coins_live:
  "\<not> IsSpent (coin_at h spk)" "\<not> IsUnspendable C new_record"
  using unspendable_no_record [of C new_record sample_env DelegationRec] new_record_parse
  by (auto simp: IsSpent_def TxOut_IsNull_def coin_at_def sample_out_def Conf_IsNull_def SetToAsset_def kind_accepts_def)

lemma sample_points [simp]: "out_at a = out_at b \<longleftrightarrow> a = b" "op_hash (out_at a) = replicate 32 a" "\<not> OutPoint_IsNull (out_at a)"
  by (auto simp: out_at_def OutPoint_IsNull_def)

lemma sample_txs [simp]:
  "tx_hash (sample_tx b o' outs) = replicate 32 b" "vout (sample_tx b o' outs) = outs"
  "vin (sample_tx b o' outs) = [\<lparr>prevout = o', m_is_pegin = False\<rparr>]"
  "IsCoinBase (sample_tx b o' outs) = OutPoint_IsNull o'"
  by (simp_all add: sample_tx_def IsCoinBase_def)

lemma null_point [simp]: "OutPoint_IsNull (COutPoint uint256_zero NULL_INDEX)"
  by (simp add: OutPoint_IsNull_def)

lemma sample_tx_coins [simp]: "tx_coins h (sample_tx b o' []) = []"
  "tx_coins h (sample_tx b (out_at a) [sample_out spk]) = [(out_at b, coin_at h spk)]"
  using sample_points(3) [of a] by (simp_all add: tx_coins_def coin_at_def) (simp add: out_at_def)

lemma sample_steps:
  "UpdateCoins C (sample_tx 3 (COutPoint uint256_zero NULL_INDEX) []) h U = Some ([], U)"
  "UpdateCoins C (sample_tx 4 (out_at 1) [sample_out new_record]) h sample_before =
     Some ([bonded_coin], fmupd (out_at 4) (coin_at h new_record) (fmupd (out_at 2) (coin_at 1 old_record) fmempty))"
  "UpdateCoins C (sample_tx 5 (out_at 2) []) h (fmupd (out_at 4) c (fmupd (out_at 2) d fmempty)) =
     Some ([d], fmupd (out_at 4) c fmempty)"
proof -
  show "UpdateCoins C (sample_tx 3 (COutPoint uint256_zero NULL_INDEX) []) h U = Some ([], U)"
    by (simp add: UpdateCoins_def AddCoins_def)
  have "fmdrop (out_at 1) sample_before = fmupd (out_at 2) (coin_at 1 old_record) fmempty"
    "fmlookup sample_before (out_at 1) = Some bonded_coin"
    by (rule fmap_ext) (simp_all add: sample_before_def)
  then show "UpdateCoins C (sample_tx 4 (out_at 1) [sample_out new_record]) h sample_before =
     Some ([bonded_coin], fmupd (out_at 4) (coin_at h new_record) (fmupd (out_at 2) (coin_at 1 old_record) fmempty))"
    using sample_coins_live(1) [of h new_record] sample_coins_live(2) [of C]
    by (simp add: UpdateCoins_def AddCoins_def AddCoin_def SpendCoin_def) (simp add: coin_at_def sample_out_def)
  have "fmdrop (out_at 2) (fmupd (out_at 4) c (fmupd (out_at 2) d fmempty)) = fmupd (out_at 4) c fmempty"
    by (rule fmap_ext) simp
  then show "UpdateCoins C (sample_tx 5 (out_at 2) []) h (fmupd (out_at 4) c (fmupd (out_at 2) d fmempty)) =
     Some ([d], fmupd (out_at 4) c fmempty)"
    by (simp add: UpdateCoins_def AddCoins_def SpendCoin_def)
qed

lemma sample_block_connects:
  "connect_coins sample_coins 2 sample_block sample_before = Some (sample_undo, sample_after)"
  "block_form sample_before sample_block"
  by (simp add: sample_block_def connect_coins_def sample_steps sample_undo_def sample_after_def)
    (auto simp: block_form_def sample_block_def block_new_def new_tx_def sample_before_def)

lemma sample_sets:
  "mset (fm_entries sample_before) = {#(out_at 1, bonded_coin), (out_at 2, coin_at 1 old_record)#}"
  "mset (fm_entries sample_after) = {#(out_at 4, coin_at 2 new_record)#}"
  by (simp_all add: sample_before_def sample_after_def mset_entries_upd)

lemma sample_out_script [simp]: "scriptPubKey (sample_out spk) = spk" "coin_out (coin_at h spk) = sample_out spk"
  by (simp_all add: sample_out_def coin_at_def)

lemma sample_authorized: "PosTxSpendsKey sample_env P (sample_key 1) [bonded_coin]"
  using sample_coins_live(1) ParseUnbond_Build [OF sample_good_key, of 1] by (simp add: PosTxSpendsKey_def coin_of_key_def)

lemma sample_keys_differ: "sample_key 1 \<noteq> sample_key 2"
  by (simp add: sample_key_def)

lemma sample_accepted: "record_rules sample_env sample_rules R sample_block sample_undo 2 = None"
proof -
  note recs = sample_records new_old sample_keys_differ
  have d: "deleg_outs sample_env R {sample_key 1} [sample_out new_record] {} = None" using recs by simp
  have p: "payout_outs sample_env sample_rules R 2 {} [sample_out new_record] {} = None" using recs by simp
  have "hardened_out sample_env sample_rules 2 {old_record} [bonded_coin] (sample_out new_record) = None"
    using recs sample_authorized by (simp add: hardened_out_def PosOutputWeightsUncompressedKey_def)
  then have "hardened_rules sample_env sample_rules R sample_block sample_undo 2 = None"
    using recs by (simp add: hardened_rules_def sample_block_def sample_undo_def payout_in_force_def is_record_coin_def)
  moreover have "List.map_filter (DelegationFromTxOut sample_env) (map coin_out (concat sample_undo)) = [(sample_key 1, sample_key 2)]"
    "List.map_filter (PayoutFromTxOut sample_env) (map coin_out (concat sample_undo)) = []"
    using recs by (simp_all add: sample_undo_def map_filter_Cons List.map_filter_simps)
  ultimately show ?thesis using d p by (simp add: record_rules_def Let_def sample_block_def)
qed

lemma sample_before_ok:
  "registry_fits sample_env (fm_entries sample_before)" "records_unique sample_env sample_before"
  "payouts_live sample_env (fm_entries sample_before)"
proof -
  have perm: "mset (fm_entries sample_before) = mset [(out_at 1, bonded_coin), (out_at 2, coin_at 1 old_record)]"
    by (simp add: sample_sets)
  have set: "set (fm_entries sample_before) = {(out_at 1, bonded_coin), (out_at 2, coin_at 1 old_record)}"
    using mset_eq_setD [OF perm] by simp
  have "length (fm_entries sample_before) = 2" using arg_cong [OF perm, of size] by simp
  moreover have "list_all (\<lambda>e. sp_of sample_env e = SpNone) (fm_entries sample_before)"
    unfolding list_all_iff set using sample_dps by simp
  then have "\<forall>e \<in> set (fm_entries sample_before). sp_of sample_env e = SpNone" by (simp add: list_all_iff)
  ultimately show "registry_fits sample_env (fm_entries sample_before)"
    using distinct_fst_entries by (simp add: registry_fits_def list_all_iff cong: map_cong)
  have "mset (dps sample_env (fm_entries sample_before)) = {#DpDeleg (sample_key 1) (sample_key 2) 1#}"
    using sample_dps by (simp add: mset_dps sample_sets)
  then show "records_unique sample_env sample_before" by (simp add: records_unique_def)
  show "payouts_live sample_env (fm_entries sample_before)"
    unfolding payouts_live_def list_all_iff set using sample_records by simp
qed

lemma sample_after_ok:
  "registry_fits sample_env (fm_entries sample_after)" "records_unique sample_env sample_after"
  "Inl (sample_key 1) \<in># mset (rec_keys sample_env (fm_entries sample_after))"
proof -
  have es: "fm_entries sample_after = [(out_at 4, coin_at 2 new_record)]" using sample_sets(2) by simp
  show "registry_fits sample_env (fm_entries sample_after)" "records_unique sample_env sample_after"
    "Inl (sample_key 1) \<in># mset (rec_keys sample_env (fm_entries sample_after))"
    unfolding registry_fits_def records_unique_def rec_keys_def es using sample_dps by simp_all
qed

text \<open>A controller that moves its delegation to another signer, spending the old record.\<close>

abbreviation rotated :: bytes where
  "rotated \<equiv> BuildDelegationScript (sample_key 1) (sample_key 3)"

lemma rotated_parse: "ParseDelegationScript sample_env rotated = Some (sample_key 1, sample_key 3)"
  by (simp add: ParseDelegation_Build)

lemma rotated_differs: "rotated \<noteq> old_record" "sample_key 1 \<noteq> sample_key 3"
proof -
  have k: "sample_key 3 \<noteq> sample_key 2" by (simp add: sample_key_def)
  show "rotated \<noteq> old_record"
  proof
    assume eq: "rotated = old_record"
    show False using rotated_parse [unfolded eq] old_record_parse k by simp
  qed
  show "sample_key 1 \<noteq> sample_key 3" by (simp add: sample_key_def)
qed

lemma rotation_authorized: "PosTxSpendsKey sample_env P (sample_key 1) [coin_at h old_record]"
  using sample_coins_live(1) [of h old_record] old_record_parse by (simp add: PosTxSpendsKey_def coin_of_key_def)

lemma sample_rotation:
  "\<exists>st. check_template sample_env sample_rules R 2 (zip [sample_tx 5 (out_at 2) [sample_out rotated]] [[coin_at 1 old_record]])
     PosRecordState_init = Inr st"
proof -
  note recs = delegation_only [OF rotated_parse] delegation_only [OF old_record_parse]
  let ?st = "PosRecordState_init\<lparr>spent_delegations := {sample_key 1}, spent_record_scripts := {old_record}\<rparr>"
  have s: "check_spent sample_env R 2 True (coin_at 1 old_record) PosRecordState_init = Inr ?st"
    using recs by (simp add: check_spent_def Let_def PosRecordState_init_def)
  have "\<exists>st. check_deleg sample_env sample_rules R True [coin_at 1 old_record] (sample_out rotated) ?st = Inr st"
    using recs(1) rotated_differs rotation_authorized by (simp add: check_deleg_def PosRecordState_init_def)
  moreover have "check_payout sample_env sample_rules R 2 True [coin_at 1 old_record] (sample_out rotated) st = Inr (st, True)"
    "check_bls sample_env sample_rules R (sample_out rotated) st = Inr st"
    "\<not> PosOutputWeightsUncompressedKey sample_env (sample_out rotated)" for st
    using recs by (simp_all add: check_payout_def check_bls_def PosOutputWeightsUncompressedKey_def)
  ultimately obtain st where "check_out sample_env sample_rules R 2 True [coin_at 1 old_record] (sample_out rotated) ?st = Inr st"
    by (auto simp: check_out_def)
  moreover have "PosHardeningActiveAt sample_rules 2" by (simp add: PosHardeningActiveAt_def sample_rules_def)
  ultimately show ?thesis using s by (simp add: check_tx_records_def)
qed

lemma sample_apply: "\<not> HasDelegation (PosApplyBlockStake sample_env sample_block sample_undo 2 R) (sample_key 1)"
proof -
  have zip: "zip sample_block ([] # sample_undo) = [(sample_tx 3 (COutPoint uint256_zero NULL_INDEX) [], []),
      (sample_tx 4 (out_at 1) [sample_out new_record], [bonded_coin]), (sample_tx 5 (out_at 2) [], [coin_at 1 old_record])]"
    by (simp add: sample_block_def sample_undo_def)
  have "length sample_block = length sample_undo + 1" by (simp add: sample_block_def sample_undo_def)
  moreover have "sps sample_env (block_spent sample_block sample_undo) = []" "sps sample_env (block_created 2 sample_block) = []"
    using sample_dps by (simp_all add: block_spent_def zip tx_spent_def block_created_def) (simp add: sample_block_def)
  ultimately show ?thesis using sample_dps
    by (simp add: apply_ops zip dp_tx_def tx_spent_def HasDelegation_def AddUtxoDelegation_def SubUtxoDelegation_def)
qed

section \<open>Properties\<close>

text \<open>C5. The rules of a block keep the records unique: where the coins hold one delegation for a
  controller and one payout record for a signer and activation height, and the registry was rebuilt
  from them, a connected block that passes the rules leaves it so. This holds where SPLIT payouts are
  recognised at that height, no record of the coins is an inert one (a SPLIT record made before its
  time), and the stake of the coins fits its counters.\<close>

theorem rules_keep_records_unique:
  assumes "connect_coins C h block U = Some (undo, U')" "block_form U block"
    and "registry_fits E (fm_entries U)" "records_unique E U" "payouts_live E (fm_entries U)"
    and "SplitPayoutActiveAt P (int h)" "g_split_payout_height E = 0 \<or> g_split_payout_height E \<le> int h"
    and "mset es = mset (fm_entries U)" "RebuildUtxoStake E (Some (map Some es)) R0 = Some R"
    and "record_rules E P R block undo (int h) = None"
  shows "records_unique E U'"
proof -
  have "R = registry_of E (fm_entries U) (config_only R0)"
    using Rebuild_cursor [OF assms(8,3,4)] assms(9) by simp
  moreover have "PayoutRecordRecognized E p (int h)" for p using assms(7) by (auto simp: PayoutRecordRecognized_def)
  ultimately show ?thesis using rules_unique [OF assms(1,2,4,5,6)] assms(10) by blast
qed

theorem rules_keep_records_unique_witness:
  "HasDelegation (registry_of sample_env (fm_entries sample_before) (config_only Reg_Clear)) (sample_key 1) \<and>
   records_unique sample_env sample_after"
proof -
  have "Inl (sample_key 1) \<in># mset (rec_keys sample_env (fm_entries sample_before))"
    using sample_dps by (simp add: rec_keys_def mset_dps sample_sets)
  moreover have "RebuildUtxoStake sample_env (Some (map Some (fm_entries sample_before))) Reg_Clear =
      Some (registry_of sample_env (fm_entries sample_before) (config_only Reg_Clear))"
    using Rebuild_cursor [OF refl sample_before_ok(1,2)] .
  ultimately show ?thesis
    using rules_keep_records_unique [OF sample_block_connects sample_before_ok _ _ refl, of sample_rules Reg_Clear]
      sample_accepted by (simp add: has_record_registry SplitPayoutActiveAt_def sample_rules_def sample_env_def)
qed

text \<open>C8. What the mempool and the block template accept is accepted in a block: where the transactions
  pass the rules one after the other, from the empty state, the block made of them passes them too,
  when its coinbase creates no record and no stake for an uncompressed key.\<close>

theorem template_passes_block_rules:
  assumes "check_template E P R height (zip txs undo) PosRecordState_init = Inr st" "length undo = length txs"
    and "list_all (plain_out E) (vout cb)"
  shows "record_rules E P R (cb # txs) undo height = None"
proof -
  have "accepted E P R height (concat undo) (outs_with (zip txs undo)) st"
    using accepted_template [OF accepted_init assms(1)] assms(2) by simp
  then show ?thesis by (rule accepted_rules [OF _ assms(2,3)])
qed

theorem template_passes_block_rules_witness:
  "record_rules sample_env sample_rules Reg_Clear
     [sample_tx 3 (COutPoint uint256_zero NULL_INDEX) [], sample_tx 5 (out_at 2) [sample_out rotated]]
     [[coin_at 1 old_record]] 2 = None"
proof -
  obtain st where "check_template sample_env sample_rules Reg_Clear 2
      (zip [sample_tx 5 (out_at 2) [sample_out rotated]] [[coin_at 1 old_record]]) PosRecordState_init = Inr st"
    using sample_rotation [of Reg_Clear] by blast
  then show ?thesis by (rule template_passes_block_rules) simp_all
qed

text \<open>C34. The rules do not make a running node agree with a restarted one. A block that passes them,
  past the hardening height, creates a delegation that it already has, encoded otherwise, in a
  transaction before the one that spends the old record; the records are unique before and after
  it. The registry that applies the block loses the delegation, and a rebuild keeps it.\<close>

theorem reencoded_delegation_lost:
  "PosHardeningActiveAt sample_rules 2 \<and>
   connect_coins sample_coins 2 sample_block sample_before = Some (sample_undo, sample_after) \<and>
   records_unique sample_env sample_before \<and> records_unique sample_env sample_after \<and>
   (\<exists>R R'. RebuildUtxoStake sample_env (Some (map Some (fm_entries sample_before))) Reg_Clear = Some R \<and>
     record_rules sample_env sample_rules R sample_block sample_undo 2 = None \<and>
     RebuildUtxoStake sample_env (Some (map Some (fm_entries sample_after))) Reg_Clear = Some R' \<and>
     HasDelegation R' (sample_key 1) \<and>
     \<not> HasDelegation (PosApplyBlockStake sample_env sample_block sample_undo 2 R) (sample_key 1))"
proof -
  have fits: "registry_fits sample_env (fm_entries sample_after)" "records_unique sample_env sample_after"
    and has: "Inl (sample_key 1) \<in># mset (rec_keys sample_env (fm_entries sample_after))"
    using sample_after_ok by auto
  have "PosHardeningActiveAt sample_rules 2" by (simp add: PosHardeningActiveAt_def sample_rules_def)
  then show ?thesis
    using sample_block_connects(1) sample_before_ok(2) fits has sample_accepted sample_apply
      Rebuild_cursor [OF refl sample_before_ok(1,2)] Rebuild_cursor [OF refl fits] by (simp add: has_record_registry)
qed

end
