(* ===== verification/Payout.thy ===== *)
theory Payout
  imports RoundClaim Timing RecordRules
begin

text \<open>
  Where a block's rewards go (\<open>PosRequiredCoinbaseScript\<close> of \<open>src/pos.cpp\<close>) and the two rules of
  ConnectBlock that enforce it (\<open>src/validation.cpp\<close>): the payee of the coinbase, and the claim
  rules for every transaction that spends a pot. The theory shows that the lottery draws each
  participant with exactly the number of tickets of its weight.
\<close>

section \<open>The draw\<close>

definition PayoutDraw :: "uint256 \<Rightarrow> string \<Rightarrow> u64" where
  "PayoutDraw seed tag =
     (let out = CSHA256_Finalize (CSHA256_Write (CSHA256_Write CSHA256 seed) (ascii tag))
      in fold (\<lambda>i v. v OR push_bit (8 * i) (ucast (out ! i))) [0..<8] 0)"

text \<open>The scan of the participants; falling through it is the branch that the code calls unreachable.\<close>

fun draw_winner :: "(CPubKey \<times> u64) list \<Rightarrow> u64 \<Rightarrow> CPubKey option" where
  "draw_winner [] ticket = None"
| "draw_winner ((k, w) # es) ticket = (if ticket < w then Some k else draw_winner es (ticket - w))"

definition commission_drawn :: "PosPayoutPolicy \<Rightarrow> uint256 \<Rightarrow> bool" where
  "commission_drawn policy seed \<longleftrightarrow> pp_commission_bp policy > 0 \<and>
     unat (PayoutDraw seed ''seqpay:commission'' mod word_of_nat POS_COMMISSION_DENOM) < pp_commission_bp policy"

definition PosRequiredCoinbaseScript :: "StakeRegistry \<Rightarrow> CPubKey \<Rightarrow> int \<Rightarrow> uint256 \<Rightarrow> bytes" where
  "PosRequiredCoinbaseScript R ldr height seed =
     (case PayoutFor R ldr height of None \<Rightarrow> PosLeaderFeeScript ldr
      | Some policy \<Rightarrow>
          if pp_mode policy = DIRECT then pp_script policy
          else if pp_mode policy = SPLIT
          then if commission_drawn policy seed then PosLeaderFeeScript ldr else BuildPotScript ldr
          else if commission_drawn policy seed then PosLeaderFeeScript ldr
          else let participants = ParticipantsFor R ldr; tot = fm_total participants
            in if tot = 0 then PosLeaderFeeScript ldr
               else case draw_winner (fm_entries participants) (PayoutDraw seed ''seqpay:winner'' mod tot) of
                 Some k \<Rightarrow> PosLeaderFeeScript k
               | None \<Rightarrow> PosLeaderFeeScript ldr)"

section \<open>Rules of ConnectBlock\<close>

text \<open>An output of the coinbase that carries value, or may.\<close>

definition must_pay :: "CTxOut \<Rightarrow> bool" where
  "must_pay txout \<longleftrightarrow> \<not> Value_IsExplicit (nValue txout) \<or> GetAmount (nValue txout) \<noteq> 0"

definition CheckMandatoryDestination :: "pos_env \<Rightarrow> bytes \<Rightarrow> CBlock \<Rightarrow> reason option" where
  "CheckMandatoryDestination E mandatory_coinbase_destination block =
     (if mandatory_coinbase_destination \<noteq> [] \<and> (\<exists>txout \<in> set (vout (block ! 0)).
        must_pay txout \<and> GetAsset (nAsset txout) = policyAsset E \<and> scriptPubKey txout \<noteq> mandatory_coinbase_destination)
      then Some ''bad-coinbase-txos'' else None)"

text \<open>From \<open>pos_coinbase_leader_height\<close>, every such output pays the required payee. The block's challenge and
  its parent give the leader and the seed.\<close>

definition CheckCoinbasePayee :: "pos_env \<Rightarrow> bool \<Rightarrow> int \<Rightarrow> StakeRegistry \<Rightarrow> CBlock \<Rightarrow> bytes \<Rightarrow> int \<Rightarrow> CBlockIndex option \<Rightarrow> reason option" where
  "CheckCoinbasePayee E check_pos_rules pos_coinbase_leader_height R block challenge height prev =
     (if check_pos_rules \<and> height \<ge> pos_coinbase_leader_height
      then (case ParsePosBlockChallenge E challenge of
          Some parts \<Rightarrow>
            if PubKey_IsValid (leader parts)
            then let required = PosRequiredCoinbaseScript R (leader parts) height (PosPayoutSeedForChild E prev)
              in if \<exists>txout \<in> set (vout (block ! 0)). must_pay txout \<and> scriptPubKey txout \<noteq> required
                 then Some ''bad-coinbase-not-leader'' else None
            else None
        | None \<Rightarrow> None)
      else None)"

definition CheckPotClaims :: "pos_env \<Rightarrow> rule_params \<Rightarrow> bool \<Rightarrow> StakeRegistry \<Rightarrow> CBlock \<Rightarrow> CBlockUndo \<Rightarrow> int \<Rightarrow> reason option" where
  "CheckPotClaims E P check_pos_rules R block undo height =
     (if check_pos_rules \<and> SplitPayoutActiveAt P height
      then (if \<exists>tu \<in> set (zip (drop 1 block) undo). CheckPosPotClaim E R (fst tu) (snd tu) height \<noteq> None
            then Some ''bad-pot-claim'' else None)
      else None)"

section \<open>Tickets\<close>

text \<open>The tickets of a participant are the numbers between the weights before it and its own.\<close>

lemma draw_winner_some:
  assumes "unat t < sum_list (map (\<lambda>e. unat (snd e)) es)"
  shows "\<exists>k w. draw_winner es t = Some k \<and> (k, w) \<in> set es"
  using assms
proof (induction es t rule: draw_winner.induct)
  case (2 k w es t)
  show ?case
  proof (cases "t < w")
    case False
    then have "unat (t - w) = unat t - unat w" by (simp add: unat_sub not_less)
    then have "unat (t - w) < sum_list (map (\<lambda>e. unat (snd e)) es)" using "2.prems" False by (simp add: word_less_nat_alt)
    then show ?thesis using "2.IH" [OF False] False by auto
  qed auto
qed simp

lemma draw_winner_tickets:
  assumes "distinct (map fst es)" "sum_list (map (\<lambda>e. unat (snd e)) es) < 2 ^ 64"
  shows "card {t. t < sum_list (map (\<lambda>e. unat (snd e)) es) \<and> draw_winner es (word_of_nat t) = Some k} =
    (case map_of es k of None \<Rightarrow> 0 | Some w \<Rightarrow> unat w)"
  using assms
proof (induction es)
  case (Cons e es)
  obtain j w where e: "e = (j, w)" by (cases e)
  let ?n = "sum_list (map (\<lambda>e. unat (snd e)) es)"
  let ?T = "{t. t < ?n \<and> draw_winner es (word_of_nat t) = Some k}"
  have "{t. t < unat w + ?n \<and> draw_winner ((j, w) # es) (word_of_nat t) = Some k} =
      {t. t < unat w \<and> j = k} \<union> (\<lambda>t. t + unat w) ` ?T" (is "?L = ?A \<union> ?B")
  proof (rule set_eqI)
    fix t
    show "t \<in> ?L \<longleftrightarrow> t \<in> ?A \<union> ?B"
    proof (cases "t < unat w")
      case True
      then have "(word_of_nat t :: u64) < w" using Cons.prems(2) e by (simp add: word_less_nat_alt unat_of_nat)
      then show ?thesis using True by auto
    next
      case False
      then obtain s where s: "t = s + unat w" by (metis add.commute le_iff_add not_less)
      have "(word_of_nat t :: u64) = word_of_nat s + w" by (simp add: s)
      moreover have "\<not> (word_of_nat t :: u64) < w" if "t < unat w + ?n"
        using that False Cons.prems(2) e by (simp add: word_less_nat_alt unat_of_nat)
      ultimately show ?thesis using False s by auto
    qed
  qed
  then have "card ?L = card ?A + card ?T"
    by (simp add: card_image inj_on_def) (subst card_Un_disjoint; auto simp: card_image inj_on_def)
  moreover have "card ?T = (case map_of es k of None \<Rightarrow> 0 | Some w \<Rightarrow> unat w)" using Cons e by simp
  moreover have "map_of es k = None" if "j = k" using Cons.prems(1) e that by (simp add: map_of_eq_None_iff)
  ultimately show ?case using e by auto
qed simp

section \<open>Properties\<close>

text \<open>C14. A lottery block that does not draw the commission pays one participant of the pool, the one that the ticket
  drawn selects, so the scan never falls through; and of all tickets exactly as many select a
  participant as it has weight.\<close>

theorem lottery_pays_by_weight:
  fixes R ldr
  defines "P \<equiv> ParticipantsFor R ldr"
  assumes "PayoutFor R ldr height = Some policy" "pp_mode policy = LOTTERY" "\<not> commission_drawn policy seed"
    and "0 < weight_sum P" "weight_sum P < 2 ^ 64"
  shows "(\<exists>j. j |\<in>| fmdom P \<and> draw_winner (fm_entries P) (PayoutDraw seed ''seqpay:winner'' mod fm_total P) = Some j \<and>
      PosRequiredCoinbaseScript R ldr height seed = PosLeaderFeeScript j) \<and>
    card {t. t < weight_sum P \<and> draw_winner (fm_entries P) (word_of_nat t) = Some k} = unat (fm_get 0 P k)"
proof
  let ?t = "PayoutDraw seed ''seqpay:winner'' mod fm_total P"
  have tot: "unat (fm_total P) = weight_sum P" by (rule fm_total_unat [OF assms(6)])
  then have ne: "fm_total P \<noteq> 0" using assms(5) by auto
  have "unat ?t < weight_sum P" using assms(5) by (simp add: unat_mod tot)
  then obtain j w where j: "draw_winner (fm_entries P) ?t = Some j" "(j, w) \<in> set (fm_entries P)"
    using draw_winner_some [of ?t "fm_entries P"] unfolding weight_sum_def by blast
  then show "\<exists>j. j |\<in>| fmdom P \<and> draw_winner (fm_entries P) ?t = Some j \<and>
      PosRequiredCoinbaseScript R ldr height seed = PosLeaderFeeScript j"
    using assms(2-4) ne by (auto simp: PosRequiredCoinbaseScript_def P_def Let_def intro: fmdomI)
  show "card {t. t < weight_sum P \<and> draw_winner (fm_entries P) (word_of_nat t) = Some k} = unat (fm_get 0 P k)"
    using draw_winner_tickets [OF distinct_fst_entries, of P k] assms(6)
    by (simp add: weight_sum_def map_of_sorted_list fm_get_def split: option.splits)
qed

definition lottery_policy :: PosPayoutPolicy where
  "lottery_policy = \<lparr>pp_mode = LOTTERY, pp_activation = 10, pp_script = [], pp_commission_bp = 0\<rparr>"

theorem lottery_pays_by_weight_witness:
  "PosRequiredCoinbaseScript (AddUtxoPayout (sample_key 1) lottery_policy solo_pool) (sample_key 1) 15 uint256_zero =
     PosLeaderFeeScript (sample_key 1)"
proof -
  let ?R = "AddUtxoPayout (sample_key 1) lottery_policy solo_pool"
  have m: "MergedLocked ?R = fmupd (sample_key 1) 5 fmempty"
    by (simp add: MergedLocked_def AddUtxoPayout_def solo_pool_def SetStake_def Reg_Clear_def)
  have p: "ParticipantsFor ?R (sample_key 1) = fmupd (sample_key 1) 5 fmempty"
    by (simp add: ParticipantsFor_def m)
      (simp add: SignerForLocked_def AddUtxoPayout_def solo_pool_def SetStake_def Reg_Clear_def)
  have "PayoutFor ?R (sample_key 1) 15 = Some lottery_policy"
    by (simp add: PayoutFor_def AddUtxoPayout_def solo_pool_def SetStake_def Reg_Clear_def lottery_policy_def)
  moreover have "pp_mode lottery_policy = LOTTERY" "\<not> commission_drawn lottery_policy uint256_zero"
    by (simp_all add: lottery_policy_def commission_drawn_def)
  moreover have "weight_sum (ParticipantsFor ?R (sample_key 1)) = 5" unfolding p by (simp add: weight_sum_def)
  ultimately show ?thesis
    using lottery_pays_by_weight [of ?R "sample_key 1" 15 lottery_policy uint256_zero "sample_key 1"] unfolding p by auto
qed

end
