(* ===== verification/Sortition.thy ===== *)
theory Sortition
  imports Complex_Main Election
begin

text \<open>
  Leader sortition by verifiable random function (\<open>src/pos.cpp\<close>): the slot of a staker from its VRF
  output and stake, in the legacy rule and in the exponential race, where the score is computed in
  fixed point from a base-two logarithm taken bit by bit, and the gate in seconds that a slot gives.
  The big integers are 256-bit words (\<open>limb_arithmetic\<close>). The VRF output is an argument.
\<close>

section \<open>Slots\<close>

text \<open>The fields of \<open>Consensus::Params\<close> that these rules read.\<close>

record slot_params =
  pos_exprace_height :: int
  pos_slot_gate_seconds :: int
  pos_slot_gate_height :: int

definition PosSlotGateActiveAt :: "slot_params \<Rightarrow> int \<Rightarrow> bool" where
  "PosSlotGateActiveAt S height \<longleftrightarrow>
     pos_slot_gate_seconds S > 0 \<and> pos_slot_gate_height S > 0 \<and> height \<ge> pos_slot_gate_height S"

abbreviation POS_VRF_MAX_SLOT :: u64 where "POS_VRF_MAX_SLOT \<equiv> 1048576"

definition PosTotalWeight :: "pos_env \<Rightarrow> StakeRegistry \<Rightarrow> u64" where
  "PosTotalWeight E R =
     fold (\<lambda>(pk, w) total. if \<not> PosIsEligibleStake E w then total else total + w) (fm_entries (Weights R)) 0"

definition PosVrfSlot :: "uint256 \<Rightarrow> u64 \<Rightarrow> u64 \<Rightarrow> u64" where
  "PosVrfSlot beta w total_weight =
     (if w = 0 \<or> total_weight = 0 then POS_VRF_MAX_SLOT
      else let q = arith (UintToArith256 beta) div ucast w;
               slot_a = drop_bit 64 (drop_bit 192 q * ucast total_weight);
               slot = ucast slot_a
        in min slot POS_VRF_MAX_SLOT)"

section \<open>The exponential race\<close>

abbreviation POS_EXP_FRAC :: nat where "POS_EXP_FRAC \<equiv> 32"
abbreviation POS_EXP_P :: nat where "POS_EXP_P \<equiv> 61"
abbreviation POS_EXP_LN2_Q32 :: u64 where "POS_EXP_LN2_Q32 \<equiv> 2977044472"

definition exp_step :: "nat \<Rightarrow> u64 \<times> u64 \<Rightarrow> u64 \<times> u64" where
  "exp_step i = (\<lambda>(v, frac).
     let sq = drop_bit POS_EXP_P (ucast v * ucast v :: arith_uint256);
         v = ucast sq
     in if drop_bit (POS_EXP_P + 1) v \<noteq> 0 then (drop_bit 1 v, frac OR push_bit (POS_EXP_FRAC - i) 1) else (v, frac))"

definition PosExpLog2Q32 :: "arith_uint256 \<Rightarrow> nat \<Rightarrow> u64" where
  "PosExpLog2Q32 beta n =
     (let vbig = (if n \<ge> POS_EXP_P then drop_bit (n - POS_EXP_P) beta else push_bit (POS_EXP_P - n) beta);
          (v, frac) = fold exp_step [1..<POS_EXP_FRAC + 1] (ucast vbig, 0)
      in push_bit POS_EXP_FRAC (word_of_nat n) OR frac)"

definition PosExpScoreInf :: arith_uint256 where
  "PosExpScoreInf = push_bit POS_EXP_FRAC (ucast (POS_VRF_MAX_SLOT + 1))"

definition PosVrfScoreExp :: "uint256 \<Rightarrow> u64 \<Rightarrow> u64 \<Rightarrow> arith_uint256" where
  "PosVrfScoreExp beta w total_weight =
     (if w = 0 \<or> total_weight = 0 then PosExpScoreInf
      else let b = UintToArith256 beta; bits = bu_bits b
        in if bits = 0 then PosExpScoreInf
           else let n = bits - 1;
                    log2b = PosExpLog2Q32 (arith b) n;
                    Lc = push_bit POS_EXP_FRAC 256 - log2b;
                    neg_ln = drop_bit POS_EXP_FRAC (ucast Lc * ucast POS_EXP_LN2_Q32 :: arith_uint256)
             in neg_ln * ucast total_weight div ucast w)"

definition PosVrfSlotExp :: "uint256 \<Rightarrow> u64 \<Rightarrow> u64 \<Rightarrow> u64" where
  "PosVrfSlotExp beta w total_weight =
     (let slot = drop_bit POS_EXP_FRAC (PosVrfScoreExp beta w total_weight)
      in if slot > ucast POS_VRF_MAX_SLOT then POS_VRF_MAX_SLOT else ucast slot)"

definition PosExpRaceActive :: "slot_params \<Rightarrow> int \<Rightarrow> bool" where
  "PosExpRaceActive S height \<longleftrightarrow> pos_exprace_height S > 0 \<and> height \<ge> pos_exprace_height S"

definition PosSlotGateSeconds :: "pos_env \<Rightarrow> slot_params \<Rightarrow> int \<Rightarrow> u64 \<Rightarrow> int" where
  "PosSlotGateSeconds E S height slot =
     (let unit = (if PosExpRaceActive S height \<and> PosSlotGateActiveAt S height then pos_slot_gate_seconds S
                  else if g_pos_slot_interval E > 0 then g_pos_slot_interval E else 1)
      in uint (min slot POS_VRF_MAX_SLOT) * unit)"

definition PosVrfIsCommitteeMember :: "pos_env \<Rightarrow> uint256 \<Rightarrow> u64 \<Rightarrow> u64 \<Rightarrow> bool" where
  "PosVrfIsCommitteeMember E beta w total_weight \<longleftrightarrow>
     PosIsEligibleStake E w \<and> PosVrfSlot beta w total_weight < word_of_int (max (g_pos_committee_size E) 0)"

section \<open>The legacy slot\<close>

lemma arith_lt: "unat (x :: arith_uint256) < 2 ^ 256"
  using unsigned_less [of x, where 'a = nat] by simp

lemma unat_of_u64: "unat (ucast w :: arith_uint256) = unat w" for w :: u64
  using u64_lt [of w] by (simp add: unsigned_ucast_eq take_bit_eq_mod)

lemma unat_low64: "unat (ucast x :: u64) = unat x mod 2 ^ 64" for x :: arith_uint256
  by (simp add: unsigned_ucast_eq take_bit_eq_mod)

lemma unat_mul256: "unat a * unat b < 2 ^ 256 \<Longrightarrow> unat (a * b :: arith_uint256) = unat a * unat b"
  by (simp add: unat_word_ariths)

lemma unat_shr: "unat (drop_bit n x) = unat x div 2 ^ n" for x :: "'a::len word"
  by (subst unat_drop_bit_eq) (rule drop_bit_eq_div)

lemma slot_value:
  assumes "w \<noteq> 0" "total_weight \<noteq> 0"
  shows "unat (PosVrfSlot beta w total_weight) =
    min (unat (arith (UintToArith256 beta)) div unat w div 2 ^ 192 * unat total_weight div 2 ^ 64) 1048576"
proof -
  define b where "b = arith (UintToArith256 beta)"
  define q where "q = unat b div unat w div 2 ^ 192"
  have "unat b div unat w < 2 ^ 256" using arith_lt [of b] div_le_dividend order_le_less_trans by blast
  then have q: "q < 2 ^ 64" unfolding q_def by (simp add: div_less_iff_less_mult)
  have lt: "q * unat total_weight < 2 ^ 64 * 2 ^ 64" using q u64_lt [of total_weight] by (intro mult_strict_mono) auto
  have uq: "unat (drop_bit 192 (b div ucast w)) = q" unfolding q_def unat_shr unat_div_distrib unat_of_u64 ..
  have "unat (drop_bit 192 (b div ucast w)) * unat (ucast total_weight :: arith_uint256) < 2 ^ 256"
    unfolding uq unat_of_u64 using lt by simp
  note m = unat_mul256 [OF this, unfolded uq unat_of_u64]
  have "q * unat total_weight div 2 ^ 64 < 2 ^ 64" using lt by (simp add: div_less_iff_less_mult)
  then have "unat (ucast (drop_bit 64 (drop_bit 192 (b div ucast w) * ucast total_weight)) :: u64) = q * unat total_weight div 2 ^ 64"
    unfolding unat_low64 unat_shr m by simp
  then show ?thesis using assms unfolding b_def q_def by (simp add: PosVrfSlot_def Let_def min_def word_le_nat_alt)
qed

section \<open>The logarithm\<close>

lemma ln2_half: "1 / 2 \<le> ln (2 :: real)"
proof -
  have "exp 1 \<le> (4 :: real)" using exp_le by simp
  then have "1 \<le> ln (4 :: real)" by (metis exp_gt_zero ln_exp ln_le_cancel_iff order_less_le_trans)
  also have "ln (4 :: real) = 2 * ln 2" using ln_realpow [of 2 2] by simp
  finally show ?thesis by simp
qed

text \<open>Cutting a number of at least 61 bits to an integer changes its logarithm by less than \<open>2 ^ -60\<close>.\<close>

lemma floor_log:
  fixes a b :: nat
  assumes "0 < b" "2 ^ 61 \<le> a div b"
  shows "log 2 (a div b) \<le> log 2 a - log 2 b" "log 2 a - log 2 b \<le> log 2 (a div b) + 1 / 2 ^ 60"
proof -
  let ?q = "a div b"
  have q: "2 ^ 61 \<le> real ?q" using assms(2) by (metis numeral_power_le_of_nat_cancel_iff)
  then have q0: "0 < real ?q" by (meson less_le_trans zero_less_numeral zero_less_power)
  have "b * ?q \<le> a" by simp
  then have "real b * real ?q \<le> real a" by (metis of_nat_mult of_nat_le_iff)
  moreover have "a \<le> b * (?q + 1)" using dividend_less_times_div [OF assms(1), of a] by simp
  then have "real a \<le> real b * (real ?q + 1)" by (metis of_nat_1 of_nat_add of_nat_le_iff of_nat_mult)
  ultimately have x: "real ?q \<le> real a / real b" "real a / real b \<le> real ?q + 1" using assms(1)
    by (simp_all add: le_divide_eq divide_le_eq mult.commute)
  have "0 < real a / real b" using x(1) q0 by linarith
  then have ab: "0 < real a" using assms(1) by (simp add: zero_less_divide_iff)
  have d: "log 2 a - log 2 b = log 2 (real a / real b)" using assms(1) ab by (simp add: log_divide)
  show "log 2 ?q \<le> log 2 a - log 2 b" unfolding d using x(1) q0 by simp
  have "log 2 (real a / real b) \<le> log 2 (real ?q + 1)" using x(2) \<open>0 < real a / real b\<close> by simp
  also have "real ?q + 1 = real ?q * (1 + 1 / real ?q)" using q0 by (simp add: field_simps)
  also have "log 2 (real ?q * (1 + 1 / real ?q)) = log 2 (real ?q) + log 2 (1 + 1 / real ?q)"
    using q0 by (intro log_mult_pos) (simp_all add: add_pos_pos)
  also have "log 2 (1 + 1 / real ?q) \<le> 1 / 2 ^ 60"
  proof -
    have "log 2 (1 + 1 / real ?q) = ln (1 + 1 / real ?q) / ln 2" by (simp add: log_def)
    also have "\<dots> \<le> (1 / real ?q) / ln 2" using q0 by (intro divide_right_mono ln_add_one_self_le_self) simp_all
    also have "\<dots> \<le> (1 / real ?q) / (1 / 2)" using q0 ln2_half by (intro divide_left_mono) simp_all
    also have "\<dots> \<le> (1 / 2 ^ 61) / (1 / 2)" using q by (intro divide_right_mono divide_left_mono) simp_all
    also have "\<dots> \<le> 1 / 2 ^ 60" by simp
    finally show ?thesis .
  qed
  finally show "log 2 a - log 2 b \<le> log 2 ?q + 1 / 2 ^ 60" unfolding d by simp
qed

text \<open>The logarithm of the mantissa, a number between 0 and 1.\<close>

definition mant_log :: "u64 \<Rightarrow> real" where
  "mant_log v = log 2 (unat v) - 61"

definition mant_ok :: "u64 \<Rightarrow> bool" where
  "mant_ok v \<longleftrightarrow> 2 ^ 61 \<le> unat v \<and> unat v < 2 ^ 62"

lemma mant_pos: "mant_ok v \<Longrightarrow> 0 < real (unat v)"
  unfolding mant_ok_def of_nat_0_less_iff by (rule less_le_trans [of 0 "2 ^ 61"]) simp_all

lemma mant_log_range: "mant_ok v \<Longrightarrow> 0 \<le> mant_log v \<and> mant_log v < 1"
proof -
  assume ok: "mant_ok v"
  have "real (2 ^ 61) \<le> real (unat v)" using ok unfolding mant_ok_def of_nat_le_iff by blast
  then have lo: "2 ^ 61 \<le> real (unat v)" unfolding of_nat_power of_nat_numeral .
  have "real (unat v) < real (2 ^ 62)" using ok unfolding mant_ok_def of_nat_less_iff by blast
  then have hi: "real (unat v) < 2 ^ 62" unfolding of_nat_power of_nat_numeral .
  show ?thesis using le_log_of_power [OF lo] log_of_power_less [OF hi _ mant_pos [OF ok, unfolded of_nat_0_less_iff]] unfolding mant_log_def
    by (simp del: of_nat_unat)
qed

lemma log2_pow: "log 2 (real (2 ^ k)) = real k"
  by (simp add: log_nat_power)

text \<open>One squaring: the bit and the new mantissa hold twice the logarithm, cut.\<close>

lemma square_step:
  assumes v: "mant_ok v"
  defines "s \<equiv> unat v * unat v div 2 ^ 61"
  shows "2 ^ 61 \<le> s" "s < 2 ^ 63" "unat (ucast (drop_bit 61 (ucast v * ucast v :: arith_uint256)) :: u64) = s"
proof -
  have v': "2 ^ 61 \<le> unat v" "unat v < 2 ^ 62" using v by (simp_all add: mant_ok_def)
  have lo: "2 ^ 61 * 2 ^ 61 \<le> unat v * unat v" using v'(1) by (intro mult_mono) auto
  have hi: "unat v * unat v < 2 ^ 62 * 2 ^ 62" using v'(2) by (intro mult_strict_mono) auto
  show "2 ^ 61 \<le> s" using div_le_mono [OF lo, of "2 ^ 61"] by (simp add: s_def)
  show s: "s < 2 ^ 63" unfolding s_def using hi by (simp add: div_less_iff_less_mult)
  have "unat (ucast v * ucast v :: arith_uint256) = unat v * unat v"
    using unat_mul256 [of "ucast v" "ucast v"] hi unfolding unat_of_u64 by simp
  then show "unat (ucast (drop_bit 61 (ucast v * ucast v :: arith_uint256)) :: u64) = s"
    unfolding unat_low64 unat_shr using s by (simp add: s_def)
qed

lemma log_steps:
  fixes x y e :: real
  shows "x \<le> 2 * y - 62 \<Longrightarrow> x - 61 + 1 \<le> 2 * (y - 61)" "2 * y - 62 \<le> x + e \<Longrightarrow> 2 * (y - 61) \<le> x - 61 + 1 + e"
    "x \<le> 2 * y - 61 \<Longrightarrow> x - 61 \<le> 2 * (y - 61)" "2 * y - 61 \<le> x + e \<Longrightarrow> 2 * (y - 61) \<le> x - 61 + e"
  by simp_all

lemma exp_step_log:
  assumes v: "mant_ok v" and e: "exp_step i (v, fb) = (v', fb')"
  obtains hit where "fb' = (if hit then fb OR push_bit (32 - i) 1 else fb)" "mant_ok v'"
    "mant_log v' + of_bool hit \<le> 2 * mant_log v" "2 * mant_log v \<le> mant_log v' + of_bool hit + 1 / 2 ^ 60"
proof -
  define s where "s = unat v * unat v div 2 ^ 61"
  define x where "x = (ucast (drop_bit 61 (ucast v * ucast v :: arith_uint256)) :: u64)"
  have s: "2 ^ 61 \<le> s" "s < 2 ^ 63" and x: "unat x = s" using square_step [OF v] unfolding s_def x_def by auto
  have "drop_bit 62 x \<noteq> 0 \<longleftrightarrow> unat (drop_bit 62 x) \<noteq> 0" by (metis unat_0 word_unat_eq_iff)
  also have "\<dots> \<longleftrightarrow> 2 ^ 62 \<le> s" unfolding unat_shr x by (simp add: div_eq_0_iff not_less)
  finally have hit: "drop_bit 62 x \<noteq> 0 \<longleftrightarrow> 2 ^ 62 \<le> s" .
  have e': "exp_step i (v, fb) = (if 2 ^ 62 \<le> s then (drop_bit 1 x, fb OR push_bit (32 - i) 1) else (x, fb))"
    using hit by (simp add: exp_step_def x_def Let_def)
  note pos = mant_pos [OF v]
  have sq: "log 2 (real (unat v * unat v)) = 2 * log 2 (real (unat v))" using pos by (simp add: log_mult del: of_nat_unat)
  have half: "unat (drop_bit 1 x) = unat v * unat v div 2 ^ 62" unfolding unat_shr x s_def by (simp add: div_mult2_eq [symmetric])
  show thesis
  proof (cases "2 ^ 62 \<le> s")
    case True
    then have v': "v' = drop_bit 1 x" "fb' = fb OR push_bit (32 - i) 1" using e e' by simp_all
    have r: "2 ^ 61 \<le> unat v * unat v div 2 ^ 62" using half x True s(2) unfolding unat_shr by simp
    have ok: "mant_ok v'" unfolding v' mant_ok_def unat_shr x using True s(2)
      by (simp add: less_eq_div_iff_mult_less_eq div_less_iff_less_mult)
    have l: "mant_log v' = log 2 (unat v * unat v div 2 ^ 62) - 61" unfolding mant_log_def v' half ..
    have "0 < (2 :: nat) ^ 62" by simp
    note f = floor_log [OF this r, unfolded sq log2_pow]
    have "mant_log v' + 1 \<le> 2 * mant_log v" using f(1) unfolding l mant_log_def [of v] of_nat_numeral by (rule log_steps(1))
    moreover have "2 * mant_log v \<le> mant_log v' + 1 + 1 / 2 ^ 60"
      using f(2) unfolding l mant_log_def [of v] of_nat_numeral by (rule log_steps(2))
    ultimately show thesis by (intro that [of True] ok) (simp_all add: v')
  next
    case False
    then have v': "v' = x" "fb' = fb" using e e' by simp_all
    have ok: "mant_ok v'" using False s(1) by (simp add: v' mant_ok_def x)
    have l: "mant_log v' = log 2 (unat v * unat v div 2 ^ 61) - 61" unfolding mant_log_def v' x s_def ..
    have "0 < (2 :: nat) ^ 61" by simp
    note f = floor_log [OF this s(1) [unfolded s_def], unfolded sq log2_pow]
    have "mant_log v' \<le> 2 * mant_log v" using f(1) unfolding l mant_log_def [of v] of_nat_numeral by (rule log_steps(3))
    moreover have "2 * mant_log v \<le> mant_log v' + 1 / 2 ^ 60"
      using f(2) unfolding l mant_log_def [of v] of_nat_numeral by (rule log_steps(4))
    ultimately show thesis by (intro that [of False] ok) (simp_all add: v')
  qed
qed

lemma or_bit:
  assumes "j < 64" "2 ^ Suc j dvd unat fb"
  shows "unat (fb OR push_bit j 1 :: u64) = unat fb + 2 ^ j"
proof -
  have "unat (push_bit j 1 :: u64) = 2 ^ j" using assms(1)
    by (intro bit_eqI) (auto simp: bit_unsigned_iff bit_push_bit_iff bit_1_iff bit_exp_iff)
  moreover have "unat fb OR 2 ^ j = unat fb + 2 ^ j"
    using dvd_not_bit [OF assms(2)] by (intro disjunctive_add [symmetric]) (auto simp: bit_exp_iff)
  ultimately show ?thesis by (simp add: unsigned_or_eq)
qed

text \<open>After \<open>k\<close> squarings the bits found and what is left of the mantissa make up its logarithm.\<close>

lemma exp_loop:
  assumes v0: "mant_ok v0" and k: "k \<le> 32"
  obtains v fb where "fold exp_step [1..<k + 1] (v0, 0) = (v, fb)" "mant_ok v" "2 ^ (32 - k) dvd unat fb"
    "real (unat fb) / 2 ^ 32 + mant_log v / 2 ^ k \<le> mant_log v0"
    "mant_log v0 \<le> real (unat fb) / 2 ^ 32 + mant_log v / 2 ^ k + (1 - 1 / 2 ^ k) / 2 ^ 60"
  using k
proof (induction k arbitrary: thesis)
  case 0
  show ?case by (rule 0(1) [of v0 0]) (simp_all add: v0)
next
  case (Suc k)
  obtain v fb where i: "fold exp_step [1..<k + 1] (v0, 0) = (v, fb)" "mant_ok v" "2 ^ (32 - k) dvd unat fb"
    "real (unat fb) / 2 ^ 32 + mant_log v / 2 ^ k \<le> mant_log v0"
    "mant_log v0 \<le> real (unat fb) / 2 ^ 32 + mant_log v / 2 ^ k + (1 - 1 / 2 ^ k) / 2 ^ 60"
    using Suc.IH Suc.prems(2) by (metis Suc_leD)
  obtain v' fb' where e: "exp_step (k + 1) (v, fb) = (v', fb')" by fastforce
  obtain hit where h: "fb' = (if hit then fb OR push_bit (32 - (k + 1)) 1 else fb)" "mant_ok v'"
    "mant_log v' + of_bool hit \<le> 2 * mant_log v" "2 * mant_log v \<le> mant_log v' + of_bool hit + 1 / 2 ^ 60"
    by (rule exp_step_log [OF i(2) e])
  have j: "Suc (32 - (k + 1)) = 32 - k" using Suc.prems(2) by simp
  have fb': "unat fb' = unat fb + (if hit then 2 ^ (32 - (k + 1)) else 0)"
    using or_bit [of "32 - (k + 1)" fb] i(3) unfolding j h(1) by simp
  have d: "2 ^ (32 - Suc k) dvd unat fb'"
    using dvd_trans [OF le_imp_power_dvd [of "32 - Suc k" "32 - k" 2] i(3)] unfolding fb' by simp
  have p: "(2 :: real) ^ 32 = 2 ^ (32 - (k + 1)) * 2 ^ (k + 1)" using Suc.prems(2) by (metis Suc_eq_plus1 le_add_diff_inverse2 power_add)
  have "2 ^ (32 - (k + 1)) / (2 :: real) ^ 32 = 1 / 2 ^ (k + 1)" unfolding p by (simp only: divide_divide_eq_left' [symmetric]) simp
  then have r: "real (unat fb') / 2 ^ 32 = real (unat fb) / 2 ^ 32 + of_bool hit / 2 ^ (k + 1)"
    unfolding fb' of_nat_add add_divide_distrib by (cases hit) (simp_all del: of_nat_unat)
  have m1: "mant_log v' / 2 ^ (k + 1) + of_bool hit / 2 ^ (k + 1) \<le> mant_log v / 2 ^ k"
    using divide_right_mono [OF h(3), of "2 ^ (k + 1)"] by (simp add: add_divide_distrib)
  have m2: "mant_log v / 2 ^ k \<le> mant_log v' / 2 ^ (k + 1) + of_bool hit / 2 ^ (k + 1) + 1 / 2 ^ 60 / 2 ^ (k + 1)"
    using divide_right_mono [OF h(4), of "2 ^ (k + 1)"] by (simp add: add_divide_distrib)
  have q: "(1 - 1 / 2 ^ k) / 2 ^ 60 + 1 / 2 ^ 60 / 2 ^ (k + 1) = (1 - 1 / 2 ^ (k + 1)) / (2 ^ 60 :: real)"
    by (simp add: field_simps)
  show ?case
  proof (rule Suc.prems(1))
    show "fold exp_step [1..<Suc k + 1] (v0, 0) = (v', fb')" using i(1) e by simp
    show "mant_ok v'" by (rule h(2))
    show "2 ^ (32 - Suc k) dvd unat fb'" by (rule d)
    show "real (unat fb') / 2 ^ 32 + mant_log v' / 2 ^ Suc k \<le> mant_log v0"
      using i(4) m1 unfolding r Suc_eq_plus1 by linarith
    show "mant_log v0 \<le> real (unat fb') / 2 ^ 32 + mant_log v' / 2 ^ Suc k + (1 - 1 / 2 ^ Suc k) / 2 ^ 60"
      using i(5) m2 q unfolding r Suc_eq_plus1 by linarith
  qed
qed

definition mantissa0 :: "arith_uint256 \<Rightarrow> nat \<Rightarrow> u64" where
  "mantissa0 b n = ucast (if n \<ge> 61 then drop_bit (n - 61) b else push_bit (61 - n) b)"

lemma mantissa0_log:
  assumes b: "2 ^ n \<le> unat b" "unat b < 2 ^ (n + 1)"
  shows "mant_ok (mantissa0 b n)" "mant_log (mantissa0 b n) \<le> log 2 (unat b) - n"
    "log 2 (unat b) - n \<le> mant_log (mantissa0 b n) + 1 / 2 ^ 60"
proof -
  have "mant_ok (mantissa0 b n) \<and> mant_log (mantissa0 b n) \<le> log 2 (unat b) - n \<and>
      log 2 (unat b) - n \<le> mant_log (mantissa0 b n) + 1 / 2 ^ 60"
  proof (cases "n \<ge> 61")
    case True
    then obtain d where n: "n = 61 + d" using le_Suc_ex by blast
    define q where "q = unat b div 2 ^ d"
    have q: "2 ^ 61 \<le> q" "q < 2 ^ 62" unfolding q_def
      using b by (simp_all add: n power_add less_eq_div_iff_mult_less_eq div_less_iff_less_mult mult.commute)
    have v: "unat (mantissa0 b n) = q"
      using q(2) True by (simp add: mantissa0_def unat_low64 unat_shr n q_def [symmetric])
    have "0 < (2 :: nat) ^ d" by simp
    note f = floor_log [OF this q(1) [unfolded q_def], folded q_def, unfolded log2_pow]
    have "real n = 61 + real d" by (simp add: n)
    moreover have "mant_log (mantissa0 b n) = log 2 q - 61" unfolding mant_log_def v ..
    ultimately show ?thesis using f q v unfolding mant_ok_def by (auto simp del: of_nat_unat)
  next
    case False
    then obtain d where n: "61 = n + d" using le_Suc_ex nat_le_linear by metis
    have d: "61 - n = d" using n by simp
    have lo: "2 ^ 61 \<le> unat b * 2 ^ d" using mult_le_mono1 [OF b(1), of "2 ^ d"] by (simp only: n power_add)
    have e: "2 ^ (n + 1) * 2 ^ d = (2 :: nat) ^ (61 + 1)" by (simp only: n power_add ac_simps)
    have "0 < (2 :: nat) ^ d" by simp
    from mult_less_mono1 [OF b(2) this] have hi: "unat b * 2 ^ d < 2 ^ 62" unfolding e by simp
    have "unat (2 ^ d :: arith_uint256) = 2 ^ d" using n by (intro bit_eqI) (auto simp: bit_unsigned_iff bit_exp_iff)
    then have "unat (push_bit d b) = unat b * 2 ^ d" using hi by (simp add: push_bit_eq_mult unat_word_ariths)
    then have v: "unat (mantissa0 b n) = unat b * 2 ^ d"
      using False hi by (simp add: mantissa0_def unat_low64 d)
    have "0 < real (unat b)" using b(1) by (metis of_nat_0_less_iff less_le_trans zero_less_numeral zero_less_power)
    then have "log 2 (real (unat b * 2 ^ d)) = log 2 (unat b) + d" by (simp add: log_mult log_nat_power del: of_nat_unat)
    then have "mant_log (mantissa0 b n) = log 2 (unat b) + d - 61" unfolding mant_log_def v by simp
    moreover have "real 61 = real n + real d" by (metis n of_nat_add)
    ultimately show ?thesis using lo hi v unfolding mant_ok_def by (auto simp del: of_nat_unat)
  qed
  then show "mant_ok (mantissa0 b n)" "mant_log (mantissa0 b n) \<le> log 2 (unat b) - n"
    "log 2 (unat b) - n \<le> mant_log (mantissa0 b n) + 1 / 2 ^ 60" by blast+
qed

lemma log2_fixed_point:
  assumes b: "2 ^ n \<le> unat b" "unat b < 2 ^ (n + 1)"
  defines "L \<equiv> real (unat (PosExpLog2Q32 b n)) / 2 ^ 32"
  shows "L \<le> log 2 (unat b)" "log 2 (unat b) < L + 1 / 2 ^ 32 + 1 / 2 ^ 59" "unat (PosExpLog2Q32 b n) div 2 ^ 32 = n"
proof -
  note m = mantissa0_log [OF b]
  obtain v fb where l: "fold exp_step [1..<32 + 1] (mantissa0 b n, 0) = (v, fb)" "mant_ok v"
    "real (unat fb) / 2 ^ 32 + mant_log v / 2 ^ 32 \<le> mant_log (mantissa0 b n)"
    "mant_log (mantissa0 b n) \<le> real (unat fb) / 2 ^ 32 + mant_log v / 2 ^ 32 + (1 - 1 / 2 ^ 32) / 2 ^ 60"
    by (rule exp_loop [OF m(1), of 32]) simp_all
  note r = mant_log_range [OF l(2)] mant_log_range [OF m(1)]
  have "real (unat fb) / 2 ^ 32 < 1" using l(3) r by (simp add: field_simps del: of_nat_unat)
  then have fb: "unat fb < 2 ^ 32" by (simp add: divide_less_eq del: of_nat_unat)
  have "(2 :: nat) ^ n < 2 ^ 256" using b(1) arith_lt [of b] order_le_less_trans by blast
  then have n: "n < 256" by (simp only: power_strict_increasing_iff one_less_numeral_iff semiring_norm)
  have "n * 2 ^ 32 < 2 ^ 64" using n by simp
  then have u: "unat (push_bit 32 (word_of_nat n) :: u64) = n * 2 ^ 32" using n
    by (simp add: push_bit_eq_mult unat_word_ariths unat_of_nat)
  have "unat (PosExpLog2Q32 b n) = n * 2 ^ 32 OR unat fb"
    using l(1) u by (simp add: PosExpLog2Q32_def mantissa0_def unsigned_or_eq Let_def)
  also have "\<dots> = n * 2 ^ 32 + unat fb"
  proof (rule disjunctive_add [symmetric])
    fix i
    have "\<not> bit (n * 2 ^ 32) i" if "i < 32" using that by (metis bit_push_bit_iff leD push_bit_eq_mult)
    moreover have "\<not> bit (unat fb) i" if "\<not> i < 32"
      using that fb by (metis bit_take_bit_iff take_bit_nat_eq_self)
    ultimately show "\<not> bit (n * 2 ^ 32) i \<or> \<not> bit (unat fb) i" by blast
  qed
  finally have L: "unat (PosExpLog2Q32 b n) = n * 2 ^ 32 + unat fb" .
  then show "unat (PosExpLog2Q32 b n) div 2 ^ 32 = n" using fb by simp
  have "L = real n + real (unat fb) / 2 ^ 32" unfolding L_def L by (simp add: add_divide_distrib del: of_nat_unat)
  then show "L \<le> log 2 (unat b)" "log 2 (unat b) < L + 1 / 2 ^ 32 + 1 / 2 ^ 59"
    using l(3,4) m(2,3) r by (simp_all add: field_simps del: of_nat_unat)
qed

section \<open>Scores and slots\<close>

lemma length_blob [simp]: "length (UintToArith256 beta) = WIDTH"
  by (simp add: UintToArith256_def)

lemma blob_bits:
  assumes "bu_bits (UintToArith256 beta) \<noteq> 0"
  defines "n \<equiv> bu_bits (UintToArith256 beta) - 1"
  shows "2 ^ n \<le> unat (arith (UintToArith256 beta))" "unat (arith (UintToArith256 beta)) < 2 ^ (n + 1)"
  using bits_range [of "UintToArith256 beta"] assms(1) by (auto simp: unat_arith n_def)

definition exp_score :: "uint256 \<Rightarrow> nat \<Rightarrow> nat \<Rightarrow> nat" where
  "exp_score beta total_weight w =
     (2 ^ 40 - unat (PosExpLog2Q32 (arith (UintToArith256 beta)) (bu_bits (UintToArith256 beta) - 1))) * 2977044472 div 2 ^ 32
       * total_weight div w"

lemma log2_lt:
  assumes "bu_bits (UintToArith256 beta) \<noteq> 0"
  shows "unat (PosExpLog2Q32 (arith (UintToArith256 beta)) (bu_bits (UintToArith256 beta) - 1)) < 2 ^ 40"
proof -
  note b = blob_bits [OF assms]
  let ?n = "bu_bits (UintToArith256 beta) - 1"
  have "(2 :: nat) ^ ?n < 2 ^ 256" using b(1) arith_lt order_le_less_trans by blast
  then have "?n < 256" by (simp only: power_strict_increasing_iff one_less_numeral_iff semiring_norm)
  then have "unat (PosExpLog2Q32 (arith (UintToArith256 beta)) ?n) div 2 ^ 32 < 256" using log2_fixed_point(3) [OF b] by simp
  then show ?thesis by (simp add: div_less_iff_less_mult)
qed

lemma score_value:
  assumes "w \<noteq> 0" "total_weight \<noteq> 0" "bu_bits (UintToArith256 beta) \<noteq> 0"
  shows "unat (PosVrfScoreExp beta w total_weight) = exp_score beta (unat total_weight) (unat w)"
proof -
  define L where "L = PosExpLog2Q32 (arith (UintToArith256 beta)) (bu_bits (UintToArith256 beta) - 1)"
  define Lc :: u64 where "Lc = push_bit 32 256 - L"
  have L: "unat L < 2 ^ 40" unfolding L_def by (rule log2_lt [OF assms(3)])
  have "push_bit 32 256 = (2 ^ 40 :: u64)" by simp
  then have Lc: "unat Lc = 2 ^ 40 - unat L" using L unfolding Lc_def by (simp add: unat_sub word_le_nat_alt)
  have "(2 ^ 40 - unat L) * 2977044472 < 2 ^ 256" by (rule le_less_trans [of _ "2 ^ 40 * 2977044472"]) (simp_all only: mult_le_mono1 diff_le_self, simp)
  then have m: "unat (ucast Lc * ucast (2977044472 :: u64) :: arith_uint256) = (2 ^ 40 - unat L) * 2977044472"
    using unat_mul256 [of "ucast Lc" "ucast (2977044472 :: u64)"] unfolding unat_of_u64 Lc by simp
  define N where "N = (2 ^ 40 - unat L) * 2977044472 div 2 ^ 32"
  have N: "unat (drop_bit 32 (ucast Lc * ucast (2977044472 :: u64)) :: arith_uint256) = N" unfolding unat_shr m N_def ..
  have "N \<le> 2 ^ 40 * 2977044472 div 2 ^ 32" unfolding N_def by (intro div_le_mono mult_le_mono1 diff_le_self)
  then have "N * unat total_weight < 2 ^ 64 * 2 ^ 64" using u64_lt [of total_weight] by (intro mult_strict_mono) simp_all
  then have "N * unat total_weight < 2 ^ 256" by simp
  then have "unat (drop_bit 32 (ucast Lc * ucast (2977044472 :: u64)) * ucast total_weight :: arith_uint256) = N * unat total_weight"
    using unat_mul256 [of "drop_bit 32 (ucast Lc * ucast (2977044472 :: u64))" "ucast total_weight"] unfolding unat_of_u64 N by simp
  then show ?thesis using assms unfolding PosVrfScoreExp_def exp_score_def Let_def
    by (simp add: unat_div_distrib unat_of_u64 N_def L_def Lc_def)
qed

lemma sentinel: "unat PosExpScoreInf = 1048577 * 2 ^ 32"
  by (simp add: PosExpScoreInf_def)

lemma slot_exp_value: "unat (PosVrfSlotExp beta w total_weight) = min (unat (PosVrfScoreExp beta w total_weight) div 2 ^ 32) 1048576"
proof -
  let ?s = "drop_bit 32 (PosVrfScoreExp beta w total_weight)"
  have s: "unat ?s = unat (PosVrfScoreExp beta w total_weight) div 2 ^ 32" by (rule unat_shr)
  have m: "unat (ucast (1048576 :: u64) :: arith_uint256) = 1048576" by (simp add: unat_of_u64)
  show ?thesis
  proof (cases "ucast (1048576 :: u64) < ?s")
    case True
    then show ?thesis unfolding word_less_nat_alt m s by (simp add: PosVrfSlotExp_def word_less_nat_alt m s)
  next
    case False
    then have le: "unat ?s \<le> 1048576" unfolding word_less_nat_alt m by simp
    then have "unat (ucast ?s :: u64) = unat ?s" unfolding unat_low64 by simp
    then show ?thesis using False le s by (simp add: PosVrfSlotExp_def)
  qed
qed

lemma more_stake_score:
  assumes "w \<noteq> 0" "w \<le> w'"
  shows "PosVrfScoreExp beta w' total_weight \<le> PosVrfScoreExp beta w total_weight"
proof (cases "total_weight = 0 \<or> bu_bits (UintToArith256 beta) = 0")
  case False
  have "w' \<noteq> 0" using assms by (metis word_le_0_iff)
  moreover have "exp_score beta t (unat w') \<le> exp_score beta t (unat w)" for t
    unfolding exp_score_def using assms by (intro div_le_mono2) (simp_all add: word_le_nat_alt unat_gt_0)
  ultimately show ?thesis using False assms by (simp add: word_le_nat_alt score_value)
qed (auto simp: PosVrfScoreExp_def Let_def)

lemma more_stake_slot:
  assumes "w \<noteq> 0" "w \<le> w'"
  shows "PosVrfSlot beta w' total_weight \<le> PosVrfSlot beta w total_weight"
proof (cases "total_weight = 0")
  case False
  have "w' \<noteq> 0" using assms by (metis word_le_0_iff)
  moreover have "b div unat w' div c * t div d \<le> b div unat w div c * t div d" for b c d t
    using assms by (intro div_le_mono mult_le_mono1 div_le_mono2) (simp_all add: word_le_nat_alt unat_gt_0)
  ultimately show ?thesis using False assms(1) by (simp add: word_le_nat_alt slot_value min.coboundedI1)
qed (simp add: PosVrfSlot_def)

lemma slot_capped: "PosVrfSlot beta w total_weight \<le> POS_VRF_MAX_SLOT" "PosVrfSlotExp beta w total_weight \<le> POS_VRF_MAX_SLOT"
  by (simp add: PosVrfSlot_def Let_def) (simp add: word_le_nat_alt slot_exp_value)

text \<open>The output whose value is \<open>2 ^ 255\<close>.\<close>

definition half_output :: uint256 where
  "half_output = replicate 31 0 @ [128]"

lemma le_nat_zeros: "le_nat (replicate n 0) = 0"
  by (induction n) simp_all

lemma half_output_value: "unat (arith (UintToArith256 half_output)) = 2 ^ 255"
proof -
  have "arith (UintToArith256 half_output) = word_of_nat (le_nat half_output)" by (rule arith_blob) (simp add: half_output_def)
  moreover have "le_nat half_output = 2 ^ 255" by (simp add: half_output_def le_nat_append le_nat_zeros)
  ultimately show ?thesis by (simp add: unat_of_nat)
qed

lemma half_output_bits: "bu_bits (UintToArith256 half_output) = 256"
proof -
  have v: "bu_val (UintToArith256 half_output) = 2 ^ 255" using half_output_value by (simp add: unat_arith)
  let ?k = "bu_bits (UintToArith256 half_output)"
  note r = bits_range [of "UintToArith256 half_output", unfolded v]
  have "?k \<noteq> 0" using r by simp
  then have le: "(2 :: nat) ^ (?k - 1) \<le> 2 ^ 255" using r by argo
  have less: "(2 :: nat) ^ 255 < 2 ^ ?k" using r by argo
  have two: "1 < (2 :: nat)" by simp
  have "255 < ?k" "?k - 1 \<le> 255" using power_less_imp_less_exp [OF two less] power_le_imp_le_exp [OF two le] by simp_all
  then show ?thesis by simp
qed

lemma half_output_log: "unat (PosExpLog2Q32 (arith (UintToArith256 half_output)) 255) = 255 * 2 ^ 32"
proof -
  have b: "2 ^ 255 \<le> unat (arith (UintToArith256 half_output))" "unat (arith (UintToArith256 half_output)) < 2 ^ (255 + 1)"
    unfolding half_output_value by simp_all
  note l = log2_fixed_point(1,3) [OF b]
  let ?L = "unat (PosExpLog2Q32 (arith (UintToArith256 half_output)) 255)"
  have "real ?L / 2 ^ 32 \<le> 255" using l(1) unfolding half_output_value log2_pow of_nat_numeral .
  then have "real ?L \<le> real (255 * 2 ^ 32)" by (simp add: divide_le_eq del: of_nat_unat)
  then have "?L \<le> 255 * 2 ^ 32" unfolding of_nat_le_iff .
  moreover have "?L div 2 ^ 32 * 2 ^ 32 \<le> ?L" by (rule div_times_less_eq_dividend)
  ultimately show ?thesis using l(2) by simp
qed

section \<open>Properties\<close>

text \<open>C28. The fixed-point logarithm of a nonzero VRF output is never above the true one, and below it by less
  than \<open>2 ^ -32 + 2 ^ -59\<close>.\<close>

theorem fixed_point_log_accurate:
  assumes "bu_bits (UintToArith256 beta) \<noteq> 0"
  shows "let b = arith (UintToArith256 beta);
             L = real (unat (PosExpLog2Q32 b (bu_bits (UintToArith256 beta) - 1))) / 2 ^ 32
    in L \<le> log 2 (real (unat b)) \<and> log 2 (real (unat b)) < L + 1 / 2 ^ 32 + 1 / 2 ^ 59"
  using log2_fixed_point(1,2) [OF blob_bits [OF assms]] by (simp only: Let_def)

theorem fixed_point_log_accurate_witness:
  "bu_bits (UintToArith256 half_output) \<noteq> 0 \<and>
   real (unat (PosExpLog2Q32 (arith (UintToArith256 half_output)) 255)) / 2 ^ 32 \<le> 255"
proof -
  have b: "bu_bits (UintToArith256 half_output) \<noteq> 0" by (simp add: half_output_bits)
  have n: "(256 :: nat) - 1 = 255" by simp
  show ?thesis using fixed_point_log_accurate [OF b] b
    unfolding Let_def half_output_value half_output_bits n log2_pow of_nat_numeral by blast
qed

text \<open>More stake never gives a later slot, in the legacy rule and in the exponential race, nor a higher
  score, and no slot is above the cap.\<close>

theorem more_stake_earlier_slot:
  assumes "w \<noteq> 0" "w \<le> w'"
  shows "PosVrfSlot beta w' total_weight \<le> PosVrfSlot beta w total_weight \<and>
    PosVrfScoreExp beta w' total_weight \<le> PosVrfScoreExp beta w total_weight \<and>
    PosVrfSlotExp beta w' total_weight \<le> PosVrfSlotExp beta w total_weight \<and>
    PosVrfSlot beta w total_weight \<le> POS_VRF_MAX_SLOT \<and> PosVrfSlotExp beta w total_weight \<le> POS_VRF_MAX_SLOT"
proof -
  have "PosVrfSlotExp beta w' total_weight \<le> PosVrfSlotExp beta w total_weight"
    using more_stake_score [OF assms, of beta total_weight] unfolding word_le_nat_alt slot_exp_value
    by (intro min.mono div_le_mono) simp_all
  then show ?thesis using more_stake_slot [OF assms] more_stake_score [OF assms] slot_capped by blast
qed

theorem more_stake_earlier_slot_witness:
  "PosVrfSlot half_output 500 800 \<le> PosVrfSlot half_output 300 800 \<and>
   PosVrfSlotExp half_output 500 800 \<le> PosVrfSlotExp half_output 300 800"
  using more_stake_earlier_slot [of 300 500 half_output 800] by simp

text \<open>C40. The score that stands for infinity, of a zero output or of no stake, is not above every real score: a
  staker with one part in \<open>2 ^ 21\<close> of the stake and an output of one half has a higher score.\<close>

theorem real_score_above_sentinel:
  "PosExpScoreInf < PosVrfScoreExp half_output 1 2097152 \<and> PosVrfScoreExp half_output 0 2097152 = PosExpScoreInf"
proof -
  have n: "(256 :: nat) - 1 = 255" by simp
  have "unat (PosVrfScoreExp half_output 1 2097152) = exp_score half_output 2097152 1"
    using score_value [of 1 2097152 half_output] half_output_bits by simp
  also have "\<dots> = (2 ^ 40 - 255 * 2 ^ 32) * 2977044472 div 2 ^ 32 * 2097152"
    unfolding exp_score_def half_output_bits n half_output_log by simp
  finally show ?thesis by (simp add: word_less_nat_alt sentinel PosVrfScoreExp_def)
qed

end
