(* ===== verification/StakeRules.thy ===== *)
theory StakeRules
  imports Challenge Sortition Timing
begin

text \<open>
  The block rules that read the stake registry (\<open>src/validation.cpp\<close>): \<open>PosVerifyBitfieldCertificate\<close> and
  \<open>CheckPosStakeRules\<close>, that ConnectBlock runs with the registry of the block's parent, and the test for a
  stalled chain (\<open>src/anchor.cpp\<close>). The verification of VRF proofs and of BLS and MuSig2 signatures, and the
  times of the parent chain, are arguments. A refusal is the result class and the reason.
\<close>

section \<open>Environment\<close>

record rules_env =
  g_con_pos :: bool
  g_pos_vrf :: bool
  g_con_bitcoin_anchor :: bool
  g_validate_anchor :: bool
  g_pos_escape_stall_mtp_gap :: int
  slot_rules :: slot_params
  VrfVerify :: "CPubKey \<Rightarrow> uint256 \<Rightarrow> bytes \<Rightarrow> uint256 option"
  VerifyPossession :: "bytes \<Rightarrow> bytes \<Rightarrow> bool"
  BlsFastAggregateVerify :: "bytes list \<Rightarrow> uint256 \<Rightarrow> bytes \<Rightarrow> bool"
  MuSigAggregatePubkey :: "CPubKey list \<Rightarrow> bytes option"
  GetMainchainMedianTime :: "uint256 \<Rightarrow> int option"

text \<open>The header fields that the rules read, with the hash of the header, and the transactions.\<close>

record pos_block =
  b_time :: u32
  b_hash :: uint256
  b_challenge :: bytes
  b_solution :: bytes
  b_anchor_hash :: uint256
  b_anchor_height :: u32
  b_vtx :: CBlock

datatype BlockValidationResult = BLOCK_CONSENSUS | BLOCK_RECENT_CONSENSUS_CHANGE | BLOCK_CACHED_INVALID
  | BLOCK_INVALID_HEADER | BLOCK_MUTATED | BLOCK_MISSING_PREV | BLOCK_INVALID_PREV | BLOCK_TIME_FUTURE | BLOCK_CHECKPOINT

type_synonym verdict = "(BlockValidationResult \<times> string) option"

datatype EscapeStallTimeVerdict = ALLOWED | TOO_SOON | UNKNOWN

definition CheckEscapingStallMtpGap :: "pos_env \<Rightarrow> rules_env \<Rightarrow> uint256 \<Rightarrow> uint256 \<Rightarrow> int \<Rightarrow> EscapeStallTimeVerdict" where
  "CheckEscapingStallMtpGap E G parent_anchor_hash block_anchor_hash height =
     (if g_pos_escape_stall_mtp_gap G \<le> 0 then ALLOWED
      else if \<not> PosEscapeStallMtpHeightActive E height then ALLOWED
      else if \<not> g_validate_anchor G then ALLOWED
      else if parent_anchor_hash = uint256_zero \<or> block_anchor_hash = uint256_zero then ALLOWED
      else (case GetMainchainMedianTime G parent_anchor_hash of None \<Rightarrow> UNKNOWN
        | Some mtp_parent \<Rightarrow> (case GetMainchainMedianTime G block_anchor_hash of None \<Rightarrow> UNKNOWN
            | Some mtp_block \<Rightarrow> if mtp_block - mtp_parent \<ge> g_pos_escape_stall_mtp_gap G then ALLOWED else TOO_SOON)))"

section \<open>The bitfield certificate\<close>

text \<open>The loop over the members: the BLS keys and the seats of those whose bit is set.\<close>

fun bitfield_signers :: "StakeRegistry \<Rightarrow> bytes \<Rightarrow> nat \<Rightarrow> (CPubKey \<times> int) list \<Rightarrow> bytes list \<Rightarrow> int \<Rightarrow> (bytes list \<times> int) option" where
  "bitfield_signers R bf i [] keys signed_seats = Some (keys, signed_seats)"
| "bitfield_signers R bf i ((member, n) # ms) keys signed_seats =
     (if \<not> PosBitfieldTest bf i then bitfield_signers R bf (i + 1) ms keys signed_seats
      else let bls = GetBls R member
        in if length bls \<noteq> BLS_PK_SIZE then None
           else bitfield_signers R bf (i + 1) ms (keys @ [bls]) (signed_seats + n))"

definition PosVerifyBitfieldCertificate :: "pos_env \<Rightarrow> rules_env \<Rightarrow> StakeRegistry \<Rightarrow> pos_block \<Rightarrow> CBlockIndex \<Rightarrow> string + int" where
  "PosVerifyBitfieldCertificate E G R header pindexPrev =
     (case ParsePosBlsBitfieldSolution (b_solution header) of None \<Rightarrow> Inl ''bad-posbls-bitfield-malformed''
      | Some cert \<Rightarrow>
          let seed = PosSeedForChild (Some pindexPrev);
              height = bi_height pindexPrev + 1;
              C = PosPublicCommitteeSeats E R seed height;
              seats_active = PosSeatsActiveAt E height
          in if seats_active \<noteq> (bf_seats cert \<ge> 0) then Inl ''bad-posbls-seats-form''
             else (case bitfield_signers R (bf_bitfield cert) 0 (seat_list C) [] 0 of
                 None \<Rightarrow> Inl ''bad-posbls-member-unregistered''
               | Some (bls_pubkeys, signed_seats) \<Rightarrow>
                   if PosBitfieldPopcount (bf_bitfield cert) \<noteq> int (length bls_pubkeys) then Inl ''bad-posbls-bitfield-range''
                   else if bls_pubkeys = [] then Inl ''bad-posbls-bitfield-empty''
                   else if \<not> BlsFastAggregateVerify G bls_pubkeys (b_hash header) (bf_agg_sig cert) then Inl ''bad-posbls-agg-invalid''
                   else if seats_active \<and> bf_seats cert \<noteq> signed_seats then Inl ''bad-posbls-seats-mismatch''
                   else Inr signed_seats))"

section \<open>Registrations\<close>

text \<open>The proof of possession and the one key per staker, over the new staking outputs.\<close>

fun check_registrations :: "pos_env \<Rightarrow> rules_env \<Rightarrow> StakeRegistry \<Rightarrow> CTxOut list \<Rightarrow> (CPubKey, bytes) fmap \<Rightarrow> verdict" where
  "check_registrations E G R [] block_keys = None"
| "check_registrations E G R (out # outs) block_keys =
     (if StakeFromTxOut E out = None then check_registrations E G R outs block_keys
      else case ParseStakeScriptFull E (scriptPubKey out) of None \<Rightarrow> check_registrations E G R outs block_keys
        | Some full \<Rightarrow>
            if ps_bls_pubkey full = [] then check_registrations E G R outs block_keys
            else if \<not> VerifyPossession G (ps_bls_pubkey full) (ps_bls_pop full) then Some (BLOCK_CONSENSUS, ''bad-stake-bls-pop'')
            else let existing = GetBls R (ps_pubkey full) in
              if existing \<noteq> [] \<and> existing \<noteq> ps_bls_pubkey full then Some (BLOCK_CONSENSUS, ''bad-stake-bls-conflict'')
              else if fm_get (ps_bls_pubkey full) block_keys (ps_pubkey full) \<noteq> ps_bls_pubkey full
              then Some (BLOCK_CONSENSUS, ''bad-stake-bls-conflict'')
              else check_registrations E G R outs (fmupd (ps_pubkey full) (ps_bls_pubkey full) block_keys))"

section \<open>Public schedule\<close>

definition check_schedule :: "pos_env \<Rightarrow> StakeRegistry \<Rightarrow> pos_block \<Rightarrow> CBlockIndex \<Rightarrow> PosChallengeParts \<Rightarrow> uint256 \<Rightarrow> verdict" where
  "check_schedule E R block pindexPrev parts seed =
     (case PosRank E R seed (leader parts) of None \<Rightarrow> Some (BLOCK_CONSENSUS, ''bad-pos-leader-not-staker'')
      | Some rank \<Rightarrow>
          if uint (b_time block) < uint (bi_time pindexPrev) + int rank * g_pos_slot_interval E
          then Some (BLOCK_CONSENSUS, ''bad-pos-early'')
          else let expected_committee = PosCommittee E R seed in
            if length expected_committee \<le> 1
            then (if committee parts \<noteq> [] then Some (BLOCK_CONSENSUS, ''bad-pos-committee'') else None)
            else if committee parts \<noteq> expected_committee then Some (BLOCK_CONSENSUS, ''bad-pos-committee'')
            else if quorum parts \<noteq> PosQuorum (length expected_committee) then Some (BLOCK_CONSENSUS, ''bad-pos-quorum'')
            else None)"

section \<open>Private sortition\<close>

definition check_leader :: "pos_env \<Rightarrow> rules_env \<Rightarrow> StakeRegistry \<Rightarrow> pos_block \<Rightarrow> CBlockIndex \<Rightarrow> PosChallengeParts \<Rightarrow> uint256 \<Rightarrow> verdict" where
  "check_leader E G R block pindexPrev parts seed =
     (case ExtractPosVrfProof (b_vtx block) of None \<Rightarrow> Some (BLOCK_CONSENSUS, ''bad-posvrf-missing'')
      | Some proof \<Rightarrow>
          let total_weight = PosTotalWeight E R; w = GetWeight R (leader parts) in
          if w = 0 then Some (BLOCK_CONSENSUS, ''bad-posvrf-leader-not-staker'')
          else if \<not> PosIsEligibleStake E w then Some (BLOCK_CONSENSUS, ''bad-posvrf-leader-below-min'')
          else (case VrfVerify G (leader parts) seed proof of None \<Rightarrow> Some (BLOCK_CONSENSUS, ''bad-posvrf-invalid'')
            | Some beta \<Rightarrow>
                let height = bi_height pindexPrev + 1;
                    slot = (if PosExpRaceActive (slot_rules G) height then PosVrfSlotExp beta w total_weight
                            else PosVrfSlot beta w total_weight)
                in if uint (b_time block) < uint (bi_time pindexPrev) + PosSlotGateSeconds E (slot_rules G) height slot
                   then Some (BLOCK_CONSENSUS, ''bad-posvrf-early'') else None))"

definition escaping_stall :: "rules_env \<Rightarrow> pos_block \<Rightarrow> CBlockIndex \<Rightarrow> bool" where
  "escaping_stall G block pindexPrev \<longleftrightarrow>
     g_con_bitcoin_anchor G \<and> PosEscapingStallAllowed (m_anchor_height pindexPrev) (b_anchor_height block)"

text \<open>The quorum, or one member when the chain has stalled, with the evidence in the times of the parent chain.\<close>

definition check_quorum :: "pos_env \<Rightarrow> rules_env \<Rightarrow> pos_block \<Rightarrow> CBlockIndex \<Rightarrow> BlockValidationResult \<Rightarrow> string \<Rightarrow> int \<Rightarrow> int \<Rightarrow> verdict" where
  "check_quorum E G block pindexPrev res too_few n q =
     (let stall = escaping_stall G block pindexPrev;
          min_members = (if stall then 1 else q)
      in if n < min_members then Some (res, too_few)
         else if stall \<and> n < q then
           (case CheckEscapingStallMtpGap E G (m_anchor_hash pindexPrev) (b_anchor_hash block) (bi_height pindexPrev + 1) of
              ALLOWED \<Rightarrow> None
            | TOO_SOON \<Rightarrow> Some (res, ''bad-pos-escape-stall-too-soon'')
            | UNKNOWN \<Rightarrow> Some (BLOCK_RECENT_CONSENSUS_CHANGE, ''pos-escape-stall-unverifiable''))
         else None)"

text \<open>\<open>emplace\<close> of each member, refusing a key that is there already.\<close>

fun name_members :: "(CPubKey \<times> 'a) list \<Rightarrow> (CPubKey, 'a) fmap \<Rightarrow> (CPubKey, 'a) fmap option" where
  "name_members [] named = Some named"
| "name_members ((pk, x) # ms) named =
     (if fmlookup named pk \<noteq> None then None else name_members ms (fmupd pk x named))"

text \<open>Each named member, in key order: registered, with a proof that verifies and an output that is selected.\<close>

fun check_selected :: "pos_env \<Rightarrow> rules_env \<Rightarrow> StakeRegistry \<Rightarrow> uint256 \<Rightarrow> BlockValidationResult \<Rightarrow> string \<Rightarrow> string \<Rightarrow> (CPubKey \<times> bytes) list \<Rightarrow> verdict" where
  "check_selected E G R seed res not_selected invalid [] = None"
| "check_selected E G R seed res not_selected invalid ((member, proof) # ms) =
     (if GetWeight R member = 0 then Some (res, not_selected)
      else case VrfVerify G member seed proof of None \<Rightarrow> Some (res, invalid)
        | Some member_beta \<Rightarrow>
            if \<not> PosVrfIsCommitteeMember E member_beta (GetWeight R member) (PosTotalWeight E R) then Some (res, not_selected)
            else check_selected E G R seed res not_selected invalid ms)"

definition check_agg :: "pos_env \<Rightarrow> rules_env \<Rightarrow> StakeRegistry \<Rightarrow> pos_block \<Rightarrow> CBlockIndex \<Rightarrow> PosChallengeParts \<Rightarrow> uint256 \<Rightarrow> verdict" where
  "check_agg E G R block pindexPrev parts seed =
     (case name_members (map (\<lambda>m. (vm_pubkey m, vm_proof m)) (ExtractPosVrfMembers (b_vtx block))) fmempty of
        None \<Rightarrow> Some (BLOCK_CONSENSUS, ''bad-posvrf-member-duplicate'')
      | Some named \<Rightarrow>
          let n = int (length (fm_entries named)) in
          (case check_quorum E G block pindexPrev BLOCK_CONSENSUS ''bad-posvrf-agg-quorum'' n
              (PosQuorum (nat (g_pos_committee_size E))) of
             Some v \<Rightarrow> Some v
           | None \<Rightarrow>
               if n > int MAX_POS_AGG_COMMITTEE_SIZE then Some (BLOCK_CONSENSUS, ''bad-posvrf-member-count'')
               else (case check_selected E G R seed BLOCK_CONSENSUS ''bad-posvrf-member-not-selected''
                        ''bad-posvrf-member-invalid'' (fm_entries named) of
                   Some v \<Rightarrow> Some v
                 | None \<Rightarrow>
                     if MuSigAggregatePubkey G (map fst (fm_entries named)) \<noteq> Some (agg_key parts)
                     then Some (BLOCK_CONSENSUS, ''bad-posvrf-agg-key'') else None)))"

definition check_bitfield :: "pos_env \<Rightarrow> rules_env \<Rightarrow> StakeRegistry \<Rightarrow> pos_block \<Rightarrow> CBlockIndex \<Rightarrow> bool \<Rightarrow> verdict" where
  "check_bitfield E G R block pindexPrev fJustCheck =
     (if \<not> fJustCheck \<and> b_solution block \<noteq> [] then
        (case PosVerifyBitfieldCertificate E G R block pindexPrev of
           Inl reason \<Rightarrow> Some (BLOCK_MUTATED, reason)
         | Inr signers \<Rightarrow>
             check_quorum E G block pindexPrev BLOCK_MUTATED ''bad-posbls-agg-quorum'' signers
               (PosSlotQuorumAt E R (bi_height pindexPrev + 1)))
      else None)"

definition check_bls_members :: "pos_env \<Rightarrow> rules_env \<Rightarrow> StakeRegistry \<Rightarrow> pos_block \<Rightarrow> CBlockIndex \<Rightarrow> uint256 \<Rightarrow> verdict" where
  "check_bls_members E G R block pindexPrev seed =
     (case ParsePosBlsSolution (b_solution block) of None \<Rightarrow> None
      | Some cert \<Rightarrow>
          if bc_members cert = [] then None
          else (case name_members (map (\<lambda>m. (bm_pubkey m, m)) (bc_members cert)) fmempty of
              None \<Rightarrow> Some (BLOCK_MUTATED, ''bad-posbls-member-duplicate'')
            | Some named \<Rightarrow>
                let n = int (length (fm_entries named)) in
                (case check_quorum E G block pindexPrev BLOCK_MUTATED ''bad-posbls-agg-quorum'' n
                    (PosSlotQuorumAt E R (bi_height pindexPrev + 1)) of
                   Some v \<Rightarrow> Some v
                 | None \<Rightarrow>
                     if n > PosMaxCommitteeMembers E then Some (BLOCK_MUTATED, ''bad-posbls-member-count'')
                     else check_selected E G R seed BLOCK_MUTATED ''bad-posbls-member-not-selected''
                       ''bad-posbls-member-invalid'' (map (\<lambda>(pk, m). (pk, bm_proof m)) (fm_entries named)))))"

fun check_committee :: "pos_env \<Rightarrow> rules_env \<Rightarrow> StakeRegistry \<Rightarrow> uint256 \<Rightarrow> (CPubKey, bytes) fmap \<Rightarrow> CPubKey list \<Rightarrow> verdict" where
  "check_committee E G R seed claimed [] = None"
| "check_committee E G R seed claimed (member # ms) =
     (case fmlookup claimed member of None \<Rightarrow> Some (BLOCK_CONSENSUS, ''bad-posvrf-member-missing'')
      | Some proof \<Rightarrow>
          (case VrfVerify G member seed proof of None \<Rightarrow> Some (BLOCK_CONSENSUS, ''bad-posvrf-member-invalid'')
           | Some member_beta \<Rightarrow>
               if \<not> PosVrfIsCommitteeMember E member_beta (GetWeight R member) (PosTotalWeight E R)
               then Some (BLOCK_CONSENSUS, ''bad-posvrf-member-not-selected'')
               else check_committee E G R seed claimed ms))"

definition claimed_members :: "PosVrfMember list \<Rightarrow> (CPubKey, bytes) fmap" where
  "claimed_members ms =
     fold (\<lambda>m claimed. if fmlookup claimed (vm_pubkey m) \<noteq> None then claimed else fmupd (vm_pubkey m) (vm_proof m) claimed) ms fmempty"

section \<open>The rules\<close>

fun first_refusal :: "verdict list \<Rightarrow> verdict" where
  "first_refusal [] = None"
| "first_refusal (v # vs) = (case v of None \<Rightarrow> first_refusal vs | Some r \<Rightarrow> Some r)"

definition CheckPosStakeRules :: "pos_env \<Rightarrow> rules_env \<Rightarrow> StakeRegistry \<Rightarrow> pos_block \<Rightarrow> CBlockIndex option \<Rightarrow> bool \<Rightarrow> verdict" where
  "CheckPosStakeRules E G R block pindexPrev fJustCheck =
     (case pindexPrev of None \<Rightarrow> None
      | Some prev \<Rightarrow>
          if \<not> g_con_pos G then None
          else (case ParsePosBlockChallenge E (b_challenge block) of None \<Rightarrow> Some (BLOCK_CONSENSUS, ''bad-pos-challenge'')
            | Some parts \<Rightarrow>
                let seed = PosSeedForChild pindexPrev in
                first_refusal
                 ((if g_pos_public_committee E
                   then check_registrations E G R (concat (map vout (b_vtx block))) fmempty else None) #
                  (if \<not> g_pos_vrf G then [check_schedule E R block prev parts seed]
                   else
                    [check_leader E G R block prev parts seed,
                     if agg_key parts \<noteq> [] then check_agg E G R block prev parts seed else None,
                     if is_bls parts \<and> g_pos_public_committee E then check_bitfield E G R block prev fJustCheck
                     else if is_bls parts then check_bls_members E G R block prev seed else None,
                     if committee parts \<noteq> []
                     then check_committee E G R seed (claimed_members (ExtractPosVrfMembers (b_vtx block))) (committee parts)
                     else None]))))"

section \<open>What a certificate shows\<close>

text \<open>The members whose bit is set, with their seats.\<close>

definition signers :: "bytes \<Rightarrow> PosCommitteeSeats \<Rightarrow> (CPubKey \<times> int) list" where
  "signers bf C = nths (seat_list C) {i. PosBitfieldTest bf i}"

lemma bitfield_signers_nths:
  "bitfield_signers R bf i ms keys n = Some (keys', n') \<Longrightarrow>
   keys' = keys @ map (\<lambda>m. GetBls R (fst m)) (nths ms {j. PosBitfieldTest bf (i + j)}) \<and>
   n' = n + sum_list (map snd (nths ms {j. PosBitfieldTest bf (i + j)})) \<and>
   list_all (\<lambda>m. length (GetBls R (fst m)) = BLS_PK_SIZE) (nths ms {j. PosBitfieldTest bf (i + j)})"
proof (induction R bf i ms keys n rule: bitfield_signers.induct)
  case (2 R bf i member n ms keys signed_seats)
  have s: "{j. Suc j \<in> {j. PosBitfieldTest bf (i + j)}} = {j. PosBitfieldTest bf (i + 1 + j)}" by simp
  show ?case
  proof (cases "PosBitfieldTest bf i")
    case True
    have l: "length (GetBls R member) = BLS_PK_SIZE" using 2(3) True by (auto simp: Let_def split: if_splits)
    then show ?thesis using "2.IH"(2) [OF _ refl] "2.prems" True unfolding nths_Cons s by (simp add: Let_def)
  next
    case False
    then show ?thesis using "2.IH"(1) "2.prems" unfolding nths_Cons s by simp
  qed
qed simp

lemma committee_keys_distinct:
  assumes "seats_in_range E R"
  shows "distinct (map fst (seat_list (PosPublicCommitteeSeats E R seed height)))"
proof -
  consider "\<not> PosSeatsActiveAt E height" | "PosSeatsActiveAt E height" "voters E R = []"
    | "PosSeatsActiveAt E height" "voters E R \<noteq> []" by blast
  then show ?thesis
  proof cases
    case 1
    have "distinct (PosPublicCommittee E R seed)"
      using assms distinct_schedule by (simp add: PosPublicCommittee_take seats_in_range_def)
    then show ?thesis using 1 by (simp add: PosPublicCommitteeSeats_def seat_list_def Let_def)
  next
    case 2
    then show ?thesis by (simp add: no_voters no_seats_def seat_list_def)
  next
    case 3
    show ?thesis using seats_ok(1) [OF 3(1) assms 3(2), where seed = seed] by (simp add: seat_list_def)
  qed
qed

lemma signer_votes:
  assumes "distinct (map fst (seat_list C))"
  shows "votes C (\<lambda>pk. pk \<in> fst ` set (signers bf C)) = sum_list (map snd (signers bf C))"
proof -
  let ?xs = "seat_list C" and ?ys = "signers bf C"
  have inj: "inj_on fst (set ?xs)" and d: "distinct ?xs" using assms by (auto simp: distinct_map)
  have sub: "set ?ys \<subseteq> set ?xs" unfolding signers_def by (rule set_nths_subset)
  have "filter (\<lambda>x. fst x \<in> fst ` set ?ys) ?xs = filter (\<lambda>x. x \<in> set ?ys) ?xs"
    by (intro filter_cong refl) (rule inj_on_image_mem_iff [OF inj _ sub])
  also have "\<dots> = ?ys" unfolding signers_def using d by (rule filter_in_nths)
  finally show ?thesis by (simp add: votes_def)
qed

text \<open>The count of set bits against the resolved signers leaves no bit outside the committee.\<close>

lemma no_phantom:
  assumes "PosBitfieldPopcount bf = int (length (signers bf C))" "PosBitfieldTest bf i"
  shows "i < length (seat_list C)"
proof -
  have fin: "finite {i. PosBitfieldTest bf i}"
  proof (rule finite_subset)
    show "{i. PosBitfieldTest bf i} \<subseteq> {..<8 * length bf}" by (auto simp: test_bit)
  qed simp
  have "card {i. i < length (seat_list C) \<and> i \<in> {i. PosBitfieldTest bf i}} = card {i. PosBitfieldTest bf i}"
    using assms(1) by (simp add: popcount_card signers_def length_nths)
  then have "{i. i < length (seat_list C) \<and> i \<in> {i. PosBitfieldTest bf i}} = {i. PosBitfieldTest bf i}"
    using fin by (intro card_subset_eq) auto
  then show ?thesis using assms(2) by blast
qed

text \<open>What an accepted certificate has: a set of members, each with a registered key, over whose keys the
  aggregate verifies for the hash of the block, and whose seats are the result.\<close>

definition certified_by :: "pos_env \<Rightarrow> rules_env \<Rightarrow> StakeRegistry \<Rightarrow> pos_block \<Rightarrow> CBlockIndex \<Rightarrow> (CPubKey \<times> int) list \<Rightarrow> bool" where
  "certified_by E G R block prev ms \<longleftrightarrow>
     (let C = PosPublicCommitteeSeats E R (PosSeedForChild (Some prev)) (bi_height prev + 1) in
      ms \<noteq> [] \<and> set ms \<subseteq> set (seat_list C) \<and> distinct (map fst ms) \<and>
      list_all (\<lambda>m. length (GetBls R (fst m)) = BLS_PK_SIZE) ms \<and>
      (\<exists>agg. BlsFastAggregateVerify G (map (\<lambda>m. GetBls R (fst m)) ms) (b_hash block) agg))"

lemma bitfield_certificate:
  assumes range: "seats_in_range E R" and ok: "PosVerifyBitfieldCertificate E G R block prev = Inr n"
  obtains ms where "certified_by E G R block prev ms"
    "n = votes (PosPublicCommitteeSeats E R (PosSeedForChild (Some prev)) (bi_height prev + 1)) (\<lambda>pk. pk \<in> fst ` set ms)"
proof -
  define C where "C = PosPublicCommitteeSeats E R (PosSeedForChild (Some prev)) (bi_height prev + 1)"
  obtain cert where c: "ParsePosBlsBitfieldSolution (b_solution block) = Some cert"
    using ok by (auto simp: PosVerifyBitfieldCertificate_def split: option.splits)
  obtain keys where b: "bitfield_signers R (bf_bitfield cert) 0 (seat_list C) [] 0 = Some (keys, n)"
    "keys \<noteq> []" "BlsFastAggregateVerify G keys (b_hash block) (bf_agg_sig cert)"
    using ok unfolding PosVerifyBitfieldCertificate_def c Let_def C_def [symmetric]
    by (auto split: if_splits option.splits)
  let ?ms = "signers (bf_bitfield cert) C"
  have d: "distinct (map fst (seat_list C))" unfolding C_def by (rule committee_keys_distinct [OF range])
  have k: "keys = map (\<lambda>m. GetBls R (fst m)) ?ms" "n = sum_list (map snd ?ms)"
    "list_all (\<lambda>m. length (GetBls R (fst m)) = BLS_PK_SIZE) ?ms"
    using bitfield_signers_nths [OF b(1)] by (simp_all add: signers_def)
  have "distinct (map fst ?ms)" using d unfolding signers_def nths_map [symmetric] by (rule distinct_nthsI)
  then have "certified_by E G R block prev ?ms"
    using b(2,3) k set_nths_subset [of "seat_list C"] unfolding certified_by_def C_def [symmetric] Let_def
    by (auto simp: signers_def)
  moreover have "n = votes C (\<lambda>pk. pk \<in> fst ` set ?ms)" using k(2) signer_votes [OF d] by simp
  ultimately show thesis using that by (simp add: C_def)
qed

section \<open>What the rules accept\<close>

lemma first_refusal_None [simp]: "first_refusal vs = None \<longleftrightarrow> list_all (\<lambda>v. v = None) vs"
  by (induction vs) (auto split: option.splits)

lemma check_quorum_None:
  "check_quorum E G block prev res err n q = None \<longleftrightarrow>
     (if escaping_stall G block prev then 1 \<le> n else q \<le> n) \<and>
     (n < q \<longrightarrow> CheckEscapingStallMtpGap E G (m_anchor_hash prev) (b_anchor_hash block) (bi_height prev + 1) = ALLOWED)"
  by (auto simp: check_quorum_def Let_def split: EscapeStallTimeVerdict.splits if_splits)

definition leader_slot :: "pos_env \<Rightarrow> rules_env \<Rightarrow> StakeRegistry \<Rightarrow> CBlockIndex \<Rightarrow> CPubKey \<Rightarrow> uint256 \<Rightarrow> u64" where
  "leader_slot E G R prev pk beta =
     (if PosExpRaceActive (slot_rules G) (bi_height prev + 1) then PosVrfSlotExp beta (GetWeight R pk) (PosTotalWeight E R)
      else PosVrfSlot beta (GetWeight R pk) (PosTotalWeight E R))"

lemma check_leader_None:
  "check_leader E G R block prev parts seed = None \<longleftrightarrow>
   (\<exists>proof beta. ExtractPosVrfProof (b_vtx block) = Some proof \<and> VrfVerify G (leader parts) seed proof = Some beta \<and>
      PosIsEligibleStake E (GetWeight R (leader parts)) \<and>
      uint (bi_time prev) + PosSlotGateSeconds E (slot_rules G) (bi_height prev + 1) (leader_slot E G R prev (leader parts) beta)
        \<le> uint (b_time block))"
  using eligible_nonzero [of E "GetWeight R (leader parts)"]
  by (auto simp: check_leader_def leader_slot_def Let_def split: option.splits if_splits)

lemma check_schedule_None:
  "check_schedule E R block prev parts seed = None \<longleftrightarrow>
   (\<exists>rank. PosRank E R seed (leader parts) = Some rank \<and>
      uint (bi_time prev) + int rank * g_pos_slot_interval E \<le> uint (b_time block) \<and>
      (if length (PosCommittee E R seed) \<le> 1 then committee parts = []
       else committee parts = PosCommittee E R seed \<and> quorum parts = PosQuorum (length (PosCommittee E R seed))))"
  by (auto simp: check_schedule_def Let_def split: option.splits if_splits)

lemma accepted_parts:
  assumes "CheckPosStakeRules E G R block (Some prev) fJustCheck = None" "g_con_pos G"
  obtains parts where "ParsePosBlockChallenge E (b_challenge block) = Some parts"
    "g_pos_public_committee E \<longrightarrow> check_registrations E G R (concat (map vout (b_vtx block))) fmempty = None"
    "if g_pos_vrf G then check_leader E G R block prev parts (PosSeedForChild (Some prev)) = None
     else check_schedule E R block prev parts (PosSeedForChild (Some prev)) = None"
    "g_pos_vrf G \<and> is_bls parts \<and> g_pos_public_committee E \<longrightarrow> check_bitfield E G R block prev fJustCheck = None"
proof -
  obtain parts where p: "ParsePosBlockChallenge E (b_challenge block) = Some parts"
    using assms by (auto simp: CheckPosStakeRules_def split: option.splits)
  let ?seed = "PosSeedForChild (Some prev)"
  define pub where "pub = (if g_pos_public_committee E then check_registrations E G R (concat (map vout (b_vtx block))) fmempty else None)"
  define cert where "cert = (if is_bls parts \<and> g_pos_public_committee E then check_bitfield E G R block prev fJustCheck
         else if is_bls parts then check_bls_members E G R block prev ?seed else None)"
  define lead where "lead = check_leader E G R block prev parts ?seed"
  define sched where "sched = check_schedule E R block prev parts ?seed"
  obtain agg com where "CheckPosStakeRules E G R block (Some prev) fJustCheck =
      first_refusal (pub # (if \<not> g_pos_vrf G then [sched] else [lead, agg, cert, com]))"
    unfolding CheckPosStakeRules_def option.case p Let_def pub_def cert_def lead_def sched_def using assms(2) by auto
  then have "pub = None" "if g_pos_vrf G then lead = None \<and> cert = None else sched = None"
    using assms(1) by (simp_all split: if_splits option.splits)
  then have "g_pos_public_committee E \<longrightarrow> check_registrations E G R (concat (map vout (b_vtx block))) fmempty = None"
    "if g_pos_vrf G then check_leader E G R block prev parts ?seed = None else check_schedule E R block prev parts ?seed = None"
    "g_pos_vrf G \<and> is_bls parts \<and> g_pos_public_committee E \<longrightarrow> check_bitfield E G R block prev fJustCheck = None"
    unfolding pub_def cert_def lead_def sched_def by (simp_all split: if_splits)
  then show thesis by (rule that [OF p])
qed

lemma accepted_bitfield:
  assumes range: "seats_in_range E R" and ok: "check_bitfield E G R block prev False = None" and ne: "b_solution block \<noteq> []"
  obtains ms where "certified_by E G R block prev ms"
    "PosSlotQuorumAt E R (bi_height prev + 1) \<le>
       votes (PosPublicCommitteeSeats E R (PosSeedForChild (Some prev)) (bi_height prev + 1)) (\<lambda>pk. pk \<in> fst ` set ms) \<or>
     escaping_stall G block prev \<and>
     CheckEscapingStallMtpGap E G (m_anchor_hash prev) (b_anchor_hash block) (bi_height prev + 1) = ALLOWED"
proof -
  obtain n where n: "PosVerifyBitfieldCertificate E G R block prev = Inr n"
    "check_quorum E G block prev BLOCK_MUTATED ''bad-posbls-agg-quorum'' n (PosSlotQuorumAt E R (bi_height prev + 1)) = None"
    using ok ne by (auto simp: check_bitfield_def split: sum.splits)
  show thesis
    by (rule bitfield_certificate [OF range n(1)]) (rule that, assumption, use n(2) in \<open>auto simp: check_quorum_None split: if_splits\<close>)
qed

text \<open>The BLS registration of an output, as the loop reads it.\<close>

definition registration_of :: "pos_env \<Rightarrow> CTxOut \<Rightarrow> (CPubKey \<times> bytes \<times> bytes) option" where
  "registration_of E out =
     (if StakeFromTxOut E out = None then None
      else case ParseStakeScriptFull E (scriptPubKey out) of None \<Rightarrow> None
        | Some full \<Rightarrow> if ps_bls_pubkey full = [] then None else Some (ps_pubkey full, ps_bls_pubkey full, ps_bls_pop full))"

lemma check_registrations_Cons:
  "check_registrations E G R (out # outs) block_keys = None \<longleftrightarrow>
   (case registration_of E out of None \<Rightarrow> check_registrations E G R outs block_keys = None
    | Some (pk, bls, pop) \<Rightarrow> VerifyPossession G bls pop \<and> (GetBls R pk = [] \<or> GetBls R pk = bls) \<and>
        fm_get bls block_keys pk = bls \<and> check_registrations E G R outs (fmupd pk bls block_keys) = None)"
  by (auto simp: registration_of_def Let_def split: option.splits if_splits)

lemma registration_checked:
  assumes "check_registrations E G R outs block_keys = None" "out \<in> set outs" "registration_of E out = Some (pk, bls, pop)"
  shows "VerifyPossession G bls pop \<and> (GetBls R pk = [] \<or> GetBls R pk = bls) \<and>
    (fmlookup block_keys pk = None \<or> fmlookup block_keys pk = Some bls)"
  using assms
proof (induction outs arbitrary: block_keys)
  case (Cons o1 outs)
  note c = Cons.prems(1) [unfolded check_registrations_Cons]
  show ?case
  proof (cases "out = o1")
    case True
    then show ?thesis using c Cons.prems(3) by (auto simp: fm_get_def split: option.splits)
  next
    case False
    then have o: "out \<in> set outs" using Cons.prems(2) by simp
    show ?thesis
    proof (cases "registration_of E o1")
      case None
      then show ?thesis using c Cons.IH [OF _ o Cons.prems(3)] by simp
    next
      case (Some r)
      obtain pk1 b1 p1 where r: "r = (pk1, b1, p1)" by (cases r)
      have r1: "check_registrations E G R outs (fmupd pk1 b1 block_keys) = None" "fm_get b1 block_keys pk1 = b1"
        using c unfolding Some r by simp_all
      show ?thesis using Cons.IH [OF r1(1) o Cons.prems(3)] r1(2)
        by (cases "pk = pk1") (auto simp: fm_get_def split: option.splits)
    qed
  qed
qed simp

lemma registrations_agree:
  assumes "check_registrations E G R outs block_keys = None" "out \<in> set outs" "out' \<in> set outs"
    "registration_of E out = Some (pk, bls, pop)" "registration_of E out' = Some (pk, bls', pop')"
  shows "bls' = bls"
  using assms
proof (induction outs arbitrary: block_keys out out' bls bls' pop pop')
  case (Cons o1 outs)
  have c: "case registration_of E o1 of None \<Rightarrow> check_registrations E G R outs block_keys = None
    | Some (pk, bls, pop) \<Rightarrow> VerifyPossession G bls pop \<and> (GetBls R pk = [] \<or> GetBls R pk = bls) \<and>
        fm_get bls block_keys pk = bls \<and> check_registrations E G R outs (fmupd pk bls block_keys) = None"
    using Cons.prems(1) unfolding check_registrations_Cons .
  have later: "b' = b" if o: "o' \<in> set outs" "registration_of E o1 = Some (pk, b, p)" "registration_of E o' = Some (pk, b', p')" for o' b p b' p'
  proof -
    have "check_registrations E G R outs (fmupd pk b block_keys) = None" using c unfolding o(2) by simp
    from registration_checked [OF this o(1,3)] show ?thesis by simp
  qed
  obtain keys where "check_registrations E G R outs keys = None" using c by (auto split: option.splits)
  note ih = Cons.IH [OF this]
  have "bls' = bls" if "out \<noteq> o1" "out' \<noteq> o1" using ih [OF _ _ Cons.prems(4,5)] Cons.prems(2,3) that by simp
  moreover have "bls' = bls" if "out = o1" "out' = o1" using Cons.prems(4,5) that by simp
  moreover have "bls' = bls" if "out = o1" "out' \<noteq> o1" using later [OF _ _ Cons.prems(5)] Cons.prems(3,4) that by simp
  moreover have "bls' = bls" if "out \<noteq> o1" "out' = o1" using later [OF _ _ Cons.prems(4)] Cons.prems(2,5) that by simp
  ultimately show ?case by blast
qed simp

section \<open>A block that the rules accept\<close>

definition sample_rules_env :: rules_env where
  "sample_rules_env = \<lparr>g_con_pos = True, g_pos_vrf = True, g_con_bitcoin_anchor = False, g_validate_anchor = False,
     g_pos_escape_stall_mtp_gap = 0,
     slot_rules = \<lparr>pos_exprace_height = 0, pos_slot_gate_seconds = 0, pos_slot_gate_height = 0\<rparr>,
     VrfVerify = (\<lambda>pk seed proof. if proof = replicate 81 0 then Some uint256_zero else None),
     VerifyPossession = (\<lambda>bls pop. bls = replicate 48 3 \<and> pop = replicate 96 4),
     BlsFastAggregateVerify = (\<lambda>keys msg sig. sig = replicate 96 2), MuSigAggregatePubkey = (\<lambda>keys. None),
     GetMainchainMedianTime = (\<lambda>h. None)\<rparr>"

definition sample_prev :: CBlockIndex where
  "sample_prev = CBlockIndex 3 0 (replicate 32 1) 5 None"

definition sample_pos_block :: "byte \<Rightarrow> CTxOut list \<Rightarrow> pos_block" where
  "sample_pos_block b outs = \<lparr>b_time = 2147483648, b_hash = replicate 32 b, b_challenge = BuildPosBlsChallenge (sample_key 1),
     b_solution = BuildPosBlsBitfieldSolution [1] (replicate 96 2) [3] (-1), b_anchor_hash = replicate 32 1, b_anchor_height = 5,
     b_vtx = [\<lparr>tx_hash = replicate 32 b, vin = [],
       vout = \<lparr>nAsset = SetToAsset (replicate 32 7), nValue = SetToAmount 0, nNonce = [],
                 scriptPubKey = BuildPosVrfCommitment (replicate 81 0)\<rparr> # outs\<rparr>]\<rparr>"

lemma sample_committee:
  obtains x y where "seat_list (PosPublicCommitteeSeats sample_env sample_stakers (PosSeedForChild (Some sample_prev)) 4) = [(x, 1), (y, 1)]"
    "length (GetBls sample_stakers x) = 48" "length (GetBls sample_stakers y) = 48"
proof -
  let ?seed = "PosSeedForChild (Some sample_prev)" and ?P = "PosPublicCommittee sample_env sample_stakers (PosSeedForChild (Some sample_prev))"
  have g: "0 < g_pos_committee_size sample_env" by (simp add: sample_env_def)
  have "int (length ?P) = 2" using committee_size [OF g] sample_size by simp
  then have "length ?P = Suc (Suc 0)" by simp
  then obtain x y where p: "?P = [x, y]" by (auto simp: length_Suc_conv)
  have "length (GetBls sample_stakers pk) = 48" if "pk \<in> set ?P" for pk
  proof -
    have "HasBls sample_stakers pk" using that by (auto simp: PosPublicCommittee_take [OF g] dest: in_set_takeD)
    then show ?thesis by (auto simp: HasBls_def GetBls_def sample_stakers_def SetBls_def SetStake_def Reg_Clear_def split: if_splits)
  qed
  then have "length (GetBls sample_stakers x) = 48" "length (GetBls sample_stakers y) = 48" using p by simp_all
  moreover have "\<not> PosSeatsActiveAt sample_env 4" by (simp add: PosSeatsActiveAt_def sample_env_def)
  ultimately show thesis using that p by (simp add: PosPublicCommitteeSeats_def seat_list_def)
qed

lemma popcount_3: "PosBitfieldPopcount [3] = 2"
proof -
  have "drop_bit 1 (3 :: byte) = 1" "drop_bit 1 (1 :: byte) = 0" by simp_all
  then have "pop_byte 3 = 2" by (simp add: pop_byte.simps)
  then show ?thesis by (simp add: PosBitfieldPopcount_def)
qed

lemma sample_certificate: "PosVerifyBitfieldCertificate sample_env sample_rules_env sample_stakers (sample_pos_block b outs) sample_prev = Inr 2"
proof -
  obtain x y where c: "seat_list (PosPublicCommitteeSeats sample_env sample_stakers (PosSeedForChild (Some sample_prev)) 4) = [(x, 1), (y, 1)]"
    "length (GetBls sample_stakers x) = 48" "length (GetBls sample_stakers y) = 48" by (rule sample_committee)
  have h: "bi_height sample_prev + 1 = 4" by (simp add: sample_prev_def)
  have p: "ParsePosBlsBitfieldSolution (b_solution (sample_pos_block b outs)) =
      Some \<lparr>bf_leader_sig = [1], bf_agg_sig = replicate 96 2, bf_bitfield = [3], bf_seats = -1\<rparr>"
    by (simp add: sample_pos_block_def bitfield_solution_roundtrip)
  have a: "PosSeatsActiveAt sample_env 4 = False" by (simp add: PosSeatsActiveAt_def sample_env_def)
  have t: "PosBitfieldTest [3] 0" "PosBitfieldTest [3] (Suc 0)" by (simp_all add: PosBitfieldTest_def)
  have "bitfield_signers sample_stakers [3] 0 [(x, 1), (y, 1)] [] 0 = Some ([GetBls sample_stakers x, GetBls sample_stakers y], 2)"
    using c(2,3) t by simp
  then show ?thesis unfolding PosVerifyBitfieldCertificate_def p option.case Let_def h c(1) a
    by (simp add: popcount_3) (simp add: sample_rules_env_def)
qed

lemma sample_leader: "check_leader sample_env sample_rules_env sample_stakers (sample_pos_block b outs) sample_prev
    \<lparr>leader = sample_key 1, committee = [], quorum = 0, agg_key = [], is_bls = True\<rparr> seed = None"
proof -
  have w: "GetWeight sample_stakers (sample_key 1) = 500"
    using voters_weight [of "sample_key 1" 500 sample_env sample_stakers] unfolding sample_voters by simp
  have vp: "ExtractPosVrfProof (b_vtx (sample_pos_block b outs)) = Some (replicate 81 0)"
    using tagged_return_build [of "replicate 81 0" 81 POS_VRF_TAG]
    by (simp add: ExtractPosVrfProof_def sample_pos_block_def BuildPosVrfCommitment_def)
  have "uint (min s 1048576 :: u64) \<le> 1048576" for s :: u64 using word_le_def [of "min s 1048576" 1048576] by simp
  then have "PosSlotGateSeconds sample_env (slot_rules sample_rules_env) 4 s \<le> 1048576 * 30" for s
    by (simp add: PosSlotGateSeconds_def sample_rules_env_def sample_env_def PosExpRaceActive_def)
  then have "PosSlotGateSeconds sample_env (slot_rules sample_rules_env) 4 s \<le> 2147483648" for s
    by (rule order_trans) simp
  then show ?thesis using w vp unfolding check_leader_None
    by (simp add: sample_prev_def) (simp add: sample_rules_env_def sample_pos_block_def PosIsEligibleStake_def sample_env_def)
qed

lemma sample_block_accepted:
  assumes "check_registrations sample_env sample_rules_env sample_stakers outs fmempty = None"
  shows "CheckPosStakeRules sample_env sample_rules_env sample_stakers (sample_pos_block b outs) (Some sample_prev) False = None"
proof -
  have p: "ParsePosBlockChallenge sample_env (b_challenge (sample_pos_block b outs)) =
      Some \<lparr>leader = sample_key 1, committee = [], quorum = 0, agg_key = [], is_bls = True\<rparr>"
    using parse_forms(2) [of sample_env "sample_key 1"] by (simp add: sample_pos_block_def good_key_def)
  have r: "check_registrations sample_env sample_rules_env sample_stakers (concat (map vout (b_vtx (sample_pos_block b outs)))) fmempty = None"
    using assms by (simp add: sample_pos_block_def StakeFromTxOut_def GetAmount_SetToAmount)
  have q: "PosSlotQuorumAt sample_env sample_stakers 4 = 2"
    using quorum_at [of sample_env sample_stakers 4] by (simp add: sample_size PosPublicQuorum_def) (simp add: sample_env_def)
  have h: "bi_height sample_prev + 1 = 4" by (simp add: sample_prev_def)
  have "check_quorum sample_env sample_rules_env (sample_pos_block b outs) sample_prev BLOCK_MUTATED ''bad-posbls-agg-quorum'' 2 2 = None"
    by (simp add: check_quorum_None escaping_stall_def sample_rules_env_def)
  then have "check_bitfield sample_env sample_rules_env sample_stakers (sample_pos_block b outs) sample_prev False = None"
    by (simp add: check_bitfield_def sample_certificate h q)
  then show ?thesis using p r sample_leader [of b outs]
    by (simp add: CheckPosStakeRules_def) (simp add: sample_rules_env_def sample_env_def)
qed

definition sample_stake_out :: "int \<Rightarrow> CTxOut" where
  "sample_stake_out v = \<lparr>nAsset = SetToAsset (replicate 32 7), nValue = SetToAmount v, nNonce = [],
     scriptPubKey = BuildStakeScript (sample_key 3) 10 (replicate 48 3) (replicate 96 4) 0\<rparr>"

lemma sample_registration:
  assumes "0 < v" "v < 2 ^ 63"
  shows "registration_of sample_env (sample_stake_out v) = Some (sample_key 3, replicate 48 3, replicate 96 4)"
proof -
  have "ParseStakeScriptFull sample_env (BuildStakeScript (sample_key 3) 10 (replicate 48 3) (replicate 96 4) 0) =
      Some \<lparr>ps_pubkey = sample_key 3, ps_csv = 10, ps_bls_pubkey = replicate 48 3, ps_bls_pop = replicate 96 4, ps_liquid_locktime = 0\<rparr>"
    by (rule ParseStake_Build) (simp_all add: good_key_def csv_ok_def bls_ok_def)
  moreover from this have "StakeFromTxOut sample_env (sample_stake_out v) \<noteq> None"
    using assms by (simp add: StakeFromTxOut_def sample_stake_out_def ParseStakeScript_def GetAmount_SetToAmount GetAsset_SetToAsset
      PosStakeLockSeconds_def PosRequiredUnbondingSeconds_def EffectiveSlotSeconds_def sample_env_def)
  ultimately show ?thesis by (simp add: registration_of_def sample_stake_out_def)
qed

lemma accepted_bls:
  assumes "seats_in_range E R" "g_con_pos G" "g_pos_vrf G" "g_pos_public_committee E"
    "CheckPosStakeRules E G R block (Some prev) False = None" "b_solution block \<noteq> []"
    "ParsePosBlockChallenge E (b_challenge block) = Some parts" "is_bls parts"
  shows "check_bitfield E G R block prev False = None"
proof -
  obtain parts' where p: "ParsePosBlockChallenge E (b_challenge block) = Some parts'"
    "g_pos_vrf G \<and> is_bls parts' \<and> g_pos_public_committee E \<longrightarrow> check_bitfield E G R block prev False = None"
    by (rule accepted_parts [OF assms(5,2)])
  then show ?thesis using assms(3,4,7,8) by simp
qed

section \<open>Properties\<close>

text \<open>C4. Two blocks on one parent that the rules accept with a bitfield certificate of a public committee, neither
  under the rule for a stalled chain, were certified by members who hold at least two seats in common, or the
  only seat of a committee of one: the aggregate of each verifies, for the hash of the block, under the
  registered keys of distinct members of the committee of the slot. Under the rule for a stalled chain a
  single member may certify, so two such blocks need have no member in common.\<close>

theorem rival_certificates_share_seats:
  assumes "seats_in_range E R" "g_con_pos G" "g_pos_vrf G" "g_pos_public_committee E"
    and "CheckPosStakeRules E G R b1 (Some prev) False = None" "b_solution b1 \<noteq> []" "\<not> escaping_stall G b1 prev"
    and "CheckPosStakeRules E G R b2 (Some prev) False = None" "b_solution b2 \<noteq> []" "\<not> escaping_stall G b2 prev"
    and "ParsePosBlockChallenge E (b_challenge b1) = Some p1" "is_bls p1"
    and "ParsePosBlockChallenge E (b_challenge b2) = Some p2" "is_bls p2"
  shows "\<exists>m1 m2. certified_by E G R b1 prev m1 \<and> certified_by E G R b2 prev m2 \<and>
    min 2 (PosPublicCommitteeSize E R) \<le> votes (PosPublicCommitteeSeats E R (PosSeedForChild (Some prev)) (bi_height prev + 1))
          (\<lambda>pk. pk \<in> fst ` set m1 \<and> pk \<in> fst ` set m2)"
proof -
  let ?C = "PosPublicCommitteeSeats E R (PosSeedForChild (Some prev)) (bi_height prev + 1)"
  let ?q = "PosSlotQuorumAt E R (bi_height prev + 1)"
  obtain m1 where m1: "certified_by E G R b1 prev m1" "?q \<le> votes ?C (\<lambda>pk. pk \<in> fst ` set m1)"
    using accepted_bitfield [OF assms(1) accepted_bls [OF assms(1-6,11,12)] assms(6)] assms(7) by blast
  obtain m2 where m2: "certified_by E G R b2 prev m2" "?q \<le> votes ?C (\<lambda>pk. pk \<in> fst ` set m2)"
    using accepted_bitfield [OF assms(1) accepted_bls [OF assms(1-4,8,9,13,14)] assms(9)] assms(10) by blast
  have "min 2 (PosPublicCommitteeSize E R) \<le> votes ?C (\<lambda>pk. pk \<in> fst ` set m1 \<and> pk \<in> fst ` set m2)"
    using votes_overlap [of ?C "\<lambda>pk. pk \<in> fst ` set m1" "\<lambda>pk. pk \<in> fst ` set m2"] committee_votes [OF assms(1)]
      two_quorums [of "PosPublicCommitteeSize E R"] m1(2) m2(2) by (simp add: quorum_at [OF assms(4)])
  then show ?thesis using m1(1) m2(1) by blast
qed

theorem rival_certificates_share_seats_witness:
  "\<exists>m1 m2. certified_by sample_env sample_rules_env sample_stakers (sample_pos_block 1 []) sample_prev m1 \<and>
     certified_by sample_env sample_rules_env sample_stakers (sample_pos_block 2 []) sample_prev m2 \<and>
     2 \<le> votes (PosPublicCommitteeSeats sample_env sample_stakers (PosSeedForChild (Some sample_prev)) (bi_height sample_prev + 1))
          (\<lambda>pk. pk \<in> fst ` set m1 \<and> pk \<in> fst ` set m2)"
proof -
  have p: "ParsePosBlockChallenge sample_env (b_challenge (sample_pos_block b [])) =
      Some \<lparr>leader = sample_key 1, committee = [], quorum = 0, agg_key = [], is_bls = True\<rparr>" for b
    using parse_forms(2) [of sample_env "sample_key 1"] by (simp add: sample_pos_block_def good_key_def)
  have s: "b_solution (sample_pos_block b []) \<noteq> []" for b
    by (simp add: sample_pos_block_def BuildPosBlsBitfieldSolution_def push_vch_def)
  have e: "\<not> escaping_stall sample_rules_env (sample_pos_block b []) sample_prev" for b
    by (simp add: escaping_stall_def sample_rules_env_def)
  have g: "g_con_pos sample_rules_env" "g_pos_vrf sample_rules_env" "g_pos_public_committee sample_env"
    by (simp_all add: sample_rules_env_def sample_env_def)
  show ?thesis
    using rival_certificates_share_seats [OF sample_range g sample_block_accepted s e sample_block_accepted s e p _ p, of 1 2]
    by (simp add: sample_size)
qed

text \<open>C6. A block that the rules accept with a bitfield certificate has the quorum of its slot in seats, or the parent
  chain shows the stall: its anchor is ahead by the gap, and the evidence in its times is not refused.\<close>

theorem accepted_block_has_quorum:
  assumes "seats_in_range E R" "g_con_pos G" "g_pos_vrf G" "g_pos_public_committee E"
    and "CheckPosStakeRules E G R block (Some prev) False = None" "b_solution block \<noteq> []"
    and "ParsePosBlockChallenge E (b_challenge block) = Some parts" "is_bls parts"
  shows "\<exists>ms. certified_by E G R block prev ms \<and>
    (PosSlotQuorumAt E R (bi_height prev + 1) \<le>
       votes (PosPublicCommitteeSeats E R (PosSeedForChild (Some prev)) (bi_height prev + 1)) (\<lambda>pk. pk \<in> fst ` set ms) \<or>
     g_con_bitcoin_anchor G \<and> unat (m_anchor_height prev) + 3 \<le> unat (b_anchor_height block) \<and>
     CheckEscapingStallMtpGap E G (m_anchor_hash prev) (b_anchor_hash block) (bi_height prev + 1) = ALLOWED)"
  using accepted_bitfield [OF assms(1) accepted_bls [OF assms] assms(6)]
  unfolding escaping_stall_def escaping_stall_exact by blast

theorem accepted_block_has_quorum_witness:
  "\<exists>ms. certified_by sample_env sample_rules_env sample_stakers (sample_pos_block 1 []) sample_prev ms \<and>
     PosSlotQuorumAt sample_env sample_stakers (bi_height sample_prev + 1) \<le>
       votes (PosPublicCommitteeSeats sample_env sample_stakers (PosSeedForChild (Some sample_prev)) (bi_height sample_prev + 1))
         (\<lambda>pk. pk \<in> fst ` set ms)"
proof -
  have p: "ParsePosBlockChallenge sample_env (b_challenge (sample_pos_block 1 [])) =
      Some \<lparr>leader = sample_key 1, committee = [], quorum = 0, agg_key = [], is_bls = True\<rparr>"
    using parse_forms(2) [of sample_env "sample_key 1"] by (simp add: sample_pos_block_def good_key_def)
  have s: "b_solution (sample_pos_block 1 []) \<noteq> []" by (simp add: sample_pos_block_def BuildPosBlsBitfieldSolution_def push_vch_def)
  have g: "g_con_pos sample_rules_env" "g_pos_vrf sample_rules_env" "g_pos_public_committee sample_env" "\<not> g_con_bitcoin_anchor sample_rules_env"
    by (simp_all add: sample_rules_env_def sample_env_def)
  show ?thesis using accepted_block_has_quorum [OF sample_range g(1-3) sample_block_accepted s p] g(4) by auto
qed

text \<open>C9. The leader of an accepted block has eligible stake, and the block is not stamped before its turn: by private
  sortition, a VRF proof in the coinbase verifies for the seed of the slot and the time is past the gate of the slot
  that its output gives; by the public schedule, the time is past the slot of the leader's rank.\<close>

theorem accepted_leader_in_turn:
  assumes "g_con_pos G" "CheckPosStakeRules E G R block (Some prev) fJustCheck = None"
  shows "\<exists>parts. ParsePosBlockChallenge E (b_challenge block) = Some parts \<and> PosIsEligibleStake E (GetWeight R (leader parts)) \<and>
    (if g_pos_vrf G then
       \<exists>vrf_proof beta. ExtractPosVrfProof (b_vtx block) = Some vrf_proof \<and>
         VrfVerify G (leader parts) (PosSeedForChild (Some prev)) vrf_proof = Some beta \<and>
         uint (bi_time prev) + PosSlotGateSeconds E (slot_rules G) (bi_height prev + 1) (leader_slot E G R prev (leader parts) beta)
           \<le> uint (b_time block)
     else \<exists>rank < length (PosSchedule E R (PosSeedForChild (Some prev))).
         PosSchedule E R (PosSeedForChild (Some prev)) ! rank = leader parts \<and>
         uint (bi_time prev) + int rank * g_pos_slot_interval E \<le> uint (b_time block))"
proof -
  obtain parts where p: "ParsePosBlockChallenge E (b_challenge block) = Some parts"
    "if g_pos_vrf G then check_leader E G R block prev parts (PosSeedForChild (Some prev)) = None
     else check_schedule E R block prev parts (PosSeedForChild (Some prev)) = None"
    by (rule accepted_parts [OF assms(2,1)])
  show ?thesis
  proof (cases "g_pos_vrf G")
    case True
    then show ?thesis using p by (auto simp: check_leader_None)
  next
    case False
    then obtain rank where r: "PosRank E R (PosSeedForChild (Some prev)) (leader parts) = Some rank"
      "uint (bi_time prev) + int rank * g_pos_slot_interval E \<le> uint (b_time block)"
      using p(2) unfolding check_schedule_None by auto
    have "PosIsEligibleStake E (GetWeight R (leader parts))" using r(1) by (simp add: PosRank_def split: if_splits)
    then show ?thesis using p(1) r False unfolding PosRank_iff by auto
  qed
qed

theorem accepted_leader_in_turn_witness:
  "PosIsEligibleStake sample_env (GetWeight sample_stakers (sample_key 1))"
proof -
  have p: "ParsePosBlockChallenge sample_env (b_challenge (sample_pos_block 1 [])) =
      Some \<lparr>leader = sample_key 1, committee = [], quorum = 0, agg_key = [], is_bls = True\<rparr>"
    using parse_forms(2) [of sample_env "sample_key 1"] by (simp add: sample_pos_block_def good_key_def)
  have g: "g_con_pos sample_rules_env" by (simp add: sample_rules_env_def)
  show ?thesis using accepted_leader_in_turn [OF g sample_block_accepted [of "[]" 1]] unfolding p by auto
qed

text \<open>C30. With a public committee, in an accepted block every staking output that registers a BLS key proves
  possession of it and repeats the key that its staker has, if any; and any two outputs of one staker
  register the same key. Without a public committee the code checks no registration.\<close>

theorem one_verified_key_per_staker:
  assumes "g_con_pos G" "g_pos_public_committee E" "CheckPosStakeRules E G R block (Some prev) fJustCheck = None"
    and "out \<in> set (concat (map vout (b_vtx block)))" "registration_of E out = Some (pk, bls, pop)"
    and "out' \<in> set (concat (map vout (b_vtx block)))" "registration_of E out' = Some (pk, bls', pop')"
  shows "VerifyPossession G bls pop \<and> (GetBls R pk = [] \<or> GetBls R pk = bls) \<and> bls' = bls"
proof -
  have c: "check_registrations E G R (concat (map vout (b_vtx block))) fmempty = None"
    using accepted_parts [OF assms(3,1)] assms(2) by blast
  show ?thesis using registration_checked [OF c assms(4,5)] registrations_agree [OF c assms(4,6,5,7)] by simp
qed

theorem one_verified_key_per_staker_witness:
  "sample_stake_out 5 \<noteq> sample_stake_out 6 \<and>
   registration_of sample_env (sample_stake_out 5) = Some (sample_key 3, replicate 48 3, replicate 96 4) \<and>
   registration_of sample_env (sample_stake_out 6) = Some (sample_key 3, replicate 48 3, replicate 96 4) \<and>
   VerifyPossession sample_rules_env (replicate 48 3) (replicate 96 4) \<and> \<not> VerifyPossession sample_rules_env (replicate 48 3) [] \<and>
   CheckPosStakeRules sample_env sample_rules_env sample_stakers (sample_pos_block 1 [sample_stake_out 5, sample_stake_out 6])
     (Some sample_prev) False = None"
proof -
  have g: "g_con_pos sample_rules_env" "g_pos_public_committee sample_env" by (simp_all add: sample_rules_env_def sample_env_def)
  have r: "registration_of sample_env (sample_stake_out 5) = Some (sample_key 3, replicate 48 3, replicate 96 4)"
    "registration_of sample_env (sample_stake_out 6) = Some (sample_key 3, replicate 48 3, replicate 96 4)"
    by (simp_all add: sample_registration)
  have "GetBls sample_stakers (sample_key 3) = []"
    by (simp add: GetBls_def sample_stakers_def SetBls_def SetStake_def Reg_Clear_def sample_key_def)
  then have c: "check_registrations sample_env sample_rules_env sample_stakers [sample_stake_out 5, sample_stake_out 6] fmempty = None"
    unfolding check_registrations_Cons r by (simp add: fm_get_def) (simp add: sample_rules_env_def)
  let ?outs = "concat (map vout (b_vtx (sample_pos_block 1 [sample_stake_out 5, sample_stake_out 6])))"
  have i: "sample_stake_out 5 \<in> set ?outs" "sample_stake_out 6 \<in> set ?outs" by (simp_all add: sample_pos_block_def)
  have v: "VerifyPossession sample_rules_env (replicate 48 3) (replicate 96 4)"
    using one_verified_key_per_staker [OF g sample_block_accepted [OF c] i(1) r(1) i(2) r(2)] by simp
  have "GetAmount (nValue (sample_stake_out 5)) \<noteq> GetAmount (nValue (sample_stake_out 6))"
    by (simp add: sample_stake_out_def GetAmount_SetToAmount)
  then have "sample_stake_out 5 \<noteq> sample_stake_out 6" by metis
  moreover have "\<not> VerifyPossession sample_rules_env (replicate 48 3) []" by (simp add: sample_rules_env_def)
  ultimately show ?thesis using r v sample_block_accepted [OF c, of 1] by simp
qed

end
