(* ===== verification/BlockTree.thy ===== *)
theory BlockTree
  imports Timing
begin

text \<open>
  The tree of block index entries (\<open>src/chain.h\<close>, \<open>src/chain.cpp\<close>, \<open>AddToBlockIndex\<close> of
  \<open>src/node/blockstorage.cpp\<close>), the active chain, and the order in which candidates for it are
  preferred (\<open>CBlockIndexWorkComparator\<close> of \<open>src/validation.cpp\<close>). A pointer to an entry is its
  block hash, under which \<open>m_block_index\<close> keeps it; a null pointer is \<open>None\<close>. The theory shows that
  the skip list finds the ancestor that walking back finds, that the tree keeps its shape, and that
  the preference is a strict total order which the order of arrival does not enter.
\<close>

section \<open>Entries\<close>

type_synonym block_ptr = uint256

record BlockEntry =
  e_pprev :: "block_ptr option"
  e_pskip :: "block_ptr option"
  e_nHeight :: int
  e_nChainWork :: arith_uint256
  e_nChainTx :: u32
  e_nStatus :: u32
  e_nTime :: u32
  e_nBits :: u32
  e_anchor_height :: u32
  e_anchor_hash :: uint256
  e_nSequenceId :: int
  e_nTimeMax :: u32
  e_pos_countersigs :: u16
  e_pos_vrf_score :: u64
  e_pos_certified :: bool
  e_pos_cert_known :: bool
  e_pos_child_quorum :: int

type_synonym block_tree = "(block_ptr, BlockEntry) fmap"

abbreviation BLOCK_VALID_TREE :: u32 where "BLOCK_VALID_TREE \<equiv> 2"
abbreviation BLOCK_VALID_SCRIPTS :: u32 where "BLOCK_VALID_SCRIPTS \<equiv> 5"
abbreviation BLOCK_VALID_MASK :: u32 where "BLOCK_VALID_MASK \<equiv> 7"
abbreviation BLOCK_HAVE_DATA :: u32 where "BLOCK_HAVE_DATA \<equiv> 8"
abbreviation BLOCK_FAILED_CHILD :: u32 where "BLOCK_FAILED_CHILD \<equiv> 64"
abbreviation BLOCK_FAILED_MASK :: u32 where "BLOCK_FAILED_MASK \<equiv> 96"
abbreviation BLOCK_ASSUMED_VALID :: u32 where "BLOCK_ASSUMED_VALID \<equiv> 256"
abbreviation BLOCK_POS_CERT_DECIDED :: u32 where "BLOCK_POS_CERT_DECIDED \<equiv> 1024"
abbreviation BLOCK_POS_CERTIFIED :: u32 where "BLOCK_POS_CERTIFIED \<equiv> 2048"

definition PosCarriesQuorum :: "BlockEntry \<Rightarrow> bool" where
  "PosCarriesQuorum e \<longleftrightarrow> e_pos_cert_known e \<and> e_pos_certified e"

definition HaveTxsDownloaded :: "BlockEntry \<Rightarrow> bool" where
  "HaveTxsDownloaded e \<longleftrightarrow> e_nChainTx e \<noteq> 0"

definition BlockFailed :: "BlockEntry \<Rightarrow> bool" where
  "BlockFailed e \<longleftrightarrow> e_nStatus e AND BLOCK_FAILED_MASK \<noteq> 0"

definition RaiseValidity :: "u32 \<Rightarrow> BlockEntry \<Rightarrow> BlockEntry \<times> bool" where
  "RaiseValidity nUpTo e =
     (if BlockFailed e then (e, False)
      else if e_nStatus e AND BLOCK_VALID_MASK < nUpTo
      then let e = (if e_nStatus e AND BLOCK_ASSUMED_VALID \<noteq> 0 \<and> nUpTo \<ge> BLOCK_VALID_SCRIPTS
                    then e\<lparr>e_nStatus := e_nStatus e AND NOT BLOCK_ASSUMED_VALID\<rparr> else e)
        in (e\<lparr>e_nStatus := (e_nStatus e AND NOT BLOCK_VALID_MASK) OR nUpTo\<rparr>, True)
      else (e, False))"

section \<open>The skip list\<close>

definition InvertLowestOne :: "int \<Rightarrow> int" where
  "InvertLowestOne n = n AND (n - 1)"

definition GetSkipHeight :: "int \<Rightarrow> int" where
  "GetSkipHeight height =
     (if height < 2 then 0
      else if height AND 1 \<noteq> 0 then InvertLowestOne (InvertLowestOne (height - 1)) + 1 else InvertLowestOne height)"

lemma InvertLowestOne_bounds: "0 < n \<Longrightarrow> 0 \<le> InvertLowestOne n \<and> InvertLowestOne n < n"
  using AND_upper2 [of n "n - 1"] by (auto simp: InvertLowestOne_def)

lemma GetSkipHeight_bounds: "0 < h \<Longrightarrow> 0 \<le> GetSkipHeight h \<and> GetSkipHeight h < h"
proof -
  assume h: "0 < h"
  consider "h < 2" | "2 \<le> h" "h AND 1 \<noteq> 0" | "2 \<le> h" "h AND 1 = 0" by linarith
  then show ?thesis
  proof cases
    case 2
    let ?m = "InvertLowestOne (h - 1)"
    have m: "0 \<le> ?m" "?m < h - 1" using InvertLowestOne_bounds [of "h - 1"] 2(1) by auto
    have "0 \<le> InvertLowestOne ?m \<and> InvertLowestOne ?m \<le> ?m"
      using InvertLowestOne_bounds [of ?m] m(1) by (cases "?m = 0") (auto simp: InvertLowestOne_def)
    then show ?thesis using 2 m by (simp add: GetSkipHeight_def)
  qed (use h InvertLowestOne_bounds [of h] in \<open>simp_all add: GetSkipHeight_def\<close>)
qed

text \<open>The walk of \<open>GetAncestor\<close>, which has tested \<open>0 \<le> height\<close> before. It fails where the code
  asserts a predecessor.\<close>

definition follow_skip :: "int \<Rightarrow> int \<Rightarrow> bool" where
  "follow_skip heightWalk height \<longleftrightarrow>
     (let heightSkip = GetSkipHeight heightWalk; heightSkipPrev = GetSkipHeight (heightWalk - 1)
      in heightSkip = height \<or>
         (heightSkip > height \<and> \<not> (heightSkipPrev < heightSkip - 2 \<and> heightSkipPrev \<ge> height)))"

function ancestor_walk :: "block_tree \<Rightarrow> block_ptr \<Rightarrow> int \<Rightarrow> int \<Rightarrow> block_ptr option" where
  "ancestor_walk T p heightWalk height =
     (if heightWalk > height \<and> height \<ge> 0
      then (case fmlookup T p of None \<Rightarrow> None
            | Some e \<Rightarrow>
               (case (if follow_skip heightWalk height then e_pskip e else None) of
                  Some s \<Rightarrow> ancestor_walk T s (GetSkipHeight heightWalk) height
                | None \<Rightarrow> (case e_pprev e of None \<Rightarrow> None | Some q \<Rightarrow> ancestor_walk T q (heightWalk - 1) height)))
      else Some p)"
  by pat_completeness auto
termination
  by (relation "measure (\<lambda>(T, p, hw, h). nat (hw - h))") (use GetSkipHeight_bounds in auto)

declare ancestor_walk.simps [simp del]

definition GetAncestor :: "block_tree \<Rightarrow> block_ptr \<Rightarrow> int \<Rightarrow> block_ptr option" where
  "GetAncestor T p height =
     (case fmlookup T p of None \<Rightarrow> None
      | Some e \<Rightarrow> if height > e_nHeight e \<or> height < 0 then None else ancestor_walk T p (e_nHeight e) height)"

definition BuildSkip :: "block_tree \<Rightarrow> BlockEntry \<Rightarrow> BlockEntry" where
  "BuildSkip T e = (case e_pprev e of None \<Rightarrow> e | Some q \<Rightarrow> e\<lparr>e_pskip := GetAncestor T q (GetSkipHeight (e_nHeight e))\<rparr>)"

section \<open>The block index\<close>

definition GetBlockProof :: "bool \<Rightarrow> u32 \<Rightarrow> arith_uint256" where
  "GetBlockProof g_signed_blocks nBits =
     (if g_signed_blocks then 1
      else let (t, fNegative, fOverflow) = SetCompact nBits; bnTarget = arith t
        in if fNegative \<or> fOverflow \<or> bnTarget = 0 then 0
           else NOT bnTarget div (bnTarget + 1) + 1)"

text \<open>Of a header, the fields that the index keeps; \<open>GetHash\<close> is the field that identifies it.\<close>

record BlockHeader =
  hd_hash :: uint256
  hashPrevBlock :: uint256
  hd_nTime :: u32
  hd_nBits :: u32
  hd_anchor_height :: u32
  hd_anchor_hash :: uint256

record BlockManager =
  m_block_index :: block_tree
  pindexBestHeader :: "block_ptr option"

definition new_entry :: "BlockHeader \<Rightarrow> BlockEntry" where
  "new_entry block =
     \<lparr>e_pprev = None, e_pskip = None, e_nHeight = 0, e_nChainWork = 0, e_nChainTx = 0, e_nStatus = 0,
      e_nTime = hd_nTime block, e_nBits = hd_nBits block, e_anchor_height = hd_anchor_height block,
      e_anchor_hash = hd_anchor_hash block, e_nSequenceId = 0, e_nTimeMax = 0, e_pos_countersigs = 0,
      e_pos_vrf_score = - 1, e_pos_certified = False, e_pos_cert_known = False, e_pos_child_quorum = - 1\<rparr>"

definition link_entry :: "bool \<Rightarrow> block_tree \<Rightarrow> BlockHeader \<Rightarrow> BlockEntry" where
  "link_entry g_signed_blocks T block =
     (let e = new_entry block
      in case fmlookup T (hashPrevBlock block) of
           Some q \<Rightarrow>
             let e = BuildSkip T (e\<lparr>e_pprev := Some (hashPrevBlock block), e_nHeight := e_nHeight q + 1\<rparr>);
                 e = e\<lparr>e_nTimeMax := max (e_nTimeMax q) (e_nTime e),
                       e_nChainWork := e_nChainWork q + GetBlockProof g_signed_blocks (e_nBits e)\<rparr>
             in fst (RaiseValidity BLOCK_VALID_TREE e)
         | None \<Rightarrow>
             let e = e\<lparr>e_nTimeMax := e_nTime e, e_nChainWork := GetBlockProof g_signed_blocks (e_nBits e)\<rparr>
             in fst (RaiseValidity BLOCK_VALID_TREE e))"

text \<open>The entry is inserted before its predecessor is looked up; a block is not its own predecessor, as
  its hash covers the predecessor's.\<close>

definition AddToBlockIndex :: "bool \<Rightarrow> BlockHeader \<Rightarrow> BlockManager \<Rightarrow> BlockManager \<times> block_ptr" where
  "AddToBlockIndex g_signed_blocks block B =
     (let hash = hd_hash block; T = m_block_index B
      in if fmlookup T hash \<noteq> None then (B, hash)
         else let T = fmupd hash (new_entry block) T; e = link_entry g_signed_blocks T block;
                  best = (case pindexBestHeader B of None \<Rightarrow> Some hash
                          | Some b \<Rightarrow> (case fmlookup T b of
                              Some eb \<Rightarrow> if e_nChainWork eb < e_nChainWork e then Some hash else Some b | None \<Rightarrow> Some b))
              in (B\<lparr>m_block_index := fmupd hash e T, pindexBestHeader := best\<rparr>, hash))"

section \<open>The active chain\<close>

type_synonym CChain = "block_ptr list"

definition Chain_Tip :: "CChain \<Rightarrow> block_ptr option" where
  "Chain_Tip C = (if C = [] then None else Some (last C))"

definition Chain_at :: "CChain \<Rightarrow> int \<Rightarrow> block_ptr option" where
  "Chain_at C height = (if height < 0 \<or> height \<ge> int (length C) then None else Some (C ! nat height))"

definition Chain_Height :: "CChain \<Rightarrow> int" where
  "Chain_Height C = int (length C) - 1"

definition Chain_Contains :: "block_tree \<Rightarrow> CChain \<Rightarrow> block_ptr \<Rightarrow> bool" where
  "Chain_Contains T C p = (case fmlookup T p of None \<Rightarrow> False | Some e \<Rightarrow> Chain_at C (e_nHeight e) = Some p)"

definition Chain_Next :: "block_tree \<Rightarrow> CChain \<Rightarrow> block_ptr \<Rightarrow> block_ptr option" where
  "Chain_Next T C p = (case fmlookup T p of None \<Rightarrow> None
     | Some e \<Rightarrow> if Chain_Contains T C p then Chain_at C (e_nHeight e + 1) else None)"

text \<open>\<open>SetTip\<close> resizes the vector (new slots are null) and fills it downwards until it meets a slot
  that already holds the block.\<close>

fun set_tip_loop :: "nat \<Rightarrow> block_tree \<Rightarrow> block_ptr option \<Rightarrow> block_ptr option list \<Rightarrow> block_ptr option list" where
  "set_tip_loop 0 T p vChain = vChain"
| "set_tip_loop (Suc n) T p vChain =
     (case p of None \<Rightarrow> vChain
      | Some q \<Rightarrow>
         (case fmlookup T q of None \<Rightarrow> vChain
          | Some e \<Rightarrow> if vChain ! nat (e_nHeight e) = Some q then vChain
              else set_tip_loop n T (e_pprev e) (vChain[nat (e_nHeight e) := Some q])))"

definition SetTip :: "block_tree \<Rightarrow> block_ptr option \<Rightarrow> block_ptr option list \<Rightarrow> block_ptr option list" where
  "SetTip T pindex vChain =
     (case pindex of None \<Rightarrow> []
      | Some p \<Rightarrow>
         (case fmlookup T p of None \<Rightarrow> vChain
          | Some e \<Rightarrow> let n = nat (e_nHeight e) + 1
              in set_tip_loop n T (Some p) (take n vChain @ replicate (n - length vChain) None)))"

section \<open>Fork points\<close>

fun find_fork_loop :: "nat \<Rightarrow> block_tree \<Rightarrow> CChain \<Rightarrow> block_ptr option \<Rightarrow> block_ptr option" where
  "find_fork_loop 0 T C p = None"
| "find_fork_loop (Suc n) T C p =
     (case p of None \<Rightarrow> None
      | Some q \<Rightarrow> if Chain_Contains T C q then Some q
          else (case fmlookup T q of None \<Rightarrow> None | Some e \<Rightarrow> find_fork_loop n T C (e_pprev e)))"

text \<open>A block has at most as many predecessors as its height, so one more than the height is enough
  fuel for a walk down.\<close>

definition FindFork :: "block_tree \<Rightarrow> CChain \<Rightarrow> block_ptr option \<Rightarrow> block_ptr option" where
  "FindFork T C pindex =
     (case pindex of None \<Rightarrow> None
      | Some p \<Rightarrow>
         (case fmlookup T p of None \<Rightarrow> None
          | Some e \<Rightarrow> let p = (if e_nHeight e > Chain_Height C then GetAncestor T p (Chain_Height C) else Some p)
              in find_fork_loop (nat (e_nHeight e) + 1) T C p))"

fun common_loop :: "nat \<Rightarrow> block_tree \<Rightarrow> block_ptr \<Rightarrow> block_ptr \<Rightarrow> block_ptr option" where
  "common_loop 0 T pa pb = None"
| "common_loop (Suc n) T pa pb =
     (if pa = pb then Some pa
      else case (fmlookup T pa, fmlookup T pb) of
          (Some a, Some b) \<Rightarrow>
            (case (e_pprev a, e_pprev b) of (Some qa, Some qb) \<Rightarrow> common_loop n T qa qb | _ \<Rightarrow> None)
        | _ \<Rightarrow> None)"

text \<open>The result is \<open>None\<close> where the branches end without having met: then the code returns null, or its
  assertion fails if one of them ended alone.\<close>

definition LastCommonAncestor :: "block_tree \<Rightarrow> block_ptr \<Rightarrow> block_ptr \<Rightarrow> block_ptr option" where
  "LastCommonAncestor T pa pb =
     (case (fmlookup T pa, fmlookup T pb) of
        (Some a, Some b) \<Rightarrow>
          let pa' = (if e_nHeight a > e_nHeight b then GetAncestor T pa (e_nHeight b) else Some pa);
              pb' = (if e_nHeight b > e_nHeight a then GetAncestor T pb (e_nHeight a) else Some pb)
          in (case (pa', pb') of (Some qa, Some qb) \<Rightarrow> common_loop (nat (min (e_nHeight a) (e_nHeight b)) + 1) T qa qb | _ \<Rightarrow> None)
      | _ \<Rightarrow> None)"

text \<open>The locator: the last ten blocks, then steps that double, down to the first block. Each step goes
  down, so one more than the height is enough fuel.\<close>

fun locator_loop :: "nat \<Rightarrow> block_tree \<Rightarrow> CChain \<Rightarrow> block_ptr option \<Rightarrow> int \<Rightarrow> uint256 list \<Rightarrow> uint256 list" where
  "locator_loop 0 T C pindex nStep vHave = vHave"
| "locator_loop (Suc n) T C pindex nStep vHave =
     (case pindex of None \<Rightarrow> vHave
      | Some p \<Rightarrow>
         (case fmlookup T p of None \<Rightarrow> vHave
          | Some e \<Rightarrow>
             let vHave = vHave @ [p]
             in if e_nHeight e = 0 then vHave
                else let height = max (e_nHeight e - nStep) 0;
                         next1 = (if Chain_Contains T C p then Chain_at C height else GetAncestor T p height)
                  in locator_loop n T C next1 (if length vHave > 10 then nStep * 2 else nStep) vHave))"

definition GetLocator :: "block_tree \<Rightarrow> CChain \<Rightarrow> block_ptr option \<Rightarrow> uint256 list" where
  "GetLocator T C pindex =
     (let pindex = (case pindex of None \<Rightarrow> Chain_Tip C | Some p \<Rightarrow> Some p)
      in case pindex of None \<Rightarrow> []
         | Some p \<Rightarrow> (case fmlookup T p of None \<Rightarrow> [] | Some e \<Rightarrow> locator_loop (nat (e_nHeight e) + 1) T C (Some p) 1 []))"

section \<open>Times\<close>

abbreviation nMedianTimeSpan :: nat where "nMedianTimeSpan \<equiv> 11"

fun past_times :: "nat \<Rightarrow> block_tree \<Rightarrow> block_ptr option \<Rightarrow> int list" where
  "past_times 0 T pindex = []"
| "past_times (Suc n) T pindex =
     (case pindex of None \<Rightarrow> []
      | Some p \<Rightarrow> (case fmlookup T p of None \<Rightarrow> [] | Some e \<Rightarrow> uint (e_nTime e) # past_times n T (e_pprev e)))"

definition GetMedianTimePast :: "block_tree \<Rightarrow> block_ptr \<Rightarrow> int" where
  "GetMedianTimePast T p = (let ts = sort (past_times nMedianTimeSpan T (Some p)) in ts ! (length ts div 2))"

section \<open>The preferred block\<close>

text \<open>Whether \<open>pa\<close> is worse than \<open>pb\<close>. \<open>addr\<close> is the address of an entry, the last tie breaker.\<close>

definition WorkComparator :: "bool \<Rightarrow> (block_ptr \<Rightarrow> nat) \<Rightarrow> block_tree \<Rightarrow> block_ptr \<Rightarrow> block_ptr \<Rightarrow> bool" where
  "WorkComparator g_con_pos addr T pa pb =
     (let a = the (fmlookup T pa); b = the (fmlookup T pb)
      in if e_nChainWork a > e_nChainWork b then False
         else if e_nChainWork a < e_nChainWork b then True
         else if g_con_pos \<and> \<not> e_pos_certified a \<and> e_pos_certified b then True
         else if g_con_pos \<and> e_pos_certified a \<and> \<not> e_pos_certified b then False
         else if g_con_pos \<and> e_pos_vrf_score a > e_pos_vrf_score b then True
         else if g_con_pos \<and> e_pos_vrf_score a < e_pos_vrf_score b then False
         else if g_con_pos \<and> pb < pa then True
         else if g_con_pos \<and> pa < pb then False
         else if e_nSequenceId a < e_nSequenceId b then False
         else if e_nSequenceId a > e_nSequenceId b then True
         else if addr pa < addr pb then False
         else if addr pa > addr pb then True
         else False)"

section \<open>Walking back\<close>

text \<open>The reference for the skip list: the predecessor \<open>n\<close> blocks back.\<close>

fun prev_n :: "block_tree \<Rightarrow> nat \<Rightarrow> block_ptr \<Rightarrow> block_ptr option" where
  "prev_n T 0 p = Some p"
| "prev_n T (Suc n) p =
     (case fmlookup T p of None \<Rightarrow> None
      | Some e \<Rightarrow> (case e_pprev e of None \<Rightarrow> None | Some q \<Rightarrow> prev_n T n q))"

text \<open>The shape of the tree: heights count predecessors, and a skip pointer leads to the ancestor at the
  skip height.\<close>

definition entry_wf :: "block_tree \<Rightarrow> block_ptr \<Rightarrow> BlockEntry \<Rightarrow> bool" where
  "entry_wf T p e \<longleftrightarrow> 0 \<le> e_nHeight e \<and>
     (case e_pprev e of None \<Rightarrow> e_nHeight e = 0 \<and> e_pskip e = None
      | Some q \<Rightarrow> (\<exists>eq. fmlookup T q = Some eq \<and> e_nHeight e = e_nHeight eq + 1)) \<and>
     (\<forall>s. e_pskip e = Some s \<longrightarrow> prev_n T (nat (e_nHeight e - GetSkipHeight (e_nHeight e))) p = Some s)"

definition tree_wf :: "block_tree \<Rightarrow> bool" where
  "tree_wf T \<longleftrightarrow> (\<forall>p e. fmlookup T p = Some e \<longrightarrow> entry_wf T p e)"

lemma tree_wf_pprev:
  assumes "tree_wf T" "fmlookup T p = Some e"
  shows "0 \<le> e_nHeight e" and "e_pprev e = None \<Longrightarrow> e_nHeight e = 0"
    and "e_pprev e = Some q \<Longrightarrow> \<exists>eq. fmlookup T q = Some eq \<and> e_nHeight e = e_nHeight eq + 1"
  using assms by (fastforce simp: tree_wf_def entry_wf_def)+

lemma prev_n_height:
  assumes "tree_wf T" "fmlookup T p = Some e" "int n \<le> e_nHeight e"
  shows "\<exists>q eq. prev_n T n p = Some q \<and> fmlookup T q = Some eq \<and> e_nHeight eq = e_nHeight e - int n"
  using assms(2,3)
proof (induction n arbitrary: p e)
  case (Suc n)
  have "entry_wf T p e" using assms(1) Suc.prems by (simp add: tree_wf_def)
  then obtain q eq where q: "e_pprev e = Some q" "fmlookup T q = Some eq" "e_nHeight e = e_nHeight eq + 1"
    using Suc.prems(2) by (auto simp: entry_wf_def split: option.splits)
  then show ?case using Suc.IH [OF q(2)] Suc.prems by auto
qed auto

lemma prev_n_add: "prev_n T (m + n) p = (case prev_n T m p of None \<Rightarrow> None | Some q \<Rightarrow> prev_n T n q)"
  by (induction m arbitrary: p) (auto split: option.splits)

lemma ancestor_walk_prev:
  assumes "tree_wf T" "fmlookup T p = Some e" "heightWalk = e_nHeight e" "0 \<le> height" "height \<le> heightWalk"
  shows "ancestor_walk T p heightWalk height = prev_n T (nat (heightWalk - height)) p"
  using assms
proof (induction T p heightWalk height arbitrary: e rule: ancestor_walk.induct)
  case (1 T p hw h)
  have wf: "entry_wf T p e" using "1.prems"(1,2) by (simp add: tree_wf_def)
  show ?case
  proof (cases "hw > h")
    case True
    then have hw: "0 < hw" "h < hw" using "1.prems" by simp_all
    show ?thesis
    proof (cases "if follow_skip hw h then e_pskip e else None")
      case (Some s)
      then have s: "e_pskip e = Some s" "h \<le> GetSkipHeight hw"
        by (auto simp: follow_skip_def Let_def split: if_splits)
      note sb = GetSkipHeight_bounds [OF hw(1)]
      have at: "prev_n T (nat (hw - GetSkipHeight hw)) p = Some s"
        using wf s(1) "1.prems"(3) by (simp add: entry_wf_def)
      then obtain es where es: "fmlookup T s = Some es" "e_nHeight es = GetSkipHeight hw"
        using prev_n_height [OF "1.prems"(1,2), of "nat (hw - GetSkipHeight hw)"] "1.prems"(3) sb by auto
      have "ancestor_walk T p hw h = ancestor_walk T s (GetSkipHeight hw) h"
        using Some "1.prems" True by (subst ancestor_walk.simps) simp
      also have "\<dots> = prev_n T (nat (GetSkipHeight hw - h)) s"
        using "1.IH"(2) [OF _ "1.prems"(2) Some "1.prems"(1) es(1)] es(2) s(2) True "1.prems"(4) by simp
      also have "\<dots> = prev_n T (nat (hw - GetSkipHeight hw) + nat (GetSkipHeight hw - h)) p" by (simp add: prev_n_add at)
      also have "nat (hw - GetSkipHeight hw) + nat (GetSkipHeight hw - h) = nat (hw - h)" using sb s(2) by linarith
      finally show ?thesis .
    next
      case None
      obtain q eq where q: "e_pprev e = Some q" "fmlookup T q = Some eq" "e_nHeight e = e_nHeight eq + 1"
        using wf hw(1) "1.prems"(3) by (auto simp: entry_wf_def split: option.splits)
      have "ancestor_walk T p hw h = ancestor_walk T q (hw - 1) h"
        using None q(1) "1.prems" True by (subst ancestor_walk.simps) simp
      also have "\<dots> = prev_n T (nat (hw - 1 - h)) q"
        using "1.IH"(1) [OF _ "1.prems"(2) None q(1) "1.prems"(1) q(2)] q(3) True "1.prems"(3,4) by simp
      also have "\<dots> = prev_n T (Suc (nat (hw - 1 - h))) p" using "1.prems"(2) q(1) by simp
      also have "Suc (nat (hw - 1 - h)) = nat (hw - h)" using True by linarith
      finally show ?thesis .
    qed
  next
    case False
    then show ?thesis using "1.prems" by (simp add: ancestor_walk.simps)
  qed
qed

lemma GetAncestor_prev:
  assumes "tree_wf T" "fmlookup T p = Some e"
  shows "GetAncestor T p h = (if 0 \<le> h \<and> h \<le> e_nHeight e then prev_n T (nat (e_nHeight e - h)) p else None)"
  using ancestor_walk_prev [OF assms refl, of h] assms(2) by (simp add: GetAncestor_def)

lemma GetAncestor_height:
  assumes "tree_wf T" "GetAncestor T p h = Some q"
  shows "\<exists>eq. fmlookup T q = Some eq \<and> e_nHeight eq = h"
proof -
  obtain e where e: "fmlookup T p = Some e" using assms(2) by (auto simp: GetAncestor_def split: option.splits)
  then have h: "0 \<le> h" "h \<le> e_nHeight e" "prev_n T (nat (e_nHeight e - h)) p = Some q"
    using assms GetAncestor_prev [OF assms(1) e, of h] by (auto split: if_splits)
  then show ?thesis using prev_n_height [OF assms(1) e, of "nat (e_nHeight e - h)"] by auto
qed

lemma GetAncestor_self: "tree_wf T \<Longrightarrow> fmlookup T p = Some e \<Longrightarrow> GetAncestor T p (e_nHeight e) = Some p"
  using GetAncestor_prev [of T p e "e_nHeight e"] by (auto simp: tree_wf_def entry_wf_def)

lemma GetAncestor_pprev:
  assumes "tree_wf T" "fmlookup T p = Some e" "e_pprev e = Some q" "h < e_nHeight e"
  shows "GetAncestor T p h = GetAncestor T q h"
proof -
  obtain eq where q: "fmlookup T q = Some eq" "e_nHeight e = e_nHeight eq + 1"
    using tree_wf_pprev(3) [OF assms(1-3)] by blast
  have "nat (e_nHeight e - h) = Suc (nat (e_nHeight eq - h))" using q(2) assms(4) by linarith
  then show ?thesis using assms q GetAncestor_prev [OF assms(1,2), of h] GetAncestor_prev [OF assms(1) q(1), of h] by simp
qed

section \<open>The tree grows well\<close>

lemma prev_n_mono:
  assumes "tree_wf T" "\<And>p e. fmlookup T p = Some e \<Longrightarrow> fmlookup T' p = Some e" "fmlookup T p = Some e"
  shows "prev_n T n p = prev_n T' n p"
  using assms(3)
proof (induction n arbitrary: p e)
  case (Suc n)
  have "entry_wf T p e" using assms(1) Suc.prems by (simp add: tree_wf_def)
  then show ?case using Suc.prems assms(2) [OF Suc.prems] Suc.IH
    by (auto simp: entry_wf_def split: option.splits)
qed simp

lemma GetAncestor_mono:
  assumes "tree_wf T" "tree_wf T'" "\<And>p e. fmlookup T p = Some e \<Longrightarrow> fmlookup T' p = Some e" "fmlookup T p = Some e"
  shows "GetAncestor T' p h = GetAncestor T p h"
  using GetAncestor_prev [OF assms(1,4), of h] GetAncestor_prev [OF assms(2) assms(3) [OF assms(4)], of h]
    prev_n_mono [OF assms(1,3,4)] by simp

lemma tree_wf_extend:
  assumes "tree_wf T" "fmlookup T hash = None" "entry_wf (fmupd hash e T) hash e"
  shows "tree_wf (fmupd hash e T)"
  unfolding tree_wf_def
proof (intro allI impI)
  fix p x
  assume x: "fmlookup (fmupd hash e T) p = Some x"
  have ext: "fmlookup T q = Some y \<Longrightarrow> fmlookup (fmupd hash e T) q = Some y" for q y using assms(2) by auto
  show "entry_wf (fmupd hash e T) p x"
  proof (cases "p = hash")
    case False
    then have p: "fmlookup T p = Some x" using x by simp
    then have "entry_wf T p x" using assms(1) by (simp add: tree_wf_def)
    then show ?thesis using prev_n_mono [OF assms(1) ext p] ext
      by (auto simp: entry_wf_def simp del: fmupd_lookup split: option.splits)
  qed (use x assms(3) in simp)
qed

lemma RaiseValidity_links [simp]:
  "e_pprev (fst (RaiseValidity u e)) = e_pprev e" "e_pskip (fst (RaiseValidity u e)) = e_pskip e"
  "e_nHeight (fst (RaiseValidity u e)) = e_nHeight e" "e_nTime (fst (RaiseValidity u e)) = e_nTime e"
  "e_anchor_height (fst (RaiseValidity u e)) = e_anchor_height e" "e_anchor_hash (fst (RaiseValidity u e)) = e_anchor_hash e"
  by (simp_all add: RaiseValidity_def Let_def)

lemma link_entry_links:
  "e_pprev (link_entry g T block) = (if fmlookup T (hashPrevBlock block) = None then None else Some (hashPrevBlock block))"
  "e_nHeight (link_entry g T block) = (case fmlookup T (hashPrevBlock block) of None \<Rightarrow> 0 | Some q \<Rightarrow> e_nHeight q + 1)"
  "e_pskip (link_entry g T block) = (case fmlookup T (hashPrevBlock block) of None \<Rightarrow> None
     | Some q \<Rightarrow> GetAncestor T (hashPrevBlock block) (GetSkipHeight (e_nHeight q + 1)))"
  by (simp_all add: link_entry_def new_entry_def BuildSkip_def Let_def split: option.splits)

lemma add_block_wf:
  assumes "tree_wf T" "fmlookup T (hd_hash block) = None" "hashPrevBlock block \<noteq> hd_hash block"
  defines "T1 \<equiv> fmupd (hd_hash block) (new_entry block) T"
  shows "tree_wf (fmupd (hd_hash block) (link_entry g T1 block) T)"
proof (rule tree_wf_extend [OF assms(1,2)])
  let ?hash = "hd_hash block" and ?e = "link_entry g T1 block"
  let ?T2 = "fmupd ?hash ?e T"
  have wf1: "tree_wf T1"
    unfolding T1_def by (rule tree_wf_extend [OF assms(1,2)]) (simp add: entry_wf_def new_entry_def)
  have ext: "fmlookup T q = Some y \<Longrightarrow> fmlookup T1 q = Some y" "fmlookup T q = Some y \<Longrightarrow> fmlookup ?T2 q = Some y" for q y
    using assms(2) by (auto simp: T1_def)
  show "entry_wf ?T2 ?hash ?e"
  proof (cases "fmlookup T (hashPrevBlock block)")
    case None
    then have "fmlookup T1 (hashPrevBlock block) = None" using assms(3) by (simp add: T1_def)
    then show ?thesis by (simp add: entry_wf_def link_entry_links)
  next
    case (Some q)
    then have q1: "fmlookup T1 (hashPrevBlock block) = Some q" by (rule ext(1))
    have h: "0 \<le> e_nHeight q" using tree_wf_pprev(1) [OF assms(1) Some] .
    let ?k = "GetSkipHeight (e_nHeight q + 1)"
    have k: "0 \<le> ?k" "?k \<le> e_nHeight q" using GetSkipHeight_bounds [of "e_nHeight q + 1"] h by auto
    have "prev_n ?T2 (nat (e_nHeight q + 1 - ?k)) ?hash = prev_n ?T2 (nat (e_nHeight q - ?k)) (hashPrevBlock block)"
    proof -
      have "nat (e_nHeight q + 1 - ?k) = Suc (nat (e_nHeight q - ?k))" using k by linarith
      then show ?thesis by (simp add: link_entry_links q1)
    qed
    also have "\<dots> = prev_n T1 (nat (e_nHeight q - ?k)) (hashPrevBlock block)"
      using prev_n_mono [OF assms(1) ext(1) Some] prev_n_mono [OF assms(1) ext(2) Some] by simp
    finally have "prev_n ?T2 (nat (e_nHeight q + 1 - ?k)) ?hash = GetAncestor T1 (hashPrevBlock block) ?k"
      using GetAncestor_prev [OF wf1 q1, of ?k] k by simp
    then show ?thesis using h ext(2) [OF Some] by (simp add: entry_wf_def link_entry_links q1 del: fmupd_lookup)
  qed
qed

lemma AddToBlockIndex_wf:
  assumes "tree_wf (m_block_index B)" "hashPrevBlock block \<noteq> hd_hash block"
  shows "tree_wf (m_block_index (fst (AddToBlockIndex g block B)))"
  using add_block_wf [OF assms(1) _ assms(2), of g] assms(1) by (auto simp: AddToBlockIndex_def Let_def)

text \<open>The index as it grows from an empty one, header by header.\<close>

definition grow_index :: "bool \<Rightarrow> BlockHeader list \<Rightarrow> BlockManager" where
  "grow_index g bs = fold (\<lambda>b B. fst (AddToBlockIndex g b B)) bs \<lparr>m_block_index = fmempty, pindexBestHeader = None\<rparr>"

lemma grow_index_wf:
  assumes "\<forall>b\<in>set bs. hashPrevBlock b \<noteq> hd_hash b"
  shows "tree_wf (m_block_index (grow_index g bs))"
proof -
  have "tree_wf (m_block_index B) \<Longrightarrow> tree_wf (m_block_index (fold (\<lambda>b B. fst (AddToBlockIndex g b B)) bs B))" for B
    using assms by (induction bs arbitrary: B) (auto intro: AddToBlockIndex_wf)
  then show ?thesis by (simp add: grow_index_def tree_wf_def)
qed

section \<open>The chain below a tip\<close>

text \<open>What a vector of pointers must be to be the active chain: each slot holds a block of its own height,
  on top of the block below it.\<close>

definition chain_wf :: "block_tree \<Rightarrow> CChain \<Rightarrow> bool" where
  "chain_wf T C \<longleftrightarrow> (\<forall>i < length C. \<exists>e. fmlookup T (C ! i) = Some e \<and> e_nHeight e = int i \<and>
     e_pprev e = (if i = 0 then None else Some (C ! (i - 1))))"

lemma chain_wf_ancestor:
  assumes "tree_wf T" "chain_wf T C" "i < length C" "j \<le> i"
  shows "GetAncestor T (C ! i) (int j) = Some (C ! j)"
  using assms(3,4)
proof (induction i)
  case 0
  then obtain e where "fmlookup T (C ! 0) = Some e" "e_nHeight e = 0" using assms(2) by (auto simp: chain_wf_def)
  then show ?case using GetAncestor_self [OF assms(1)] 0 by force
next
  case (Suc i)
  then obtain e where e: "fmlookup T (C ! Suc i) = Some e" "e_nHeight e = int (Suc i)" "e_pprev e = Some (C ! i)"
    using assms(2) by (fastforce simp: chain_wf_def)
  show ?case
  proof (cases "j = Suc i")
    case True
    then show ?thesis using GetAncestor_self [OF assms(1) e(1)] e(2) by simp
  next
    case False
    then show ?thesis using GetAncestor_pprev [OF assms(1) e(1,3), of "int j"] Suc e(2) by simp
  qed
qed

definition chain_below :: "block_tree \<Rightarrow> block_ptr \<Rightarrow> block_ptr option list" where
  "chain_below T p = map (\<lambda>h. GetAncestor T p (int h)) [0..<nat (e_nHeight (the (fmlookup T p))) + 1]"

lemma GetAncestor_trans:
  assumes "tree_wf T" "GetAncestor T p k = Some q" "h \<le> k"
  shows "GetAncestor T q h = GetAncestor T p h"
proof -
  obtain e where e: "fmlookup T p = Some e" using assms(2) by (auto simp: GetAncestor_def split: option.splits)
  have k: "0 \<le> k" "k \<le> e_nHeight e" "prev_n T (nat (e_nHeight e - k)) p = Some q"
    using assms(2) GetAncestor_prev [OF assms(1) e, of k] by (auto split: if_splits)
  obtain eq where eq: "fmlookup T q = Some eq" "e_nHeight eq = k" using GetAncestor_height [OF assms(1,2)] by blast
  have "nat (e_nHeight e - h) = nat (e_nHeight e - k) + nat (k - h)" using k assms(3) by linarith
  then show ?thesis
    using GetAncestor_prev [OF assms(1) e, of h] GetAncestor_prev [OF assms(1) eq(1), of h] k assms(3) eq(2)
    by (simp add: prev_n_add)
qed

lemma set_tip_loop_stop:
  assumes wf: "tree_wf T" and C: "chain_wf T C" and p: "fmlookup T p = Some e"
    and q: "GetAncestor T p (int k) = Some q" "int k \<le> e_nHeight e" and V: "length V = nat (e_nHeight e) + 1"
    and above: "\<And>i. k < i \<Longrightarrow> i < length V \<Longrightarrow> V ! i = GetAncestor T p (int i)"
    and below: "\<And>i. i \<le> k \<Longrightarrow> V ! i = (if i < length C then Some (C ! i) else None)"
    and met: "V ! k = Some q"
  shows "V = chain_below T p"
proof (rule nth_equalityI)
  show "length V = length (chain_below T p)" using V p by (simp add: chain_below_def)
  fix i
  assume i: "i < length V"
  have kC: "k < length C" "C ! k = q" using met below [of k] by (auto split: if_splits)
  have "V ! i = GetAncestor T p (int i)"
  proof (cases "i \<le> k")
    case True
    then show ?thesis
      using below [of i] kC chain_wf_ancestor [OF wf C kC(1) True] GetAncestor_trans [OF wf q(1), of "int i"] by simp
  qed (use above i in simp)
  then show "V ! i = chain_below T p ! i" using i V p by (simp add: chain_below_def del: upt_Suc)
qed

lemma set_tip_loop_fill:
  assumes wf: "tree_wf T" and C: "chain_wf T C" and p: "fmlookup T p = Some e"
    and "GetAncestor T p (int k) = Some q" "int k \<le> e_nHeight e" "length V = nat (e_nHeight e) + 1"
    and "\<And>i. k < i \<Longrightarrow> i < length V \<Longrightarrow> V ! i = GetAncestor T p (int i)"
    and "\<And>i. i \<le> k \<Longrightarrow> V ! i = (if i < length C then Some (C ! i) else None)"
  shows "set_tip_loop (Suc k) T (Some q) V = chain_below T p"
  using assms(4-8)
proof (induction k arbitrary: q V)
  case (0 q V)
  obtain eq where eq: "fmlookup T q = Some eq" "e_nHeight eq = 0" using GetAncestor_height [OF wf 0(1)] by auto
  have "V[0 := Some q] = chain_below T p"
  proof (rule nth_equalityI)
    fix i
    assume "i < length (V[0 := Some q])"
    then show "V[0 := Some q] ! i = chain_below T p ! i"
      using 0 p by (cases i) (auto simp: chain_below_def simp del: upt_Suc)
  qed (use 0(3) p in \<open>simp add: chain_below_def\<close>)
  then show ?case using eq set_tip_loop_stop [OF wf C p 0] by (cases "V ! 0 = Some q") auto
next
  case (Suc k q V)
  obtain eq where eq: "fmlookup T q = Some eq" "e_nHeight eq = int (Suc k)"
    using GetAncestor_height [OF wf Suc.prems(1)] by auto
  obtain r where r: "e_pprev eq = Some r"
    using tree_wf_pprev(2) [OF wf eq(1)] eq(2) by (cases "e_pprev eq") auto
  have rp: "GetAncestor T p (int k) = Some r"
  proof -
    obtain er where er: "fmlookup T r = Some er" "e_nHeight er = int k"
      using tree_wf_pprev(3) [OF wf eq(1) r] eq(2) by auto
    then show ?thesis
      using GetAncestor_self [OF wf er(1)] GetAncestor_pprev [OF wf eq(1) r, of "int k"]
        GetAncestor_trans [OF wf Suc.prems(1), of "int k"] eq(2) by simp
  qed
  have "nat (e_nHeight eq) = Suc k" using eq(2) by simp
  then have step: "set_tip_loop (Suc (Suc k)) T (Some q) V =
      (if V ! Suc k = Some q then V else set_tip_loop (Suc k) T (Some r) (V[Suc k := Some q]))"
    by (subst set_tip_loop.simps) (simp add: eq(1) r del: set_tip_loop.simps)
  show ?case
  proof (cases "V ! Suc k = Some q")
    case True
    then show ?thesis unfolding step using set_tip_loop_stop [OF wf C p Suc.prems] by simp
  next
    case False
    have "V[Suc k := Some q] ! i = GetAncestor T p (int i)" if "k < i" "i < length V" for i
      using that Suc.prems(1,4) by (cases "i = Suc k") auto
    then have "set_tip_loop (Suc k) T (Some r) (V[Suc k := Some q]) = chain_below T p"
      using Suc.prems by (intro Suc.IH rp) auto
    then show ?thesis unfolding step using False by simp
  qed
qed

lemma SetTip_chain_below:
  assumes "tree_wf T" "chain_wf T C" "fmlookup T p = Some e"
  shows "SetTip T (Some p) (map Some C) = chain_below T p"
proof -
  let ?n = "nat (e_nHeight e) + 1"
  have h: "0 \<le> e_nHeight e" using tree_wf_pprev(1) [OF assms(1,3)] .
  let ?V = "take ?n (map Some C) @ replicate (?n - length C) None"
  have "set_tip_loop (Suc (nat (e_nHeight e))) T (Some p) ?V = chain_below T p"
    by (rule set_tip_loop_fill [OF assms]) (use h GetAncestor_self [OF assms(1,3)] in \<open>auto simp: nth_append min_def\<close>)
  then show ?thesis using assms(3) by (simp add: SetTip_def)
qed

section \<open>Where a branch leaves the chain\<close>

text \<open>\<open>f\<close> is the highest ancestor of \<open>p\<close> that the chain contains, if there is one.\<close>

definition is_fork :: "block_tree \<Rightarrow> CChain \<Rightarrow> block_ptr \<Rightarrow> block_ptr option \<Rightarrow> bool" where
  "is_fork T C p f \<longleftrightarrow>
     (case f of None \<Rightarrow> \<forall>h g. GetAncestor T p h = Some g \<longrightarrow> \<not> Chain_Contains T C g
      | Some f \<Rightarrow> Chain_Contains T C f \<and> (\<exists>h. GetAncestor T p h = Some f \<and>
          (\<forall>h' g. h < h' \<longrightarrow> GetAncestor T p h' = Some g \<longrightarrow> \<not> Chain_Contains T C g)))"

lemma GetAncestor_None: "fmlookup T p = Some e \<Longrightarrow> e_nHeight e < h \<Longrightarrow> GetAncestor T p h = None"
  by (simp add: GetAncestor_def)

lemma GetAncestor_bounds: "GetAncestor T p h = Some q \<Longrightarrow> \<exists>e. fmlookup T p = Some e \<and> 0 \<le> h \<and> h \<le> e_nHeight e"
  by (auto simp: GetAncestor_def split: option.splits if_splits)

lemma is_fork_lower:
  assumes "tree_wf T" "GetAncestor T p k = Some q" "\<And>h g. k < h \<Longrightarrow> GetAncestor T p h = Some g \<Longrightarrow> \<not> Chain_Contains T C g"
    and "is_fork T C q f"
  shows "is_fork T C p f"
proof -
  have low: "GetAncestor T q h = GetAncestor T p h" if "h \<le> k" for h using GetAncestor_trans [OF assms(1,2) that] .
  obtain eq where q: "fmlookup T q = Some eq" "e_nHeight eq = k" using GetAncestor_height [OF assms(1,2)] by blast
  have high: "h \<le> k" if "GetAncestor T q h = Some g" for h g using GetAncestor_None [OF q(1), of h] q(2) that by force
  show ?thesis
  proof (cases f)
    case None
    then have "\<not> Chain_Contains T C g" if "GetAncestor T p h = Some g" for h g
      using that assms(3) [of h g] assms(4) low [of h] by (cases "h \<le> k") (auto simp: is_fork_def)
    then show ?thesis using None by (simp add: is_fork_def)
  next
    case (Some x)
    then obtain h where h: "Chain_Contains T C x" "GetAncestor T q h = Some x"
      "\<And>h' g. h < h' \<Longrightarrow> GetAncestor T q h' = Some g \<Longrightarrow> \<not> Chain_Contains T C g"
      using assms(4) by (auto simp: is_fork_def)
    have "\<not> Chain_Contains T C g" if "h < h'" "GetAncestor T p h' = Some g" for h' g
      using that assms(3) [of h' g] h(3) [of h' g] low [of h'] by (cases "h' \<le> k") auto
    then show ?thesis using Some h(1,2) low [OF high [OF h(2)]] by (auto simp: is_fork_def)
  qed
qed

lemma is_fork_self: "tree_wf T \<Longrightarrow> fmlookup T p = Some e \<Longrightarrow> Chain_Contains T C p \<Longrightarrow> is_fork T C p (Some p)"
  using GetAncestor_self [of T p e] GetAncestor_None [of T p e] by (auto simp: is_fork_def intro!: exI [of _ "e_nHeight e"])

lemma find_fork_loop_fork:
  assumes "tree_wf T" "fmlookup T p = Some e" "e_nHeight e < int n"
  shows "is_fork T C p (find_fork_loop n T C (Some p))"
  using assms(2,3)
proof (induction n arbitrary: p e)
  case 0
  then show ?case using tree_wf_pprev(1) [OF assms(1)] by force
next
  case (Suc n)
  show ?case
  proof (cases "Chain_Contains T C p")
    case True
    then show ?thesis using is_fork_self [OF assms(1) Suc.prems(1)] by simp
  next
    case out: False
    have above: "\<not> Chain_Contains T C g" if "e_nHeight e - 1 < h" "GetAncestor T p h = Some g" for h g
    proof -
      have "h = e_nHeight e" using that GetAncestor_None [OF Suc.prems(1), of h] by (cases "h \<le> e_nHeight e") auto
      then show ?thesis using that(2) out GetAncestor_self [OF assms(1) Suc.prems(1)] by simp
    qed
    show ?thesis
    proof (cases "e_pprev e")
      case None
      then have "GetAncestor T p h = Some g \<Longrightarrow> \<not> Chain_Contains T C g" for h g
        using above [of h g] GetAncestor_bounds [of T p h g] tree_wf_pprev(2) [OF assms(1) Suc.prems(1)] by auto
      then have "is_fork T C p None" by (simp add: is_fork_def)
      moreover have "find_fork_loop n T C None = None" by (cases n) simp_all
      ultimately show ?thesis using None out Suc.prems(1) by simp
    next
      case (Some q)
      obtain eq where q: "fmlookup T q = Some eq" "e_nHeight e = e_nHeight eq + 1"
        using tree_wf_pprev(3) [OF assms(1) Suc.prems(1) Some] by blast
      have "GetAncestor T p (e_nHeight e - 1) = Some q"
        using GetAncestor_pprev [OF assms(1) Suc.prems(1) Some, of "e_nHeight e - 1"] GetAncestor_self [OF assms(1) q(1)] q(2)
        by simp
      then show ?thesis
        using is_fork_lower [OF assms(1) _ above Suc.IH [OF q(1)]] q(2) Suc.prems Some out by simp
    qed
  qed
qed

lemma FindFork_fork:
  assumes "tree_wf T" "fmlookup T p = Some e" "C \<noteq> []"
  shows "is_fork T C p (FindFork T C (Some p))"
proof (cases "e_nHeight e > Chain_Height C")
  case True
  have h: "0 \<le> Chain_Height C" using assms(3) by (cases C) (simp_all add: Chain_Height_def)
  then obtain q where q: "GetAncestor T p (Chain_Height C) = Some q"
    using GetAncestor_prev [OF assms(1,2), of "Chain_Height C"] prev_n_height [OF assms(1,2), of "nat (e_nHeight e - Chain_Height C)"] True
    by auto
  then obtain eq where eq: "fmlookup T q = Some eq" "e_nHeight eq = Chain_Height C" using GetAncestor_height [OF assms(1)] by blast
  have "\<not> Chain_Contains T C g" if "Chain_Height C < h" "GetAncestor T p h = Some g" for h g
    using that GetAncestor_height [OF assms(1) that(2)] by (auto simp: Chain_Contains_def Chain_at_def Chain_Height_def)
  then show ?thesis
    using is_fork_lower [OF assms(1) q _ find_fork_loop_fork [OF assms(1) eq(1)]] True eq(2) h q assms(2)
    by (simp add: FindFork_def Let_def del: find_fork_loop.simps)
next
  case False
  then show ?thesis using find_fork_loop_fork [OF assms(1,2), of "nat (e_nHeight e) + 1"] assms(2)
      tree_wf_pprev(1) [OF assms(1,2)] by (simp add: FindFork_def del: find_fork_loop.simps)
qed

section \<open>The best candidate\<close>

text \<open>\<open>setBlockIndexCandidates\<close> is a set ordered by the comparator, whose last element is tried first:
  \<open>best_candidate\<close> is that element, of the candidates in whatever order they came.\<close>

fun best_candidate :: "('a \<Rightarrow> 'a \<Rightarrow> bool) \<Rightarrow> 'a list \<Rightarrow> 'a option" where
  "best_candidate worse [] = None"
| "best_candidate worse (x # xs) =
     (case best_candidate worse xs of None \<Rightarrow> Some x | Some y \<Rightarrow> if worse y x then Some x else Some y)"

locale preference =
  fixes worse :: "'a \<Rightarrow> 'a \<Rightarrow> bool"
  assumes worse_irrefl: "\<not> worse a a"
    and worse_trans: "worse a b \<Longrightarrow> worse b c \<Longrightarrow> worse a c"
    and worse_total: "a \<noteq> b \<Longrightarrow> worse a b \<or> worse b a"
begin

lemma best_is_top: "best_candidate worse xs = Some b \<Longrightarrow> b \<in> set xs \<and> (\<forall>x\<in>set xs. x \<noteq> b \<longrightarrow> worse x b)"
proof (induction xs arbitrary: b)
  case (Cons x xs)
  show ?case
  proof (cases "best_candidate worse xs")
    case None
    then have "xs = []" by (cases xs) (auto split: option.splits if_splits)
    then show ?thesis using Cons.prems by simp
  next
    case (Some y)
    then show ?thesis using Cons.IH [OF Some] Cons.prems worse_total [of x y] worse_trans
      by (auto split: if_splits)
  qed
qed simp

lemma best_exists: "xs \<noteq> [] \<Longrightarrow> \<exists>b. best_candidate worse xs = Some b"
  by (cases xs) (auto split: option.splits)

lemma best_unique:
  assumes "b \<in> set xs" "\<forall>x\<in>set xs. x \<noteq> b \<longrightarrow> worse x b"
  shows "best_candidate worse xs = Some b"
proof -
  have "xs \<noteq> []" using assms(1) by auto
  then obtain c where c: "best_candidate worse xs = Some c" using best_exists by blast
  then have "c = b" using best_is_top [OF c] assms worse_trans worse_irrefl by metis
  then show ?thesis using c by simp
qed

lemma best_same_set:
  assumes "set xs = set ys"
  shows "best_candidate worse xs = best_candidate worse ys"
proof (cases "xs = []")
  case False
  then obtain b where "best_candidate worse xs = Some b" using best_exists by blast
  then show ?thesis using best_is_top [of xs b] assms best_unique [of b ys] by simp
qed (use assms in simp)

end

lemma WorkComparator_pos:
  "WorkComparator True addr T pa pb \<longleftrightarrow>
     (let a = the (fmlookup T pa); b = the (fmlookup T pb)
      in e_nChainWork a < e_nChainWork b \<or> e_nChainWork a = e_nChainWork b \<and>
           (\<not> e_pos_certified a \<and> e_pos_certified b \<or> e_pos_certified a = e_pos_certified b \<and>
             (e_pos_vrf_score b < e_pos_vrf_score a \<or> e_pos_vrf_score a = e_pos_vrf_score b \<and> pb < pa)))"
  by (auto simp: WorkComparator_def Let_def dest: less_imp_not_less)

interpretation pos_choice: preference "WorkComparator True addr T" for addr T
proof
  show "\<not> WorkComparator True addr T a a" for a by (simp add: WorkComparator_pos)
  show "WorkComparator True addr T a b \<Longrightarrow> WorkComparator True addr T b c \<Longrightarrow> WorkComparator True addr T a c" for a b c
    unfolding WorkComparator_pos Let_def by (elim disjE conjE) (auto dest: less_trans)
  show "a \<noteq> b \<Longrightarrow> WorkComparator True addr T a b \<or> WorkComparator True addr T b a" for a b
    unfolding WorkComparator_pos Let_def by (metis linorder_neqE)
qed

lemma best_candidate_cong:
  assumes "\<And>a b. a \<in> set xs \<Longrightarrow> b \<in> set xs \<Longrightarrow> worse a b = worse' a b"
  shows "best_candidate worse xs = best_candidate worse' xs"
  using assms
proof (induction xs)
  case (Cons x xs)
  have "y \<in> set xs" if "best_candidate w xs = Some y" for w y
    using that by (induction xs arbitrary: y) (auto split: option.splits if_splits)
  then show ?case using Cons by (auto split: option.splits)
qed simp

text \<open>What two nodes agree on about a block: its work, its leader's score and the answer on its
  certification. The answer is an assumption here. For most blocks it does not depend on the
  certificate each node received, but a block that may escape a stall is judged by the number of
  countersignatures (\<open>PosJudgeCertified\<close>), so that nodes which received certificates on either side of
  the quorum give it different answers. The order of arrival and the stored count are not in it.\<close>

definition same_rank :: "BlockEntry \<Rightarrow> BlockEntry \<Rightarrow> bool" where
  "same_rank a b \<longleftrightarrow> e_nChainWork a = e_nChainWork b \<and> e_pos_certified a = e_pos_certified b \<and>
     e_pos_vrf_score a = e_pos_vrf_score b"

section \<open>Properties\<close>

text \<open>C26. In an index grown header by header from an empty one, \<open>GetAncestor\<close>, which jumps along skip
  pointers, finds the very block that walking back one predecessor at a time finds, and it is a block
  of the height asked for.\<close>

theorem skip_list_finds_ancestor:
  assumes "\<forall>b\<in>set bs. hashPrevBlock b \<noteq> hd_hash b" "T = m_block_index (grow_index g bs)"
    and "fmlookup T p = Some e" "0 \<le> h" "h \<le> e_nHeight e"
  shows "GetAncestor T p h = prev_n T (nat (e_nHeight e - h)) p \<and>
     (\<exists>q eq. GetAncestor T p h = Some q \<and> fmlookup T q = Some eq \<and> e_nHeight eq = h)"
proof -
  have wf: "tree_wf T" using grow_index_wf [OF assms(1)] assms(2) by simp
  show ?thesis
    using GetAncestor_prev [OF wf assms(3), of h] prev_n_height [OF wf assms(3), of "nat (e_nHeight e - h)"] assms(4,5) by auto
qed

definition sample_header :: "8 word \<Rightarrow> 8 word \<Rightarrow> BlockHeader" where
  "sample_header n p = \<lparr>hd_hash = [n], hashPrevBlock = [p], hd_nTime = 0, hd_nBits = 0, hd_anchor_height = 0, hd_anchor_hash = []\<rparr>"

definition sample_tree :: block_tree where
  "sample_tree = m_block_index (grow_index True (map (\<lambda>n. sample_header (n + 1) n) [0, 1, 2]))"

lemmas tree_eval = sample_header_def grow_index_def AddToBlockIndex_def link_entry_def new_entry_def
  BuildSkip_def GetAncestor_def ancestor_walk.simps follow_skip_def GetSkipHeight_def InvertLowestOne_def
  RaiseValidity_def BlockFailed_def GetBlockProof_def Let_def

lemma sample_tree_lookup:
  "map_option e_nHeight (fmlookup sample_tree [1]) = Some 0" "map_option e_nHeight (fmlookup sample_tree [2]) = Some 1"
  "map_option e_nHeight (fmlookup sample_tree [3]) = Some 2" "map_option e_pprev (fmlookup sample_tree [3]) = Some (Some [2])"
  "map_option e_pprev (fmlookup sample_tree [2]) = Some (Some [1])" "map_option e_pskip (fmlookup sample_tree [3]) = Some (Some [1])"
  by (simp_all add: sample_tree_def tree_eval)

lemma sample_tree_wf: "tree_wf sample_tree"
  unfolding sample_tree_def by (rule grow_index_wf) (simp add: sample_header_def)

theorem skip_list_finds_ancestor_witness:
  "GetAncestor sample_tree [3] 0 = prev_n sample_tree 2 [3] \<and> GetAncestor sample_tree [3] 0 = Some [1]"
proof -
  obtain e where e: "fmlookup sample_tree [3] = Some e" "e_nHeight e = 2" using sample_tree_lookup(3) by auto
  have "GetAncestor sample_tree [3] 0 = prev_n sample_tree 2 [3]"
    using skip_list_finds_ancestor [OF _ sample_tree_def e(1), of 0] e(2) by (simp add: sample_header_def)
  moreover have "GetAncestor sample_tree [3] 0 = Some [1]" by (simp add: sample_tree_def tree_eval)
  ultimately show ?thesis by simp
qed

text \<open>To switch the active chain to another block, \<open>FindFork\<close> finds the highest ancestor of that
  block which the chain contains (none only if the chain contains none), and \<open>SetTip\<close>, although it
  stops at the first slot that already holds the right block, leaves in every slot the ancestor of the
  new tip of that height and nothing above it.\<close>

theorem chain_switch:
  assumes "tree_wf T" "chain_wf T C" "C \<noteq> []" "fmlookup T p = Some e"
  shows "is_fork T C p (FindFork T C (Some p)) \<and> SetTip T (Some p) (map Some C) = chain_below T p"
  using FindFork_fork [OF assms(1,4,3)] SetTip_chain_below [OF assms(1,2,4)] by simp

theorem chain_switch_witness:
  "is_fork sample_tree [[1]] [3] (FindFork sample_tree [[1]] (Some [3])) \<and>
   SetTip sample_tree (Some [3]) [Some [1]] = chain_below sample_tree [3] \<and> length (chain_below sample_tree [3]) = 3"
proof -
  obtain e where e: "fmlookup sample_tree [3] = Some e" "e_nHeight e = 2" using sample_tree_lookup(3) by auto
  have "chain_wf sample_tree [[1]]" by (simp add: chain_wf_def sample_tree_def tree_eval)
  from chain_switch [OF sample_tree_wf this _ e(1)] show ?thesis using e by (simp add: chain_below_def del: upt_Suc)
qed

text \<open>C25. Under proof of stake, two nodes that have the same candidates, and that agree on the work,
  the leader's score and the answer on certification of each, try the same block first, in whatever
  order the blocks arrived and whatever sequence numbers and addresses they have; and that block is
  preferred to each of the others. The agreement on certification is assumed: for a block that may
  escape a stall it depends on the certificate that each node received.\<close>

theorem fork_choice_deterministic:
  assumes "set xs = set ys" "\<forall>p\<in>set xs. same_rank (the (fmlookup T p)) (the (fmlookup T' p))" "xs \<noteq> []"
  shows "\<exists>b\<in>set xs. best_candidate (WorkComparator True addr T) xs = Some b \<and>
     best_candidate (WorkComparator True addr' T') ys = Some b \<and> (\<forall>x\<in>set xs. x \<noteq> b \<longrightarrow> WorkComparator True addr T x b)"
proof -
  obtain b where b: "best_candidate (WorkComparator True addr T) xs = Some b" using pos_choice.best_exists assms(3) by blast
  have "best_candidate (WorkComparator True addr T) xs = best_candidate (WorkComparator True addr' T') xs"
    by (rule best_candidate_cong) (use assms(2) in \<open>simp add: WorkComparator_pos same_rank_def Let_def\<close>)
  then show ?thesis using b pos_choice.best_is_top [OF b] pos_choice.best_same_set [OF assms(1)] by auto
qed

theorem fork_choice_deterministic_witness:
  "let T' = fmmap (\<lambda>e. e\<lparr>e_nSequenceId := e_nHeight e, e_pos_countersigs := 3\<rparr>) sample_tree
   in \<exists>b\<in>set [[3], [2]]. best_candidate (WorkComparator True length sample_tree) [[3], [2]] = Some b \<and>
        best_candidate (WorkComparator True (\<lambda>_. 0) T') [[2], [3]] = Some b"
proof -
  let ?T' = "fmmap (\<lambda>e. e\<lparr>e_nSequenceId := e_nHeight e, e_pos_countersigs := 3\<rparr>) sample_tree"
  have "\<forall>p\<in>set [[3], [2]]. same_rank (the (fmlookup sample_tree p)) (the (fmlookup ?T' p))"
    using sample_tree_lookup(2,3) by (auto simp: same_rank_def)
  moreover have "set [[3], [2]] = set [[2], [3]]" by (simp add: insert_commute)
  ultimately show ?thesis
    unfolding Let_def using fork_choice_deterministic [of "[[3], [2]]" "[[2], [3]]" sample_tree ?T'] by blast
qed

end
