(* ===== verification/Finality.thy ===== *)
theory Finality
  imports StakeRules BlockTree
begin

text \<open>
  Immediate finality (\<open>src/validation.cpp\<close>): when a block counts as certified, which certified block of
  the active chain is final, and how the final block constrains the choice of the next chain. The
  globals of the file are the record \<open>finality_state\<close>; clocks are arguments. The theory shows that a
  pass never moves the final block back on its own chain, that what it newly finalizes carried a quorum
  for its whole observation window with no competing certificate left unjudged, that the floor at which
  a pass stops early gives what a full walk gives, and that the chain to activate descends from the
  final block. One case where the floor hides certified blocks is exhibited.
\<close>

section \<open>State\<close>

record finality_env =
  g_pos_bls :: bool
  g_pos_reconcile :: bool
  g_pos_finality_delay_ms :: int
  g_pos_finality_hold_ms :: int

record finality_state =
  g_pos_cert_epoch :: u64
  g_pos_immediate_final_height :: int
  g_pos_immediate_final_hash :: uint256
  g_pos_reconcile_release_height :: int
  g_pos_reconcile_release_hash :: uint256
  g_pos_reconcile_release_final_height :: int
  g_pos_final_advance_steady :: int
  g_pos_competing_certs :: "(int, (uint256, int) fmap) fmap"
  g_pos_quorum_first_active :: "(uint256, int \<times> int) fmap"
  g_pos_load_ms :: int
  g_pos_final_floor_height :: int
  g_pos_final_floor_hash :: uint256
  g_pos_final_floor_epoch :: u64
  g_pos_final_floor_final_height :: int
  g_pos_final_floor_final_hash :: uint256

definition initial_finality :: finality_state where
  "initial_finality =
     \<lparr>g_pos_cert_epoch = 0, g_pos_immediate_final_height = - 1, g_pos_immediate_final_hash = uint256_zero,
      g_pos_reconcile_release_height = - 1, g_pos_reconcile_release_hash = uint256_zero,
      g_pos_reconcile_release_final_height = - 1, g_pos_final_advance_steady = 0,
      g_pos_competing_certs = fmempty, g_pos_quorum_first_active = fmempty, g_pos_load_ms = 0,
      g_pos_final_floor_height = - 1, g_pos_final_floor_hash = uint256_zero, g_pos_final_floor_epoch = 0,
      g_pos_final_floor_final_height = - 1, g_pos_final_floor_final_hash = uint256_zero\<rparr>"

text \<open>A chain state keeps its active chain and the candidates for it; \<open>GetAll\<close> of the manager gives the
  chain states.\<close>

record ChainState =
  m_chain :: CChain
  setBlockIndexCandidates :: "block_ptr list"

record ChainstateManager =
  cm_index :: block_tree
  cm_chainstates :: "ChainState list"
  cm_finality :: finality_state

definition candidate_insert :: "block_ptr \<Rightarrow> ChainState \<Rightarrow> ChainState" where
  "candidate_insert p c = c\<lparr>setBlockIndexCandidates := List.insert p (setBlockIndexCandidates c)\<rparr>"

definition candidate_erase :: "block_ptr \<Rightarrow> ChainState \<Rightarrow> ChainState" where
  "candidate_erase p c = c\<lparr>setBlockIndexCandidates := removeAll p (setBlockIndexCandidates c)\<rparr>"

section \<open>Certification\<close>

definition PosQuorumAfter :: "pos_env \<Rightarrow> StakeRegistry \<Rightarrow> block_tree \<Rightarrow> block_ptr option \<Rightarrow> int" where
  "PosQuorumAfter E R T pindex =
     (case Option.bind pindex (fmlookup T) of None \<Rightarrow> - 1
      | Some e \<Rightarrow> if \<not> g_pos_public_committee E then PosSlotQuorum E R else e_pos_child_quorum e)"

text \<open>The answer, if it can be given, and whether the parent's quorum was needed for it.\<close>

definition PosJudgeCertified :: "pos_env \<Rightarrow> rules_env \<Rightarrow> finality_env \<Rightarrow> block_tree \<Rightarrow> BlockEntry \<Rightarrow> int \<Rightarrow> bool option \<times> bool" where
  "PosJudgeCertified E G Q T e parent_quorum =
     (case Option.bind (e_pprev e) (fmlookup T) of
        None \<Rightarrow> (Some False, False)
      | Some prev \<Rightarrow>
          if e_pos_countersigs e = 0 then (Some False, False)
          else if \<not> g_pos_public_committee E then (Some (uint (e_pos_countersigs e) \<ge> parent_quorum), False)
          else let may_escape_stall = (g_con_bitcoin_anchor G \<and>
                     PosEscapingStallAllowed (e_anchor_height prev) (e_anchor_height e))
            in if g_pos_vrf G \<and> g_pos_bls Q \<and> g_pos_committee_size E > 1 \<and> \<not> may_escape_stall then (Some True, False)
               else if parent_quorum < 0 then (None, True)
               else (Some (uint (e_pos_countersigs e) \<ge> parent_quorum), True))"

definition verdict_or_true :: "bool option \<Rightarrow> bool" where
  "verdict_or_true verdict = (case verdict of None \<Rightarrow> True | Some b \<Rightarrow> b)"

definition set_certified :: "bool option \<Rightarrow> BlockEntry \<Rightarrow> BlockEntry" where
  "set_certified verdict e = e\<lparr>e_pos_certified := verdict_or_true verdict, e_pos_cert_known := verdict \<noteq> None\<rparr>"

text \<open>A block whose answer changes leaves the candidate sets, which are ordered by it, and comes back to
  those that held it. The epoch is bumped once for each active chain that contains a block whose
  answer changed.\<close>

definition PosSetCertified :: "block_ptr \<Rightarrow> bool option \<Rightarrow> ChainstateManager \<Rightarrow> ChainstateManager" where
  "PosSetCertified p verdict M =
     (case fmlookup (cm_index M) p of None \<Rightarrow> M
      | Some e \<Rightarrow>
          let e' = set_certified verdict e;
              T = fmupd p e' (cm_index M);
              css = (if verdict_or_true verdict = e_pos_certified e then cm_chainstates M
                     else map (\<lambda>c. if p \<in> set (setBlockIndexCandidates c)
                                   then candidate_insert p (candidate_erase p c) else c) (cm_chainstates M));
              bumps = (if PosCarriesQuorum e' \<noteq> PosCarriesQuorum e
                       then length (filter (\<lambda>c. Chain_Contains T (m_chain c) p) (cm_chainstates M)) else 0);
              F = cm_finality M
          in M\<lparr>cm_index := T, cm_chainstates := css,
               cm_finality := F\<lparr>g_pos_cert_epoch := g_pos_cert_epoch F + of_nat bumps\<rparr>\<rparr>)"

definition cert_bits :: "bool \<Rightarrow> u32" where
  "cert_bits b = BLOCK_POS_CERT_DECIDED OR (if b then BLOCK_POS_CERTIFIED else 0)"

definition PosRecordCertified ::
  "pos_env \<Rightarrow> rules_env \<Rightarrow> finality_env \<Rightarrow> block_ptr \<Rightarrow> int \<Rightarrow> ChainstateManager \<Rightarrow> ChainstateManager \<times> bool" where
  "PosRecordCertified E G Q p parent_quorum M =
     (case fmlookup (cm_index M) p of None \<Rightarrow> (M, False)
      | Some e \<Rightarrow>
          let (verdict, by_parent) = PosJudgeCertified E G Q (cm_index M) e parent_quorum;
              M = PosSetCertified p verdict M
          in case verdict of
               None \<Rightarrow> (M, False)
             | Some b \<Rightarrow>
                 let mask = BLOCK_POS_CERT_DECIDED OR BLOCK_POS_CERTIFIED; status = e_nStatus e
                 in if \<not> by_parent \<or> status AND mask = cert_bits b then (M, False)
                    else (M\<lparr>cm_index := fmupd p ((set_certified verdict e)\<lparr>e_nStatus := (status AND NOT mask) OR cert_bits b\<rparr>)
                                (cm_index M)\<rparr>, True))"

text \<open>At startup every entry is judged again; an answer that was recorded in the status bits stands. The
  candidate sets are emptied and filled again around it.\<close>

definition refresh_entry :: "pos_env \<Rightarrow> rules_env \<Rightarrow> finality_env \<Rightarrow> StakeRegistry \<Rightarrow> block_tree \<Rightarrow> BlockEntry \<Rightarrow> BlockEntry" where
  "refresh_entry E G Q R T e =
     (let (verdict, by_parent) = PosJudgeCertified E G Q T e (PosQuorumAfter E R T (e_pprev e));
          verdict = (if by_parent \<and> e_nStatus e AND BLOCK_POS_CERT_DECIDED \<noteq> 0
                     then Some (e_nStatus e AND BLOCK_POS_CERTIFIED \<noteq> 0) else verdict)
      in set_certified verdict e)"

definition PosRefreshCertifiedKeys ::
  "pos_env \<Rightarrow> rules_env \<Rightarrow> finality_env \<Rightarrow> StakeRegistry \<Rightarrow> block_ptr option \<Rightarrow> ChainstateManager \<Rightarrow> ChainstateManager" where
  "PosRefreshCertifiedKeys E G Q R registry_tip M =
     (if \<not> g_con_pos G then M
      else let T = cm_index M;
               T = (case registry_tip of None \<Rightarrow> T
                    | Some p \<Rightarrow> (case fmlookup T p of None \<Rightarrow> T
                        | Some e \<Rightarrow> fmupd p (e\<lparr>e_pos_child_quorum := PosSlotQuorumAt E R (e_nHeight e + 1)\<rparr>) T));
               F = cm_finality M
           in M\<lparr>cm_index := fmmap (refresh_entry E G Q R T) T,
                cm_finality := F\<lparr>g_pos_cert_epoch := g_pos_cert_epoch F + 1\<rparr>\<rparr>)"

text \<open>\<open>ConnectTip\<close>, once the block has been connected on the parent's stake state: the parent's quorum is
  recorded, and the block judged by it.\<close>

definition settle_certified ::
  "pos_env \<Rightarrow> rules_env \<Rightarrow> finality_env \<Rightarrow> StakeRegistry \<Rightarrow> block_ptr \<Rightarrow> ChainstateManager \<Rightarrow> ChainstateManager" where
  "settle_certified E G Q R p M =
     (case fmlookup (cm_index M) p of None \<Rightarrow> M
      | Some e \<Rightarrow>
         (case e_pprev e of None \<Rightarrow> M
          | Some q \<Rightarrow>
             (case fmlookup (cm_index M) q of None \<Rightarrow> M
              | Some prev \<Rightarrow>
                 if \<not> g_con_pos G then M
                 else let parent_quorum = PosSlotQuorumAt E R (e_nHeight e);
                          M = M\<lparr>cm_index := fmupd q (prev\<lparr>e_pos_child_quorum := parent_quorum\<rparr>) (cm_index M)\<rparr>
                      in fst (PosRecordCertified E G Q p parent_quorum M))))"

section \<open>The final point and the release token\<close>

definition PosGetImmediateFinalPoint :: "finality_state \<Rightarrow> (int \<times> uint256) option" where
  "PosGetImmediateFinalPoint F =
     (if g_pos_immediate_final_height F < 0 then None
      else Some (g_pos_immediate_final_height F, g_pos_immediate_final_hash F))"

definition PosFinalizedHashForDisk :: "finality_state \<Rightarrow> uint256" where
  "PosFinalizedHashForDisk F = (if g_pos_immediate_final_height F \<ge> 0 then g_pos_immediate_final_hash F else uint256_zero)"

definition PosStampFinalAdvanceNow :: "int \<Rightarrow> finality_state \<Rightarrow> finality_state" where
  "PosStampFinalAdvanceNow now_s F = F\<lparr>g_pos_final_advance_steady := now_s\<rparr>"

definition PosSetReconcileRelease :: "int \<Rightarrow> uint256 \<Rightarrow> finality_state \<Rightarrow> finality_state" where
  "PosSetReconcileRelease height hash F =
     F\<lparr>g_pos_reconcile_release_height := height, g_pos_reconcile_release_hash := hash,
       g_pos_reconcile_release_final_height := g_pos_immediate_final_height F\<rparr>"

definition clear_release :: "finality_state \<Rightarrow> finality_state" where
  "clear_release F =
     F\<lparr>g_pos_reconcile_release_height := - 1, g_pos_reconcile_release_hash := uint256_zero,
       g_pos_reconcile_release_final_height := - 1\<rparr>"

definition PosRevokeReconcileRelease :: "finality_state \<Rightarrow> finality_state" where
  "PosRevokeReconcileRelease F = (if g_pos_reconcile_release_height F < 0 then F else clear_release F)"

text \<open>Whether the branch of \<open>p\<close> contains the released block.\<close>

definition on_released_branch :: "block_tree \<Rightarrow> finality_state \<Rightarrow> block_ptr \<Rightarrow> bool" where
  "on_released_branch T F p \<longleftrightarrow> g_pos_reconcile_release_height F \<ge> 0 \<and>
     GetAncestor T p (g_pos_reconcile_release_height F) = Some (g_pos_reconcile_release_hash F)"

section \<open>Competing certificates\<close>

text \<open>The first time a certificate is seen is kept; beyond 200 heights the lowest are dropped.\<close>

definition PosNoteCompetingCertificate :: "int \<Rightarrow> uint256 \<Rightarrow> int \<Rightarrow> finality_state \<Rightarrow> finality_state \<times> bool" where
  "PosNoteCompetingCertificate now hash height F =
     (let certs = g_pos_competing_certs F;
          certs_at = (case fmlookup certs height of None \<Rightarrow> fmempty | Some m \<Rightarrow> m);
          fresh = (fmlookup certs_at hash = None);
          certs = fmupd height (if fresh then fmupd hash now certs_at else certs_at) certs;
          certs = fold fmdrop (take (length (fm_keys certs) - 200) (fm_keys certs)) certs
      in (F\<lparr>g_pos_competing_certs := certs\<rparr>, fresh))"

definition cert_judged :: "block_tree \<Rightarrow> uint256 \<Rightarrow> bool" where
  "cert_judged T hash = (case fmlookup T hash of None \<Rightarrow> False | Some c \<Rightarrow> BlockFailed c \<or> HaveTxsDownloaded c)"

definition PosHeldBy :: "finality_env \<Rightarrow> block_tree \<Rightarrow> finality_state \<Rightarrow> int \<Rightarrow> block_ptr \<Rightarrow> BlockEntry \<Rightarrow> uint256 list" where
  "PosHeldBy Q T F now f e =
     (case fmlookup (g_pos_competing_certs F) (e_nHeight e) of None \<Rightarrow> []
      | Some certs_at \<Rightarrow>
          map fst (filter (\<lambda>(hash, seen). hash \<noteq> f \<and> now - seen < g_pos_finality_hold_ms Q \<and> \<not> cert_judged T hash)
            (fm_entries certs_at)))"

definition PosNoteActiveQuorumBlock ::
  "rules_env \<Rightarrow> finality_env \<Rightarrow> block_tree \<Rightarrow> int \<Rightarrow> block_ptr option \<Rightarrow> finality_state \<Rightarrow> finality_state" where
  "PosNoteActiveQuorumBlock G Q T now pindex F =
     (case pindex of None \<Rightarrow> F
      | Some p \<Rightarrow>
         (case fmlookup T p of None \<Rightarrow> F
          | Some e \<Rightarrow>
              if \<not> g_con_pos G \<or> g_pos_finality_delay_ms Q \<le> 0 \<or> \<not> PosCarriesQuorum e
                 \<or> fmlookup (g_pos_quorum_first_active F) p \<noteq> None then F
              else F\<lparr>g_pos_quorum_first_active := fmupd p (e_nHeight e, now) (g_pos_quorum_first_active F)\<rparr>))"

section \<open>A pass\<close>

abbreviation INT_MAX :: int where "INT_MAX \<equiv> 2147483647"

text \<open>The lowest height among the last 200 blocks above the final one that a competing certificate holds.\<close>

fun held_loop ::
  "nat \<Rightarrow> finality_env \<Rightarrow> block_tree \<Rightarrow> finality_state \<Rightarrow> int \<Rightarrow> block_ptr option \<Rightarrow> int \<Rightarrow> int" where
  "held_loop 0 Q T F now f held_floor = held_floor"
| "held_loop (Suc n) Q T F now f held_floor =
     (case f of None \<Rightarrow> held_floor
      | Some p \<Rightarrow>
         (case fmlookup T p of None \<Rightarrow> held_floor
          | Some e \<Rightarrow>
              if e_nHeight e > 0 \<and> e_nHeight e > g_pos_immediate_final_height F
              then held_loop n Q T F now (e_pprev e) (if PosHeldBy Q T F now p e \<noteq> [] then e_nHeight e else held_floor)
              else held_floor))"

definition held_floor_at :: "finality_env \<Rightarrow> block_tree \<Rightarrow> finality_state \<Rightarrow> int \<Rightarrow> block_ptr \<Rightarrow> int" where
  "held_floor_at Q T F now tip =
     (if g_pos_finality_delay_ms Q > 0 then held_loop 200 Q T F now (Some tip) INT_MAX else INT_MAX)"

text \<open>What a pass reads while it walks: the clock, the lowest held height, and the block final before.\<close>

record pass =
  now_ms :: int
  pass_held_floor :: int
  old_final :: "block_ptr option"
  load_window_open :: bool

text \<open>Whether \<open>f\<close> is still observed.\<close>

definition in_window :: "finality_env \<Rightarrow> finality_state \<Rightarrow> pass \<Rightarrow> block_ptr \<Rightarrow> bool" where
  "in_window Q F s f =
     (case fmlookup (g_pos_quorum_first_active F) f of None \<Rightarrow> load_window_open s
      | Some (h, t) \<Rightarrow> now_ms s - t < g_pos_finality_delay_ms Q)"

definition at_or_below_final :: "block_tree \<Rightarrow> pass \<Rightarrow> block_ptr \<Rightarrow> BlockEntry \<Rightarrow> bool" where
  "at_or_below_final T s f e =
     (case old_final s of None \<Rightarrow> False
      | Some p \<Rightarrow> (case fmlookup T p of None \<Rightarrow> False
          | Some ep \<Rightarrow> e_nHeight e \<le> e_nHeight ep \<and> GetAncestor T p (e_nHeight e) = Some f))"

definition floor_final :: "block_tree \<Rightarrow> finality_state \<Rightarrow> block_ptr option" where
  "floor_final T F =
     (if g_pos_final_floor_final_height F \<ge> 0 \<and> fmlookup T (g_pos_final_floor_final_hash F) \<noteq> None
      then Some (g_pos_final_floor_final_hash F) else None)"

text \<open>The walk from the tip down: the block it finalizes, if any, and the lowest certified block it passed
  over. \<open>F\<close> is the state after the epoch test, so that a floor laid down under other answers is gone.\<close>

fun final_walk ::
  "nat \<Rightarrow> finality_env \<Rightarrow> block_tree \<Rightarrow> finality_state \<Rightarrow> pass \<Rightarrow> block_ptr option \<Rightarrow> bool \<Rightarrow> block_ptr option
   \<Rightarrow> block_ptr option \<times> block_ptr option" where
  "final_walk 0 Q T F s f settled lowest_pending = (None, lowest_pending)"
| "final_walk (Suc n) Q T F s f settled lowest_pending =
     (case f of None \<Rightarrow> (None, lowest_pending)
      | Some p \<Rightarrow>
         (case fmlookup T p of None \<Rightarrow> (None, lowest_pending)
          | Some e \<Rightarrow>
              if e_nHeight e \<le> 0 then (None, lowest_pending)
              else if e_nHeight e = g_pos_final_floor_height F \<and> p = g_pos_final_floor_hash F
              then (floor_final T F, lowest_pending)
              else let settled = (settled \<or> at_or_below_final T s p e)
                in if \<not> PosCarriesQuorum e \<and> Some p \<noteq> old_final s
                   then final_walk n Q T F s (e_pprev e) settled lowest_pending
                   else if \<not> settled \<and> g_pos_finality_delay_ms Q > 0 \<and>
                           (in_window Q F s p \<or> e_nHeight e \<ge> pass_held_floor s)
                   then if in_window Q F s p \<and> fmlookup (g_pos_quorum_first_active F) p = None \<and> old_final s = None
                        then (None, Some p)
                        else final_walk n Q T F s (e_pprev e) settled (Some p)
                   else (Some p, lowest_pending)))"

declare final_walk.simps [simp del]

definition pass_at :: "finality_env \<Rightarrow> block_tree \<Rightarrow> int \<Rightarrow> block_ptr \<Rightarrow> finality_state \<Rightarrow> pass" where
  "pass_at Q T now tip F =
     \<lparr>now_ms = now, pass_held_floor = held_floor_at Q T F now tip,
      old_final = (if g_pos_immediate_final_height F \<ge> 0 \<and> fmlookup T (g_pos_immediate_final_hash F) \<noteq> None
                   then Some (g_pos_immediate_final_hash F) else None),
      load_window_open = (g_pos_load_ms F > 0 \<and> now - g_pos_load_ms F < g_pos_finality_delay_ms Q)\<rparr>"

definition drop_stale_floor :: "finality_state \<Rightarrow> finality_state" where
  "drop_stale_floor F =
     (if g_pos_cert_epoch F \<noteq> g_pos_final_floor_epoch F then F\<lparr>g_pos_final_floor_height := - 1\<rparr> else F)"

definition set_final :: "block_tree \<Rightarrow> block_ptr option \<Rightarrow> finality_state \<Rightarrow> finality_state" where
  "set_final T p F =
     (case p of None \<Rightarrow> F\<lparr>g_pos_immediate_final_height := - 1\<rparr>
      | Some p \<Rightarrow> F\<lparr>g_pos_immediate_final_height := e_nHeight (the (fmlookup T p)), g_pos_immediate_final_hash := p\<rparr>)"

definition set_floor :: "block_tree \<Rightarrow> block_ptr option \<Rightarrow> finality_state \<Rightarrow> finality_state" where
  "set_floor T b F =
     (case b of None \<Rightarrow> F
      | Some p \<Rightarrow> F\<lparr>g_pos_final_floor_height := e_nHeight (the (fmlookup T p)), g_pos_final_floor_hash := p,
           g_pos_final_floor_epoch := g_pos_cert_epoch F,
           g_pos_final_floor_final_height := g_pos_immediate_final_height F,
           g_pos_final_floor_final_hash := g_pos_immediate_final_hash F\<rparr>)"

definition prune_windows :: "finality_state \<Rightarrow> finality_state" where
  "prune_windows F =
     F\<lparr>g_pos_quorum_first_active :=
         fmfilter (\<lambda>p. \<forall>w\<in>set_option (fmlookup (g_pos_quorum_first_active F) p). fst w > g_pos_immediate_final_height F)
           (g_pos_quorum_first_active F)\<rparr>"

definition RecomputePosImmediateFinality ::
  "finality_env \<Rightarrow> block_tree \<Rightarrow> int \<Rightarrow> int \<Rightarrow> block_ptr \<Rightarrow> finality_state \<Rightarrow> finality_state" where
  "RecomputePosImmediateFinality Q T now now_s tip F =
     (let old_final_height = g_pos_immediate_final_height F;
          s = pass_at Q T now tip F;
          F = drop_stale_floor F;
          (final, lowest_pending) =
            final_walk (nat (e_nHeight (the (fmlookup T tip))) + 1) Q T F s (Some tip) False None;
          F = set_final T final F;
          F = set_floor T (case lowest_pending of Some p \<Rightarrow> e_pprev (the (fmlookup T p)) | None \<Rightarrow> Some tip) F;
          F = prune_windows F
      in if g_pos_immediate_final_height F > old_final_height then PosStampFinalAdvanceNow now_s F else F)"

text \<open>At startup; \<open>stored\<close> is what the database holds.\<close>

definition PosRestoreImmediateFinality ::
  "rules_env \<Rightarrow> finality_env \<Rightarrow> block_tree \<Rightarrow> uint256 option \<Rightarrow> int \<Rightarrow> int \<Rightarrow> block_ptr option \<Rightarrow> finality_state \<Rightarrow> finality_state" where
  "PosRestoreImmediateFinality G Q T stored now now_s tip F =
     (if \<not> g_con_pos G then F
      else let restored = (case stored of None \<Rightarrow> None
                           | Some h \<Rightarrow> if h = uint256_zero \<or> fmlookup T h = None then None else Some h);
               F = (case restored of
                      None \<Rightarrow> F\<lparr>g_pos_immediate_final_height := - 1, g_pos_immediate_final_hash := uint256_zero\<rparr>
                    | Some h \<Rightarrow> F\<lparr>g_pos_immediate_final_height := e_nHeight (the (fmlookup T h)), g_pos_immediate_final_hash := h\<rparr>);
               F = F\<lparr>g_pos_final_floor_height := - 1, g_pos_load_ms := now\<rparr>
           in case tip of None \<Rightarrow> F | Some t \<Rightarrow> RecomputePosImmediateFinality Q T now now_s t F)"

definition PosRefreshImmediateFinality ::
  "rules_env \<Rightarrow> finality_env \<Rightarrow> block_tree \<Rightarrow> int \<Rightarrow> int \<Rightarrow> block_ptr option \<Rightarrow> finality_state \<Rightarrow> finality_state" where
  "PosRefreshImmediateFinality G Q T now now_s tip F =
     (if \<not> g_con_pos G then F
      else case tip of None \<Rightarrow> F
        | Some t \<Rightarrow>
            let F = RecomputePosImmediateFinality Q T now now_s t F
            in F\<lparr>g_pos_competing_certs := fmfilter (\<lambda>h. \<not> h + 100 < e_nHeight (the (fmlookup T t))) (g_pos_competing_certs F)\<rparr>)"

fun held_by_loop :: "nat \<Rightarrow> finality_env \<Rightarrow> block_tree \<Rightarrow> finality_state \<Rightarrow> int \<Rightarrow> block_ptr option \<Rightarrow> (int \<times> uint256) list" where
  "held_by_loop 0 Q T F now f = []"
| "held_by_loop (Suc n) Q T F now f =
     (case f of None \<Rightarrow> []
      | Some p \<Rightarrow>
         (case fmlookup T p of None \<Rightarrow> []
          | Some e \<Rightarrow>
              if e_nHeight e > g_pos_immediate_final_height F
              then map (Pair (e_nHeight e)) (PosHeldBy Q T F now p e) @ held_by_loop n Q T F now (e_pprev e) else []))"

definition PosGetFinalityInfo ::
  "finality_env \<Rightarrow> block_tree \<Rightarrow> int \<Rightarrow> CChain \<Rightarrow> finality_state \<Rightarrow> int \<times> uint256 \<times> (int \<times> uint256) list" where
  "PosGetFinalityInfo Q T now C F =
     (g_pos_immediate_final_height F, g_pos_immediate_final_hash F, held_by_loop (length C) Q T F now (Chain_Tip C))"

text \<open>\<open>UpdateTip\<close>, its part on finality: the pass, then a release that has been used is cleared, and one
  whose own branch has been finalized further is withdrawn.\<close>

definition UpdateTip_finality ::
  "rules_env \<Rightarrow> finality_env \<Rightarrow> block_tree \<Rightarrow> int \<Rightarrow> int \<Rightarrow> block_ptr \<Rightarrow> finality_state \<Rightarrow> finality_state" where
  "UpdateTip_finality G Q T now now_s pindexNew F =
     (if \<not> g_con_pos G then F
      else let F = RecomputePosImmediateFinality Q T now now_s pindexNew F;
               F = (if on_released_branch T F pindexNew then clear_release F else F)
           in if g_pos_reconcile_release_height F \<ge> 0 \<and>
                 g_pos_immediate_final_height F > g_pos_reconcile_release_final_height F
              then PosRevokeReconcileRelease F else F)"

section \<open>The gate and the choice of a chain\<close>

definition PosFinalityGateRefuses :: "rules_env \<Rightarrow> block_tree \<Rightarrow> CChain \<Rightarrow> finality_state \<Rightarrow> block_ptr \<Rightarrow> bool" where
  "PosFinalityGateRefuses G T C F p =
     (if \<not> g_con_pos G then False
      else if g_con_bitcoin_anchor G \<and> \<not> g_validate_anchor G then False
      else if g_pos_immediate_final_height F < 0 then False
      else if Chain_Contains T C p then False
      else case fmlookup T (g_pos_immediate_final_hash F) of
          None \<Rightarrow> False
        | Some pf \<Rightarrow>
            if BlockFailed pf then False
            else if e_nHeight (the (fmlookup T p)) > g_pos_immediate_final_height F \<and>
                    GetAncestor T p (g_pos_immediate_final_height F) = Some (g_pos_immediate_final_hash F) then False
            else if on_released_branch T F p then False
            else True)"

record activation =
  a_index :: block_tree
  a_candidates :: "block_ptr list"
  m_best_invalid :: "block_ptr option"
  m_blocks_unlinked :: "(block_ptr option \<times> block_ptr) list"

text \<open>The blocks that a walk from \<open>p\<close> down to the active chain visits.\<close>

fun off_chain_loop :: "nat \<Rightarrow> block_tree \<Rightarrow> CChain \<Rightarrow> block_ptr option \<Rightarrow> block_ptr list" where
  "off_chain_loop 0 T C p = []"
| "off_chain_loop (Suc n) T C p =
     (case p of None \<Rightarrow> []
      | Some q \<Rightarrow> if Chain_Contains T C q then []
          else q # (case fmlookup T q of None \<Rightarrow> [] | Some e \<Rightarrow> off_chain_loop n T C (e_pprev e)))"

definition off_chain :: "block_tree \<Rightarrow> CChain \<Rightarrow> block_ptr \<Rightarrow> block_ptr list" where
  "off_chain T C p = off_chain_loop (nat (e_nHeight (the (fmlookup T p))) + 1) T C (Some p)"

definition erase_all :: "block_ptr list \<Rightarrow> block_ptr list \<Rightarrow> block_ptr list" where
  "erase_all ps cands = filter (\<lambda>p. p \<notin> set ps) cands"

text \<open>A block of the branch can be connected, cannot be, or breaks the assertion that bodies of
  candidates have been downloaded.\<close>

datatype branch_test = Usable | Unusable | Assertion

definition test_block :: "block_tree \<Rightarrow> block_ptr \<Rightarrow> branch_test" where
  "test_block T q =
     (let e = the (fmlookup T q)
      in if \<not> HaveTxsDownloaded e \<and> e_nHeight e \<noteq> 0 then Assertion
         else if BlockFailed e \<or> e_nStatus e AND BLOCK_HAVE_DATA = 0 then Unusable else Usable)"

text \<open>A branch with an unusable block \<open>q\<close>: all that is above it leaves the candidates, marked as failed
  or waiting for the missing body.\<close>

definition drop_branch :: "block_ptr \<Rightarrow> block_ptr list \<Rightarrow> block_ptr \<Rightarrow> activation \<Rightarrow> activation" where
  "drop_branch p branch q A =
     (let T = a_index A; above = takeWhile (\<lambda>x. x \<noteq> q) branch;
          fFailedChain = BlockFailed (the (fmlookup T q));
          work = (\<lambda>x. e_nChainWork (the (fmlookup T x)));
          best = (if fFailedChain \<and> (case m_best_invalid A of None \<Rightarrow> True | Some b \<Rightarrow> work p > work b)
                  then Some p else m_best_invalid A);
          T' = (if fFailedChain
                then fold (\<lambda>x T. let e = the (fmlookup T x) in fmupd x (e\<lparr>e_nStatus := e_nStatus e OR BLOCK_FAILED_CHILD\<rparr>) T) above T
                else T);
          unlinked = (if fFailedChain then m_blocks_unlinked A
                      else m_blocks_unlinked A @ map (\<lambda>x. (e_pprev (the (fmlookup T x)), x)) above)
      in A\<lparr>a_index := T', a_candidates := erase_all (above @ [q]) (a_candidates A),
           m_best_invalid := best, m_blocks_unlinked := unlinked\<rparr>)"

lemma best_candidate_in: "best_candidate worse xs = Some y \<Longrightarrow> y \<in> set xs"
  by (induction xs arbitrary: y) (auto split: option.splits if_splits)

lemma erase_all_less:
  assumes "p \<in> set ps" "p \<in> set cands"
  shows "length (erase_all ps cands) < length cands"
  unfolding erase_all_def using assms by (intro length_filter_less) auto

lemma off_chain_head: "\<not> Chain_Contains T C p \<Longrightarrow> p \<in> set (off_chain T C p)"
  by (simp add: off_chain_def)

lemma off_chain_starts: "off_chain T C p = [] \<or> hd (off_chain T C p) = p"
  by (simp add: off_chain_def)

lemma drop_branch_less:
  assumes "p \<in> set (a_candidates A)" "q \<in> set (off_chain T C p)"
  shows "length (a_candidates (drop_branch p (off_chain T C p) q A)) < length (a_candidates A)"
proof -
  have "p \<in> set (takeWhile (\<lambda>x. x \<noteq> q) (off_chain T C p) @ [q])"
    using assms(2) off_chain_starts [of T C p] by (cases "off_chain T C p") auto
  from erase_all_less [OF this assms(1)] show ?thesis by (simp add: drop_branch_def Let_def)
qed

text \<open>The loop ends because each round takes the block it tried out of the candidates. The outer result
  is \<open>None\<close> where the assertion fails.\<close>

function FindMostWorkChain ::
  "rules_env \<Rightarrow> (block_ptr \<Rightarrow> nat) \<Rightarrow> CChain \<Rightarrow> finality_state \<Rightarrow> activation \<Rightarrow> (block_ptr option \<times> activation) option" where
  "FindMostWorkChain G addr C F A =
     (case best_candidate (WorkComparator (g_con_pos G) addr (a_index A)) (a_candidates A) of
        None \<Rightarrow> Some (None, A)
      | Some p \<Rightarrow>
          if PosFinalityGateRefuses G (a_index A) C F p
          then FindMostWorkChain G addr C F (A\<lparr>a_candidates := erase_all (off_chain (a_index A) C p) (a_candidates A)\<rparr>)
          else case find (\<lambda>q. test_block (a_index A) q \<noteq> Usable) (off_chain (a_index A) C p) of
              None \<Rightarrow> Some (Some p, A)
            | Some q \<Rightarrow>
                if test_block (a_index A) q = Assertion then None
                else FindMostWorkChain G addr C F (drop_branch p (off_chain (a_index A) C p) q A))"
  by pat_completeness auto
termination
proof (relation "measure (\<lambda>(G, addr, C, F, A). length (a_candidates A))", goal_cases)
  case (2 G addr C F A p)
  then have "\<not> Chain_Contains (a_index A) C p" by (auto simp: PosFinalityGateRefuses_def split: if_splits)
  then show ?case using erase_all_less [OF off_chain_head best_candidate_in [OF 2(1)]] by simp
next
  case (3 G addr C F A p q)
  then have "q \<in> set (off_chain (a_index A) C p)" by (auto simp: find_Some_iff)
  then show ?case using drop_branch_less [OF best_candidate_in [OF 3(1)]] by simp
qed simp

declare FindMostWorkChain.simps [simp del]

definition PruneBlockIndexCandidates :: "rules_env \<Rightarrow> (block_ptr \<Rightarrow> nat) \<Rightarrow> block_tree \<Rightarrow> block_ptr \<Rightarrow> block_ptr list \<Rightarrow> block_ptr list" where
  "PruneBlockIndexCandidates G addr T tip cands = filter (\<lambda>p. \<not> WorkComparator (g_con_pos G) addr T p tip) cands"

abbreviation BLOCK_VALID_TRANSACTIONS :: u32 where "BLOCK_VALID_TRANSACTIONS \<equiv> 3"

definition Index_IsValid :: "u32 \<Rightarrow> BlockEntry \<Rightarrow> bool" where
  "Index_IsValid nUpTo e \<longleftrightarrow> \<not> BlockFailed e \<and> e_nStatus e AND BLOCK_VALID_MASK \<ge> nUpTo"

definition ReaddBlockIndexCandidates ::
  "rules_env \<Rightarrow> (block_ptr \<Rightarrow> nat) \<Rightarrow> block_tree \<Rightarrow> CChain \<Rightarrow> block_ptr list \<Rightarrow> block_ptr list" where
  "ReaddBlockIndexCandidates G addr T C cands =
     fold (\<lambda>(p, e) cands.
             if Index_IsValid BLOCK_VALID_TRANSACTIONS e \<and> HaveTxsDownloaded e \<and>
                (case Chain_Tip C of None \<Rightarrow> True | Some t \<Rightarrow> WorkComparator (g_con_pos G) addr T t p)
             then List.insert p cands else cands)
       (fm_entries T) cands"

section \<open>Ancestors\<close>

definition ancestor_of :: "block_tree \<Rightarrow> block_ptr \<Rightarrow> block_ptr \<Rightarrow> BlockEntry \<Rightarrow> bool" where
  "ancestor_of T p g eg \<longleftrightarrow> fmlookup T g = Some eg \<and> GetAncestor T p (e_nHeight eg) = Some g"

lemma ancestor_self: "tree_wf T \<Longrightarrow> fmlookup T p = Some e \<Longrightarrow> ancestor_of T p p e"
  by (simp add: ancestor_of_def GetAncestor_self)

lemma ancestor_le: "ancestor_of T p g eg \<Longrightarrow> fmlookup T p = Some e \<Longrightarrow> e_nHeight eg \<le> e_nHeight e"
  using GetAncestor_bounds [of T p "e_nHeight eg" g] by (auto simp: ancestor_of_def)

lemma ancestor_trans:
  assumes "tree_wf T" "ancestor_of T p q eq" "ancestor_of T q g eg"
  shows "ancestor_of T p g eg"
  using assms GetAncestor_trans [OF assms(1), of p "e_nHeight eq" q "e_nHeight eg"] ancestor_le [OF assms(3)]
  by (auto simp: ancestor_of_def)

lemma ancestor_parent:
  assumes "tree_wf T" "fmlookup T p = Some e" "e_pprev e = Some q"
  shows "\<exists>eq. ancestor_of T p q eq \<and> e_nHeight e = e_nHeight eq + 1"
proof -
  obtain eq where eq: "fmlookup T q = Some eq" "e_nHeight e = e_nHeight eq + 1" using tree_wf_pprev(3) [OF assms] by blast
  then show ?thesis
    using GetAncestor_pprev [OF assms, of "e_nHeight eq"] GetAncestor_self [OF assms(1) eq(1)] by (auto simp: ancestor_of_def)
qed

lemma ancestor_cases:
  assumes "tree_wf T" "fmlookup T p = Some e" "ancestor_of T p g eg"
  obtains (self) "g = p" "eg = e"
  | (below) q eq where "e_pprev e = Some q" "fmlookup T q = Some eq" "e_nHeight e = e_nHeight eq + 1" "ancestor_of T q g eg"
      "e_nHeight eg < e_nHeight e"
proof (cases "e_nHeight eg = e_nHeight e")
  case True
  then have "g = p" using assms GetAncestor_self [OF assms(1,2)] by (simp add: ancestor_of_def)
  then show thesis using assms that(1) by (simp add: ancestor_of_def)
next
  case False
  then have less: "e_nHeight eg < e_nHeight e" using ancestor_le [OF assms(3,2)] by simp
  have "0 \<le> e_nHeight eg" using assms(1,3) tree_wf_pprev(1) by (auto simp: ancestor_of_def)
  then obtain q where q: "e_pprev e = Some q" using less tree_wf_pprev(2) [OF assms(1,2)] by (cases "e_pprev e") auto
  then obtain eq where eq: "fmlookup T q = Some eq" "e_nHeight e = e_nHeight eq + 1"
    using tree_wf_pprev(3) [OF assms(1,2) q] by blast
  have "ancestor_of T q g eg" using assms(3) GetAncestor_pprev [OF assms(1,2) q less] by (simp add: ancestor_of_def)
  then show thesis using that(2) q eq less by blast
qed

lemma ancestor_unique_height:
  "ancestor_of T p g eg \<Longrightarrow> ancestor_of T p g' eg' \<Longrightarrow> e_nHeight eg = e_nHeight eg' \<Longrightarrow> g = g'"
  by (simp add: ancestor_of_def)

text \<open>Two ancestors of one block lie on one line.\<close>

lemma ancestor_between:
  assumes "tree_wf T" "ancestor_of T p q eq" "ancestor_of T p g eg" "e_nHeight eg \<le> e_nHeight eq"
  shows "ancestor_of T q g eg"
  using assms GetAncestor_trans [OF assms(1), of p "e_nHeight eq" q "e_nHeight eg"] by (simp add: ancestor_of_def)

section \<open>What a walk finds\<close>

text \<open>The blocks that may be final: certified (or final already), and either at or below the final block,
  or observed for the whole window with no certificate holding a block at or below them.\<close>

definition may_be_final :: "finality_env \<Rightarrow> block_tree \<Rightarrow> finality_state \<Rightarrow> pass \<Rightarrow> block_ptr \<Rightarrow> BlockEntry \<Rightarrow> bool" where
  "may_be_final Q T F s p e \<longleftrightarrow> 0 < e_nHeight e \<and> (PosCarriesQuorum e \<or> Some p = old_final s) \<and>
     (at_or_below_final T s p e \<or> g_pos_finality_delay_ms Q \<le> 0 \<or> \<not> in_window Q F s p \<and> e_nHeight e < pass_held_floor s)"

lemma at_or_below_parent:
  assumes "tree_wf T" "at_or_below_final T s p e" "fmlookup T p = Some e" "e_pprev e = Some q" "fmlookup T q = Some eq"
  shows "at_or_below_final T s q eq"
proof -
  obtain o' ep where o': "old_final s = Some o'" "fmlookup T o' = Some ep" "ancestor_of T o' p e"
    using assms(2,3) by (auto simp: at_or_below_final_def ancestor_of_def split: option.splits)
  obtain eq' where "ancestor_of T p q eq'" using ancestor_parent [OF assms(1,3,4)] by blast
  then have "ancestor_of T o' q eq" using ancestor_trans [OF assms(1) o'(3)] assms(5) by (auto simp: ancestor_of_def)
  then show ?thesis using o' ancestor_le [of T o' q eq ep] by (simp add: at_or_below_final_def ancestor_of_def)
qed

text \<open>One step of the walk, case by case.\<close>

definition stops_at_floor :: "finality_state \<Rightarrow> block_ptr \<Rightarrow> BlockEntry \<Rightarrow> bool" where
  "stops_at_floor F p e \<longleftrightarrow> e_nHeight e = g_pos_final_floor_height F \<and> p = g_pos_final_floor_hash F"

definition no_early_stop :: "pass \<Rightarrow> bool" where
  "no_early_stop s \<longleftrightarrow> old_final s \<noteq> None \<or> \<not> load_window_open s"

definition stops_early :: "finality_env \<Rightarrow> finality_state \<Rightarrow> pass \<Rightarrow> block_ptr \<Rightarrow> bool" where
  "stops_early Q F s p \<longleftrightarrow> in_window Q F s p \<and> fmlookup (g_pos_quorum_first_active F) p = None \<and> old_final s = None"

lemma stops_early_open: "stops_early Q F s p \<Longrightarrow> \<not> no_early_stop s"
  by (auto simp: stops_early_def no_early_stop_def in_window_def)

lemma final_walk_step:
  assumes "fmlookup T p = Some e" "0 < e_nHeight e" "settled \<longrightarrow> at_or_below_final T s p e"
  shows "final_walk (Suc n) Q T F s (Some p) settled lp =
     (if stops_at_floor F p e then (floor_final T F, lp)
      else if may_be_final Q T F s p e then (Some p, lp)
      else if PosCarriesQuorum e \<or> Some p = old_final s
      then if stops_early Q F s p then (None, Some p)
           else final_walk n Q T F s (e_pprev e) (at_or_below_final T s p e) (Some p)
      else final_walk n Q T F s (e_pprev e) (at_or_below_final T s p e) lp)"
  using assms
  by (cases "at_or_below_final T s p e"; cases "PosCarriesQuorum e \<or> Some p = old_final s")
     (auto simp: final_walk.simps stops_early_def Let_def stops_at_floor_def may_be_final_def not_le not_less)

lemma walk_below:
  assumes "tree_wf T" "fmlookup T p = Some e" "0 < e_nHeight e" "e_nHeight e < int (Suc n)"
  obtains q eq where "e_pprev e = Some q" "fmlookup T q = Some eq" "e_nHeight eq < int n" "0 \<le> e_nHeight eq"
    "at_or_below_final T s p e \<longrightarrow> at_or_below_final T s q eq" "ancestor_of T p q eq"
proof -
  obtain q where q: "e_pprev e = Some q" using assms(3) tree_wf_pprev(2) [OF assms(1,2)] by (cases "e_pprev e") auto
  obtain eq where eq: "ancestor_of T p q eq" "e_nHeight e = e_nHeight eq + 1" using ancestor_parent [OF assms(1,2) q] by blast
  then have l: "fmlookup T q = Some eq" by (simp add: ancestor_of_def)
  show thesis
    using that [OF q l] eq assms(4) tree_wf_pprev(1) [OF assms(1) l] at_or_below_parent [OF assms(1) _ assms(2) q l] by simp
qed

text \<open>A walk from \<open>p\<close> that starts with fuel for every block below \<open>p\<close>.\<close>

definition walk_ok :: "block_tree \<Rightarrow> pass \<Rightarrow> nat \<Rightarrow> block_ptr \<Rightarrow> BlockEntry \<Rightarrow> bool \<Rightarrow> bool" where
  "walk_ok T s n p e settled \<longleftrightarrow> tree_wf T \<and> fmlookup T p = Some e \<and> e_nHeight e < int n \<and>
     (settled \<longrightarrow> at_or_below_final T s p e)"

lemma walk_ok_induct [consumes 1, case_names genesis step]:
  assumes "walk_ok T s n p e settled"
    and "\<And>n p e settled lp. walk_ok T s n p e settled \<Longrightarrow> e_nHeight e = 0 \<Longrightarrow> P n p e settled lp"
    and "\<And>n p e settled lp q eq. walk_ok T s (Suc n) p e settled \<Longrightarrow> 0 < e_nHeight e \<Longrightarrow> e_pprev e = Some q \<Longrightarrow>
      ancestor_of T p q eq \<Longrightarrow> walk_ok T s n q eq (at_or_below_final T s p e) \<Longrightarrow>
      (\<And>lp. P n q eq (at_or_below_final T s p e) lp) \<Longrightarrow> P (Suc n) p e settled lp"
  shows "P n p e settled lp"
  using assms(1)
proof (induction n arbitrary: p e settled lp)
  case 0
  then show ?case using tree_wf_pprev(1) [of T p e] by (simp add: walk_ok_def)
next
  case (Suc n)
  note w = Suc.prems [unfolded walk_ok_def]
  show ?case
  proof (cases "e_nHeight e = 0")
    case True
    then show ?thesis using assms(2) Suc.prems by blast
  next
    case False
    then have h: "0 < e_nHeight e" using w tree_wf_pprev(1) [of T p e] by simp
    obtain q eq where q: "e_pprev e = Some q" "fmlookup T q = Some eq" "e_nHeight eq < int n"
        "at_or_below_final T s p e \<longrightarrow> at_or_below_final T s q eq" "ancestor_of T p q eq"
      using walk_below [of T p e n s] w h by blast
    have "walk_ok T s n q eq (at_or_below_final T s p e)" using w q by (simp add: walk_ok_def)
    then show ?thesis using assms(3) [OF Suc.prems h q(1,5)] Suc.IH by blast
  qed
qed

lemma final_walk_genesis:
  assumes "walk_ok T s n p e settled" "e_nHeight e = 0"
  shows "final_walk n Q T F s (Some p) settled lp = (None, lp)"
  using assms by (cases n) (simp_all add: walk_ok_def final_walk.simps)

lemma final_walk_cases:
  assumes "walk_ok T s (Suc n) p e settled" "0 < e_nHeight e" "e_pprev e = Some q"
  obtains (floor) "stops_at_floor F p e" "final_walk (Suc n) Q T F s (Some p) settled lp = (floor_final T F, lp)"
  | (final) "\<not> stops_at_floor F p e" "may_be_final Q T F s p e" "final_walk (Suc n) Q T F s (Some p) settled lp = (Some p, lp)"
  | (early) "\<not> no_early_stop s" "final_walk (Suc n) Q T F s (Some p) settled lp = (None, Some p)"
  | (pending) "\<not> stops_at_floor F p e" "\<not> may_be_final Q T F s p e"
      "final_walk (Suc n) Q T F s (Some p) settled lp = final_walk n Q T F s (Some q) (at_or_below_final T s p e) (Some p)"
  | (skipped) "\<not> stops_at_floor F p e" "\<not> may_be_final Q T F s p e" "\<not> PosCarriesQuorum e"
      "final_walk (Suc n) Q T F s (Some p) settled lp = final_walk n Q T F s (Some q) (at_or_below_final T s p e) lp"
proof -
  have w: "fmlookup T p = Some e" "settled \<longrightarrow> at_or_below_final T s p e" using assms(1) by (simp_all add: walk_ok_def)
  note eqn = final_walk_step [OF w(1) assms(2) w(2), of n Q F lp, unfolded assms(3)]
  show thesis using that eqn stops_early_open by (cases "PosCarriesQuorum e \<or> Some p = old_final s") (metis, metis)
qed

lemma final_walk_sound:
  assumes "walk_ok T s n p e settled" "fst (final_walk n Q T F s (Some p) settled lp) = Some q"
  shows "0 < g_pos_final_floor_height F \<and> floor_final T F = Some q \<or>
     (\<exists>eq. ancestor_of T p q eq \<and> may_be_final Q T F s q eq)"
  using assms
proof (induction n p e settled lp rule: walk_ok_induct)
  case (genesis n p e settled lp)
  then show ?case by (simp add: final_walk_genesis)
next
  case (step n p e settled lp q' eq')
  have w: "tree_wf T" "fmlookup T p = Some e" using step(1) by (simp_all add: walk_ok_def)
  from step(1-3) show ?case
  proof (cases rule: final_walk_cases [where Q = Q and F = F and lp = lp])
    case floor
    then show ?thesis using step.prems step(2) by (simp add: stops_at_floor_def)
  next
    case final
    then show ?thesis using step.prems ancestor_self [OF w] by auto
  next
    case early
    then show ?thesis using step.prems by simp
  next
    case pending
    then show ?thesis using step.IH [of "Some p"] step.prems ancestor_trans [OF w(1) step(4)] by metis
  next
    case skipped
    then show ?thesis using step.IH [of lp] step.prems ancestor_trans [OF w(1) step(4)] by metis
  qed
qed

lemma final_walk_reaches:
  assumes "walk_ok T s n p e settled" "ancestor_of T p g eg" "may_be_final Q T F s g eg" and early: "no_early_stop s"
    and floor: "0 < g_pos_final_floor_height F \<Longrightarrow> ancestor_of T (g_pos_final_floor_hash F) g eg \<Longrightarrow>
      \<exists>q eq. floor_final T F = Some q \<and> fmlookup T q = Some eq \<and> e_nHeight eg \<le> e_nHeight eq"
  shows "\<exists>q eq. fst (final_walk n Q T F s (Some p) settled lp) = Some q \<and> fmlookup T q = Some eq \<and> e_nHeight eg \<le> e_nHeight eq"
  using assms(1,2)
proof (induction n p e settled lp rule: walk_ok_induct)
  case (genesis n p e settled lp)
  then show ?case using ancestor_le [OF genesis(3)] assms(3) by (fastforce simp: walk_ok_def may_be_final_def)
next
  case (step n p e settled lp q' eq')
  have w: "tree_wf T" "fmlookup T p = Some e" using step(1) by (simp_all add: walk_ok_def)
  have below: "ancestor_of T q' g eg" if "\<not> may_be_final Q T F s p e"
    using w step.prems by (rule ancestor_cases) (use that assms(3) step(3) in auto)
  from step(1-3) show ?case
  proof (cases rule: final_walk_cases [where Q = Q and F = F and lp = lp])
    case floor
    then show ?thesis using floor(1) step(2) step.prems assms(5) by (simp add: stops_at_floor_def)
  next
    case final
    then show ?thesis using ancestor_le [OF step.prems w(2)] w(2) by simp
  qed (use below step.IH assms(4) in auto)
qed

text \<open>The floor of the last pass is sound: its final block is below it, and no certified block lies between
  the two.\<close>

definition floor_clean :: "block_tree \<Rightarrow> finality_state \<Rightarrow> bool" where
  "floor_clean T F \<longleftrightarrow>
     (0 < g_pos_final_floor_height F \<longrightarrow>
        (g_pos_final_floor_final_height F \<ge> 0 \<longrightarrow>
           (\<exists>ef. ancestor_of T (g_pos_final_floor_hash F) (g_pos_final_floor_final_hash F) ef \<and>
              e_nHeight ef = g_pos_final_floor_final_height F)) \<and>
        (\<forall>g eg. ancestor_of T (g_pos_final_floor_hash F) g eg \<longrightarrow> 0 < e_nHeight eg \<longrightarrow> PosCarriesQuorum eg \<longrightarrow>
           e_nHeight eg \<le> g_pos_final_floor_final_height F))"

lemma floor_clean_final:
  assumes "floor_clean T F" "0 < g_pos_final_floor_height F" "floor_final T F = Some q"
  shows "\<exists>eq. ancestor_of T (g_pos_final_floor_hash F) q eq"
  using assms by (auto simp: floor_clean_def floor_final_def split: if_splits)

lemma floor_clean_covers:
  assumes "floor_clean T F" "0 < g_pos_final_floor_height F" "ancestor_of T (g_pos_final_floor_hash F) g eg"
    "0 < e_nHeight eg" "PosCarriesQuorum eg"
  shows "\<exists>q eq. floor_final T F = Some q \<and> fmlookup T q = Some eq \<and> e_nHeight eg \<le> e_nHeight eq"
proof -
  have h: "e_nHeight eg \<le> g_pos_final_floor_final_height F" using assms by (simp add: floor_clean_def)
  then obtain ef where "ancestor_of T (g_pos_final_floor_hash F) (g_pos_final_floor_final_hash F) ef"
      "e_nHeight ef = g_pos_final_floor_final_height F"
    using assms by (auto simp: floor_clean_def)
  then show ?thesis using h assms(4) by (simp add: floor_final_def ancestor_of_def)
qed

lemma final_walk_ancestor:
  assumes "walk_ok T s n p e settled" "floor_clean T F" "fst (final_walk n Q T F s (Some p) settled lp) = Some q"
  shows "\<exists>eq. ancestor_of T p q eq"
  using assms(1,3)
proof (induction n p e settled lp rule: walk_ok_induct)
  case (genesis n p e settled lp)
  then show ?case by (simp add: final_walk_genesis)
next
  case (step n p e settled lp q' eq')
  have w: "tree_wf T" "fmlookup T p = Some e" using step(1) by (simp_all add: walk_ok_def)
  from step(1-3) show ?case
  proof (cases rule: final_walk_cases [where Q = Q and F = F and lp = lp])
    case floor
    then show ?thesis using step.prems step(2) floor_clean_final [OF assms(2)] by (simp add: stops_at_floor_def)
  next
    case final
    then show ?thesis using step.prems ancestor_self [OF w] by auto
  next
    case early
    then show ?thesis using step.prems by simp
  qed (use step.IH step.prems ancestor_trans [OF w(1) step(4)] in metis)+
qed

text \<open>What a walk leaves above its result is at or above the lowest block it passed over.\<close>

lemma final_walk_pending:
  assumes "walk_ok T s n p e settled" "floor_clean T F" "final_walk n Q T F s (Some p) settled lp = (r, lp')"
  shows "lp' = lp \<or> (\<exists>x ex. lp' = Some x \<and> ancestor_of T p x ex \<and> 0 < e_nHeight ex \<and>
     (\<forall>q. r = Some q \<longrightarrow> (\<exists>eq. ancestor_of T x q eq \<and> e_nHeight eq < e_nHeight ex)))"
  using assms(1,3)
proof (induction n p e settled lp rule: walk_ok_induct)
  case (genesis n p e settled lp)
  then show ?case by (simp add: final_walk_genesis)
next
  case (step n p e settled lp q' eq')
  have w: "tree_wf T" "fmlookup T p = Some e" using step(1) by (simp_all add: walk_ok_def)
  have q': "e_nHeight e = e_nHeight eq' + 1" using ancestor_parent [OF w step(3)] step(4) by (auto simp: ancestor_of_def)
  from step(1-3) show ?case
  proof (cases rule: final_walk_cases [where Q = Q and F = F and lp = lp])
    case pending
    then have eqn: "final_walk n Q T F s (Some q') (at_or_below_final T s p e) (Some p) = (r, lp')" using step.prems by simp
    have "\<exists>eq. ancestor_of T p q eq \<and> e_nHeight eq < e_nHeight e" if r: "r = Some q" for q
    proof -
      obtain eq where "ancestor_of T q' q eq" using final_walk_ancestor [OF step(5) assms(2), of Q "Some p" q] eqn r by auto
      then show ?thesis using ancestor_trans [OF w(1) step(4)] ancestor_le [of T q' q eq eq'] step(4) q' by (auto simp: ancestor_of_def)
    qed
    then show ?thesis
      using step.IH [OF eqn] ancestor_self [OF w] step(2) ancestor_trans [OF w(1) step(4)] by blast
  next
    case skipped
    then show ?thesis using step.IH [of lp] step.prems ancestor_trans [OF w(1) step(4)] by simp blast
  next
    case early
    then show ?thesis using step.prems step(2) ancestor_self [OF w] by auto
  qed (use step.prems in auto)
qed

lemma final_walk_passed:
  assumes "walk_ok T s n p e settled" "floor_clean T F" "final_walk n Q T F s (Some p) settled lp = (r, lp')"
    and "ancestor_of T p g eg" "0 < e_nHeight eg" "PosCarriesQuorum eg" "no_early_stop s"
  shows "(\<exists>q eq. r = Some q \<and> fmlookup T q = Some eq \<and> e_nHeight eg \<le> e_nHeight eq) \<or>
     (\<exists>x ex. lp' = Some x \<and> fmlookup T x = Some ex \<and> e_nHeight ex \<le> e_nHeight eg)"
  using assms(1,3,4)
proof (induction n p e settled lp rule: walk_ok_induct)
  case (genesis n p e settled lp)
  then show ?case using ancestor_le [OF genesis(4)] assms(5) by (fastforce simp: walk_ok_def)
next
  case (step n p e settled lp q' eq')
  have w: "tree_wf T" "fmlookup T p = Some e" using step(1) by (simp_all add: walk_ok_def)
  have below: "ancestor_of T q' g eg" if "g = p \<Longrightarrow> False"
    using w step.prems(2) by (rule ancestor_cases) (use that step(3) in auto)
  from step(1-3) show ?case
  proof (cases rule: final_walk_cases [where Q = Q and F = F and lp = lp])
    case floor
    then show ?thesis
      using step.prems step(2) floor_clean_covers [OF assms(2) _ _ assms(5,6)] by (simp add: stops_at_floor_def)
  next
    case final
    then show ?thesis using ancestor_le [OF step.prems(2) w(2)] w(2) step.prems(1) by simp
  next
    case early
    then show ?thesis using assms(7) by simp
  next
    case pending
    then have eqn: "final_walk n Q T F s (Some q') (at_or_below_final T s p e) (Some p) = (r, lp')" using step.prems(1) by simp
    show ?thesis
    proof (cases "g = p")
      case True
      then have "eg = e" using step.prems(2) w(2) by (simp add: ancestor_of_def)
      moreover have "e_nHeight ex \<le> e_nHeight e" if "ancestor_of T q' x ex" for x ex
        using ancestor_le [OF ancestor_trans [OF w(1) step(4) that] w(2)] .
      ultimately show ?thesis
        using final_walk_pending [OF step(5) assms(2) eqn] w(2) by (auto simp: ancestor_of_def)
    qed (use below step.IH [OF eqn] in blast)
  next
    case skipped
    then have "g \<noteq> p" using step.prems(2) w(2) assms(6) by (auto simp: ancestor_of_def)
    then show ?thesis using below step.IH [of lp] skipped step.prems(1) by auto
  qed
qed

lemma final_walk_Suc:
  assumes "fmlookup T p = Some e" "0 < e_nHeight e"
  obtains (stop) r where "final_walk (Suc n) Q T F s (Some p) settled lp = (r, lp)"
  | (early) "final_walk (Suc n) Q T F s (Some p) settled lp = (None, Some p)"
  | (on) st where "final_walk (Suc n) Q T F s (Some p) settled lp = final_walk n Q T F s (e_pprev e) st lp"
  | (pend) st where "final_walk (Suc n) Q T F s (Some p) settled lp = final_walk n Q T F s (e_pprev e) st (Some p)"
proof -
  let ?W = "final_walk (Suc n) Q T F s (Some p) settled lp" and ?st = "settled \<or> at_or_below_final T s p e"
  let ?A = "e_nHeight e = g_pos_final_floor_height F \<and> p = g_pos_final_floor_hash F"
  let ?B = "\<not> PosCarriesQuorum e \<and> Some p \<noteq> old_final s"
  let ?C = "\<not> ?st \<and> g_pos_finality_delay_ms Q > 0 \<and> (in_window Q F s p \<or> e_nHeight e \<ge> pass_held_floor s)"
  let ?D = "in_window Q F s p \<and> fmlookup (g_pos_quorum_first_active F) p = None \<and> old_final s = None"
  have eqn: "?W = (if ?A then (floor_final T F, lp) else if ?B then final_walk n Q T F s (e_pprev e) ?st lp
      else if ?C then if ?D then (None, Some p) else final_walk n Q T F s (e_pprev e) ?st (Some p) else (Some p, lp))"
    using assms by (simp only: final_walk.simps(2) option.case Let_def not_le [symmetric] if_False)
  consider "?A" | "\<not> ?A" "?B" | "\<not> ?A" "\<not> ?B" "?C" "?D" | "\<not> ?A" "\<not> ?B" "?C" "\<not> ?D" | "\<not> ?A" "\<not> ?B" "\<not> ?C" by argo
  then show thesis
  proof cases
    case 1
    show ?thesis by (rule stop [OF eqn [unfolded if_P [OF 1]]])
  next
    case 2
    show ?thesis by (rule on [OF eqn [unfolded if_not_P [OF 2(1)] if_P [OF 2(2)]]])
  next
    case 3
    show ?thesis by (rule early [OF eqn [unfolded if_not_P [OF 3(1)] if_not_P [OF 3(2)] if_P [OF 3(3)] if_P [OF 3(4)]]])
  next
    case 4
    show ?thesis by (rule pend [OF eqn [unfolded if_not_P [OF 4(1)] if_not_P [OF 4(2)] if_P [OF 4(3)] if_not_P [OF 4(4)]]])
  next
    case 5
    show ?thesis by (rule stop [OF eqn [unfolded if_not_P [OF 5(1)] if_not_P [OF 5(2)] if_not_P [OF 5(3)]]])
  qed
qed

lemma final_walk_lowest:
  "snd (final_walk n Q T F s f settled lp) = Some x \<Longrightarrow> lp = Some x \<or> (\<exists>ex. fmlookup T x = Some ex \<and> 0 < e_nHeight ex)"
proof (induction n arbitrary: f settled lp)
  case (Suc n)
  show ?case
  proof (cases "\<exists>p e. f = Some p \<and> fmlookup T p = Some e \<and> 0 < e_nHeight e")
    case True
    then obtain p e where p: "f = Some p" "fmlookup T p = Some e" "0 < e_nHeight e" by blast
    from p(2,3) show ?thesis
      by (cases rule: final_walk_Suc [where n = n and Q = Q and F = F and s = s and settled = settled and lp = lp])
         (use Suc.prems p Suc.IH in fastforce)+
  next
    case False
    then have "final_walk (Suc n) Q T F s f settled lp = (None, lp)"
      by (auto simp: final_walk.simps split: option.splits)
    then show ?thesis using Suc.prems by simp
  qed
qed (simp add: final_walk.simps)

section \<open>Passes\<close>

lemma drop_stale_floor_simps [simp]:
  "g_pos_immediate_final_height (drop_stale_floor F) = g_pos_immediate_final_height F"
  "g_pos_immediate_final_hash (drop_stale_floor F) = g_pos_immediate_final_hash F"
  "g_pos_quorum_first_active (drop_stale_floor F) = g_pos_quorum_first_active F"
  "g_pos_cert_epoch (drop_stale_floor F) = g_pos_cert_epoch F"
  "g_pos_final_floor_hash (drop_stale_floor F) = g_pos_final_floor_hash F"
  "g_pos_final_floor_final_height (drop_stale_floor F) = g_pos_final_floor_final_height F"
  "g_pos_final_floor_final_hash (drop_stale_floor F) = g_pos_final_floor_final_hash F"
  by (simp_all add: drop_stale_floor_def)

lemma in_window_drop [simp]: "in_window Q (drop_stale_floor F) s p = in_window Q F s p"
  by (simp add: in_window_def)

lemma may_be_final_drop [simp]: "may_be_final Q T (drop_stale_floor F) s p e = may_be_final Q T F s p e"
  by (simp add: may_be_final_def)

definition pass_walk :: "finality_env \<Rightarrow> block_tree \<Rightarrow> int \<Rightarrow> block_ptr \<Rightarrow> finality_state \<Rightarrow> block_ptr option \<times> block_ptr option" where
  "pass_walk Q T now tip F =
     final_walk (nat (e_nHeight (the (fmlookup T tip))) + 1) Q T (drop_stale_floor F) (pass_at Q T now tip F) (Some tip) False None"

definition pass_floor :: "block_tree \<Rightarrow> block_ptr \<Rightarrow> block_ptr option \<Rightarrow> block_ptr option" where
  "pass_floor T tip lowest_pending =
     (case lowest_pending of Some p \<Rightarrow> e_pprev (the (fmlookup T p)) | None \<Rightarrow> Some tip)"

lemma Recompute_alt:
  "RecomputePosImmediateFinality Q T now now_s tip F =
     (let w = pass_walk Q T now tip F;
          F' = prune_windows (set_floor T (pass_floor T tip (snd w)) (set_final T (fst w) (drop_stale_floor F)))
      in if g_pos_immediate_final_height F' > g_pos_immediate_final_height F then PosStampFinalAdvanceNow now_s F' else F')"
  by (simp add: RecomputePosImmediateFinality_def pass_walk_def pass_floor_def Let_def split_def)

lemma Recompute_final:
  "g_pos_immediate_final_height (RecomputePosImmediateFinality Q T now now_s tip F) =
     (case fst (pass_walk Q T now tip F) of None \<Rightarrow> - 1 | Some p \<Rightarrow> e_nHeight (the (fmlookup T p)))"
  "fst (pass_walk Q T now tip F) = Some p \<Longrightarrow> g_pos_immediate_final_hash (RecomputePosImmediateFinality Q T now now_s tip F) = p"
  by (auto simp: Recompute_alt Let_def PosStampFinalAdvanceNow_def prune_windows_def set_floor_def set_final_def split: option.splits)

lemma Recompute_floor:
  fixes now_s :: int
  assumes "pass_floor T tip (snd (pass_walk Q T now tip F)) = Some b"
  defines "F' \<equiv> RecomputePosImmediateFinality Q T now now_s tip F"
  shows "g_pos_final_floor_height F' = e_nHeight (the (fmlookup T b))" "g_pos_final_floor_hash F' = b"
    "g_pos_final_floor_epoch F' = g_pos_cert_epoch F'"
    "g_pos_final_floor_final_height F' = g_pos_immediate_final_height F'"
    "g_pos_final_floor_final_hash F' = g_pos_immediate_final_hash F'"
  using assms(1) by (auto simp: F'_def Recompute_alt Let_def PosStampFinalAdvanceNow_def prune_windows_def set_floor_def
    set_final_def split: option.splits)

lemma pass_floor_Some:
  assumes "tree_wf T" "fmlookup T tip = Some et"
  shows "\<exists>b. pass_floor T tip (snd (pass_walk Q T now tip F)) = Some b"
proof (cases "snd (pass_walk Q T now tip F)")
  case (Some x)
  then obtain ex where x: "fmlookup T x = Some ex" "0 < e_nHeight ex"
    using final_walk_lowest unfolding pass_walk_def by fastforce
  then obtain q where "e_pprev ex = Some q" using tree_wf_pprev(2) [OF assms(1) x(1)] by (cases "e_pprev ex") auto
  then show ?thesis using Some x by (simp add: pass_floor_def)
qed (simp add: pass_floor_def)

lemma pass_walk_ok:
  assumes "tree_wf T" "fmlookup T tip = Some et"
  shows "walk_ok T (pass_at Q T now tip F) (nat (e_nHeight (the (fmlookup T tip))) + 1) tip et False"
  using assms tree_wf_pprev(1) [OF assms(1,2)] by (simp add: walk_ok_def)

text \<open>The floor remembers the final block of the pass that laid it down. No other operation moves the final
  block without removing the floor.\<close>

definition floor_is_final :: "finality_state \<Rightarrow> bool" where
  "floor_is_final F \<longleftrightarrow> 0 < g_pos_final_floor_height F \<longrightarrow>
     g_pos_final_floor_final_height F = g_pos_immediate_final_height F \<and>
     g_pos_final_floor_final_hash F = g_pos_immediate_final_hash F"

text \<open>The runs of a node: the finality state through passes over any index and any tip, and through the
  other operations that touch it.\<close>

inductive finality_reach :: "rules_env \<Rightarrow> finality_env \<Rightarrow> finality_state \<Rightarrow> bool" for G Q where
  start: "finality_reach G Q initial_finality"
| restore: "finality_reach G Q F \<Longrightarrow> tree_wf T \<Longrightarrow> (\<And>t. tip = Some t \<Longrightarrow> fmlookup T t \<noteq> None) \<Longrightarrow>
    finality_reach G Q (PosRestoreImmediateFinality G Q T stored now now_s tip F)"
| refresh: "finality_reach G Q F \<Longrightarrow> tree_wf T \<Longrightarrow> (\<And>t. tip = Some t \<Longrightarrow> fmlookup T t \<noteq> None) \<Longrightarrow>
    finality_reach G Q (PosRefreshImmediateFinality G Q T now now_s tip F)"
| tip: "finality_reach G Q F \<Longrightarrow> tree_wf T \<Longrightarrow> fmlookup T t \<noteq> None \<Longrightarrow>
    finality_reach G Q (UpdateTip_finality G Q T now now_s t F)"
| note_cert: "finality_reach G Q F \<Longrightarrow> finality_reach G Q (fst (PosNoteCompetingCertificate now hash height F))"
| note_active: "finality_reach G Q F \<Longrightarrow> finality_reach G Q (PosNoteActiveQuorumBlock G Q T now p F)"
| release: "finality_reach G Q F \<Longrightarrow> finality_reach G Q (PosSetReconcileRelease height hash F)"
| revoke: "finality_reach G Q F \<Longrightarrow> finality_reach G Q (PosStampFinalAdvanceNow now_s (PosRevokeReconcileRelease F))"
| certified: "finality_reach G Q F \<Longrightarrow> finality_reach G Q (F\<lparr>g_pos_cert_epoch := n\<rparr>)"

lemma Recompute_floor_is_final:
  assumes "tree_wf T" "fmlookup T tip \<noteq> None"
  shows "floor_is_final (RecomputePosImmediateFinality Q T now now_s tip F)"
proof -
  obtain b where "pass_floor T tip (snd (pass_walk Q T now tip F)) = Some b" using pass_floor_Some assms by blast
  from Recompute_floor(4,5) [OF this] show ?thesis by (simp add: floor_is_final_def)
qed

lemma floor_is_final_simps [simp]:
  "floor_is_final (clear_release F) = floor_is_final F" "floor_is_final (PosRevokeReconcileRelease F) = floor_is_final F"
  "floor_is_final (PosStampFinalAdvanceNow t F) = floor_is_final F" "floor_is_final (PosSetReconcileRelease h x F) = floor_is_final F"
  "floor_is_final (fst (PosNoteCompetingCertificate t x h F)) = floor_is_final F"
  "floor_is_final (PosNoteActiveQuorumBlock G Q T t p F) = floor_is_final F"
  "floor_is_final (F\<lparr>g_pos_cert_epoch := n\<rparr>) = floor_is_final F"
  "floor_is_final (F\<lparr>g_pos_competing_certs := c\<rparr>) = floor_is_final F"
  by (auto simp: floor_is_final_def clear_release_def PosRevokeReconcileRelease_def PosStampFinalAdvanceNow_def
    PosSetReconcileRelease_def PosNoteCompetingCertificate_def PosNoteActiveQuorumBlock_def Let_def split: option.splits)

lemma floor_is_final_start [simp]: "floor_is_final initial_finality"
  by (simp add: initial_finality_def floor_is_final_def)

lemma reach_floor_is_final: "finality_reach G Q F \<Longrightarrow> floor_is_final F"
proof (induction rule: finality_reach.induct)
  case (restore F T tip stored now now_s)
  then show ?case using Recompute_floor_is_final [of T]
    by (cases tip) (auto simp: PosRestoreImmediateFinality_def Let_def floor_is_final_def)
next
  case (refresh F T tip now now_s)
  then show ?case using Recompute_floor_is_final [of T]
    by (cases tip) (simp_all add: PosRefreshImmediateFinality_def Let_def)
next
  case (tip F T t now now_s)
  then show ?case using Recompute_floor_is_final [of T]
    by (simp add: UpdateTip_finality_def Let_def)
qed simp_all

lemma held_loop_le:
  assumes "tree_wf T" "fmlookup T p = Some e"
  shows "held_loop n Q T F now (Some p) acc = acc \<or> held_loop n Q T F now (Some p) acc \<le> e_nHeight e"
  using assms(2)
proof (induction n arbitrary: p e acc)
  case (Suc n)
  show ?case
  proof (cases "e_pprev e")
    case None
    then show ?thesis using Suc.prems by (cases n) auto
  next
    case (Some q)
    obtain eq where "fmlookup T q = Some eq" "e_nHeight e = e_nHeight eq + 1"
      using tree_wf_pprev(3) [OF assms(1) Suc.prems Some] by blast
    then show ?thesis using Suc.prems Some Suc.IH [of q eq acc] Suc.IH [of q eq "e_nHeight e"] by auto
  qed
qed simp

lemma held_loop_held:
  assumes "tree_wf T" "fmlookup T p = Some e" "ancestor_of T p g eg" "e_nHeight e - e_nHeight eg < int n"
    and "0 < e_nHeight eg" "g_pos_immediate_final_height F < e_nHeight eg" "PosHeldBy Q T F now g eg \<noteq> []"
  shows "held_loop n Q T F now (Some p) acc \<le> e_nHeight eg"
  using assms(2-4)
proof (induction n arbitrary: p e acc)
  case 0
  then show ?case using ancestor_le [OF 0(2,1)] by simp
next
  case (Suc n)
  from assms(1) Suc.prems(1,2) show ?case
  proof (cases rule: ancestor_cases)
    case self
    show ?thesis
    proof (cases "e_pprev e")
      case None
      then show ?thesis using self assms(5-7) Suc.prems(1) by (cases n) auto
    next
      case (Some q)
      obtain eq where "fmlookup T q = Some eq" "e_nHeight e = e_nHeight eq + 1"
        using tree_wf_pprev(3) [OF assms(1) Suc.prems(1) Some] by blast
      then show ?thesis
        using held_loop_le [OF assms(1), of q eq n Q F now "e_nHeight e"] self assms(5-7) Suc.prems(1) Some by auto
    qed
  next
    case (below q eq)
    then show ?thesis using Suc.IH [OF below(2,4)] Suc.prems(1,3) assms(5,6) by simp
  qed
qed

lemma pass_old_final [simp]:
  "fmlookup T (g_pos_immediate_final_hash F) = Some ef \<Longrightarrow> 0 \<le> g_pos_immediate_final_height F \<Longrightarrow>
   old_final (pass_at Q T now tip F) = Some (g_pos_immediate_final_hash F)"
  by (simp add: pass_at_def)

lemma drop_stale_floor_pos: "0 < g_pos_final_floor_height (drop_stale_floor F) \<Longrightarrow> 0 < g_pos_final_floor_height F"
  by (simp add: drop_stale_floor_def split: if_splits)

lemma floor_final_is_old:
  assumes "floor_is_final F" "0 < g_pos_final_floor_height (drop_stale_floor F)"
  shows "floor_final T (drop_stale_floor F) =
     (if g_pos_immediate_final_height F \<ge> 0 \<and> fmlookup T (g_pos_immediate_final_hash F) \<noteq> None
      then Some (g_pos_immediate_final_hash F) else None)"
  using assms drop_stale_floor_pos [OF assms(2)] by (simp add: floor_final_def floor_is_final_def)

text \<open>What a pass finalizes: what was final before, or a block of the chain that may be final.\<close>

lemma pass_walk_sound:
  assumes "floor_is_final F" "tree_wf T" "fmlookup T tip = Some et" "fst (pass_walk Q T now tip F) = Some q"
  shows "q = g_pos_immediate_final_hash F \<or>
     (\<exists>eq. ancestor_of T tip q eq \<and> may_be_final Q T F (pass_at Q T now tip F) q eq)"
  using final_walk_sound [OF pass_walk_ok [OF assms(2,3)] assms(4) [unfolded pass_walk_def]] floor_final_is_old [OF assms(1)]
  by (auto split: if_splits)

lemma pass_walk_keeps:
  assumes "floor_is_final F" "tree_wf T" "fmlookup T tip = Some et"
    and "ancestor_of T tip (g_pos_immediate_final_hash F) ef" "e_nHeight ef = g_pos_immediate_final_height F" "0 < e_nHeight ef"
  obtains q eq where "fst (pass_walk Q T now tip F) = Some q" "ancestor_of T tip q eq" "e_nHeight ef \<le> e_nHeight eq"
proof -
  let ?s = "pass_at Q T now tip F" and ?o = "g_pos_immediate_final_hash F"
  have o: "fmlookup T ?o = Some ef" "old_final ?s = Some ?o" using assms(4-6) by (simp_all add: ancestor_of_def pass_at_def)
  have "at_or_below_final T ?s ?o ef" using o GetAncestor_self [OF assms(2) o(1)] by (simp add: at_or_below_final_def)
  then have may: "may_be_final Q T (drop_stale_floor F) ?s ?o ef" using o assms(6) by (simp add: may_be_final_def)
  have "\<exists>q eq. fst (pass_walk Q T now tip F) = Some q \<and> fmlookup T q = Some eq \<and> e_nHeight ef \<le> e_nHeight eq"
    unfolding pass_walk_def
    by (rule final_walk_reaches [OF pass_walk_ok [OF assms(2,3)] assms(4) may])
       (use o floor_final_is_old [OF assms(1)] assms(5,6) in \<open>auto simp: no_early_stop_def\<close>)
  then obtain q eq where q: "fst (pass_walk Q T now tip F) = Some q" "fmlookup T q = Some eq" "e_nHeight ef \<le> e_nHeight eq" by blast
  moreover have "ancestor_of T tip q eq"
    using pass_walk_sound [OF assms(1-3) q(1)] assms(4) o(1) q(2) by (auto simp: ancestor_of_def)
  ultimately show thesis using that by blast
qed

lemma pass_held:
  assumes "tree_wf T" "fmlookup T tip = Some et" "0 < g_pos_finality_delay_ms Q" "ancestor_of T tip g eg"
    and "e_nHeight et - e_nHeight eg < 200" "0 < e_nHeight eg" "g_pos_immediate_final_height F < e_nHeight eg"
    and "e_nHeight eg < pass_held_floor (pass_at Q T now tip F)"
  shows "PosHeldBy Q T F now g eg = []"
proof (rule ccontr)
  assume held: "PosHeldBy Q T F now g eg \<noteq> []"
  have "e_nHeight et - e_nHeight eg < int 200" using assms(5) by simp
  from held_loop_held [OF assms(1,2,4) this assms(6,7) held, of INT_MAX] show False
    using assms(3,8) unfolding pass_at_def held_floor_at_def by simp
qed

text \<open>Where the floor of a pass lies: at the tip, or below the lowest block passed over, with the block
  it finalizes below that.\<close>

lemma pass_floor_below:
  assumes "tree_wf T" "fmlookup T tip = Some et" "floor_clean T (drop_stale_floor F)" "pass_walk Q T now tip F = (r, lp)"
    and "pass_floor T tip lp = Some b"
  obtains (tip) "lp = None" "b = tip"
  | (pending) x ex eb where "lp = Some x" "fmlookup T x = Some ex" "ancestor_of T tip x ex" "ancestor_of T x b eb"
      "e_nHeight ex = e_nHeight eb + 1" "\<And>q. r = Some q \<Longrightarrow> \<exists>eq. ancestor_of T b q eq"
proof (cases lp)
  case None
  then show thesis using that(1) assms(5) by (simp add: pass_floor_def)
next
  case (Some x)
  note pend = final_walk_pending [OF pass_walk_ok [OF assms(1,2)] assms(3) assms(4) [unfolded pass_walk_def]]
  then obtain ex where x: "ancestor_of T tip x ex" and below: "\<And>q. r = Some q \<Longrightarrow> \<exists>eq. ancestor_of T x q eq \<and> e_nHeight eq < e_nHeight ex"
    using Some by auto
  have lx: "fmlookup T x = Some ex" using x by (simp add: ancestor_of_def)
  then have "e_pprev ex = Some b" using assms(5) Some by (simp add: pass_floor_def)
  from ancestor_parent [OF assms(1) lx this] obtain eb where eb: "ancestor_of T x b eb" "e_nHeight ex = e_nHeight eb + 1" by blast
  have "\<exists>eq. ancestor_of T b q eq" if r: "r = Some q" for q
  proof -
    obtain eq where "ancestor_of T x q eq" "e_nHeight eq < e_nHeight ex" using below [OF r] by blast
    then show ?thesis using ancestor_between [OF assms(1) eb(1), of q eq] eb(2) by auto
  qed
  then show thesis using that(2) Some lx x eb by blast
qed

lemma pass_floor_clean:
  assumes "tree_wf T" "fmlookup T tip = Some et" "floor_clean T (drop_stale_floor F)" "no_early_stop (pass_at Q T now tip F)"
  shows "floor_clean T (drop_stale_floor (RecomputePosImmediateFinality Q T now now_s tip F))"
proof -
  let ?F' = "RecomputePosImmediateFinality Q T now now_s tip F"
  obtain r lp where w: "pass_walk Q T now tip F = (r, lp)" by fastforce
  note wk = pass_walk_ok [OF assms(1,2), of Q now F] and w' = w [unfolded pass_walk_def]
  obtain b where b': "pass_floor T tip (snd (pass_walk Q T now tip F)) = Some b" using pass_floor_Some [OF assms(1,2)] by blast
  then have b: "pass_floor T tip lp = Some b" using w by simp
  note fl = Recompute_floor [OF b', where now_s = now_s]
  have id: "drop_stale_floor ?F' = ?F'" using fl(3) by (simp add: drop_stale_floor_def)
  have final: "\<exists>eq. ancestor_of T b q eq" if r: "r = Some q" for q
    using assms(1-3) w b
  proof (cases rule: pass_floor_below)
    case tip
    then show ?thesis using final_walk_ancestor [OF wk assms(3), of Q None q] w' r by simp
  qed (use r in blast)
  have cover: "e_nHeight eg \<le> g_pos_immediate_final_height ?F'"
    if g: "ancestor_of T b g eg" "0 < e_nHeight eg" "PosCarriesQuorum eg" for g eg
    using assms(1-3) w b
  proof (cases rule: pass_floor_below)
    case tip
    then have "ancestor_of T tip g eg" using g(1) by simp
    from final_walk_passed [OF wk assms(3) w' this g(2,3) assms(4)] show ?thesis using tip(1) w by (auto simp: Recompute_final(1))
  next
    case (pending x ex eb)
    have tip: "ancestor_of T tip g eg" using ancestor_trans [OF assms(1) pending(3) ancestor_trans [OF assms(1) pending(4) g(1)]] .
    have "e_nHeight eg < e_nHeight ex" using ancestor_le [OF g(1), of eb] pending(4,5) by (simp add: ancestor_of_def)
    then show ?thesis
      using final_walk_passed [OF wk assms(3) w' tip g(2,3) assms(4)] pending(1,2) w by (auto simp: Recompute_final(1))
  qed
  have "\<exists>ef. ancestor_of T b (g_pos_immediate_final_hash ?F') ef \<and> e_nHeight ef = g_pos_immediate_final_height ?F'"
    if h: "0 \<le> g_pos_immediate_final_height ?F'"
  proof (cases r)
    case (Some q)
    then obtain eq where "ancestor_of T b q eq" using final by blast
    moreover have "g_pos_immediate_final_hash ?F' = q" by (rule Recompute_final(2)) (simp add: w Some)
    moreover have "g_pos_immediate_final_height ?F' = e_nHeight eq"
      using calculation(1) by (simp add: Recompute_final(1) w Some ancestor_of_def)
    ultimately show ?thesis by auto
  qed (use h w in \<open>simp add: Recompute_final(1)\<close>)
  then show ?thesis unfolding id floor_clean_def fl using cover by blast
qed

section \<open>The chain to activate\<close>

lemma FindMostWorkChain_result:
  assumes "FindMostWorkChain G addr C F A = Some (Some p, A')"
  shows "best_candidate (WorkComparator (g_con_pos G) addr (a_index A')) (a_candidates A') = Some p \<and>
     \<not> PosFinalityGateRefuses G (a_index A') C F p \<and>
     (\<forall>q\<in>set (off_chain (a_index A') C p). test_block (a_index A') q = Usable) \<and> set (a_candidates A') \<subseteq> set (a_candidates A)"
  using assms
proof (induction G addr C F A rule: FindMostWorkChain.induct)
  case (1 G addr C F A)
  let ?T = "a_index A"
  obtain b where b: "best_candidate (WorkComparator (g_con_pos G) addr ?T) (a_candidates A) = Some b"
    using "1.prems" by (subst (asm) FindMostWorkChain.simps) (auto split: option.splits)
  show ?case
  proof (cases "PosFinalityGateRefuses G ?T C F b")
    case True
    then have "FindMostWorkChain G addr C F (A\<lparr>a_candidates := erase_all (off_chain ?T C b) (a_candidates A)\<rparr>) = Some (Some p, A')"
      using "1.prems" b by (subst (asm) FindMostWorkChain.simps) simp
    from "1.IH"(1) [OF b True this] show ?thesis by (auto simp: erase_all_def)
  next
    case False
    show ?thesis
    proof (cases "find (\<lambda>q. test_block ?T q \<noteq> Usable) (off_chain ?T C b)")
      case None
      then have "p = b \<and> A' = A" using "1.prems" b False by (subst (asm) FindMostWorkChain.simps) simp
      then show ?thesis using b False None by (simp add: find_None_iff)
    next
      case (Some q)
      then have q: "test_block ?T q \<noteq> Assertion" and
        rec: "FindMostWorkChain G addr C F (drop_branch b (off_chain ?T C b) q A) = Some (Some p, A')"
        using "1.prems" b False by (subst (asm) FindMostWorkChain.simps, simp split: if_splits)+
      from "1.IH"(2) [OF b False Some q rec] show ?thesis by (auto simp: drop_branch_def Let_def erase_all_def)
    qed
  qed
qed

lemma test_block_usable:
  "test_block T q = Usable \<longleftrightarrow> (let e = the (fmlookup T q) in
     (HaveTxsDownloaded e \<or> e_nHeight e = 0) \<and> \<not> BlockFailed e \<and> e_nStatus e AND BLOCK_HAVE_DATA \<noteq> 0)"
  by (auto simp: test_block_def Let_def)

section \<open>Certification answers\<close>

lemma decided_bit: "(s :: u32) AND BLOCK_POS_CERT_DECIDED \<noteq> 0 \<longleftrightarrow> bit s 10"
  using and_exp_eq_0_iff_not_bit [of s 10] by simp

lemma certified_bit: "(s :: u32) AND BLOCK_POS_CERTIFIED \<noteq> 0 \<longleftrightarrow> bit s 11"
  using and_exp_eq_0_iff_not_bit [of s 11] by simp

lemma bit_1024: "bit (1024 :: u32) n \<longleftrightarrow> n = 10"
  using bit_exp_iff [where 'a = u32, of 10 n] by (auto simp: possible_bit_word)

lemma bit_2048: "bit (2048 :: u32) n \<longleftrightarrow> n = 11"
  using bit_exp_iff [where 'a = u32, of 11 n] by (auto simp: possible_bit_word)

lemma cert_bits_set:
  "bit ((s AND NOT (BLOCK_POS_CERT_DECIDED OR BLOCK_POS_CERTIFIED)) OR cert_bits b) 10"
  "bit ((s AND NOT (BLOCK_POS_CERT_DECIDED OR BLOCK_POS_CERTIFIED)) OR cert_bits b) 11 = b"
  by (auto simp: cert_bits_def bit_or_iff bit_and_iff bit_not_iff bit_1024 bit_2048)

lemma cert_bits_same:
  assumes "s AND (BLOCK_POS_CERT_DECIDED OR BLOCK_POS_CERTIFIED) = cert_bits b"
  shows "bit s 10" "bit s 11 = b"
proof -
  have "bit (s AND (BLOCK_POS_CERT_DECIDED OR BLOCK_POS_CERTIFIED)) n = bit (cert_bits b) n" for n using assms by simp
  from this [of 10] this [of 11] show "bit s 10" "bit s 11 = b"
    by (auto simp: cert_bits_def bit_or_iff bit_and_iff bit_1024 bit_2048)
qed

text \<open>Whether the parent's quorum is needed does not depend on the quorum.\<close>

lemma judge_by_parent: "snd (PosJudgeCertified E G Q T e n) = snd (PosJudgeCertified E G Q T e m)"
  by (auto simp: PosJudgeCertified_def Let_def split: option.splits)

lemma judge_cong:
  assumes "Option.bind (e_pprev e) (fmlookup T) = Option.bind (e_pprev e') (fmlookup T')" "e_pos_countersigs e = e_pos_countersigs e'"
    "e_anchor_height e = e_anchor_height e'"
  shows "PosJudgeCertified E G Q T e n = PosJudgeCertified E G Q T' e' n"
  unfolding PosJudgeCertified_def assms ..

lemma record_certified_entry:
  assumes "fmlookup (cm_index M) p = Some e" "PosJudgeCertified E G Q (cm_index M) e n = (Some b, True)"
  shows "\<exists>s. fmlookup (cm_index (fst (PosRecordCertified E G Q p n M))) p = Some ((set_certified (Some b) e)\<lparr>e_nStatus := s\<rparr>) \<and>
     bit s 10 \<and> bit s 11 = b"
proof (cases "e_nStatus e AND (BLOCK_POS_CERT_DECIDED OR BLOCK_POS_CERTIFIED) = cert_bits b")
  case True
  then show ?thesis using assms cert_bits_same [OF True]
    by (intro exI [of _ "e_nStatus e"]) (simp add: PosRecordCertified_def PosSetCertified_def Let_def set_certified_def)
next
  case False
  then show ?thesis using assms cert_bits_set [of "e_nStatus e" b]
    by (intro exI [of _ "(e_nStatus e AND NOT (BLOCK_POS_CERT_DECIDED OR BLOCK_POS_CERTIFIED)) OR cert_bits b"])
       (simp add: PosRecordCertified_def Let_def)
qed

lemma record_certified_other:
  "q \<noteq> p \<Longrightarrow> fmlookup (cm_index (fst (PosRecordCertified E G Q p n M))) q = fmlookup (cm_index M) q"
  by (auto simp: PosRecordCertified_def PosSetCertified_def Let_def split: option.splits prod.splits)

section \<open>Properties\<close>

text \<open>C15. Finality does not retreat: in any state that a node reaches, as long as the block that was final
  is on the chain of the tip, a pass leaves as final that block or a descendant of it on that chain,
  whatever certificates, windows and answers have changed in between.\<close>

theorem final_never_retreats:
  assumes "finality_reach G Q F" "tree_wf T" "fmlookup T tip = Some et"
    and "ancestor_of T tip (g_pos_immediate_final_hash F) ef" "e_nHeight ef = g_pos_immediate_final_height F" "0 < e_nHeight ef"
    and "F' = RecomputePosImmediateFinality Q T now now_s tip F"
  shows "g_pos_immediate_final_height F \<le> g_pos_immediate_final_height F' \<and>
     GetAncestor T tip (g_pos_immediate_final_height F') = Some (g_pos_immediate_final_hash F') \<and>
     GetAncestor T (g_pos_immediate_final_hash F') (g_pos_immediate_final_height F) = Some (g_pos_immediate_final_hash F)"
proof -
  obtain q eq where q: "fst (pass_walk Q T now tip F) = Some q" "ancestor_of T tip q eq" "e_nHeight ef \<le> e_nHeight eq"
    using pass_walk_keeps [OF reach_floor_is_final [OF assms(1)] assms(2-6)] by blast
  have F': "g_pos_immediate_final_hash F' = q" "g_pos_immediate_final_height F' = e_nHeight eq"
    using Recompute_final(2) [OF q(1)] q(1,2) assms(7) by (simp_all add: Recompute_final(1) ancestor_of_def)
  then show ?thesis using q ancestor_between [OF assms(2) q(2) assms(4)] assms(5) by (simp add: ancestor_of_def)
qed

text \<open>C16. A pass finalizes nothing early: the block it leaves final is the one final before, or a block of
  the tip's chain that carries a quorum and either lies below the old final block, or no window applies,
  or has been observed for the whole window while none of the last 200 blocks at or below it, above the
  old final block, is held by a competing certificate that has not been judged and whose hold has not
  expired. The window of a block with no recorded start runs from the load of the node, and is over on a
  node that never restored its state.\<close>

theorem newly_final_block_observed:
  assumes "finality_reach G Q F" "tree_wf T" "fmlookup T tip = Some et"
    and "F' = RecomputePosImmediateFinality Q T now now_s tip F" "0 \<le> g_pos_immediate_final_height F'"
  shows "g_pos_immediate_final_hash F' = g_pos_immediate_final_hash F \<or>
     (\<exists>e. ancestor_of T tip (g_pos_immediate_final_hash F') e \<and> e_nHeight e = g_pos_immediate_final_height F' \<and> PosCarriesQuorum e \<and>
        (at_or_below_final T (pass_at Q T now tip F) (g_pos_immediate_final_hash F') e \<or> g_pos_finality_delay_ms Q \<le> 0 \<or>
         (case fmlookup (g_pos_quorum_first_active F) (g_pos_immediate_final_hash F') of
            Some (h, t) \<Rightarrow> g_pos_finality_delay_ms Q \<le> now - t
          | None \<Rightarrow> g_pos_load_ms F \<le> 0 \<or> g_pos_finality_delay_ms Q \<le> now - g_pos_load_ms F) \<and>
         (\<forall>g eg. ancestor_of T tip g eg \<longrightarrow> 0 < e_nHeight eg \<longrightarrow> g_pos_immediate_final_height F < e_nHeight eg \<longrightarrow>
            e_nHeight eg \<le> e_nHeight e \<longrightarrow> e_nHeight et - e_nHeight eg < 200 \<longrightarrow> PosHeldBy Q T F now g eg = [])))"
proof -
  obtain q where q: "fst (pass_walk Q T now tip F) = Some q"
    using assms(4,5) by (cases "fst (pass_walk Q T now tip F)") (simp_all add: Recompute_final(1))
  have F': "g_pos_immediate_final_hash F' = q" using Recompute_final(2) [OF q] assms(4) by simp
  show ?thesis
  proof (cases "q = g_pos_immediate_final_hash F")
    case False
    let ?s = "pass_at Q T now tip F"
    obtain e where e: "ancestor_of T tip q e" "may_be_final Q T F ?s q e"
      using pass_walk_sound [OF reach_floor_is_final [OF assms(1)] assms(2,3) q] False by blast
    have h: "e_nHeight e = g_pos_immediate_final_height F'" using e(1) q assms(4) by (simp add: Recompute_final(1) ancestor_of_def)
    have quorum: "PosCarriesQuorum e" using e(2) False by (auto simp: may_be_final_def pass_at_def split: if_splits)
    have win: "\<not> in_window Q F ?s q \<longleftrightarrow> (case fmlookup (g_pos_quorum_first_active F) q of
        Some (h, t) \<Rightarrow> g_pos_finality_delay_ms Q \<le> now - t
      | None \<Rightarrow> g_pos_load_ms F \<le> 0 \<or> g_pos_finality_delay_ms Q \<le> now - g_pos_load_ms F)"
      by (auto simp: in_window_def pass_at_def split: option.splits)
    have held: "PosHeldBy Q T F now g eg = []"
      if "0 < g_pos_finality_delay_ms Q" "e_nHeight e < pass_held_floor ?s" "ancestor_of T tip g eg" "0 < e_nHeight eg"
        "g_pos_immediate_final_height F < e_nHeight eg" "e_nHeight eg \<le> e_nHeight e" "e_nHeight et - e_nHeight eg < 200" for g eg
      using pass_held [OF assms(2,3) that(1,3,7,4,5)] that(2,6) by simp
    show ?thesis unfolding F' win [symmetric] using e h quorum held by (auto simp: may_be_final_def not_le [symmetric])
  qed (simp add: F')
qed

text \<open>C19. What a node learned of a block's certificate survives a restart: an answer given by the quorum
  of the parent's stake state is kept in the status bits, and judging all entries again gives the same
  answer, although the quorum of no block but the tip is known then.\<close>

theorem certified_answer_survives_restart:
  assumes "fmlookup (cm_index M) p = Some e" "e_pprev e \<noteq> Some p"
    and "PosJudgeCertified E G Q (cm_index M) e parent_quorum = (Some b, True)"
    and "T = cm_index (fst (PosRecordCertified E G Q p parent_quorum M))" "fmlookup T p = Some e'"
  shows "PosCarriesQuorum e' = b \<and> e_pos_cert_known e' \<and>
     (let r = refresh_entry E G Q R T e' in e_pos_cert_known r \<and> e_pos_certified r = b)"
proof -
  obtain s where s: "e' = (set_certified (Some b) e)\<lparr>e_nStatus := s\<rparr>" "bit s 10" "bit s 11 = b"
    using record_certified_entry [OF assms(1,3)] assms(4,5) by auto
  have "Option.bind (e_pprev e') (fmlookup T) = Option.bind (e_pprev e) (fmlookup (cm_index M))"
    using record_certified_other assms(2,4) s(1) by (cases "e_pprev e") (auto simp: set_certified_def)
  then have "PosJudgeCertified E G Q T e' n = PosJudgeCertified E G Q (cm_index M) e n" for n
    by (rule judge_cong) (simp_all add: s(1) set_certified_def)
  then have "snd (PosJudgeCertified E G Q T e' n)" for n
    using judge_by_parent [of E G Q "cm_index M" e n parent_quorum] assms(3) by simp
  then show ?thesis
    using s by (simp add: refresh_entry_def split_def set_certified_def verdict_or_true_def PosCarriesQuorum_def Let_def
      decided_bit certified_bit)
qed

text \<open>C18. The floor loses nothing. If the floor of the last pass is sound, then after a pass every block of
  the tip's chain that carries a quorum, has been observed for its window and lies below every held
  block is at or below the final block, though the pass stopped at the floor; and the floor it leaves is
  sound again. This needs the stop at the first loaded block not to happen: a final block is known, or
  the window since startup is over.\<close>

theorem pass_finalizes_all_observed:
  assumes "tree_wf T" "fmlookup T tip = Some et" "floor_clean T (drop_stale_floor F)"
    and "0 \<le> g_pos_immediate_final_height F \<and> fmlookup T (g_pos_immediate_final_hash F) \<noteq> None \<or>
         g_pos_load_ms F \<le> 0 \<or> g_pos_finality_delay_ms Q \<le> now - g_pos_load_ms F"
    and "F' = RecomputePosImmediateFinality Q T now now_s tip F"
  shows "floor_clean T (drop_stale_floor F') \<and>
     (\<forall>g eg. ancestor_of T tip g eg \<longrightarrow> 0 < e_nHeight eg \<longrightarrow> PosCarriesQuorum eg \<longrightarrow>
        \<not> in_window Q F (pass_at Q T now tip F) g \<longrightarrow> e_nHeight eg < held_floor_at Q T F now tip \<longrightarrow>
        e_nHeight eg \<le> g_pos_immediate_final_height F')"
proof (intro conjI allI impI)
  have early: "no_early_stop (pass_at Q T now tip F)" using assms(4) by (auto simp: no_early_stop_def pass_at_def)
  show "floor_clean T (drop_stale_floor F')" unfolding assms(5) by (rule pass_floor_clean [OF assms(1-3) early])
  fix g eg
  assume g: "ancestor_of T tip g eg" "0 < e_nHeight eg" "PosCarriesQuorum eg"
    "\<not> in_window Q F (pass_at Q T now tip F) g" "e_nHeight eg < held_floor_at Q T F now tip"
  then have "may_be_final Q T (drop_stale_floor F) (pass_at Q T now tip F) g eg" by (simp add: may_be_final_def pass_at_def)
  from final_walk_reaches [OF pass_walk_ok [OF assms(1,2)] g(1) this early floor_clean_covers [OF assms(3) _ _ g(2,3)]]
  obtain q eq where "fst (pass_walk Q T now tip F) = Some q" "fmlookup T q = Some eq" "e_nHeight eg \<le> e_nHeight eq"
    unfolding pass_walk_def by blast
  then show "e_nHeight eg \<le> g_pos_immediate_final_height F'" unfolding assms(5) by (simp add: Recompute_final(1))
qed

text \<open>C17. The chain that is activated respects finality: a candidate that \<open>FindMostWorkChain\<close> returns, off
  the active chain, descends from the final block, unless a release names its branch; each block that
  would be connected has its body and has not failed; and no candidate left is preferred to it. This on
  a node that watches Bitcoin, while the final block stands.\<close>

theorem activation_respects_finality:
  assumes "FindMostWorkChain G addr C F A = Some (Some p, A')" "g_con_pos G" "g_con_bitcoin_anchor G \<longrightarrow> g_validate_anchor G"
    and "0 \<le> g_pos_immediate_final_height F" "fmlookup (a_index A') (g_pos_immediate_final_hash F) = Some pf" "\<not> BlockFailed pf"
    and "\<not> Chain_Contains (a_index A') C p"
  shows "p \<in> set (a_candidates A) \<and>
     (e_nHeight (the (fmlookup (a_index A') p)) > g_pos_immediate_final_height F \<and>
      GetAncestor (a_index A') p (g_pos_immediate_final_height F) = Some (g_pos_immediate_final_hash F) \<or>
      on_released_branch (a_index A') F p) \<and>
     (\<forall>q\<in>set (off_chain (a_index A') C p). let e = the (fmlookup (a_index A') q) in
        \<not> BlockFailed e \<and> e_nStatus e AND BLOCK_HAVE_DATA \<noteq> 0) \<and>
     (\<forall>x\<in>set (a_candidates A'). x \<noteq> p \<longrightarrow> WorkComparator True addr (a_index A') x p)"
proof -
  note res = FindMostWorkChain_result [OF assms(1)]
  have best: "best_candidate (WorkComparator True addr (a_index A')) (a_candidates A') = Some p" using res assms(2) by simp
  have "\<not> PosFinalityGateRefuses G (a_index A') C F p" using res by blast
  then have gate: "e_nHeight (the (fmlookup (a_index A') p)) > g_pos_immediate_final_height F \<and>
      GetAncestor (a_index A') p (g_pos_immediate_final_height F) = Some (g_pos_immediate_final_hash F) \<or>
      on_released_branch (a_index A') F p"
    using assms(2-7) by (auto simp: PosFinalityGateRefuses_def split: if_splits)
  show ?thesis
    using res gate pos_choice.best_is_top [OF best] by (auto simp: test_block_usable Let_def)
qed

subsection \<open>A sample chain\<close>

definition sample_entry :: "block_ptr option \<Rightarrow> block_ptr option \<Rightarrow> int \<Rightarrow> BlockEntry" where
  "sample_entry prev skip h =
     \<lparr>e_pprev = prev, e_pskip = skip, e_nHeight = h, e_nChainWork = of_int h + 1, e_nChainTx = 1, e_nStatus = 13,
      e_nTime = 0, e_nBits = 0, e_anchor_height = 0, e_anchor_hash = [], e_nSequenceId = 0, e_nTimeMax = 0,
      e_pos_countersigs = 3, e_pos_vrf_score = 0, e_pos_certified = True, e_pos_cert_known = True, e_pos_child_quorum = 3\<rparr>"

definition sample_chain :: block_tree where
  "sample_chain = fmap_of_list [([1], sample_entry None None 0), ([2], sample_entry (Some [1]) (Some [1]) 1),
     ([3], sample_entry (Some [2]) (Some [1]) 2)]"

lemma sample_chain_lookup [simp]:
  "fmlookup sample_chain [1] = Some (sample_entry None None 0)"
  "fmlookup sample_chain [2] = Some (sample_entry (Some [1]) (Some [1]) 1)"
  "fmlookup sample_chain [3] = Some (sample_entry (Some [2]) (Some [1]) 2)"
  by (simp_all add: sample_chain_def fmlookup_of_list)

lemma sample_entry_simps [simp]:
  "e_pprev (sample_entry p s h) = p" "e_pskip (sample_entry p s h) = s" "e_nHeight (sample_entry p s h) = h"
  "PosCarriesQuorum (sample_entry p s h)" "\<not> BlockFailed (sample_entry p s h)" "HaveTxsDownloaded (sample_entry p s h)"
  "e_nStatus (sample_entry p s h) = 13"
  by (simp_all add: sample_entry_def PosCarriesQuorum_def BlockFailed_def HaveTxsDownloaded_def)

lemma sample_chain_wf: "tree_wf sample_chain"
proof -
  have "p = [1] \<or> p = [2] \<or> p = [3]" if "fmlookup sample_chain p = Some e" for p e
    using that by (auto simp: sample_chain_def fmlookup_of_list split: if_splits)
  then show ?thesis
    by (fastforce simp: tree_wf_def entry_wf_def GetSkipHeight_def InvertLowestOne_def eval_nat_numeral)
qed

definition sample_finality :: "int \<Rightarrow> finality_env" where
  "sample_finality delay = \<lparr>g_pos_bls = True, g_pos_reconcile = False, g_pos_finality_delay_ms = delay, g_pos_finality_hold_ms = 0\<rparr>"

lemma sample_finality_delay [simp]: "g_pos_finality_delay_ms (sample_finality d) = d" "g_pos_finality_hold_ms (sample_finality d) = 0"
  by (simp_all add: sample_finality_def)

lemma sample_con_pos [simp]: "g_con_pos sample_rules_env" "\<not> g_con_bitcoin_anchor sample_rules_env"
  by (simp_all add: sample_rules_env_def)

lemmas finality_eval = UpdateTip_finality_def RecomputePosImmediateFinality_def pass_at_def held_floor_at_def
  drop_stale_floor_def set_final_def set_floor_def prune_windows_def on_released_branch_def clear_release_def
  PosRevokeReconcileRelease_def PosStampFinalAdvanceNow_def initial_finality_def PosHeldBy_def in_window_def
  at_or_below_final_def floor_final_def final_walk.simps numeral_2_eq_2 numeral_3_eq_3 Let_def

lemma held_loop_none: "g_pos_competing_certs F = fmempty \<Longrightarrow> held_loop n Q T F now f acc = acc"
  by (induction n arbitrary: f acc) (auto simp: PosHeldBy_def split: option.splits)

lemma held_floor_none: "g_pos_competing_certs F = fmempty \<Longrightarrow> held_floor_at Q T F now tip = INT_MAX"
  by (simp add: held_floor_at_def held_loop_none)

text \<open>A node without a window, whose tip is the block at height 1.\<close>

definition settled_state :: finality_state where
  "settled_state = UpdateTip_finality sample_rules_env (sample_finality 0) sample_chain 0 0 [2] initial_finality"

lemma settled_state_reach: "finality_reach sample_rules_env (sample_finality 0) settled_state"
  unfolding settled_state_def by (rule finality_reach.tip [OF finality_reach.start sample_chain_wf]) simp

lemma settled_state_final:
  "g_pos_immediate_final_height settled_state = 1" "g_pos_immediate_final_hash settled_state = [2]"
  "g_pos_reconcile_release_height settled_state = - 1"
  by (simp_all add: settled_state_def finality_eval eval_nat_numeral)

lemma sample_ancestors:
  "ancestor_of sample_chain [3] [2] (sample_entry (Some [1]) (Some [1]) 1)"
  "GetAncestor sample_chain [2] 1 = Some [2]" "GetAncestor sample_chain [3] 1 = Some [2]"
  by (simp_all add: ancestor_of_def GetAncestor_def ancestor_walk.simps follow_skip_def GetSkipHeight_def InvertLowestOne_def)

theorem final_never_retreats_witness:
  "let F' = RecomputePosImmediateFinality (sample_finality 0) sample_chain 5 0 [3] settled_state
   in 1 \<le> g_pos_immediate_final_height F' \<and> GetAncestor sample_chain (g_pos_immediate_final_hash F') 1 = Some [2]"
  using final_never_retreats [OF settled_state_reach sample_chain_wf sample_chain_lookup(3), of
      "sample_entry (Some [1]) (Some [1]) 1" _ 5 0, OF _ _ _ refl]
  by (simp add: settled_state_final sample_ancestors Let_def)

text \<open>A node that connected the block at height 1 at time 0, with a window of ten milliseconds.\<close>

definition observing_state :: finality_state where
  "observing_state = PosNoteActiveQuorumBlock sample_rules_env (sample_finality 10) sample_chain 0 (Some [2]) initial_finality"

lemma observing_state_reach: "finality_reach sample_rules_env (sample_finality 10) observing_state"
  unfolding observing_state_def by (rule finality_reach.note_active [OF finality_reach.start])

theorem newly_final_block_observed_witness:
  "let F' = RecomputePosImmediateFinality (sample_finality 10) sample_chain 20 0 [2] observing_state
   in g_pos_immediate_final_height F' = 1 \<and> (\<exists>e. ancestor_of sample_chain [2] (g_pos_immediate_final_hash F') e \<and> PosCarriesQuorum e)"
proof -
  let ?F' = "RecomputePosImmediateFinality (sample_finality 10) sample_chain 20 0 [2] observing_state"
  have F': "g_pos_immediate_final_height ?F' = 1" "g_pos_immediate_final_hash ?F' = [2]"
    by (simp_all add: observing_state_def PosNoteActiveQuorumBlock_def finality_eval eval_nat_numeral)
  have "g_pos_immediate_final_hash observing_state \<noteq> [2]"
    by (simp add: observing_state_def PosNoteActiveQuorumBlock_def initial_finality_def uint256_zero_def eval_nat_numeral)
  then show ?thesis
    using newly_final_block_observed [OF observing_state_reach sample_chain_wf sample_chain_lookup(2) refl, of 20 0] F'
    unfolding Let_def F' by fastforce
qed

definition sample_manager :: ChainstateManager where
  "sample_manager = \<lparr>cm_index = sample_chain, cm_chainstates = [], cm_finality = initial_finality\<rparr>"

theorem certified_answer_survives_restart_witness:
  "let Q = (sample_finality 0)\<lparr>g_pos_bls := False\<rparr>;
       T = cm_index (fst (PosRecordCertified sample_env sample_rules_env Q [2] 4 sample_manager));
       e = the (fmlookup T [2])
   in \<not> PosCarriesQuorum e \<and> \<not> e_pos_certified (refresh_entry sample_env sample_rules_env Q sample_stakers T e)"
proof -
  let ?Q = "(sample_finality 0)\<lparr>g_pos_bls := False\<rparr>"
  have e: "fmlookup (cm_index sample_manager) [2] = Some (sample_entry (Some [1]) (Some [1]) 1)" by (simp add: sample_manager_def)
  have j: "PosJudgeCertified sample_env sample_rules_env ?Q (cm_index sample_manager) (sample_entry (Some [1]) (Some [1]) 1) 4 = (Some False, True)"
    by (simp add: PosJudgeCertified_def sample_manager_def sample_env_def sample_entry_def)
  obtain e' where "fmlookup (cm_index (fst (PosRecordCertified sample_env sample_rules_env ?Q [2] 4 sample_manager))) [2] = Some e'"
    using record_certified_entry [OF e j] by blast
  from certified_answer_survives_restart [OF e _ j refl this] this show ?thesis by (simp add: Let_def)
qed

theorem pass_finalizes_all_observed_witness:
  "let F' = RecomputePosImmediateFinality (sample_finality 10) sample_chain 20 0 [2] observing_state
   in floor_clean sample_chain (drop_stale_floor F') \<and> 1 \<le> g_pos_immediate_final_height F'"
proof -
  have clean: "floor_clean sample_chain (drop_stale_floor observing_state)"
    by (simp add: floor_clean_def drop_stale_floor_def observing_state_def PosNoteActiveQuorumBlock_def initial_finality_def)
  have load: "g_pos_load_ms observing_state \<le> 0"
    by (simp add: observing_state_def PosNoteActiveQuorumBlock_def initial_finality_def)
  have "\<not> in_window (sample_finality 10) observing_state (pass_at (sample_finality 10) sample_chain 20 [2] observing_state) [2]"
    "1 < held_floor_at (sample_finality 10) sample_chain observing_state 20 [2]"
    by (simp_all add: observing_state_def PosNoteActiveQuorumBlock_def finality_eval eval_nat_numeral)
  then show ?thesis
    using pass_finalizes_all_observed [OF sample_chain_wf sample_chain_lookup(2) clean _ refl, of "sample_finality 10" 20 0]
      load ancestor_self [OF sample_chain_wf sample_chain_lookup(2)] unfolding Let_def by fastforce
qed

theorem activation_respects_finality_witness:
  "let A = \<lparr>a_index = sample_chain, a_candidates = [[3]], m_best_invalid = None, m_blocks_unlinked = []\<rparr>
   in FindMostWorkChain sample_rules_env length [[1], [2]] settled_state A = Some (Some [3], A) \<and>
      GetAncestor sample_chain [3] 1 = Some [2]"
proof -
  let ?A = "\<lparr>a_index = sample_chain, a_candidates = [[3]], m_best_invalid = None, m_blocks_unlinked = []\<rparr>"
  have out: "\<not> Chain_Contains sample_chain [[1], [2]] [3]" by (simp add: Chain_Contains_def Chain_at_def)
  have off: "off_chain sample_chain [[1], [2]] [3] = [[3]]"
    by (simp add: off_chain_def eval_nat_numeral Chain_Contains_def Chain_at_def)
  have test: "test_block sample_chain [3] = Usable" by (simp add: test_block_def)
  have run: "FindMostWorkChain sample_rules_env length [[1], [2]] settled_state ?A = Some (Some [3], ?A)"
    by (subst FindMostWorkChain.simps) (simp add: PosFinalityGateRefuses_def out settled_state_final sample_ancestors off test)
  have "\<not> on_released_branch sample_chain settled_state [3]" by (simp add: on_released_branch_def settled_state_final)
  then show ?thesis
    using activation_respects_finality [OF run] out run by (simp add: settled_state_final Let_def)
qed

text \<open>A floor laid without a final block, and a chain that grows from it with no certified block.\<close>

definition blank_floor :: "block_tree \<Rightarrow> block_ptr \<Rightarrow> finality_state \<Rightarrow> bool" where
  "blank_floor T b F \<longleftrightarrow> g_pos_immediate_final_height F = - 1 \<and> g_pos_final_floor_final_height F = - 1 \<and>
     g_pos_final_floor_epoch F = g_pos_cert_epoch F \<and> g_pos_final_floor_hash F = b \<and>
     g_pos_final_floor_height F = e_nHeight (the (fmlookup T b))"

definition uncertified_above :: "block_tree \<Rightarrow> block_ptr \<Rightarrow> block_ptr \<Rightarrow> bool" where
  "uncertified_above T b t \<longleftrightarrow> fmlookup T t \<noteq> None \<and> (\<exists>eb. ancestor_of T t b eb \<and> 0 < e_nHeight eb \<and>
     (\<forall>q eq. ancestor_of T t q eq \<longrightarrow> e_nHeight eb < e_nHeight eq \<longrightarrow> \<not> PosCarriesQuorum eq))"

fun grows_uncertified :: "block_tree \<Rightarrow> block_ptr \<Rightarrow> block_ptr list \<Rightarrow> bool" where
  "grows_uncertified T b [] \<longleftrightarrow> True"
| "grows_uncertified T b (t # ts) \<longleftrightarrow> uncertified_above T b t \<and> grows_uncertified T t ts"

lemma uncertified_above_self:
  assumes "tree_wf T" "fmlookup T t = Some e" "0 < e_nHeight e"
  shows "uncertified_above T t t"
  unfolding uncertified_above_def using assms ancestor_self [OF assms(1,2)] ancestor_le [OF _ assms(2)] by fastforce

lemma walk_to_blank_floor:
  assumes "walk_ok T s n p e settled" "ancestor_of T p b eb" "0 < e_nHeight eb" "old_final s = None"
    and "\<forall>q eq. ancestor_of T p q eq \<longrightarrow> e_nHeight eb < e_nHeight eq \<longrightarrow> \<not> PosCarriesQuorum eq"
    and "g_pos_final_floor_hash F = b" "g_pos_final_floor_height F = e_nHeight eb" "floor_final T F = None"
  shows "final_walk n Q T F s (Some p) settled lp = (None, lp)"
  using assms(1,2,5)
proof (induction n p e settled lp rule: walk_ok_induct)
  case (genesis n p e settled lp)
  then show ?case by (simp add: final_walk_genesis)
next
  case (step n p e settled lp q' eq')
  have w: "tree_wf T" "fmlookup T p = Some e" "settled \<longrightarrow> at_or_below_final T s p e" using step(1) by (simp_all add: walk_ok_def)
  note eqn = final_walk_step [OF w(2) step(2) w(3), of n Q F lp, unfolded step(3)]
  from w(1,2) step.prems(1) show ?case
  proof (cases rule: ancestor_cases)
    case self
    then have "stops_at_floor F p e" using step.prems(1) w(2) assms(6,7) by (simp add: stops_at_floor_def ancestor_of_def)
    then show ?thesis using eqn assms(8) by simp
  next
    case (below q eq)
    then have b: "ancestor_of T q' b eb" using step(3) by simp
    from below(5) have "\<not> stops_at_floor F p e" "\<not> PosCarriesQuorum e"
      using step.prems(2) ancestor_self [OF w(1,2)] assms(7) by (auto simp: stops_at_floor_def)
    moreover have "final_walk n Q T F s (Some q') (at_or_below_final T s p e) lp = (None, lp)"
      by (rule step.IH [OF b]) (use step.prems(2) ancestor_trans [OF w(1) step(4)] in blast)
    ultimately show ?thesis using eqn assms(4) by (simp add: may_be_final_def)
  qed
qed

lemma blank_floor_pass:
  assumes "tree_wf T" "uncertified_above T b t" "blank_floor T b F"
  shows "blank_floor T t (UpdateTip_finality G Q T now now_s t F) \<or> \<not> g_con_pos G"
proof -
  obtain et eb where t: "fmlookup T t = Some et" "ancestor_of T t b eb" "0 < e_nHeight eb"
      "\<forall>q eq. ancestor_of T t q eq \<longrightarrow> e_nHeight eb < e_nHeight eq \<longrightarrow> \<not> PosCarriesQuorum eq"
    using assms(2) by (auto simp: uncertified_above_def)
  have "fmlookup T b = Some eb" using t(2) by (simp add: ancestor_of_def)
  then have w: "pass_walk Q T now t F = (None, None)" unfolding pass_walk_def
    using walk_to_blank_floor [OF pass_walk_ok [OF assms(1) t(1)] t(2,3) _ t(4)] assms(3)
    by (simp add: blank_floor_def pass_at_def drop_stale_floor_def floor_final_def)
  define F' where "F' = RecomputePosImmediateFinality Q T now now_s t F"
  have "blank_floor T t F'"
    using Recompute_floor [of T t Q now F t now_s] w Recompute_final(1) [of Q T now now_s t F]
    by (simp add: blank_floor_def pass_floor_def F'_def)
  then show ?thesis
    by (simp add: UpdateTip_finality_def Let_def F'_def blank_floor_def clear_release_def PosRevokeReconcileRelease_def)
qed

lemma blank_floor_passes:
  assumes "tree_wf T" "g_con_pos G" "blank_floor T b F" "grows_uncertified T b (map (snd \<circ> snd) passes)"
  shows "g_pos_immediate_final_height (fold (\<lambda>(now, now_s, t). UpdateTip_finality G Q T now now_s t) passes F) = - 1"
  using assms(3,4)
proof (induction passes arbitrary: b F)
  case Nil
  then show ?case by (simp add: blank_floor_def)
next
  case (Cons x passes)
  obtain now now_s t where x: "x = (now, now_s, t)" by (cases x)
  have "blank_floor T t (UpdateTip_finality G Q T now now_s t F)"
    using blank_floor_pass [OF assms(1), of b t F G Q now now_s] Cons.prems x assms(2) by simp
  then show ?case using Cons.IH Cons.prems(2) x by simp
qed

text \<open>A node that starts with no final block on a certified tip lays such a floor at the parent.\<close>

lemma start_blank_floor:
  assumes "tree_wf T" "fmlookup T p = Some e" "PosCarriesQuorum e" "e_pprev e = Some b"
    and "g_con_pos G" "0 < g_pos_finality_delay_ms Q" "0 < load"
  shows "blank_floor T b (PosRestoreImmediateFinality G Q T None load now_s (Some p) initial_finality)"
proof -
  define F where "F = initial_finality\<lparr>g_pos_immediate_final_height := - 1, g_pos_immediate_final_hash := uint256_zero,
    g_pos_final_floor_height := - 1, g_pos_load_ms := load\<rparr>"
  obtain eb where "ancestor_of T p b eb" "e_nHeight e = e_nHeight eb + 1" using ancestor_parent [OF assms(1,2,4)] by blast
  then have h: "0 < e_nHeight e" using tree_wf_pprev(1) [OF assms(1)] by (fastforce simp: ancestor_of_def)
  have "pass_walk Q T load p F = (None, Some p)" unfolding pass_walk_def using assms h
    by (simp add: final_walk.simps F_def initial_finality_def drop_stale_floor_def pass_at_def in_window_def
      at_or_below_final_def Let_def)
  then have "pass_floor T p (snd (pass_walk Q T load p F)) = Some b" "fst (pass_walk Q T load p F) = None"
    using assms(2,4) by (simp_all add: pass_floor_def)
  from Recompute_floor [OF this(1), of now_s] Recompute_final(1) [of Q T load now_s p F] this(2)
  show ?thesis using assms(5) by (simp add: PosRestoreImmediateFinality_def blank_floor_def F_def initial_finality_def)
qed

definition started_state :: "block_ptr \<Rightarrow> finality_state" where
  "started_state tip =
     PosRestoreImmediateFinality sample_rules_env (sample_finality 10) sample_chain None 1000 1 (Some tip) initial_finality"

lemmas pass_eval = UpdateTip_finality_def Recompute_alt pass_walk_def pass_floor_def pass_at_def held_floor_none
  drop_stale_floor_def set_final_def set_floor_def prune_windows_def on_released_branch_def
  PosStampFinalAdvanceNow_def in_window_def at_or_below_final_def floor_final_def final_walk.simps numeral_2_eq_2 numeral_3_eq_3 Let_def

lemma started_state_simps:
  "started_state [3] = initial_finality\<lparr>g_pos_load_ms := 1000, g_pos_final_floor_height := 1, g_pos_final_floor_hash := [2]\<rparr>"
  "started_state [2] = initial_finality\<lparr>g_pos_load_ms := 1000, g_pos_final_floor_height := 0, g_pos_final_floor_hash := [1]\<rparr>"
  by (simp_all add: started_state_def PosRestoreImmediateFinality_def pass_eval initial_finality_def)

text \<open>C20. The floor can hide certified blocks. A node that starts without a final block on a certified
  tip stops its first pass at that tip, and lays a floor at its parent. If the tip is then taken away
  and the chain goes on from the parent with uncertified blocks, no pass, at whatever time, makes any
  block final, also when the parent is certified and its window has passed: the passes stop at the
  floor. This lasts while no answer on certification changes, until a certified block comes on top.
  The witness has a certified parent, which a node that starts on it does finalize.\<close>

theorem floor_hides_certified_block:
  assumes "tree_wf T" "fmlookup T p = Some e" "PosCarriesQuorum e" "e_pprev e = Some b"
    and "g_con_pos G" "0 < g_pos_finality_delay_ms Q" "0 < load"
    and "grows_uncertified T b (map (snd \<circ> snd) passes)"
  shows "g_pos_immediate_final_height (fold (\<lambda>(now, now_s, t). UpdateTip_finality G Q T now now_s t) passes
     (PosRestoreImmediateFinality G Q T None load now_s (Some p) initial_finality)) = - 1"
  by (rule blank_floor_passes [OF assms(1,5) start_blank_floor [OF assms(1-7)] assms(8)])

theorem floor_hides_certified_block_witness:
  "let Q = sample_finality 10; G = sample_rules_env;
       F1 = UpdateTip_finality G Q sample_chain 1005 1 [2] (started_state [3]);
       F2 = UpdateTip_finality G Q sample_chain 5000 5 [2] F1
   in PosCarriesQuorum (the (fmlookup sample_chain [2])) \<and>
      \<not> in_window Q F1 (pass_at Q sample_chain 5000 [2] F1) [2] \<and> held_floor_at Q sample_chain F1 5000 [2] = INT_MAX \<and>
      g_pos_immediate_final_height F2 = - 1 \<and>
      g_pos_immediate_final_height (UpdateTip_finality G Q sample_chain 5000 5 [2] (started_state [2])) = 1"
proof -
  let ?Q = "sample_finality 10" and ?G = sample_rules_env
  let ?passes = "[(1005, 1, [2]), (5000, 5, [2])] :: (int \<times> int \<times> block_ptr) list"
  have self: "uncertified_above sample_chain [2] [2]"
    by (rule uncertified_above_self [OF sample_chain_wf sample_chain_lookup(2)]) simp
  have "g_pos_immediate_final_height (fold (\<lambda>(now, now_s, t). UpdateTip_finality ?G ?Q sample_chain now now_s t) ?passes
     (PosRestoreImmediateFinality ?G ?Q sample_chain None 1000 1 (Some [3]) initial_finality)) = - 1"
    by (rule floor_hides_certified_block [OF sample_chain_wf sample_chain_lookup(3), where b = "[2]"]) (use self in simp_all)
  then show ?thesis
    by (simp add: started_state_def [symmetric]) (simp add: started_state_simps pass_eval initial_finality_def)
qed

end
