(* ===== verification/HeaderRules.thy ===== *)
theory HeaderRules
  imports Finality RecordRules
begin

text \<open>
  The rules on a block header (\<open>ContextualCheckBlockHeader\<close>, \<open>AcceptBlockHeader\<close> and
  \<open>ProcessNewBlockHeaders\<close> of \<open>src/validation.cpp\<close>): checkpoints, finality, spacing, and the anchor in the
  parent chain. What the parent chain says, the proof of a block, and the dynamic federation are
  arguments. The theory shows that the anchors of any index built from accepted headers never go back
  along a branch, that an accepted header does not fork below the final points, and that the index
  keeps its shape.
\<close>

section \<open>Context\<close>

record full_header = BlockHeader +
  hd_nVersion :: int
  hd_block_height :: u32

datatype AnchorCheckResult = ANCHOR_OK | ANCHOR_NOT_FOUND | ANCHOR_STALE | ANCHOR_HEIGHT_MISMATCH | ANCHOR_NO_CONNECTION

record header_env =
  g_signed_blocks :: bool
  g_con_blockheightinheader :: bool
  hashGenesis :: uint256
  pos_block_spacing :: int
  pos_block_spacing_height :: int
  BIP34Height :: int
  BIP65Height :: int
  BIP66Height :: int
  fCheckpointsEnabled :: bool
  mapCheckpoints :: "(int, uint256) fmap"
  g_pos_finalized :: "(int \<times> uint256) option"
  config_checkpoints :: "(int, uint256) fmap"
  CheckProof :: "full_header \<Rightarrow> bool"
  CheckChallenge :: "full_header \<Rightarrow> block_ptr \<Rightarrow> bool"
  DynaFedActiveAfter :: "block_ptr \<Rightarrow> bool"
  ContextualCheckDynaFedHeader :: "full_header \<Rightarrow> block_ptr \<Rightarrow> verdict"
  CheckMainchainAnchor :: "u32 \<Rightarrow> uint256 \<Rightarrow> AnchorCheckResult"

abbreviation MAX_FUTURE_BLOCK_TIME :: int where "MAX_FUTURE_BLOCK_TIME \<equiv> 2 * 60 * 60"
abbreviation BLOCK_FAILED_VALID :: u32 where "BLOCK_FAILED_VALID \<equiv> 32"
abbreviation BLOCK_FAILED_ANCHOR :: u32 where "BLOCK_FAILED_ANCHOR \<equiv> 512"

definition PosBlockSpacingActiveAt :: "header_env \<Rightarrow> int \<Rightarrow> bool" where
  "PosBlockSpacingActiveAt H height \<longleftrightarrow>
     pos_block_spacing H > 0 \<and> pos_block_spacing_height H > 0 \<and> height \<ge> pos_block_spacing_height H"

text \<open>The last of the checkpoints whose block is in the index.\<close>

definition GetLastCheckpoint :: "header_env \<Rightarrow> block_tree \<Rightarrow> block_ptr option" where
  "GetLastCheckpoint H T = find (\<lambda>hash. fmlookup T hash \<noteq> None) (map snd (rev (fm_entries (mapCheckpoints H))))"

section \<open>The rules, in their order\<close>

text \<open>Each rule is a refusal or nothing; the first refusal is the verdict.\<close>

definition refuse_if :: "bool \<Rightarrow> BlockValidationResult \<Rightarrow> string \<Rightarrow> verdict" where
  "refuse_if c r reason = (if c then Some (r, reason) else None)"

definition stands :: "block_tree \<Rightarrow> uint256 \<Rightarrow> bool" where
  "stands T hash = (case fmlookup T hash of None \<Rightarrow> False | Some e \<Rightarrow> \<not> BlockFailed e)"

definition rule_finalized :: "header_env \<Rightarrow> block_tree \<Rightarrow> block_ptr \<Rightarrow> int \<Rightarrow> verdict" where
  "rule_finalized H T prev height =
     (case g_pos_finalized H of None \<Rightarrow> None
      | Some (fin_height, fin_hash) \<Rightarrow>
          refuse_if (\<not> (case fmlookup T fin_hash of None \<Rightarrow> False | Some e \<Rightarrow> BlockFailed e) \<and>
                     (height \<le> fin_height \<or> GetAncestor T prev fin_height \<noteq> Some fin_hash))
            BLOCK_CHECKPOINT ''bad-fork-prior-to-pos-checkpoint'')"

definition rule_configured :: "header_env \<Rightarrow> block_tree \<Rightarrow> full_header \<Rightarrow> block_ptr \<Rightarrow> int \<Rightarrow> verdict" where
  "rule_configured H T block prev height =
     (let cps = GetConfiguredPosCheckpoints (config_checkpoints H)
      in if (case fmlookup cps height of None \<Rightarrow> False | Some hash \<Rightarrow> hd_hash block \<noteq> hash)
         then Some (BLOCK_CHECKPOINT, ''bad-pos-checkpoint'')
         else let below = filter (\<lambda>(h, _). h \<le> height - 1) (fm_entries cps)
           in if below = [] then None
              else let (h, hash) = last below
                in refuse_if (case GetAncestor T prev h of None \<Rightarrow> False | Some a \<Rightarrow> a \<noteq> hash)
                     BLOCK_CHECKPOINT ''bad-fork-prior-to-pos-checkpoint'')"

definition rule_final :: "rules_env \<Rightarrow> finality_env \<Rightarrow> block_tree \<Rightarrow> finality_state \<Rightarrow> block_ptr \<Rightarrow> int \<Rightarrow> verdict" where
  "rule_final G Q T F prev height =
     refuse_if ((\<not> g_con_bitcoin_anchor G \<or> g_validate_anchor G) \<and> \<not> g_pos_reconcile Q \<and> g_pos_immediate_final_height F \<ge> 0 \<and>
                stands T (g_pos_immediate_final_hash F) \<and>
                (height \<le> g_pos_immediate_final_height F \<or>
                 GetAncestor T prev (g_pos_immediate_final_height F) \<noteq> Some (g_pos_immediate_final_hash F)))
       BLOCK_RECENT_CONSENSUS_CHANGE ''bad-fork-prior-to-pos-final''"

definition rule_checkpoint :: "header_env \<Rightarrow> block_tree \<Rightarrow> int \<Rightarrow> verdict" where
  "rule_checkpoint H T height =
     refuse_if (fCheckpointsEnabled H \<and>
                (case GetLastCheckpoint H T of None \<Rightarrow> False | Some p \<Rightarrow> height < e_nHeight (the (fmlookup T p))))
       BLOCK_CHECKPOINT ''bad-fork-prior-to-checkpoint''"

definition rule_times :: "header_env \<Rightarrow> block_tree \<Rightarrow> full_header \<Rightarrow> block_ptr \<Rightarrow> int \<Rightarrow> verdict list" where
  "rule_times H T block prev height =
     [refuse_if (uint (hd_nTime block) \<le> GetMedianTimePast T prev) BLOCK_INVALID_HEADER ''time-too-old'',
      refuse_if (PosBlockSpacingActiveAt H height \<and>
                 uint (hd_nTime block) < uint (e_nTime (the (fmlookup T prev))) + pos_block_spacing H)
        BLOCK_INVALID_HEADER ''bad-pos-spacing'']"

text \<open>R1, R2 and its converse, R3.\<close>

definition rule_anchor ::
  "rules_env \<Rightarrow> header_env \<Rightarrow> rule_params \<Rightarrow> BlockEntry \<Rightarrow> full_header \<Rightarrow> int \<Rightarrow> verdict list" where
  "rule_anchor G H P prev block height =
     (let same_hash = (hd_anchor_hash block = e_anchor_hash prev);
          same_height = (hd_anchor_height block = e_anchor_height prev);
          prev_null = (e_anchor_hash prev = uint256_zero);
          anchor_unchanged = (same_hash \<and> (\<not> PosHardeningActiveAt P height \<or> same_height))
      in if \<not> g_con_bitcoin_anchor G then []
         else [refuse_if (hd_anchor_hash block = uint256_zero) BLOCK_INVALID_HEADER ''bad-anchor-missing'',
               refuse_if (hd_anchor_height block < e_anchor_height prev) BLOCK_INVALID_HEADER ''bad-anchor-not-monotonic'',
               refuse_if (same_height \<and> \<not> prev_null \<and> \<not> same_hash) BLOCK_INVALID_HEADER ''bad-anchor-conflict'',
               refuse_if (PosHardeningActiveAt P height \<and> \<not> prev_null \<and> same_hash \<and> \<not> same_height)
                 BLOCK_INVALID_HEADER ''bad-anchor-height-conflict'',
               (if g_validate_anchor G \<and> \<not> anchor_unchanged
                then (case CheckMainchainAnchor H (hd_anchor_height block) (hd_anchor_hash block) of
                        ANCHOR_OK \<Rightarrow> None
                      | ANCHOR_NOT_FOUND \<Rightarrow> Some (BLOCK_RECENT_CONSENSUS_CHANGE, ''anchor-unknown'')
                      | ANCHOR_STALE \<Rightarrow> Some (BLOCK_RECENT_CONSENSUS_CHANGE, ''anchor-stale'')
                      | ANCHOR_HEIGHT_MISMATCH \<Rightarrow> Some (BLOCK_INVALID_HEADER, ''bad-anchor-height-mismatch'')
                      | ANCHOR_NO_CONNECTION \<Rightarrow> Some (BLOCK_RECENT_CONSENSUS_CHANGE, ''anchor-unverifiable''))
                else None)])"

definition outdated_version :: "header_env \<Rightarrow> full_header \<Rightarrow> int \<Rightarrow> bool" where
  "outdated_version H block height \<longleftrightarrow>
     hd_nVersion block < 2 \<and> height \<ge> BIP34Height H \<or> hd_nVersion block < 3 \<and> height \<ge> BIP66Height H \<or>
     hd_nVersion block < 4 \<and> height \<ge> BIP65Height H"

definition ContextualCheckBlockHeader ::
  "rules_env \<Rightarrow> finality_env \<Rightarrow> header_env \<Rightarrow> rule_params \<Rightarrow> block_tree \<Rightarrow> finality_state \<Rightarrow> full_header \<Rightarrow> block_ptr \<Rightarrow> int \<Rightarrow> verdict" where
  "ContextualCheckBlockHeader G Q H P T F block prev nAdjustedTime =
     (let e = the (fmlookup T prev); height = e_nHeight e + 1
      in first_refusal
        ([refuse_if (\<not> DynaFedActiveAfter H prev \<and> \<not> CheckChallenge H block prev) BLOCK_INVALID_HEADER ''bad-diffbits''] @
         (if g_con_pos G
          then [rule_finalized H T prev height, rule_configured H T block prev height, rule_final G Q T F prev height] else []) @
         [rule_checkpoint H T height] @ rule_times H T block prev height @
         [refuse_if (g_con_blockheightinheader H \<and> word_of_int height \<noteq> hd_block_height block)
            BLOCK_INVALID_HEADER ''bad-header-height''] @
         rule_anchor G H P e block height @
         [refuse_if (uint (hd_nTime block) > nAdjustedTime + MAX_FUTURE_BLOCK_TIME) BLOCK_TIME_FUTURE ''time-too-new'',
          refuse_if (outdated_version H block height) BLOCK_INVALID_HEADER ''bad-version'',
          ContextualCheckDynaFedHeader H block prev]))"

section \<open>Accepting headers\<close>

record header_state =
  hs_manager :: BlockManager
  m_failed_blocks :: "block_ptr list"
  m_anchor_invalidating :: "block_ptr option"

text \<open>The bottom of the run of failed blocks that ends at \<open>p\<close>.\<close>

fun failed_root :: "nat \<Rightarrow> block_tree \<Rightarrow> block_ptr \<Rightarrow> block_ptr" where
  "failed_root 0 T p = p"
| "failed_root (Suc n) T p =
     (case e_pprev (the (fmlookup T p)) of None \<Rightarrow> p
      | Some q \<Rightarrow> if BlockFailed (the (fmlookup T q)) then failed_root n T q else p)"

definition IsAnchorOrphaned :: "block_tree \<Rightarrow> block_ptr option \<Rightarrow> block_ptr \<Rightarrow> bool" where
  "IsAnchorOrphaned T invalidating p =
     ((case invalidating of None \<Rightarrow> False | Some i \<Rightarrow> GetAncestor T p (e_nHeight (the (fmlookup T i))) = Some i) \<or>
      (let root = failed_root (nat (e_nHeight (the (fmlookup T p)))) T p
       in e_nStatus (the (fmlookup T root)) AND BLOCK_FAILED_ANCHOR \<noteq> 0))"

definition CheckBlockHeader :: "header_env \<Rightarrow> full_header \<Rightarrow> verdict" where
  "CheckBlockHeader H block =
     refuse_if (hd_hash block \<noteq> hashGenesis H \<and> \<not> CheckProof H block) BLOCK_INVALID_HEADER
       (if g_signed_blocks H then ''block-proof-invalid'' else ''high-hash'')"

definition invalid_prev :: "header_state \<Rightarrow> block_tree \<Rightarrow> block_ptr \<Rightarrow> verdict" where
  "invalid_prev S T prev =
     (if IsAnchorOrphaned T (m_anchor_invalidating S) prev
      then Some (BLOCK_RECENT_CONSENSUS_CHANGE, ''bad-prevblk-anchor-orphaned'') else Some (BLOCK_INVALID_PREV, ''bad-prevblk''))"

text \<open>Marks the blocks from \<open>p\<close> down to the failed block, which is left out.\<close>

fun mark_failed :: "nat \<Rightarrow> block_ptr \<Rightarrow> block_ptr \<Rightarrow> block_tree \<Rightarrow> block_tree" where
  "mark_failed 0 failed p T = T"
| "mark_failed (Suc n) failed p T =
     (if p = failed then T
      else case fmlookup T p of None \<Rightarrow> T
        | Some e \<Rightarrow>
            let T = fmupd p (e\<lparr>e_nStatus := e_nStatus e OR BLOCK_FAILED_CHILD\<rparr>) T
            in case e_pprev e of None \<Rightarrow> T | Some q \<Rightarrow> mark_failed n failed q T)"

definition failed_ancestor :: "block_tree \<Rightarrow> block_ptr list \<Rightarrow> block_ptr \<Rightarrow> block_ptr option" where
  "failed_ancestor T failed prev = find (\<lambda>f. GetAncestor T prev (e_nHeight (the (fmlookup T f))) = Some f) failed"

text \<open>The new state, the verdict, the entry and whether the header was known. The result is \<open>None\<close> where
  the assertion on a failed block does not hold.\<close>

type_synonym accept_result = "(header_state \<times> verdict \<times> block_ptr option \<times> bool) option"

definition add_header :: "header_env \<Rightarrow> full_header \<Rightarrow> header_state \<Rightarrow> accept_result" where
  "add_header H block S =
     (let (B, p) = AddToBlockIndex (g_signed_blocks H) (BlockHeader.truncate block) (hs_manager S)
      in Some (S\<lparr>hs_manager := B\<rparr>, None, Some p, False))"

definition AcceptBlockHeader ::
  "rules_env \<Rightarrow> finality_env \<Rightarrow> header_env \<Rightarrow> rule_params \<Rightarrow> finality_state \<Rightarrow> int \<Rightarrow> full_header \<Rightarrow> header_state \<Rightarrow> accept_result" where
  "AcceptBlockHeader G Q H P F nAdjustedTime block S =
     (let hash = hd_hash block; T = m_block_index (hs_manager S)
      in if hash = hashGenesis H then add_header H block S
         else case fmlookup T hash of
             Some e \<Rightarrow>
               if \<not> BlockFailed e then Some (S, None, Some hash, True)
               else if IsAnchorOrphaned T (m_anchor_invalidating S) hash
               then Some (S, Some (BLOCK_RECENT_CONSENSUS_CHANGE, ''duplicate-anchor-orphaned''), Some hash, True)
               else Some (S, Some (BLOCK_CACHED_INVALID, ''duplicate''), Some hash, True)
           | None \<Rightarrow>
              (case CheckBlockHeader H block of
                 Some v \<Rightarrow> Some (S, Some v, None, False)
               | None \<Rightarrow>
                   let prev = hashPrevBlock block
                   in case fmlookup T prev of
                       None \<Rightarrow> Some (S, Some (BLOCK_MISSING_PREV, ''prev-blk-not-found''), None, False)
                     | Some eprev \<Rightarrow>
                         if BlockFailed eprev then Some (S, invalid_prev S T prev, None, False)
                         else case ContextualCheckBlockHeader G Q H P T F block prev nAdjustedTime of
                             Some v \<Rightarrow> Some (S, Some v, None, False)
                           | None \<Rightarrow>
                               if Index_IsValid BLOCK_VALID_SCRIPTS eprev then add_header H block S
                               else case failed_ancestor T (m_failed_blocks S) prev of
                                   None \<Rightarrow> add_header H block S
                                 | Some f \<Rightarrow>
                                     if e_nStatus (the (fmlookup T f)) AND BLOCK_FAILED_VALID = 0 then None
                                     else let T' = mark_failed (nat (e_nHeight eprev) + 1) f prev T;
                                              S' = S\<lparr>hs_manager := (hs_manager S)\<lparr>m_block_index := T'\<rparr>\<rparr>
                                       in Some (S', invalid_prev S T' prev, None, False)))"

text \<open>A batch of headers stops at the first that is refused.\<close>

fun ProcessNewBlockHeaders ::
  "rules_env \<Rightarrow> finality_env \<Rightarrow> header_env \<Rightarrow> rule_params \<Rightarrow> finality_state \<Rightarrow> int \<Rightarrow> full_header list
   \<Rightarrow> header_state \<Rightarrow> block_ptr option \<Rightarrow> bool \<Rightarrow> (header_state \<times> verdict \<times> block_ptr option \<times> bool) option" where
  "ProcessNewBlockHeaders G Q H P F now [] S ppindex all_duplicate = Some (S, None, ppindex, all_duplicate)"
| "ProcessNewBlockHeaders G Q H P F now (h # rest) S ppindex all_duplicate =
     (case AcceptBlockHeader G Q H P F now h S of
        None \<Rightarrow> None
      | Some (S', Some v, p, dup) \<Rightarrow> Some (S', Some v, ppindex, all_duplicate \<and> dup)
      | Some (S', None, p, dup) \<Rightarrow> ProcessNewBlockHeaders G Q H P F now rest S' p (all_duplicate \<and> dup))"

section \<open>What acceptance keeps\<close>

text \<open>Along a branch the anchor never goes back, and stays the same block while its height does.\<close>

definition anchors_ordered :: "block_tree \<Rightarrow> bool" where
  "anchors_ordered T \<longleftrightarrow>
     (\<forall>p e q eq. fmlookup T p = Some e \<longrightarrow> e_pprev e = Some q \<longrightarrow> fmlookup T q = Some eq \<longrightarrow>
        e_anchor_height eq \<le> e_anchor_height e \<and>
        (e_anchor_height e = e_anchor_height eq \<longrightarrow> e_anchor_hash eq \<noteq> uint256_zero \<longrightarrow> e_anchor_hash e = e_anchor_hash eq))"

text \<open>Marking entries changes no link and no anchor.\<close>

definition same_shape :: "BlockEntry \<Rightarrow> BlockEntry \<Rightarrow> bool" where
  "same_shape a b \<longleftrightarrow> e_pprev a = e_pprev b \<and> e_pskip a = e_pskip b \<and> e_nHeight a = e_nHeight b \<and>
     e_anchor_height a = e_anchor_height b \<and> e_anchor_hash a = e_anchor_hash b"

definition tree_shape :: "block_tree \<Rightarrow> block_tree \<Rightarrow> bool" where
  "tree_shape T T' \<longleftrightarrow> (\<forall>p. rel_option same_shape (fmlookup T p) (fmlookup T' p))"

lemma tree_shape_refl: "tree_shape T T"
  by (auto simp: tree_shape_def option.rel_refl same_shape_def)

lemma tree_shape_trans:
  assumes "tree_shape T T'" "tree_shape T' T''"
  shows "tree_shape T T''"
proof -
  have "rel_option same_shape x y \<Longrightarrow> rel_option same_shape y z \<Longrightarrow> rel_option same_shape x z" for x y z
    by (cases x; cases y; cases z) (auto simp: same_shape_def)
  then show ?thesis using assms unfolding tree_shape_def by blast
qed

lemma tree_shape_lookup:
  assumes "tree_shape T T'"
  shows "fmlookup T' p = Some e' \<Longrightarrow> \<exists>e. fmlookup T p = Some e \<and> same_shape e e'"
    and "fmlookup T p = Some e \<Longrightarrow> \<exists>e'. fmlookup T' p = Some e' \<and> same_shape e e'"
proof -
  have r: "rel_option same_shape (fmlookup T p) (fmlookup T' p)" using assms by (simp add: tree_shape_def)
  show "fmlookup T' p = Some e' \<Longrightarrow> \<exists>e. fmlookup T p = Some e \<and> same_shape e e'" using r by (cases "fmlookup T p") auto
  show "fmlookup T p = Some e \<Longrightarrow> \<exists>e'. fmlookup T' p = Some e' \<and> same_shape e e'" using r by (cases "fmlookup T' p") auto
qed

lemma tree_shape_prev: "tree_shape T T' \<Longrightarrow> prev_n T' n p = prev_n T n p"
proof (induction n arbitrary: p)
  case (Suc n)
  have "rel_option same_shape (fmlookup T p) (fmlookup T' p)" using Suc.prems by (simp add: tree_shape_def)
  then show ?case using Suc.IH [OF Suc.prems]
    by (cases "fmlookup T p"; cases "fmlookup T' p") (auto simp: same_shape_def split: option.splits)
qed simp

lemma tree_shape_wf:
  assumes "tree_shape T T'" "tree_wf T"
  shows "tree_wf T'"
  unfolding tree_wf_def
proof (intro allI impI)
  fix p e'
  assume "fmlookup T' p = Some e'"
  then obtain e where e: "fmlookup T p = Some e" "same_shape e e'" using tree_shape_lookup(1) [OF assms(1)] by blast
  then have wf: "entry_wf T p e" using assms(2) by (simp add: tree_wf_def)
  then have "e_nHeight e' = e_nHeight eq' + 1 \<and> fmlookup T' q = Some eq'" if "e_pprev e' = Some q" "fmlookup T' q = Some eq'" for q eq'
    using e(2) that tree_shape_lookup(1) [OF assms(1) that(2)] by (auto simp: entry_wf_def same_shape_def)
  moreover have "\<exists>eq'. fmlookup T' q = Some eq'" if "e_pprev e' = Some q" for q
    using wf e(2) that tree_shape_lookup(2) [OF assms(1)] by (fastforce simp: entry_wf_def same_shape_def)
  ultimately show "entry_wf T' p e'"
    using wf e(2) tree_shape_prev [OF assms(1)]
    by (auto simp: entry_wf_def same_shape_def split: option.splits)
qed

lemma tree_shape_anchors:
  assumes "tree_shape T T'" "anchors_ordered T"
  shows "anchors_ordered T'"
  unfolding anchors_ordered_def
proof (intro allI impI)
  fix p e' q eq'
  assume l: "fmlookup T' p = Some e'" "e_pprev e' = Some q" "fmlookup T' q = Some eq'"
  obtain e eq where "fmlookup T p = Some e" "same_shape e e'" "fmlookup T q = Some eq" "same_shape eq eq'"
    using tree_shape_lookup(1) [OF assms(1) l(1)] tree_shape_lookup(1) [OF assms(1) l(3)] by blast
  then show "e_anchor_height eq' \<le> e_anchor_height e' \<and>
      (e_anchor_height e' = e_anchor_height eq' \<longrightarrow> e_anchor_hash eq' \<noteq> uint256_zero \<longrightarrow> e_anchor_hash e' = e_anchor_hash eq')"
    using assms(2) l(2) by (fastforce simp: anchors_ordered_def same_shape_def)
qed

lemma mark_failed_shape: "tree_shape T (mark_failed n failed p T)"
proof (induction n failed p T rule: mark_failed.induct)
  case (2 n failed p T)
  show ?case
  proof (cases "p = failed \<or> fmlookup T p = None")
    case False
    then obtain e where e: "fmlookup T p = Some e" by auto
    let ?T = "fmupd p (e\<lparr>e_nStatus := e_nStatus e OR BLOCK_FAILED_CHILD\<rparr>) T"
    have "tree_shape T ?T" using e tree_shape_refl [of T] by (auto simp: tree_shape_def same_shape_def)
    then show ?thesis using e False 2 [of e ?T] by (auto simp: Let_def split: option.splits intro: tree_shape_trans)
  qed (auto simp: tree_shape_refl)
qed (simp add: tree_shape_refl)

lemma AddToBlockIndex_index:
  "m_block_index (fst (AddToBlockIndex g block B)) =
     (if fmlookup (m_block_index B) (hd_hash block) \<noteq> None then m_block_index B
      else fmupd (hd_hash block) (link_entry g (fmupd (hd_hash block) (new_entry block) (m_block_index B)) block) (m_block_index B))"
  "snd (AddToBlockIndex g block B) = hd_hash block"
  by (auto simp: AddToBlockIndex_def Let_def)

lemma link_entry_anchor:
  "e_anchor_height (link_entry g T block) = hd_anchor_height block" "e_anchor_hash (link_entry g T block) = hd_anchor_hash block"
  by (simp_all add: link_entry_def new_entry_def BuildSkip_def Let_def split: option.splits)

lemma truncate_header [simp]:
  "hd_hash (BlockHeader.truncate block) = hd_hash block" "hashPrevBlock (BlockHeader.truncate block) = hashPrevBlock block"
  "hd_anchor_height (BlockHeader.truncate block) = hd_anchor_height block" "hd_anchor_hash (BlockHeader.truncate block) = hd_anchor_hash block"
  by (simp_all add: BlockHeader.truncate_def)

text \<open>What acceptance does to the index: nothing but marks, or the new entry, and that only if the block is
  the first one or passes every rule on a predecessor that has not failed.\<close>

lemma AcceptBlockHeader_cases:
  assumes "AcceptBlockHeader G Q H P F now block S = Some (S', v, p, dup)"
  obtains (marked) "tree_shape (m_block_index (hs_manager S)) (m_block_index (hs_manager S'))" "v \<noteq> None \<or> dup"
  | (added) "v = None" "p = Some (hd_hash block)" "\<not> dup"
      "hs_manager S' = fst (AddToBlockIndex (g_signed_blocks H) (BlockHeader.truncate block) (hs_manager S))"
      "hd_hash block = hashGenesis H \<or>
       fmlookup (m_block_index (hs_manager S)) (hd_hash block) = None \<and>
       fmlookup (m_block_index (hs_manager S)) (hashPrevBlock block) \<noteq> None \<and>
       ContextualCheckBlockHeader G Q H P (m_block_index (hs_manager S)) F block (hashPrevBlock block) now = None"
proof -
  let ?T = "m_block_index (hs_manager S)"
  have add: "hs_manager S' = fst (AddToBlockIndex (g_signed_blocks H) (BlockHeader.truncate block) (hs_manager S)) \<and>
      v = None \<and> p = Some (hd_hash block) \<and> \<not> dup" if "add_header H block S = Some (S', v, p, dup)"
    using that AddToBlockIndex_index(2) [of "g_signed_blocks H" "BlockHeader.truncate block" "hs_manager S"]
    by (auto simp: add_header_def split_def)
  have marks: "tree_shape ?T ?T" "tree_shape ?T (mark_failed n f q ?T)" for n f q
    by (simp_all add: tree_shape_refl mark_failed_shape)
  have inv: "invalid_prev S T' q \<noteq> None" for T' q by (simp add: invalid_prev_def)
  note eq = assms [unfolded AcceptBlockHeader_def Let_def]
  show thesis
  proof (cases "hd_hash block = hashGenesis H")
    case True
    then show ?thesis using eq add that(2) by simp
  next
    case g: False
    show ?thesis
    proof (cases "fmlookup ?T (hd_hash block) \<noteq> None \<or> CheckBlockHeader H block \<noteq> None \<or>
        fmlookup ?T (hashPrevBlock block) = None \<or> BlockFailed (the (fmlookup ?T (hashPrevBlock block))) \<or>
        ContextualCheckBlockHeader G Q H P ?T F block (hashPrevBlock block) now \<noteq> None")
      case True
      then have "S' = S \<and> (v \<noteq> None \<or> dup)" using eq g inv by (auto split: option.splits if_splits) metis+
      then show ?thesis using that(1) marks(1) by simp
    next
      case False
      then obtain e where "fmlookup ?T (hashPrevBlock block) = Some e" by (metis option.exhaust)
      with False have e: "fmlookup ?T (hd_hash block) = None" "CheckBlockHeader H block = None"
        "fmlookup ?T (hashPrevBlock block) = Some e" "\<not> BlockFailed e"
        "ContextualCheckBlockHeader G Q H P ?T F block (hashPrevBlock block) now = None" by (blast, blast, blast, simp, blast)
      note eq' = eq [unfolded if_not_P [OF g] e option.case if_not_P [OF e(4)]]
      show ?thesis
      proof (cases "add_header H block S = Some (S', v, p, dup)")
        case True
        then show ?thesis using add that(2) e by simp
      next
        case no: False
        then obtain f where "S' = S\<lparr>hs_manager := (hs_manager S)\<lparr>m_block_index := mark_failed (nat (e_nHeight e) + 1) f (hashPrevBlock block) ?T\<rparr>\<rparr>"
            "v \<noteq> None"
          using eq' inv by (auto simp del: mark_failed.simps split: option.splits if_splits)
        then show ?thesis using that(1) marks(2) by (simp del: mark_failed.simps)
      qed
    qed
  qed
qed

lemma refuse_if_None [simp]: "refuse_if c r reason = None \<longleftrightarrow> \<not> c"
  by (simp add: refuse_if_def)

lemma contextual_rules:
  assumes "ContextualCheckBlockHeader G Q H P T F block prev now = None" "fmlookup T prev = Some e"
  shows "g_con_pos G \<Longrightarrow> rule_finalized H T prev (e_nHeight e + 1) = None"
    "g_con_pos G \<Longrightarrow> rule_configured H T block prev (e_nHeight e + 1) = None"
    "g_con_pos G \<Longrightarrow> rule_final G Q T F prev (e_nHeight e + 1) = None"
    "list_all (\<lambda>v. v = None) (rule_times H T block prev (e_nHeight e + 1))"
    "list_all (\<lambda>v. v = None) (rule_anchor G H P e block (e_nHeight e + 1))"
    "uint (hd_nTime block) \<le> now + 7200"
  using assms by (simp_all add: ContextualCheckBlockHeader_def Let_def not_less del: first_refusal.simps)

lemma contextual_anchor:
  assumes "ContextualCheckBlockHeader G Q H P T F block prev now = None" "g_con_bitcoin_anchor G" "fmlookup T prev = Some e"
  shows "e_anchor_height e \<le> hd_anchor_height block"
    "hd_anchor_height block = e_anchor_height e \<Longrightarrow> e_anchor_hash e \<noteq> uint256_zero \<Longrightarrow> hd_anchor_hash block = e_anchor_hash e"
  using contextual_rules(5) [OF assms(1,3)] assms(2) by (auto simp: rule_anchor_def Let_def not_less)

text \<open>The states of the index: from an empty one, through accepted and refused headers, and through anything
  that leaves links and anchors alone. A block is not its own predecessor, and the first block has none.\<close>

inductive header_reach :: "rules_env \<Rightarrow> finality_env \<Rightarrow> header_env \<Rightarrow> rule_params \<Rightarrow> header_state \<Rightarrow> bool" for G Q H P where
  start: "m_block_index (hs_manager S) = fmempty \<Longrightarrow> header_reach G Q H P S"
| accept: "header_reach G Q H P S \<Longrightarrow> hashPrevBlock block \<noteq> hd_hash block \<Longrightarrow>
    (hd_hash block = hashGenesis H \<Longrightarrow> fmlookup (m_block_index (hs_manager S)) (hashPrevBlock block) = None) \<Longrightarrow>
    AcceptBlockHeader G Q H P F now block S = Some (S', v, p, dup) \<Longrightarrow> header_reach G Q H P S'"
| other: "header_reach G Q H P S \<Longrightarrow> tree_shape (m_block_index (hs_manager S)) (m_block_index (hs_manager S')) \<Longrightarrow>
    header_reach G Q H P S'"

lemma anchors_added:
  assumes wf: "tree_wf T" and ord: "anchors_ordered T" and new: "fmlookup T (hd_hash block) = None"
    and e: "e_anchor_height e = hd_anchor_height block" "e_anchor_hash e = hd_anchor_hash block"
      "e_pprev e = (if fmlookup T (hashPrevBlock block) = None then None else Some (hashPrevBlock block))"
    and prev: "\<And>eq. fmlookup T (hashPrevBlock block) = Some eq \<Longrightarrow> e_anchor_height eq \<le> hd_anchor_height block \<and>
      (hd_anchor_height block = e_anchor_height eq \<longrightarrow> e_anchor_hash eq \<noteq> uint256_zero \<longrightarrow> hd_anchor_hash block = e_anchor_hash eq)"
    and self: "hashPrevBlock block \<noteq> hd_hash block"
  shows "anchors_ordered (fmupd (hd_hash block) e T)"
  unfolding anchors_ordered_def
proof (intro allI impI)
  fix p x q eq
  assume l: "fmlookup (fmupd (hd_hash block) e T) p = Some x" "e_pprev x = Some q" "fmlookup (fmupd (hd_hash block) e T) q = Some eq"
  show "e_anchor_height eq \<le> e_anchor_height x \<and>
      (e_anchor_height x = e_anchor_height eq \<longrightarrow> e_anchor_hash eq \<noteq> uint256_zero \<longrightarrow> e_anchor_hash x = e_anchor_hash eq)"
  proof (cases "p = hd_hash block")
    case True
    then have "x = e" "q = hashPrevBlock block" "fmlookup T q = Some eq" using l e(3) self by (auto split: if_splits)
    then show ?thesis using prev [of eq] e by simp
  next
    case False
    then have p: "fmlookup T p = Some x" using l(1) by simp
    obtain eq' where "fmlookup T q = Some eq'" using tree_wf_pprev(3) [OF wf p l(2)] by blast
    then have "fmlookup T q = Some eq" using l(3) new by (auto split: if_splits)
    then show ?thesis using ord p l(2) by (simp add: anchors_ordered_def)
  qed
qed

lemma header_reach_ordered:
  assumes "header_reach G Q H P S" "g_con_bitcoin_anchor G"
  shows "tree_wf (m_block_index (hs_manager S)) \<and> anchors_ordered (m_block_index (hs_manager S))"
  using assms(1)
proof induction
  case (accept S block F now S' v p dup)
  let ?T = "m_block_index (hs_manager S)" and ?b = "BlockHeader.truncate block"
  from accept(4) show ?case
  proof (cases rule: AcceptBlockHeader_cases)
    case marked
    then show ?thesis using accept.IH tree_shape_wf tree_shape_anchors by blast
  next
    case added
    have wf: "tree_wf (m_block_index (hs_manager S'))"
      unfolding added(4) using AddToBlockIndex_wf [of "hs_manager S" ?b] accept.IH accept(2) by simp
    have "anchors_ordered (m_block_index (hs_manager S'))"
    proof (cases "fmlookup ?T (hd_hash block)")
      case None
      have "e_anchor_height eq \<le> hd_anchor_height block \<and>
          (hd_anchor_height block = e_anchor_height eq \<longrightarrow> e_anchor_hash eq \<noteq> uint256_zero \<longrightarrow> hd_anchor_hash block = e_anchor_hash eq)"
        if "fmlookup ?T (hashPrevBlock block) = Some eq" for eq
        using added(5) accept(3) that contextual_anchor [OF _ assms(2) that] by auto
      then have "anchors_ordered (fmupd (hd_hash ?b) (link_entry (g_signed_blocks H) (fmupd (hd_hash ?b) (new_entry ?b) ?T) ?b) ?T)"
        using accept.IH accept(2) None by (intro anchors_added) (auto simp: link_entry_anchor link_entry_links)
      then show ?thesis unfolding added(4) AddToBlockIndex_index(1) using None by simp
    qed (use accept.IH in \<open>simp add: added(4) AddToBlockIndex_index(1)\<close>)
    then show ?thesis using wf by simp
  qed
next
  case (other S S')
  then show ?case using tree_shape_wf tree_shape_anchors by blast
qed (simp add: tree_wf_def anchors_ordered_def)

lemma anchors_along:
  assumes "tree_wf T" "anchors_ordered T" "fmlookup T p = Some e" "ancestor_of T p q eq"
  shows "e_anchor_height eq \<le> e_anchor_height e \<and>
     (e_anchor_height e = e_anchor_height eq \<longrightarrow> e_anchor_hash eq \<noteq> uint256_zero \<longrightarrow> e_anchor_hash e = e_anchor_hash eq)"
  using assms(3,4)
proof (induction "nat (e_nHeight e)" arbitrary: p e rule: less_induct)
  case less
  from assms(1) less.prems show ?case
  proof (cases rule: ancestor_cases)
    case self
    then show ?thesis by simp
  next
    case (below r er)
    have "nat (e_nHeight er) < nat (e_nHeight e)" using below(3) tree_wf_pprev(1) [OF assms(1) below(2)] by simp
    from less.hyps [OF this below(2,4)] have ih: "e_anchor_height eq \<le> e_anchor_height er"
      "e_anchor_height er = e_anchor_height eq \<Longrightarrow> e_anchor_hash eq \<noteq> uint256_zero \<Longrightarrow> e_anchor_hash er = e_anchor_hash eq" by auto
    have step: "e_anchor_height er \<le> e_anchor_height e"
      "e_anchor_height e = e_anchor_height er \<Longrightarrow> e_anchor_hash er \<noteq> uint256_zero \<Longrightarrow> e_anchor_hash e = e_anchor_hash er"
      using assms(2) less.prems(1) below(1,2) by (auto simp: anchors_ordered_def)
    then show ?thesis using ih by (metis order.antisym order.trans)
  qed
qed

section \<open>Two sample headers\<close>

definition sample_header_env :: header_env where
  "sample_header_env =
     \<lparr>g_signed_blocks = True, g_con_blockheightinheader = False, hashGenesis = [1], pos_block_spacing = 60,
      pos_block_spacing_height = 1, BIP34Height = 0, BIP65Height = 0, BIP66Height = 0, fCheckpointsEnabled = False,
      mapCheckpoints = fmempty, g_pos_finalized = Some (0, [1]), config_checkpoints = fmempty, CheckProof = (\<lambda>b. True),
      CheckChallenge = (\<lambda>b p. True), DynaFedActiveAfter = (\<lambda>p. False), ContextualCheckDynaFedHeader = (\<lambda>b p. None),
      CheckMainchainAnchor = (\<lambda>h x. ANCHOR_OK)\<rparr>"

definition anchored_env :: rules_env where
  "anchored_env = sample_rules_env\<lparr>g_con_bitcoin_anchor := True, g_validate_anchor := True\<rparr>"

definition anchored_header :: "8 word \<Rightarrow> 8 word \<Rightarrow> u32 \<Rightarrow> u32 \<Rightarrow> full_header" where
  "anchored_header n p t a = \<lparr>hd_hash = [n], hashPrevBlock = [p], hd_nTime = t, hd_nBits = 0, hd_anchor_height = a,
     hd_anchor_hash = [of_nat (unat a)], hd_nVersion = 4, hd_block_height = 0\<rparr>"

definition empty_headers :: header_state where
  "empty_headers = \<lparr>hs_manager = \<lparr>m_block_index = fmempty, pindexBestHeader = None\<rparr>, m_failed_blocks = [], m_anchor_invalidating = None\<rparr>"

definition first_entry :: BlockEntry where
  "first_entry = \<lparr>e_pprev = None, e_pskip = None, e_nHeight = 0, e_nChainWork = 1, e_nChainTx = 0, e_nStatus = 2,
     e_nTime = 0, e_nBits = 0, e_anchor_height = 5, e_anchor_hash = [5], e_nSequenceId = 0, e_nTimeMax = 0, e_pos_countersigs = 0,
     e_pos_vrf_score = - 1, e_pos_certified = False, e_pos_cert_known = False, e_pos_child_quorum = - 1\<rparr>"

definition first_state :: header_state where
  "first_state = empty_headers\<lparr>hs_manager := \<lparr>m_block_index = fmupd [1] first_entry fmempty, pindexBestHeader = Some [1]\<rparr>\<rparr>"

definition second_entry :: BlockEntry where
  "second_entry = \<lparr>e_pprev = Some [1], e_pskip = Some [1], e_nHeight = 1, e_nChainWork = 2, e_nChainTx = 0, e_nStatus = 2,
     e_nTime = 60, e_nBits = 0, e_anchor_height = 6, e_anchor_hash = [6], e_nSequenceId = 0, e_nTimeMax = 60, e_pos_countersigs = 0,
     e_pos_vrf_score = - 1, e_pos_certified = False, e_pos_cert_known = False, e_pos_child_quorum = - 1\<rparr>"

definition second_state :: header_state where
  "second_state = empty_headers\<lparr>hs_manager :=
     \<lparr>m_block_index = fmupd [2] second_entry (fmupd [1] first_entry fmempty), pindexBestHeader = Some [2]\<rparr>\<rparr>"

lemma accept_first:
  "AcceptBlockHeader anchored_env (sample_finality 0) sample_header_env P initial_finality 0 (anchored_header 1 0 0 5) empty_headers =
     Some (first_state, None, Some [1], False)"
  by (simp add: AcceptBlockHeader_def add_header_def sample_header_env_def anchored_header_def empty_headers_def first_state_def
    first_entry_def BlockHeader.truncate_def tree_eval)

lemma first_median: "GetMedianTimePast (fmupd [1] first_entry fmempty) [1] = 0"
  by (simp add: GetMedianTimePast_def first_entry_def numeral_eq_Suc)

lemma short_hash [simp]: "[b] \<noteq> uint256_zero"
  by (simp add: uint256_zero_def numeral_eq_Suc)

lemma first_rules:
  "ContextualCheckBlockHeader anchored_env (sample_finality 0) sample_header_env sample_rules (fmupd [1] first_entry fmempty)
     initial_finality (anchored_header 2 1 60 6) [1] 0 = None"
  by (simp add: ContextualCheckBlockHeader_def sample_header_env_def anchored_header_def first_entry_def refuse_if_def
    rule_finalized_def rule_configured_def rule_final_def rule_checkpoint_def rule_times_def rule_anchor_def tree_eval
    first_median [unfolded first_entry_def] PosBlockSpacingActiveAt_def anchored_env_def sample_rules_env_def initial_finality_def outdated_version_def
    GetConfiguredPosCheckpoints_def)

lemma accept_second:
  "AcceptBlockHeader anchored_env (sample_finality 0) sample_header_env sample_rules initial_finality 0 (anchored_header 2 1 60 6)
     first_state = Some (second_state, None, Some [2], False)"
proof -
  have "BlockFailed first_entry = False" "failed_ancestor T [] p = None" "Index_IsValid BLOCK_VALID_SCRIPTS first_entry = False" for T p
    by (simp_all add: first_entry_def failed_ancestor_def Index_IsValid_def tree_eval)
  moreover have "add_header sample_header_env (anchored_header 2 1 60 6) first_state = Some (second_state, None, Some [2], False)"
    by (simp add: add_header_def sample_header_env_def anchored_header_def empty_headers_def first_state_def second_state_def
      second_entry_def first_entry_def BlockHeader.truncate_def tree_eval)
  moreover have "CheckBlockHeader sample_header_env b = None" for b
    by (simp add: CheckBlockHeader_def sample_header_env_def refuse_if_def)
  ultimately show ?thesis using first_rules
    by (simp add: AcceptBlockHeader_def first_state_def empty_headers_def anchored_header_def sample_header_env_def)
qed

lemma second_reach: "header_reach anchored_env (sample_finality 0) sample_header_env sample_rules second_state"
proof -
  have "header_reach anchored_env (sample_finality 0) sample_header_env sample_rules empty_headers"
    by (rule header_reach.start) (simp add: empty_headers_def)
  then have "header_reach anchored_env (sample_finality 0) sample_header_env sample_rules first_state"
    by (rule header_reach.accept [OF _ _ _ accept_first]) (simp_all add: anchored_header_def empty_headers_def)
  then show ?thesis
    by (rule header_reach.accept [OF _ _ _ accept_second]) (simp_all add: anchored_header_def sample_header_env_def)
qed

text \<open>A third header, on a node whose immediately final block is the second, and a rival of the second.\<close>

definition third_entry :: BlockEntry where
  "third_entry = first_entry\<lparr>e_pprev := Some [2], e_pskip := Some [1], e_nHeight := 2, e_nChainWork := 3, e_nTime := 120,
     e_anchor_height := 6, e_anchor_hash := [6], e_nTimeMax := 120\<rparr>"

definition third_state :: header_state where
  "third_state = empty_headers\<lparr>hs_manager :=
     \<lparr>m_block_index = fmupd [3] third_entry (fmupd [2] second_entry (fmupd [1] first_entry fmempty)), pindexBestHeader = Some [3]\<rparr>\<rparr>"

lemma second_median: "GetMedianTimePast (fmupd [2] second_entry (fmupd [1] first_entry fmempty)) [2] = 60"
proof -
  have "past_times (Suc (Suc (Suc n))) (fmupd [2] second_entry (fmupd [1] first_entry fmempty)) (Some [2]) = [60, 0]" for n
    by (simp add: second_entry_def first_entry_def)
  from this [of 8] show ?thesis by (simp add: GetMedianTimePast_def)
qed

lemma third_rules:
  "ContextualCheckBlockHeader anchored_env (sample_finality 0) sample_header_env sample_rules
     (fmupd [2] second_entry (fmupd [1] first_entry fmempty)) settled_state (anchored_header 3 2 120 6) [2] 0 = None"
  by (simp add: ContextualCheckBlockHeader_def sample_header_env_def anchored_header_def second_entry_def first_entry_def refuse_if_def
    rule_finalized_def rule_configured_def rule_final_def rule_checkpoint_def rule_times_def rule_anchor_def tree_eval
    second_median [unfolded second_entry_def first_entry_def] PosBlockSpacingActiveAt_def anchored_env_def sample_rules_env_def
    settled_state_final outdated_version_def GetConfiguredPosCheckpoints_def)

lemma rival_refused:
  "ContextualCheckBlockHeader anchored_env (sample_finality 0) sample_header_env sample_rules
     (fmupd [2] second_entry (fmupd [1] first_entry fmempty)) settled_state (anchored_header 4 1 60 6) [1] 0 =
   Some (BLOCK_RECENT_CONSENSUS_CHANGE, ''bad-fork-prior-to-pos-final'')"
  by (simp add: ContextualCheckBlockHeader_def sample_header_env_def anchored_header_def second_entry_def first_entry_def refuse_if_def
    rule_finalized_def rule_configured_def rule_final_def tree_eval anchored_env_def sample_rules_env_def sample_finality_def
    settled_state_final GetConfiguredPosCheckpoints_def stands_def)

lemma accept_third:
  "AcceptBlockHeader anchored_env (sample_finality 0) sample_header_env sample_rules settled_state 0 (anchored_header 3 2 120 6)
     second_state = Some (third_state, None, Some [3], False)"
proof -
  have "BlockFailed second_entry = False" "failed_ancestor T [] p = None" "Index_IsValid BLOCK_VALID_SCRIPTS second_entry = False" for T p
    by (simp_all add: second_entry_def first_entry_def failed_ancestor_def Index_IsValid_def tree_eval)
  moreover have "add_header sample_header_env (anchored_header 3 2 120 6) second_state = Some (third_state, None, Some [3], False)"
    by (simp add: add_header_def sample_header_env_def anchored_header_def empty_headers_def third_state_def second_state_def
      third_entry_def second_entry_def first_entry_def BlockHeader.truncate_def tree_eval)
  moreover have "CheckBlockHeader sample_header_env b = None" for b
    by (simp add: CheckBlockHeader_def sample_header_env_def refuse_if_def)
  ultimately show ?thesis using third_rules
    by (simp add: AcceptBlockHeader_def second_state_def empty_headers_def anchored_header_def sample_header_env_def)
qed

section \<open>Properties\<close>

text \<open>C21. Anchors never go back: on an anchored chain, in every index that the header rules let grow, a block
  is anchored at the height of each of its ancestors or above, and while the height stays the anchor is
  the same block of the parent chain.\<close>

theorem anchors_never_go_back:
  assumes "header_reach G Q H P S" "g_con_bitcoin_anchor G" "T = m_block_index (hs_manager S)"
    and "fmlookup T p = Some e" "GetAncestor T p h = Some q" "fmlookup T q = Some eq"
  shows "e_anchor_height eq \<le> e_anchor_height e \<and>
     (e_anchor_height e = e_anchor_height eq \<longrightarrow> e_anchor_hash eq \<noteq> uint256_zero \<longrightarrow> e_anchor_hash e = e_anchor_hash eq)"
proof -
  have T: "tree_wf T" "anchors_ordered T" using header_reach_ordered [OF assms(1,2)] assms(3) by simp_all
  have "ancestor_of T p q eq" using assms(5,6) GetAncestor_height [OF T(1) assms(5)] by (auto simp: ancestor_of_def)
  from anchors_along [OF T assms(4) this] show ?thesis .
qed

theorem anchors_never_go_back_witness:
  "e_anchor_height first_entry \<le> e_anchor_height second_entry \<and> e_anchor_height first_entry = 5 \<and> e_anchor_height second_entry = 6"
proof -
  have "GetAncestor (m_block_index (hs_manager second_state)) [2] 0 = Some [1]"
    by (simp add: second_state_def second_entry_def first_entry_def tree_eval)
  moreover have "fmlookup (m_block_index (hs_manager second_state)) [2] = Some second_entry"
      "fmlookup (m_block_index (hs_manager second_state)) [1] = Some first_entry"
    by (simp_all add: second_state_def)
  moreover have "g_con_bitcoin_anchor anchored_env" by (simp add: anchored_env_def)
  ultimately show ?thesis using anchors_never_go_back [OF second_reach _ refl, of "[2]" second_entry 0 "[1]" first_entry]
    by (simp add: second_entry_def first_entry_def)
qed

text \<open>C22. A new header that is accepted descends from the block that a buried checkpoint made final,
  unless that block has failed; it is stamped after the median of its predecessors, no closer to its
  parent than the spacing, and at most two hours ahead. It descends from the immediately final block
  too, but only when reconciliation is switched off, on a node that watches Bitcoin where the chain is
  anchored, and while that block has not failed: with reconciliation on, which is the default, headers
  of rival branches are stored, and only the activation of such a branch is refused.\<close>

theorem accepted_header_above_final_points:
  assumes "T = m_block_index (hs_manager S)" "tree_wf T" "T' = m_block_index (hs_manager S')"
    and "AcceptBlockHeader G Q H P F now block S = Some (S', None, Some p, False)"
    and "hd_hash block \<noteq> hashGenesis H" "hashPrevBlock block \<noteq> hd_hash block" "g_con_pos G"
  shows "p = hd_hash block \<and>
     (\<forall>fh hash. g_pos_finalized H = Some (fh, hash) \<longrightarrow> (\<forall>e. fmlookup T hash = Some e \<longrightarrow> \<not> BlockFailed e) \<longrightarrow>
        GetAncestor T' p fh = Some hash) \<and>
     ((g_con_bitcoin_anchor G \<longrightarrow> g_validate_anchor G) \<longrightarrow> \<not> g_pos_reconcile Q \<longrightarrow> 0 \<le> g_pos_immediate_final_height F \<longrightarrow>
        stands T (g_pos_immediate_final_hash F) \<longrightarrow>
        GetAncestor T' p (g_pos_immediate_final_height F) = Some (g_pos_immediate_final_hash F)) \<and>
     (let prev = the (fmlookup T (hashPrevBlock block)); t = uint (hd_nTime block)
      in GetMedianTimePast T (hashPrevBlock block) < t \<and> t \<le> now + 7200 \<and>
         (PosBlockSpacingActiveAt H (e_nHeight prev + 1) \<longrightarrow> uint (e_nTime prev) + pos_block_spacing H \<le> t))"
proof -
  let ?b = "BlockHeader.truncate block" and ?prev = "hashPrevBlock block"
  from assms(4) obtain "hs_manager S' = fst (AddToBlockIndex (g_signed_blocks H) ?b (hs_manager S))"
      "p = hd_hash block" "fmlookup T (hd_hash block) = None" "fmlookup T ?prev \<noteq> None"
      "ContextualCheckBlockHeader G Q H P T F block ?prev now = None"
    using assms(1,5) by (cases rule: AcceptBlockHeader_cases) auto
  note new = this
  obtain e where e: "fmlookup T ?prev = Some e" using new(4) by blast
  define x where "x = link_entry (g_signed_blocks H) (fmupd (hd_hash ?b) (new_entry ?b) T) ?b"
  have T': "T' = fmupd (hd_hash block) x T" using new(1,3) assms(1,3) by (simp add: AddToBlockIndex_index(1) x_def)
  have wf': "tree_wf T'" unfolding assms(3) new(1) using AddToBlockIndex_wf [of "hs_manager S" ?b] assms(1,2,6) by simp
  have x: "e_pprev x = Some ?prev" "e_nHeight x = e_nHeight e + 1" using e assms(6) by (simp_all add: x_def link_entry_links)
  have anc: "GetAncestor T' p k = Some a" if "GetAncestor T ?prev k = Some a" for k a
  proof -
    have "k < e_nHeight x" using GetAncestor_bounds [OF that] e x(2) by auto
    then have "GetAncestor T' p k = GetAncestor T' ?prev k"
      using GetAncestor_pprev [OF wf' _ x(1), of p k] new(2) T' by simp
    also have "\<dots> = GetAncestor T ?prev k"
      by (rule GetAncestor_mono [OF assms(2) wf' _ e]) (use new(3) T' in auto)
    finally show ?thesis using that by simp
  qed
  note rules = contextual_rules [OF new(5) e]
  have fin: "GetAncestor T ?prev fh = Some hash"
    if "g_pos_finalized H = Some (fh, hash)" "\<forall>e. fmlookup T hash = Some e \<longrightarrow> \<not> BlockFailed e" for fh hash
    using rules(1) [OF assms(7)] that by (auto simp: rule_finalized_def split: option.splits)
  have final: "GetAncestor T ?prev (g_pos_immediate_final_height F) = Some (g_pos_immediate_final_hash F)"
    if "g_con_bitcoin_anchor G \<longrightarrow> g_validate_anchor G" "\<not> g_pos_reconcile Q" "0 \<le> g_pos_immediate_final_height F"
      "stands T (g_pos_immediate_final_hash F)"
    using rules(3) [OF assms(7)] that by (auto simp: rule_final_def)
  have "GetMedianTimePast T ?prev < uint (hd_nTime block)" "uint (hd_nTime block) \<le> now + 7200"
    "PosBlockSpacingActiveAt H (e_nHeight e + 1) \<longrightarrow> uint (e_nTime e) + pos_block_spacing H \<le> uint (hd_nTime block)"
    using rules(4,6) e by (simp_all add: rule_times_def not_le not_less)
  then show ?thesis using new(2) anc fin final e by simp
qed

theorem accepted_header_above_final_points_witness:
  "AcceptBlockHeader anchored_env (sample_finality 0) sample_header_env sample_rules settled_state 0 (anchored_header 3 2 120 6)
     second_state = Some (third_state, None, Some [3], False) \<and>
   g_pos_finalized sample_header_env = Some (0, [1]) \<and> GetAncestor (m_block_index (hs_manager third_state)) [3] 0 = Some [1] \<and>
   g_pos_immediate_final_height settled_state = 1 \<and> g_pos_immediate_final_hash settled_state = [2] \<and>
   GetAncestor (m_block_index (hs_manager third_state)) [3] 1 = Some [2] \<and>
   ContextualCheckBlockHeader anchored_env (sample_finality 0) sample_header_env sample_rules (m_block_index (hs_manager second_state))
     settled_state (anchored_header 4 1 60 6) [1] 0 = Some (BLOCK_RECENT_CONSENSUS_CHANGE, ''bad-fork-prior-to-pos-final'')"
proof -
  let ?T = "m_block_index (hs_manager second_state)"
  have wf: "tree_wf ?T" using header_reach_ordered [OF second_reach] by (simp add: anchored_env_def)
  have T: "?T = fmupd [2] second_entry (fmupd [1] first_entry fmempty)" by (simp add: second_state_def)
  have "\<not> BlockFailed first_entry" "\<not> BlockFailed second_entry" by (simp_all add: first_entry_def second_entry_def tree_eval)
  then have T': "\<forall>e. fmlookup ?T [1] = Some e \<longrightarrow> \<not> BlockFailed e" "stands ?T [2]" by (simp_all add: T stands_def)
  have g: "hd_hash (anchored_header 3 2 120 6) \<noteq> hashGenesis sample_header_env"
      "hashPrevBlock (anchored_header 3 2 120 6) \<noteq> hd_hash (anchored_header 3 2 120 6)" "g_con_pos anchored_env"
      "g_validate_anchor anchored_env" "\<not> g_pos_reconcile (sample_finality 0)" "g_pos_finalized sample_header_env = Some (0, [1])"
    by (simp_all add: anchored_header_def sample_header_env_def anchored_env_def sample_rules_env_def sample_finality_def)
  have "GetAncestor (m_block_index (hs_manager third_state)) [3] 0 = Some [1]"
      "GetAncestor (m_block_index (hs_manager third_state)) [3] 1 = Some [2]"
    using accepted_header_above_final_points [OF refl wf refl accept_third g(1-3)] g(4-6) T' unfolding settled_state_final by auto
  then show ?thesis using accept_third rival_refused g(6) settled_state_final by (simp add: T)
qed

end
