(* ===== verification/Unbonding.thy ===== *)
theory Unbonding
  imports Utxo StakeRules BlockTree
begin

text \<open>
  Two-step unbonding (\<open>CheckPosUnbondingTx\<close> of \<open>src/pos.cpp\<close>, its use in \<open>ConnectBlock\<close> and in the mempool,
  \<open>src/validation.cpp\<close>): stake leaves a key only through an unbonding output for that key, which can be
  spent once enough blocks of the parent chain have passed. The theory shows what an accepted
  transaction can take out of stake, and that a transaction which passes the check of the mempool
  passes that of the next block.
\<close>

section \<open>The rule on a transaction\<close>

record unbond_params =
  pos_unbond_height :: int
  pos_unbond_anchor_depth :: int

definition PosUnbondingActiveAt :: "unbond_params \<Rightarrow> int \<Rightarrow> bool" where
  "PosUnbondingActiveAt P height \<longleftrightarrow> pos_unbond_height P > 0 \<and> height \<ge> pos_unbond_height P"

abbreviation POS_UNBOND_MAX_FEE_PERMILLE :: int where "POS_UNBOND_MAX_FEE_PERMILLE \<equiv> 10"

definition AccessCoin :: "utxo \<Rightarrow> COutPoint \<Rightarrow> Coin" where
  "AccessCoin U o' = (case fmlookup U o' of None \<Rightarrow> coinEmpty | Some coin \<Rightarrow> coin)"

text \<open>The coins that the check looks at: a peg-in has none, and a missing one is reported elsewhere.\<close>

definition input_coin :: "utxo \<Rightarrow> CTxIn \<Rightarrow> Coin option" where
  "input_coin U txin =
     (if m_is_pegin txin then None
      else let coin = AccessCoin U (prevout txin) in if IsSpent coin then None else Some coin)"

definition waited :: "int \<Rightarrow> (int \<Rightarrow> int) \<Rightarrow> int \<Rightarrow> Coin \<Rightarrow> bool" where
  "waited spend_anchor anchor_at anchor_depth coin \<longleftrightarrow>
     (let created = anchor_at (int (nHeight coin)) in \<not> (created < 0 \<or> spend_anchor < created + anchor_depth))"

fun unbond_inputs ::
  "pos_env \<Rightarrow> utxo \<Rightarrow> int \<Rightarrow> (int \<Rightarrow> int) \<Rightarrow> int \<Rightarrow> CTxIn list \<Rightarrow> (CPubKey, int) fmap \<Rightarrow> string + (CPubKey, int) fmap" where
  "unbond_inputs E U spend_anchor anchor_at anchor_depth [] staked_in = Inr staked_in"
| "unbond_inputs E U spend_anchor anchor_at anchor_depth (txin # ins) staked_in =
     (case input_coin U txin of
        None \<Rightarrow> unbond_inputs E U spend_anchor anchor_at anchor_depth ins staked_in
      | Some coin \<Rightarrow>
          if ParseUnbondScript E (scriptPubKey (coin_out coin)) \<noteq> None
          then if waited spend_anchor anchor_at anchor_depth coin
               then unbond_inputs E U spend_anchor anchor_at anchor_depth ins staked_in
               else Inl ''bad-unbond-premature''
          else (case StakeFromTxOut E (coin_out coin) of
                  None \<Rightarrow> unbond_inputs E U spend_anchor anchor_at anchor_depth ins staked_in
                | Some (pk, amount) \<Rightarrow>
                    unbond_inputs E U spend_anchor anchor_at anchor_depth ins (fm_plus pk (sint amount) staked_in)))"

definition policy_out :: "pos_env \<Rightarrow> CTxOut \<Rightarrow> bool" where
  "policy_out E out \<longleftrightarrow> Asset_IsExplicit (nAsset out) \<and> GetAsset (nAsset out) = policyAsset E \<and> Value_IsExplicit (nValue out)"

definition unbond_output :: "pos_env \<Rightarrow> CTxOut \<Rightarrow> (CPubKey, int) fmap \<times> int \<Rightarrow> (CPubKey, int) fmap \<times> int" where
  "unbond_output E out st =
     (let (kept, fee) = st
      in if IsFee out then (kept, if policy_out E out then fee + GetAmount (nValue out) else fee)
         else case StakeFromTxOut E out of
             Some (pk, amount) \<Rightarrow> (fm_plus pk (sint amount) kept, fee)
           | None \<Rightarrow>
              (case ParseUnbondScript E (scriptPubKey out) of
                 Some pk \<Rightarrow> (if policy_out E out then fm_plus pk (GetAmount (nValue out)) kept else kept, fee)
               | None \<Rightarrow> (kept, fee)))"

definition shortfall_step :: "(CPubKey, int) fmap \<Rightarrow> CPubKey \<times> int \<Rightarrow> int \<times> int \<Rightarrow> int \<times> int" where
  "shortfall_step kept entry st =
     (let (pk, amount) = entry; (shortfall, staked_total) = st; back = fm_get 0 kept pk
      in (if amount > back then shortfall + (amount - back) else shortfall, staked_total + amount))"

text \<open>The result is the reason of a refusal.\<close>

definition CheckPosUnbondingTx ::
  "pos_env \<Rightarrow> CTransaction \<Rightarrow> utxo \<Rightarrow> int \<Rightarrow> (int \<Rightarrow> int) \<Rightarrow> int \<Rightarrow> string option" where
  "CheckPosUnbondingTx E tx U spend_anchor anchor_at anchor_depth =
     (if IsCoinBase tx then None
      else case unbond_inputs E U spend_anchor anchor_at anchor_depth (vin tx) fmempty of
          Inl reason \<Rightarrow> Some reason
        | Inr staked_in \<Rightarrow>
            if staked_in = fmempty then None
            else let (kept, fee) = fold (unbond_output E) (vout tx) (fmempty, 0);
                     (shortfall, staked_total) = fold (shortfall_step kept) (fm_entries staked_in) (0, 0)
              in if shortfall > min fee (staked_total div 1000 * POS_UNBOND_MAX_FEE_PERMILLE)
                 then Some ''bad-unbond-required'' else None)"

section \<open>In a block and in the mempool\<close>

text \<open>The clock is the anchor height where the chain is anchored, and the height elsewhere. \<open>limit\<close> is the
  height of the block whose ancestors are looked up.\<close>

definition anchor_at_of :: "rules_env \<Rightarrow> block_tree \<Rightarrow> block_ptr \<Rightarrow> int \<Rightarrow> int \<Rightarrow> int" where
  "anchor_at_of G T p limit h =
     (if h < 0 \<or> h > limit then - 1
      else case GetAncestor T p h of None \<Rightarrow> - 1
        | Some a \<Rightarrow> if g_con_bitcoin_anchor G then sint (e_anchor_height (the (fmlookup T a))) else h)"

definition ConnectBlock_unbonding ::
  "pos_env \<Rightarrow> rules_env \<Rightarrow> unbond_params \<Rightarrow> block_tree \<Rightarrow> block_ptr \<Rightarrow> CTransaction \<Rightarrow> utxo \<Rightarrow> string option" where
  "ConnectBlock_unbonding E G P T pindex tx U =
     (let e = the (fmlookup T pindex)
      in if \<not> IsCoinBase tx \<and> g_con_pos G \<and> PosUnbondingActiveAt P (e_nHeight e)
         then CheckPosUnbondingTx E tx U (if g_con_bitcoin_anchor G then sint (e_anchor_height e) else e_nHeight e)
                (anchor_at_of G T pindex (e_nHeight e)) (pos_unbond_anchor_depth P)
         else None)"

definition PosUnbondingFailsNextBlock ::
  "pos_env \<Rightarrow> rules_env \<Rightarrow> unbond_params \<Rightarrow> block_tree \<Rightarrow> block_ptr option \<Rightarrow> CTransaction \<Rightarrow> utxo \<Rightarrow> string option" where
  "PosUnbondingFailsNextBlock E G P T tip tx U =
     (case tip of None \<Rightarrow> None
      | Some t \<Rightarrow>
          let e = the (fmlookup T t)
          in if \<not> g_con_pos G \<or> \<not> PosUnbondingActiveAt P (e_nHeight e + 1) then None
             else CheckPosUnbondingTx E tx U (if g_con_bitcoin_anchor G then sint (e_anchor_height e) else e_nHeight e + 1)
                    (anchor_at_of G T t (e_nHeight e)) (pos_unbond_anchor_depth P))"

section \<open>What the loops add up\<close>

text \<open>Stake of a key that a transaction spends, and what it gives back to the key in stake or unbonding.\<close>

definition spent_stakes :: "pos_env \<Rightarrow> utxo \<Rightarrow> CTransaction \<Rightarrow> (CPubKey \<times> int) list" where
  "spent_stakes E U tx =
     concat (map (\<lambda>txin. case input_coin U txin of None \<Rightarrow> []
       | Some coin \<Rightarrow> if ParseUnbondScript E (scriptPubKey (coin_out coin)) \<noteq> None then []
           else (case StakeFromTxOut E (coin_out coin) of None \<Rightarrow> [] | Some (pk, a) \<Rightarrow> [(pk, sint a)])) (vin tx))"

definition kept_stakes :: "pos_env \<Rightarrow> CTransaction \<Rightarrow> (CPubKey \<times> int) list" where
  "kept_stakes E tx =
     concat (map (\<lambda>out. if IsFee out then [] else case StakeFromTxOut E out of Some (pk, a) \<Rightarrow> [(pk, sint a)]
       | None \<Rightarrow> (case ParseUnbondScript E (scriptPubKey out) of None \<Rightarrow> []
           | Some pk \<Rightarrow> if policy_out E out then [(pk, GetAmount (nValue out))] else [])) (vout tx))"

definition fee_paid :: "pos_env \<Rightarrow> CTransaction \<Rightarrow> int" where
  "fee_paid E tx = sum_list (map (\<lambda>out. GetAmount (nValue out)) (filter (\<lambda>out. IsFee out \<and> policy_out E out) (vout tx)))"

definition amount_of :: "CPubKey \<Rightarrow> (CPubKey \<times> int) list \<Rightarrow> int" where
  "amount_of pk xs = sum_list (map snd (filter (\<lambda>x. fst x = pk) xs))"

abbreviation add_stakes :: "(CPubKey \<times> int) list \<Rightarrow> (CPubKey, int) fmap \<Rightarrow> (CPubKey, int) fmap" where
  "add_stakes \<equiv> fold (\<lambda>(k, v). fm_plus k v)"

lemma add_stakes_get: "fm_get 0 (add_stakes xs m) k = fm_get 0 m k + amount_of k xs"
  using fold_fm_plus_get [where f = "\<lambda>k. k"] by (simp add: amount_of_def)

lemma add_stakes_dom: "fset (fmdom (add_stakes xs m)) = fst ` set xs \<union> fset (fmdom m)"
  by (induction xs arbitrary: m) auto

lemma add_stakes_total: "fm_total (add_stakes xs m) = fm_total m + sum_list (map snd xs)"
  by (induction xs arbitrary: m) auto

lemma unbond_inputs_result:
  assumes "unbond_inputs E U spend_anchor anchor_at anchor_depth (vin tx) m = Inr m'"
  shows "m' = add_stakes (spent_stakes E U tx) m" and
    "\<forall>txin\<in>set (vin tx). \<forall>coin. input_coin U txin = Some coin \<longrightarrow> ParseUnbondScript E (scriptPubKey (coin_out coin)) \<noteq> None \<longrightarrow>
       waited spend_anchor anchor_at anchor_depth coin"
proof -
  have "m' = add_stakes (concat (map (\<lambda>txin. case input_coin U txin of None \<Rightarrow> []
       | Some coin \<Rightarrow> if ParseUnbondScript E (scriptPubKey (coin_out coin)) \<noteq> None then []
           else (case StakeFromTxOut E (coin_out coin) of None \<Rightarrow> [] | Some (pk, a) \<Rightarrow> [(pk, sint a)])) ins)) m \<and>
    (\<forall>txin\<in>set ins. \<forall>coin. input_coin U txin = Some coin \<longrightarrow> ParseUnbondScript E (scriptPubKey (coin_out coin)) \<noteq> None \<longrightarrow>
       waited spend_anchor anchor_at anchor_depth coin)"
    if "unbond_inputs E U spend_anchor anchor_at anchor_depth ins m = Inr m'" for ins
    using that by (induction ins arbitrary: m) (auto split: option.splits if_splits)
  from this [OF assms] show "m' = add_stakes (spent_stakes E U tx) m" and
    "\<forall>txin\<in>set (vin tx). \<forall>coin. input_coin U txin = Some coin \<longrightarrow> ParseUnbondScript E (scriptPubKey (coin_out coin)) \<noteq> None \<longrightarrow>
       waited spend_anchor anchor_at anchor_depth coin"
    by (simp_all add: spent_stakes_def)
qed

lemma unbond_outputs_result:
  "fold (unbond_output E) (vout tx) (kept, fee) = (add_stakes (kept_stakes E tx) kept, fee + fee_paid E tx)"
proof -
  have "fold (unbond_output E) outs (kept, fee) =
    (add_stakes (concat (map (\<lambda>out. if IsFee out then [] else case StakeFromTxOut E out of Some (pk, a) \<Rightarrow> [(pk, sint a)]
       | None \<Rightarrow> (case ParseUnbondScript E (scriptPubKey out) of None \<Rightarrow> []
           | Some pk \<Rightarrow> if policy_out E out then [(pk, GetAmount (nValue out))] else [])) outs)) kept,
     fee + sum_list (map (\<lambda>out. GetAmount (nValue out)) (filter (\<lambda>out. IsFee out \<and> policy_out E out) outs)))" for outs
    by (induction outs arbitrary: kept fee) (auto simp: unbond_output_def split: option.splits)
  then show ?thesis by (simp add: kept_stakes_def fee_paid_def)
qed

lemma shortfall_result:
  "fold (shortfall_step kept) xs (s, t) =
     (s + sum_list (map (\<lambda>(k, a). max 0 (a - fm_get 0 kept k)) xs), t + sum_list (map snd xs))"
  by (induction xs arbitrary: s t) (auto simp: shortfall_step_def Let_def)

lemma entries_sum:
  fixes g :: "'k::linorder \<Rightarrow> int \<Rightarrow> int"
  shows "sum_list (map (\<lambda>(k, v). g k v) (fm_entries m)) = (\<Sum>k\<in>fset (fmdom m). g k (fm_get 0 m k))"
proof -
  have "sum_list (map (\<lambda>(k, v). g k v) (fm_entries m)) = (\<Sum>k\<in>fset (fmdom m). g k (the (fmlookup m k)))"
    unfolding sum_mset_sum_list [symmetric] mset_map mset_entries
    by (simp add: multiset.map_comp comp_def sum_unfold_sum_mset)
  also have "\<dots> = (\<Sum>k\<in>fset (fmdom m). g k (fm_get 0 m k))"
    by (rule sum.cong) (auto simp: fm_get_def split: option.split)
  finally show ?thesis .
qed

section \<open>Properties\<close>

text \<open>C23. What an accepted transaction can take out of stake: each unbonding output it spends was created
  at least the anchor depth before; and if it spends stake, the sum over the keys of what it does not
  give back to the same key, in stake or in unbonding, is at most the fee it pays, and at most one
  percent of the stake it spends.\<close>

theorem unbonding_keeps_stake:
  assumes "CheckPosUnbondingTx E tx U spend_anchor anchor_at anchor_depth = None" "\<not> IsCoinBase tx"
  shows "(\<forall>txin\<in>set (vin tx). \<forall>coin. input_coin U txin = Some coin \<longrightarrow> ParseUnbondScript E (scriptPubKey (coin_out coin)) \<noteq> None \<longrightarrow>
       0 \<le> anchor_at (int (nHeight coin)) \<and> anchor_at (int (nHeight coin)) + anchor_depth \<le> spend_anchor) \<and>
     (let spent = spent_stakes E U tx; kept = kept_stakes E tx
      in spent \<noteq> [] \<longrightarrow> (\<Sum>pk\<in>fst ` set spent. max 0 (amount_of pk spent - amount_of pk kept)) \<le>
           min (fee_paid E tx) (sum_list (map snd spent) div 1000 * 10))"
proof -
  obtain m where m: "unbond_inputs E U spend_anchor anchor_at anchor_depth (vin tx) fmempty = Inr m"
    using assms by (cases "unbond_inputs E U spend_anchor anchor_at anchor_depth (vin tx) fmempty") (simp_all add: CheckPosUnbondingTx_def)
  note res = unbond_inputs_result [OF m]
  let ?spent = "spent_stakes E U tx" and ?kept = "kept_stakes E tx"
  have short: "(\<Sum>pk\<in>fst ` set ?spent. max 0 (amount_of pk ?spent - amount_of pk ?kept)) \<le>
      min (fee_paid E tx) (sum_list (map snd ?spent) div 1000 * 10)" if ne: "?spent \<noteq> []"
  proof -
    have dom: "fset (fmdom m) = fst ` set ?spent" using add_stakes_dom [of ?spent fmempty] res(1) by simp
    then have "fset (fmdom m) \<noteq> {}" using ne by simp
    then have "m \<noteq> fmempty" by (metis bot_fset.rep_eq fmdom_empty)
    then have "sum_list (map (\<lambda>(k, a). max 0 (a - fm_get 0 (add_stakes ?kept fmempty) k)) (fm_entries m)) \<le>
        min (fee_paid E tx) (sum_list (map snd (fm_entries m)) div 1000 * 10)"
      using assms m by (simp add: CheckPosUnbondingTx_def unbond_outputs_result shortfall_result not_less split: if_splits)
    moreover have "sum_list (map snd (fm_entries m)) = sum_list (map snd ?spent)"
      using add_stakes_total [of ?spent fmempty] res(1) by (simp add: fm_total_def)
    ultimately show ?thesis
      unfolding entries_sum [where g = "\<lambda>k a. max 0 (a - fm_get 0 (add_stakes ?kept fmempty) k)"] dom
      by (simp add: add_stakes_get res(1))
  qed
  show ?thesis using res(2) short by (simp add: waited_def Let_def not_less)
qed

lemma waited_mono:
  assumes "waited s a d coin" "s \<le> s'" "\<And>h. 0 \<le> a h \<Longrightarrow> a' h = a h"
  shows "waited s' a' d coin"
  using assms by (auto simp: waited_def Let_def not_less)

lemma unbond_inputs_mono:
  assumes "unbond_inputs E U s a d ins m = Inr m'" "s \<le> s'" "\<And>h. 0 \<le> a h \<Longrightarrow> a' h = a h"
  shows "unbond_inputs E U s' a' d ins m = Inr m'"
  using assms(1) by (induction ins arbitrary: m) (auto split: option.splits if_splits intro: waited_mono [OF _ assms(2,3)])

lemma CheckPosUnbondingTx_mono:
  assumes "CheckPosUnbondingTx E tx U s a d = None" "s \<le> s'" "\<And>h. 0 \<le> a h \<Longrightarrow> a' h = a h"
  shows "CheckPosUnbondingTx E tx U s' a' d = None"
proof (cases "IsCoinBase tx")
  case False
  then obtain m where m: "unbond_inputs E U s a d (vin tx) fmempty = Inr m"
    using assms(1) by (cases "unbond_inputs E U s a d (vin tx) fmempty") (simp_all add: CheckPosUnbondingTx_def)
  from unbond_inputs_mono [OF m assms(2,3)] m assms(1) False show ?thesis by (simp add: CheckPosUnbondingTx_def)
qed (simp add: CheckPosUnbondingTx_def)

text \<open>C24. A transaction that the mempool lets in on a tip is not refused by the unbonding rule in a block on
  that tip, whose anchor is not below the tip's: the mempool measures the wait by the tip's anchor, and
  takes an output of the block itself for one that has not waited at all.\<close>

theorem mempool_unbonding_passes_next_block:
  assumes "tree_wf T" "fmlookup T child = Some e" "e_pprev e = Some tip" "fmlookup T tip = Some et"
    and "e_anchor_height et \<le> e_anchor_height e" "e_anchor_height e < 2 ^ 31"
    and "PosUnbondingFailsNextBlock E G P T (Some tip) tx U = None"
  shows "ConnectBlock_unbonding E G P T child tx U = None"
proof (cases "\<not> IsCoinBase tx \<and> g_con_pos G \<and> PosUnbondingActiveAt P (e_nHeight e)")
  case True
  have h: "e_nHeight e = e_nHeight et + 1" using tree_wf_pprev(3) [OF assms(1-3)] assms(4) by auto
  have u: "uint (e_anchor_height et) \<le> uint (e_anchor_height e)" "uint (e_anchor_height e) < 2 ^ 31"
    using assms(5,6) by (simp_all add: word_le_def word_less_def)
  have sint: "sint w = uint w" if "uint w < 2 ^ 31" for w :: u32
  proof -
    have "- (2 ^ 31) \<le> uint w" by (rule order_trans [OF _ uint_ge_0]) simp
    then show ?thesis using signed_take_bit_int_eq_self [of 31 "uint w"] that by (simp add: sint_uint)
  qed
  have a: "sint (e_anchor_height et) \<le> sint (e_anchor_height e)" using u sint [of "e_anchor_height et"] sint [of "e_anchor_height e"] by linarith
  have "anchor_at_of G T child (e_nHeight e) k = anchor_at_of G T tip (e_nHeight et) k" if "0 \<le> anchor_at_of G T tip (e_nHeight et) k" for k
  proof -
    have "k \<le> e_nHeight et" using that by (auto simp: anchor_at_of_def split: if_splits)
    then show ?thesis using GetAncestor_pprev [OF assms(1-3), of k] h by (simp add: anchor_at_of_def)
  qed
  moreover have "CheckPosUnbondingTx E tx U (if g_con_bitcoin_anchor G then sint (e_anchor_height et) else e_nHeight et + 1)
      (anchor_at_of G T tip (e_nHeight et)) (pos_unbond_anchor_depth P) = None"
    using assms(4,7) True h by (simp add: PosUnbondingFailsNextBlock_def split: if_splits)
  ultimately have "CheckPosUnbondingTx E tx U (if g_con_bitcoin_anchor G then sint (e_anchor_height e) else e_nHeight e)
      (anchor_at_of G T child (e_nHeight e)) (pos_unbond_anchor_depth P) = None"
    using a h by (elim CheckPosUnbondingTx_mono) auto
  then show ?thesis using assms(2) by (simp add: ConnectBlock_unbonding_def)
qed (use assms(2) in \<open>auto simp: ConnectBlock_unbonding_def Let_def\<close>)

subsection \<open>A sample exit\<close>

definition policy_coin :: "int \<Rightarrow> bytes \<Rightarrow> CTxOut" where
  "policy_coin v spk = \<lparr>nAsset = SetToAsset (replicate 32 7), nValue = SetToAmount v, nNonce = [], scriptPubKey = spk\<rparr>"

definition bonded_out :: CTxOut where
  "bonded_out = policy_coin 5000 (BuildStakeScript (sample_key 1) 10 [] [] 0)"

definition exit_tx :: CTransaction where
  "exit_tx = \<lparr>tx_hash = replicate 32 1, vin = [\<lparr>prevout = COutPoint (replicate 32 2) 0, m_is_pegin = False\<rparr>],
     vout = [policy_coin 4950 (BuildUnbondScript (sample_key 1)), policy_coin 50 []]\<rparr>"

definition exit_coins :: utxo where
  "exit_coins = fmupd (COutPoint (replicate 32 2) 0) \<lparr>coin_out = bonded_out, fCoinBase = False, nHeight = 0\<rparr> fmempty"

lemma bonded_parse:
  "ParseStakeScriptFull sample_env (BuildStakeScript (sample_key 1) 10 [] [] 0) =
     Some \<lparr>ps_pubkey = sample_key 1, ps_csv = 10, ps_bls_pubkey = [], ps_bls_pop = [], ps_liquid_locktime = 0\<rparr>"
  by (rule ParseStake_Build) (simp_all add: good_key_def csv_ok_def bls_ok_def)

lemma sample_unbond_env:
  "policyAsset sample_env = replicate 32 7" "EffectiveSlotSeconds sample_env = 30" "PosRequiredUnbondingSeconds sample_env = 300"
  by (simp_all add: PosRequiredUnbondingSeconds_def EffectiveSlotSeconds_def sample_env_def)

lemma bonded_stake: "StakeFromTxOut sample_env bonded_out = Some (sample_key 1, 5000)"
  by (simp add: StakeFromTxOut_def bonded_out_def policy_coin_def ParseStakeScript_def bonded_parse GetAmount_SetToAmount
    GetAsset_SetToAsset PosStakeLockSeconds_def sample_unbond_env)

lemma unbond_no_stake:
  assumes "good_key E (sample_key 1)"
  shows "StakeFromTxOut E (policy_coin v (BuildUnbondScript (sample_key 1))) = None"
proof -
  have "ParseStakeScriptFull E (BuildUnbondScript (sample_key 1)) = None"
    using kinds_exclusive [of E "BuildUnbondScript (sample_key 1)" UnbondRec StakeRec] ParseUnbond_Build [OF assms]
    by (cases "ParseStakeScriptFull E (BuildUnbondScript (sample_key 1))") (auto simp: kind_accepts_def)
  then show ?thesis by (simp add: StakeFromTxOut_def policy_coin_def ParseStakeScript_def Let_def)
qed

lemma bonded_no_unbond: "ParseUnbondScript sample_env (scriptPubKey bonded_out) = None"
  using kinds_exclusive [of sample_env "scriptPubKey bonded_out" UnbondRec StakeRec] bonded_parse
  by (cases "ParseUnbondScript sample_env (scriptPubKey bonded_out)") (auto simp: kind_accepts_def bonded_out_def policy_coin_def)

lemma exit_input: "input_coin exit_coins (hd (vin exit_tx)) = Some \<lparr>coin_out = bonded_out, fCoinBase = False, nHeight = 0\<rparr>"
  by (simp add: input_coin_def exit_tx_def exit_coins_def AccessCoin_def IsSpent_def TxOut_IsNull_def bonded_out_def policy_coin_def
    Conf_IsNull_def SetToAsset_def)

lemma exit_stakes:
  "spent_stakes sample_env exit_coins exit_tx = [(sample_key 1, 5000)]" "kept_stakes sample_env exit_tx = [(sample_key 1, 4950)]"
  "fee_paid sample_env exit_tx = 50" "\<not> IsCoinBase exit_tx"
proof -
  have vin: "vin exit_tx = [hd (vin exit_tx)]" by (simp add: exit_tx_def)
  show "spent_stakes sample_env exit_coins exit_tx = [(sample_key 1, 5000)]"
    unfolding spent_stakes_def by (subst vin) (simp add: exit_input bonded_no_unbond bonded_stake)
  have fee: "\<not> IsFee (policy_coin 4950 (BuildUnbondScript (sample_key 1)))" "IsFee (policy_coin 50 [])"
    by (simp_all add: IsFee_def policy_coin_def BuildUnbondScript_def GetAsset_SetToAsset)
  have pol: "policy_out sample_env (policy_coin v spk)" for v spk
    by (simp add: policy_out_def policy_coin_def GetAsset_SetToAsset sample_unbond_env)
  show "kept_stakes sample_env exit_tx = [(sample_key 1, 4950)]" "fee_paid sample_env exit_tx = 50"
    using fee unbond_no_stake [of sample_env] ParseUnbond_Build [OF sample_good_key, of 1] pol
    by (simp_all add: kept_stakes_def fee_paid_def exit_tx_def) (simp_all add: policy_coin_def GetAmount_SetToAmount)
  show "\<not> IsCoinBase exit_tx" by (simp add: IsCoinBase_def exit_tx_def OutPoint_IsNull_def uint256_zero_def)
qed

lemma exit_check: "CheckPosUnbondingTx sample_env exit_tx exit_coins s a d = None"
proof -
  have vin: "vin exit_tx = [hd (vin exit_tx)]" by (simp add: exit_tx_def)
  have ins: "unbond_inputs sample_env exit_coins s a d (vin exit_tx) fmempty = Inr (fm_plus (sample_key 1) 5000 fmempty)"
    by (subst vin) (simp add: exit_input bonded_no_unbond bonded_stake)
  have e: "fm_entries (fm_plus (sample_key 1) (5000 :: int) fmempty) = [(sample_key 1, 5000)]"
    by (simp add: sorted_list_of_fmap_def fm_plus_def sorted_list_of_fset.rep_eq)
  have "fm_plus (sample_key 1) (5000 :: int) fmempty \<noteq> fmempty" by (simp add: fm_plus_def)
  then show ?thesis
    by (simp add: CheckPosUnbondingTx_def ins e unbond_outputs_result exit_stakes shortfall_step_def)
qed

theorem unbonding_keeps_stake_witness:
  "CheckPosUnbondingTx sample_env exit_tx exit_coins 0 (\<lambda>h. h) 3 = None \<and>
   max 0 (amount_of (sample_key 1) [(sample_key 1, 5000)] - amount_of (sample_key 1) [(sample_key 1, 4950)]) \<le> min 50 (5000 div 1000 * 10)"
  using unbonding_keeps_stake [OF exit_check [of 0 "\<lambda>h. h" 3] exit_stakes(4)] exit_check
  by (simp add: exit_stakes(1-3) Let_def)

theorem mempool_unbonding_passes_next_block_witness:
  "let P = \<lparr>pos_unbond_height = 1, pos_unbond_anchor_depth = 3\<rparr>
   in PosUnbondingFailsNextBlock sample_env sample_rules_env P sample_tree (Some [2]) exit_tx exit_coins = None \<and>
      ConnectBlock_unbonding sample_env sample_rules_env P sample_tree [3] exit_tx exit_coins = None"
proof -
  let ?P = "\<lparr>pos_unbond_height = 1, pos_unbond_anchor_depth = 3\<rparr>"
  obtain e et where e: "fmlookup sample_tree [3] = Some e" "e_pprev e = Some [2]" and et: "fmlookup sample_tree [2] = Some et"
    using sample_tree_lookup by auto
  have "map_option e_anchor_height (fmlookup sample_tree [3]) = Some 0" "map_option e_anchor_height (fmlookup sample_tree [2]) = Some 0"
    by (simp_all add: sample_tree_def tree_eval)
  then have a: "e_anchor_height et \<le> e_anchor_height e" "e_anchor_height e < 2 ^ 31" using e et by simp_all
  have m: "PosUnbondingFailsNextBlock sample_env sample_rules_env ?P sample_tree (Some [2]) exit_tx exit_coins = None"
    by (simp add: PosUnbondingFailsNextBlock_def exit_check Let_def)
  then show ?thesis
    using mempool_unbonding_passes_next_block [OF sample_tree_wf e et a m] by (simp add: Let_def)
qed

end
