(* ===== verification/Tip.thy ===== *)
theory Tip
  imports RecordRules StakeRules
begin

text \<open>
  The stake registry at the tip of the chain (\<open>ConnectTip\<close> and \<open>DisconnectTip\<close> of \<open>src/validation.cpp\<close>). A
  block is connected when ConnectBlock accepts its records and its BLS registrations against the
  registry; the registry then follows the coins. The theory shows what these rules give, which cases
  they leave open, and that outside these cases the registry is always what a scan of the coins
  rebuilds.
\<close>

section \<open>Connecting and disconnecting\<close>

text \<open>The rules of ConnectBlock that read the registry and decide on records and registrations.\<close>

definition records_accepted ::
  "pos_env \<Rightarrow> rules_env \<Rightarrow> rule_params \<Rightarrow> StakeRegistry \<Rightarrow> nat \<Rightarrow> CBlock \<Rightarrow> CBlockUndo \<Rightarrow> bool" where
  "records_accepted E G P R h block undo \<longleftrightarrow>
     record_rules E P R block undo (int h) = None \<and>
     (g_pos_public_committee E \<longrightarrow> check_registrations E G R (concat (map vout block)) fmempty = None)"

text \<open>The coins, the registry, and the undo data on disk, here a stack. The log holds every block that
  was connected, with its undo data and the coins it was connected to.\<close>

type_synonym chain_state = "utxo \<times> StakeRegistry \<times> (CBlock \<times> CBlockUndo \<times> nat) list"
type_synonym connected = "nat \<times> CBlock \<times> CBlockUndo \<times> utxo"

inductive chain ::
  "pos_env \<Rightarrow> rules_env \<Rightarrow> rule_params \<Rightarrow> coins_env \<Rightarrow> StakeRegistry \<Rightarrow> utxo \<Rightarrow> connected list \<Rightarrow> chain_state \<Rightarrow> bool"
  for E G P C R0 U0 where
  start: "RebuildUtxoStake E (Some (map Some (fm_entries U0))) R0 = Some R \<Longrightarrow> chain E G P C R0 U0 [] (U0, R, [])"
| connect: "chain E G P C R0 U0 bs (U, R, st) \<Longrightarrow> 0 < h \<Longrightarrow> block_form U block \<Longrightarrow>
    connect_coins C h block U = Some (undo, U') \<Longrightarrow> records_accepted E G P R h block undo \<Longrightarrow>
    chain E G P C R0 U0 ((h, block, undo, U) # bs) (U', PosApplyBlockStake E block undo h R, (block, undo, h) # st)"
| disconnect: "chain E G P C R0 U0 bs (U, R, (block, undo, h) # st) \<Longrightarrow> DisconnectBlock C h block undo U = Some (U', clean) \<Longrightarrow>
    chain E G P C R0 U0 bs (U', PosRevertBlockStake E block undo h R, st)"

section \<open>What the rules leave open\<close>

text \<open>Coins that a registry can stand for: amounts that fit, one BLS key for a staker, also against the
  configured one, unique records, and no inert one.\<close>

fun bls_configured :: "StakeRegistry \<Rightarrow> sp_op \<Rightarrow> bool" where
  "bls_configured R (SpStake pk a b h) = (b = [] \<or> fmlookup (m_bls R) pk = None \<or> fmlookup (m_bls R) pk = Some b)"
| "bls_configured R _ = True"

definition coins_sound :: "pos_env \<Rightarrow> StakeRegistry \<Rightarrow> utxo \<Rightarrow> bool" where
  "coins_sound E R0 U \<longleftrightarrow> registry_fits E (fm_entries U) \<and> records_unique E U \<and> payouts_live E (fm_entries U) \<and>
     list_all (\<lambda>e. bls_configured R0 (sp_of E e)) (fm_entries U) \<and> [] \<notin> fmran' (m_bls R0)"

text \<open>A record written as its builder writes it.\<close>

definition canonical_record :: "pos_env \<Rightarrow> CTxOut \<Rightarrow> bool" where
  "canonical_record E out =
     (case DelegationFromTxOut E out of Some (c, s) \<Rightarrow> scriptPubKey out = BuildDelegationScript c s
      | None \<Rightarrow> (case PayoutFromTxOut E out of Some (s, p) \<Rightarrow> scriptPubKey out = BuildPayoutScript s p | None \<Rightarrow> True))"

definition canonical_records :: "pos_env \<Rightarrow> CBlock \<Rightarrow> CBlockUndo \<Rightarrow> bool" where
  "canonical_records E block undo = list_all (canonical_record E) (concat (map vout block) @ map coin_out (concat undo))"

text \<open>A connected block in the ordinary case: the stake and the number of outputs fit their counters,
  SPLIT records are recognised at its height, and no transaction creates a record that a later one
  spends. From the hardening height the rules see to the last, if records are written as the builders
  write them.\<close>

definition ordinary :: "pos_env \<Rightarrow> rule_params \<Rightarrow> connected \<Rightarrow> bool" where
  "ordinary E P b = (case b of (h, block, undo, U) \<Rightarrow>
     length (fm_entries U @ block_created h block) < 2 ^ 32 \<and>
     sum_list (map (\<lambda>e. stake_amount (sp_of E e)) (fm_entries U @ block_created h block)) < 2 ^ 64 \<and>
     SplitPayoutActiveAt P (int h) \<and> (g_split_payout_height E = 0 \<or> g_split_payout_height E \<le> int h) \<and>
     (records_in_order E h block undo \<or> PosHardeningActiveAt P (int h) \<and> canonical_records E block undo))"

section \<open>Records in order\<close>

lemma in_orderI:
  "(\<And>tx u tx' u' d d'. (tx, u) \<in> set es \<Longrightarrow> (tx', u') \<in> set es \<Longrightarrow> d \<in> set (dps E (tx_coins h tx)) \<Longrightarrow>
      d' \<in> set (dps E (tx_spent tx' u')) \<Longrightarrow> \<not> dp_same d' d) \<Longrightarrow> in_order E h es"
proof (induction es)
  case (Cons e es)
  have "in_order E h es" by (rule Cons.IH) (use Cons.prems in \<open>meson list.set_intros(2)\<close>)
  moreover have "\<not> dp_same d' d" if "d \<in> set (dps E (tx_coins h (fst e)))" "(tx', u') \<in> set es" "d' \<in> set (dps E (tx_spent tx' u'))"
    for d d' tx' u'
    using Cons.prems [of "fst e" "snd e" tx' u' d d'] that by simp
  ultimately show ?case by (auto simp: list_all_iff)
qed simp

text \<open>What a record says determines the script of a canonical one.\<close>

lemma canonical_same:
  assumes "dp_of E e \<noteq> DpNone" "dp_same (dp_of E e') (dp_of E e)"
    and "canonical_record E (coin_out (snd e))" "canonical_record E (coin_out (snd e'))"
  shows "scriptPubKey (coin_out (snd e')) = scriptPubKey (coin_out (snd e)) \<and> is_record_coin E (coin_out (snd e'))"
  using assms by (auto simp: dp_of_def Let_def canonical_record_def is_record_coin_def split: option.splits if_splits)

lemma hardened_script_new:
  assumes "hardened_out E P h S spent out = None" "SplitPayoutActiveAt P h" "is_record_coin E out"
  shows "scriptPubKey out \<notin> S"
  using assms by (auto simp: hardened_out_def is_record_coin_def split: option.splits if_splits prod.splits)

lemma hardened_in_order:
  assumes "hardened_rules E P R block undo (int h) = None" "SplitPayoutActiveAt P (int h)" "canonical_records E block undo"
    and "length block = length undo + 1"
  shows "records_in_order E h block undo"
  unfolding records_in_order_def
proof (rule in_orderI)
  fix tx u tx' u' d d'
  let ?S = "(\<lambda>c. scriptPubKey (coin_out c)) ` set (filter (\<lambda>c. is_record_coin E (coin_out c)) (concat undo))"
  assume tx: "(tx, u) \<in> set (zip block ([] # undo))" and tx': "(tx', u') \<in> set (zip block ([] # undo))"
    and d: "d \<in> set (dps E (tx_coins h tx))" and d': "d' \<in> set (dps E (tx_spent tx' u'))"
  obtain e where e: "e \<in> set (tx_coins h tx)" "d = dp_of E e" "dp_of E e \<noteq> DpNone" using d by (auto simp: dps_def)
  obtain e' where e': "e' \<in> set (tx_spent tx' u')" "d' = dp_of E e'" using d' by (auto simp: dps_def)
  have out: "coin_out (snd e) \<in> set (vout tx)" using e(1) by (auto simp: tx_coins_def in_set_enumerate_eq)
  then have created: "coin_out (snd e) \<in> set (concat (map vout block))" using tx by (auto dest: set_zip_leftD)
  have "u' \<in> set ([] # undo)" using tx' by (rule set_zip_rightD)
  moreover have "snd e' \<in> set u'" using e'(1) set_zip_rightD [of "fst e'" "snd e'"] by (simp add: tx_spent_def)
  ultimately have spent: "snd e' \<in> set (concat undo)" by auto
  have "hardened_out E P (int h) ?S u (coin_out (snd e)) = None"
    using assms(1) tx out by (fastforce simp: hardened_rules_def Let_def first_reason_None list_all_iff split: if_splits)
  moreover have "is_record_coin E (coin_out (snd e))"
    using e(3) by (auto simp: dp_of_def Let_def is_record_coin_def split: option.splits if_splits)
  ultimately have "scriptPubKey (coin_out (snd e)) \<notin> ?S" using hardened_script_new assms(2) by blast
  moreover have "canonical_record E (coin_out (snd e))" "canonical_record E (coin_out (snd e'))"
    using assms(3) created spent by (auto simp: canonical_records_def list_all_iff)
  ultimately show "\<not> dp_same d' d"
    using canonical_same [OF e(3), of e'] e(2) e'(2) spent by (force simp: image_iff)
qed

section \<open>What the rules give\<close>

lemma stake_registration:
  assumes "sp_of E e = SpStake pk a b h" "b \<noteq> []"
  shows "\<exists>pop. registration_of E (coin_out (snd e)) = Some (pk, b, pop)"
  using assms
  by (auto simp: sp_of_def Let_def registration_of_def StakeFromTxOut_def ParseStakeScript_def ParseStakeBlsRegistration_def
      bind_eq_Some_conv split: prod.splits option.splits if_splits)

lemma adds_bls_in:
  assumes "SpStake pk a b h \<in> set ops" "b \<noteq> []" "\<forall>x \<in> set ops. \<forall>y \<in> set ops. bls_agree x y"
  shows "fmlookup (m_bls_utxo (fold sp_add ops R)) pk = Some b"
  using assms
proof (induction ops rule: rev_induct)
  case (snoc x ops)
  show ?case
  proof (cases x)
    case (SpStake pk' a' b' h')
    have agree: "b' = b" if "pk' = pk" "b' \<noteq> []" using snoc.prems SpStake that by fastforce
    then show ?thesis using snoc SpStake by (auto simp: registry_simps)
  qed (use snoc in \<open>auto simp: registry_simps\<close>)
qed simp

lemma registry_of_layers:
  "m_bls (registry_of E es R) = m_bls R" "m_bls_utxo (registry_of E es R) = m_bls_utxo (fold sp_add (sps E es) R)"
proof -
  have "m_bls (fold dp_add ds R) = m_bls R" "m_bls_utxo (fold dp_add ds R) = m_bls_utxo R" for ds R
    by (induction ds arbitrary: R) simp_all
  moreover have "m_bls (sp_add a R) = m_bls R" for a R
    by (cases a) (simp_all add: AddUtxoStake_def AddUtxoPot_def Let_def)
  then have "m_bls (fold sp_add ops R) = m_bls R" for ops R by (induction ops arbitrary: R) simp_all
  ultimately show "m_bls (registry_of E es R) = m_bls R" "m_bls_utxo (registry_of E es R) = m_bls_utxo (fold sp_add (sps E es) R)"
    by (simp_all add: registry_of_def)
qed

lemma config_bls [simp]: "m_bls (config_only R) = m_bls R"
  by (simp add: config_only_def)

lemma known_key:
  assumes sound: "coins_sound E R0 U" and e: "e \<in> set (fm_entries U)" "sp_of E e = SpStake pk a b h" "b \<noteq> []"
  shows "GetBls (registry_of E (fm_entries U) (config_only R0)) pk = b"
proof -
  have "SpStake pk a b h \<in> set (sps E (fm_entries U))" using e by (force simp: sps_def)
  moreover have "\<forall>x \<in> set (sps E (fm_entries U)). \<forall>y \<in> set (sps E (fm_entries U)). bls_agree x y"
    using sound by (auto simp: coins_sound_def registry_fits_def list_all_iff sps_def)
  ultimately have u: "fmlookup (m_bls_utxo (fold sp_add (sps E (fm_entries U)) R)) pk = Some b" for R
    using adds_bls_in e(3) by blast
  have "fmlookup (m_bls R0) pk = None \<or> fmlookup (m_bls R0) pk = Some b"
    using sound e by (fastforce simp: coins_sound_def list_all_iff)
  then show ?thesis using u by (auto simp: GetBls_def registry_of_layers)
qed

lemma created_hash: "e \<in> set (block_created h txs) \<Longrightarrow> op_hash (fst e) \<in> tx_hash ` set txs"
  unfolding block_created_def by (auto dest!: tx_coins_hash)

lemma created_points:
  assumes "block_new U block"
  shows "distinct (map fst (fm_entries U @ block_created h block))"
proof -
  have new: "new_tx U tx" if "tx \<in> set block" for tx using assms that by (simp add: block_new_def)
  have "distinct (map fst (block_created h txs))" if "distinct (map tx_hash txs)" "set txs \<subseteq> set block" for txs
    using that
  proof (induction txs)
    case (Cons tx txs)
    have "fst e \<noteq> fst f" if "e \<in> set (tx_coins h tx)" "f \<in> set (block_created h txs)" for e f
      using conjunct1 [OF tx_coins_hash [OF that(1)]] created_hash [OF that(2)] Cons.prems(1)
      by (metis distinct.simps(2) list.set_map list.simps(9))
    then have "fst ` set (tx_coins h tx) \<inter> fst ` set (block_created h txs) = {}" by blast
    moreover have "distinct (map fst (tx_coins h tx))"
      using new [of tx] Cons.prems(2) by (intro tx_coins_distinct) (simp add: new_tx_def)
    ultimately show ?case using Cons by (simp add: block_created_def)
  qed (simp add: block_created_def)
  then have "distinct (map fst (block_created h block))" using assms by (simp add: block_new_def)
  moreover have "fst e \<noteq> fst f" if ef: "e \<in> set (fm_entries U)" "f \<in> set (block_created h block)" for e f
  proof -
    obtain tx where "tx \<in> set block" "op_hash (fst f) = tx_hash tx" using created_hash [OF ef(2)] by auto
    moreover have "fmlookup U (fst e) \<noteq> None" using ef(1) by (auto simp: set_entries)
    ultimately show ?thesis using new unfolding new_tx_def by metis
  qed
  then have "fst ` set (fm_entries U) \<inter> fst ` set (block_created h block) = {}" by blast
  ultimately show ?thesis using distinct_fst_entries [of U] by simp
qed

lemma rules_bls:
  assumes sound: "coins_sound E R0 U" and R: "R = registry_of E (fm_entries U) (config_only R0)"
    and c: "check_registrations E G R (concat (map vout block)) fmempty = None"
    and e: "e \<in> set (block_created h block)" "sp_of E e = SpStake pk a b k" "b \<noteq> []"
  shows "f \<in> set (fm_entries U @ block_created h block) \<Longrightarrow> sp_of E f = SpStake pk a' b' k' \<Longrightarrow> b' \<noteq> [] \<Longrightarrow> b' = b"
    and "fmlookup (m_bls R0) pk = None \<or> fmlookup (m_bls R0) pk = Some b"
proof -
  have outs: "coin_out (snd x) \<in> set (concat (map vout block))" if "x \<in> set (block_created h block)" for x
    using that unfolding created_outs [of h block, symmetric] by (metis (no_types, lifting) image_eqI list.set_map)
  obtain pop where r: "registration_of E (coin_out (snd e)) = Some (pk, b, pop)" using stake_registration e(2,3) by blast
  have k: "GetBls R pk = [] \<or> GetBls R pk = b" using registration_checked [OF c outs [OF e(1)] r] by simp
  show "b' = b" if "f \<in> set (fm_entries U @ block_created h block)" and f: "sp_of E f = SpStake pk a' b' k'" "b' \<noteq> []"
  proof (cases "f \<in> set (fm_entries U)")
    case True
    then show ?thesis using known_key [OF sound True f] k R f(2) by simp
  next
    case False
    obtain pop' where "registration_of E (coin_out (snd f)) = Some (pk, b', pop')" using stake_registration f by blast
    then show ?thesis using registrations_agree [OF c outs outs r] e(1) that(1) False by auto
  qed
  have "fmlookup (m_bls R0) pk \<noteq> Some []" using sound by (auto simp: coins_sound_def fmlookup_ran'_iff)
  then show "fmlookup (m_bls R0) pk = None \<or> fmlookup (m_bls R0) pk = Some b"
    using k R by (auto simp: GetBls_def registry_of_layers split: option.splits)
qed

lemma bls_agreeI:
  "(\<And>pk a b k a' b' k'. x = SpStake pk a b k \<Longrightarrow> y = SpStake pk a' b' k' \<Longrightarrow> b \<noteq> [] \<Longrightarrow> b' \<noteq> [] \<Longrightarrow> b = b') \<Longrightarrow> bls_agree x y"
  by (cases x; cases y) simp_all

text \<open>An accepted block in the ordinary case is one that the registry follows, and leaves sound coins.\<close>

lemma accepted_block_ok:
  assumes con: "connect_coins C h block U = Some (undo, U')" and form: "block_form U block"
    and sound: "coins_sound E R0 U" and pub: "g_pos_public_committee E"
    and acc: "records_accepted E G P (registry_of E (fm_entries U) (config_only R0)) h block undo"
    and ord: "ordinary E P (h, block, undo, U)"
  shows "block_ok E h block undo U"
proof -
  note rules = conjunct1 [OF acc [unfolded records_accepted_def]]
  have c: "check_registrations E G (registry_of E (fm_entries U) (config_only R0)) (concat (map vout block)) fmempty = None"
    using acc pub by (simp add: records_accepted_def)
  have split: "SplitPayoutActiveAt P (int h)" "PayoutRecordRecognized E p (int h)" for p
    using ord by (auto simp: ordinary_def PayoutRecordRecognized_def)
  have "bls_agree (sp_of E e) (sp_of E f)" if ef: "e \<in> set (fm_entries U @ block_created h block)" "f \<in> set (fm_entries U @ block_created h block)" for e f
  proof (cases "e \<in> set (block_created h block) \<or> f \<in> set (block_created h block)")
    case True
    show ?thesis
    proof (rule bls_agreeI)
      fix pk a b k a' b' k'
      assume s: "sp_of E e = SpStake pk a b k" "sp_of E f = SpStake pk a' b' k'" "b \<noteq> []" "b' \<noteq> []"
      show "b = b'" using True rules_bls(1) [OF sound refl c _ s(1,3) ef(2) s(2,4)] rules_bls(1) [OF sound refl c _ s(2,4) ef(1) s(1,3)] by blast
    qed
  next
    case False
    then have "e \<in> set (fm_entries U)" "f \<in> set (fm_entries U)" using ef by auto
    then show ?thesis using sound by (simp add: coins_sound_def registry_fits_def list_all_iff)
  qed
  then have "registry_fits E (fm_entries U @ block_created h block)"
    using created_points [of U block h] form ord by (simp add: registry_fits_def block_form_def ordinary_def list_all_iff)
  moreover have "records_in_order E h block undo"
    using ord hardened_in_order [OF record_rulesE(3) [OF rules]] split(1) block_lengths [OF con form]
    unfolding ordinary_def by blast
  ultimately show ?thesis using rules_replaced [OF con form _ split rules] sound form
    by (simp add: block_ok_def coins_sound_def)
qed

lemma coins_after:
  assumes con: "connect_coins C h block U = Some (undo, U')" and form: "block_form U block" and e: "e \<in> set (fm_entries U')"
  shows "e \<in> set (fm_entries U) \<or> e \<in> set (block_created h block)"
proof -
  have "e \<in># mset (fm_entries U') + mset (concat (map (\<lambda>(tx, u). spent_coins (vin tx) u) (zip block ([] # undo))))" using e by simp
  then show ?thesis unfolding block_mset [OF con form] by auto
qed

lemma accepted_coins_sound:
  assumes con: "connect_coins C h block U = Some (undo, U')" and form: "block_form U block"
    and sound: "coins_sound E R0 U" and pub: "g_pos_public_committee E"
    and acc: "records_accepted E G P (registry_of E (fm_entries U) (config_only R0)) h block undo"
    and ord: "ordinary E P (h, block, undo, U)"
  shows "coins_sound E R0 U'"
proof -
  note ok = accepted_block_ok [OF assms]
  have c: "check_registrations E G (registry_of E (fm_entries U) (config_only R0)) (concat (map vout block)) fmempty = None"
    using acc pub by (simp add: records_accepted_def)
  have "PayoutRecordRecognized E p (int h)" for p using ord by (auto simp: ordinary_def PayoutRecordRecognized_def)
  then have "payouts_live E (block_created h block)" using block_spent_live(1) [OF con form] sound by (simp add: coins_sound_def)
  then have "payouts_live E (fm_entries U')"
    using coins_after [OF con form] sound by (fastforce simp: payouts_live_def coins_sound_def list_all_iff)
  moreover have "bls_configured R0 (sp_of E e)" if e: "e \<in> set (fm_entries U')" for e
  proof (cases "e \<in> set (fm_entries U)")
    case False
    then have "e \<in> set (block_created h block)" using coins_after [OF con form e] by simp
    then show ?thesis using rules_bls(2) [OF sound refl c, of e h] by (cases "sp_of E e") auto
  qed (use sound in \<open>auto simp: coins_sound_def list_all_iff\<close>)
  ultimately show ?thesis using sound block_fits_after [OF con ok] block_registry(3) [OF con ok]
    by (simp add: coins_sound_def list_all_iff)
qed

section \<open>The tip\<close>

text \<open>Behind every block on the stack is the set of coins it was connected to.\<close>

fun stack_ok :: "pos_env \<Rightarrow> coins_env \<Rightarrow> StakeRegistry \<Rightarrow> utxo \<Rightarrow> (CBlock \<times> CBlockUndo \<times> nat) list \<Rightarrow> bool" where
  "stack_ok E C R0 U [] = (utxo_wf C U \<and> coins_sound E R0 U)"
| "stack_ok E C R0 U' ((block, undo, h) # st) = (\<exists>U. stack_ok E C R0 U st \<and> 0 < h \<and> block_ok E h block undo U \<and>
     connect_coins C h block U = Some (undo, U') \<and> utxo_wf C U' \<and> coins_sound E R0 U')"

lemma stack_ok_coins: "stack_ok E C R0 U st \<Longrightarrow> utxo_wf C U \<and> coins_sound E R0 U"
  by (cases st) auto

lemma chain_registry:
  assumes "chain E G P C R0 U0 bs s" "utxo_wf C U0" "coins_sound E R0 U0" "g_pos_public_committee E" "\<forall>b \<in> set bs. ordinary E P b"
  shows "stack_ok E C R0 (fst s) (snd (snd s)) \<and> fst (snd s) = registry_of E (fm_entries (fst s)) (config_only R0)"
  using assms
proof (induction rule: chain.induct)
  case (start R)
  then show ?case using Rebuild_registry [of E "fm_entries U0" R0] by (simp add: coins_sound_def)
next
  case (connect bs U R st h block undo U')
  then have IH: "stack_ok E C R0 U st" "R = registry_of E (fm_entries U) (config_only R0)" by simp_all
  note U = stack_ok_coins [OF IH(1)] and ord = connect.prems(4)
  have acc: "records_accepted E G P (registry_of E (fm_entries U) (config_only R0)) h block undo" "ordinary E P (h, block, undo, U)"
    using connect.hyps(5) IH(2) ord by simp_all
  note ok = accepted_block_ok [OF connect.hyps(4,3) conjunct2 [OF U] connect.prems(3) acc]
    and sound = accepted_coins_sound [OF connect.hyps(4,3) conjunct2 [OF U] connect.prems(3) acc]
  have "utxo_wf C U'" using connect_coins_undo(2) [OF connect.hyps(4,3) conjunct1 [OF U] connect.hyps(2)] .
  then show ?case using IH connect.hyps(2,4) ok sound block_registry(1) [OF connect.hyps(4) ok, of R0] by auto
next
  case (disconnect bs U R block undo h st U' clean)
  then obtain V where V: "stack_ok E C R0 V st" "0 < h" "block_ok E h block undo V" "connect_coins C h block V = Some (undo, U)"
    and R: "R = registry_of E (fm_entries U) (config_only R0)" by auto
  have "U' = V" using connect_coins_undo(3) [OF V(4)] V(2,3) stack_ok_coins [OF V(1)] disconnect.hyps(2) by (auto simp: block_ok_def)
  then show ?case using V(1) R block_registry(2) [OF V(4,3)] by simp
qed

section \<open>A sample block\<close>

text \<open>A controller moves its delegation from one signer to another: the block spends the old record and
  creates the new one.\<close>

definition move_block :: CBlock where
  "move_block = [sample_tx 3 (COutPoint uint256_zero NULL_INDEX) [], sample_tx 5 (out_at 2) [sample_out rotated]]"

abbreviation move_undo :: CBlockUndo where "move_undo \<equiv> [[coin_at 1 old_record]]"

definition moved_coins :: utxo where
  "moved_coins = fmupd (out_at 5) (coin_at 2 rotated) (fmupd (out_at 1) bonded_coin fmempty)"

abbreviation before_registry :: StakeRegistry where
  "before_registry \<equiv> registry_of sample_env (fm_entries sample_before) (config_only Reg_Clear)"

lemma move_connects:
  "connect_coins sample_coins 2 move_block sample_before = Some (move_undo, moved_coins)" "block_form sample_before move_block"
proof -
  have k: "kind_accepts sample_env rotated DelegationRec" using rotated_parse by (simp add: kind_accepts_def)
  have "fmdrop (out_at 2) sample_before = fmupd (out_at 1) bonded_coin fmempty" "fmlookup sample_before (out_at 2) = Some (coin_at 1 old_record)"
    by (rule fmap_ext) (simp_all add: sample_before_def)
  then have "UpdateCoins sample_coins (sample_tx 5 (out_at 2) [sample_out rotated]) 2 sample_before = Some ([coin_at 1 old_record], moved_coins)"
    using sample_coins_live(1) [of 2 rotated] unspendable_no_record [of sample_coins rotated sample_env DelegationRec] k
    by (auto simp: UpdateCoins_def AddCoins_def AddCoin_def SpendCoin_def moved_coins_def)
  then show "connect_coins sample_coins 2 move_block sample_before = Some (move_undo, moved_coins)"
    by (simp add: move_block_def connect_coins_def sample_steps)
  show "block_form sample_before move_block"
    by (auto simp: block_form_def move_block_def block_new_def new_tx_def sample_before_def)
qed

lemma move_dps:
  "dp_of sample_env (o', coin_at h rotated) = DpDeleg (sample_key 1) (sample_key 3) (int h)"
  "sp_of sample_env (o', coin_at h rotated) = SpNone"
  using delegation_only [OF rotated_parse] by (simp_all add: dp_of_def sp_of_def coin_at_def)

lemma move_accepted: "records_accepted sample_env sample_rules_env sample_rules R 2 move_block move_undo"
proof -
  have "record_rules sample_env sample_rules R move_block move_undo 2 = None"
  proof -
    obtain st where "accepted sample_env sample_rules R 2 ([] @ concat (map snd (zip [sample_tx 5 (out_at 2) [sample_out rotated]] move_undo)))
        ([] @ outs_with (zip [sample_tx 5 (out_at 2) [sample_out rotated]] move_undo)) st"
      using sample_rotation [of R] accepted_template [OF accepted_init] by blast
    then show ?thesis unfolding move_block_def by (intro accepted_rules [of _ _ _ _ _ _ st]) simp_all
  qed
  then show ?thesis using delegation_only(3) [OF rotated_parse] by (simp add: records_accepted_def move_block_def)
qed

lemma before_stakes: "e \<in> set (fm_entries sample_before) \<Longrightarrow> sp_of sample_env e = SpNone"
  using arg_cong [OF sample_sets(1), of set_mset] sample_dps(5,6) by fastforce

lemma move_ordinary: "ordinary sample_env sample_rules (2, move_block, move_undo, sample_before)"
proof -
  have l: "length (fm_entries sample_before) = 2" using arg_cong [OF sample_sets(1), of size] by simp
  have s: "map (\<lambda>e. stake_amount (sp_of sample_env e)) (fm_entries sample_before) = map (\<lambda>e. 0) (fm_entries sample_before)"
    using before_stakes by (simp cong: map_cong)
  have g: "g_split_payout_height sample_env = 0" by (simp add: sample_env_def)
  have c: "block_created 2 move_block = [(out_at 5, coin_at 2 rotated)]" by (simp add: block_created_def move_block_def)
  have "records_in_order sample_env 2 move_block move_undo" by (simp add: records_in_order_def move_block_def dps_def)
  then show ?thesis using l g by (simp add: ordinary_def c s move_dps SplitPayoutActiveAt_def sample_rules_def)
qed

lemma move_sound: "coins_sound sample_env Reg_Clear sample_before" "utxo_wf sample_coins sample_before"
proof -
  show "coins_sound sample_env Reg_Clear sample_before"
    using sample_before_ok before_stakes by (auto simp: coins_sound_def list_all_iff Reg_Clear_def fmlookup_ran'_iff)
  have "kind_accepts sample_env (BuildUnbondScript (sample_key 1)) UnbondRec" "kind_accepts sample_env old_record DelegationRec"
    using ParseUnbond_Build [OF sample_good_key, of 1] old_record_parse by (simp_all add: kind_accepts_def)
  then show "utxo_wf sample_coins sample_before"
    using unspendable_no_record [of sample_coins] sample_coins_live(1)
    by (auto simp: utxo_wf_def sample_before_def coin_at_def split: if_splits)
qed

lemma before_rebuild: "RebuildUtxoStake sample_env (Some (map Some (fm_entries sample_before))) Reg_Clear = Some before_registry"
  using Rebuild_cursor [OF refl sample_before_ok(1,2)] .

section \<open>Properties\<close>

text \<open>C2. A running node and a restarted one agree: applying an accepted block to the registry rebuilt
  from the coins before it gives what a rebuild from the coins after it gives, in whatever order the
  two scans read the coins. This holds with a public committee, for sound coins and a block in the
  ordinary case: SPLIT records are recognised, the stake fits 64 bits, and no transaction creates a
  record that a later one spends. From the hardening height the last only asks that records are written
  as their builders write them.\<close>

theorem apply_is_rebuild:
  assumes "connect_coins C h block U = Some (undo, U')" "block_form U block"
    and "coins_sound E R0 U" "g_pos_public_committee E" "ordinary E P (h, block, undo, U)"
    and "mset es = mset (fm_entries U)" "mset es' = mset (fm_entries U')"
    and "RebuildUtxoStake E (Some (map Some es)) R0 = Some R" "records_accepted E G P R h block undo"
  shows "RebuildUtxoStake E (Some (map Some es')) R0 = Some (PosApplyBlockStake E block undo h R)"
proof -
  have R: "R = registry_of E (fm_entries U) (config_only R0)"
    using Rebuild_cursor [OF assms(6)] assms(3,8) by (simp add: coins_sound_def)
  note ok = accepted_block_ok [OF assms(1-4) assms(9) [unfolded R] assms(5)]
  then have "PosApplyBlockStake E block undo h R = registry_of E (fm_entries U') (config_only R0)"
    using block_registry(1) [OF assms(1)] R by simp
  then show ?thesis
    using Rebuild_cursor [OF assms(7) block_fits_after [OF assms(1) ok] block_registry(3) [OF assms(1) ok]] by simp
qed

theorem apply_is_rebuild_witness:
  "RebuildUtxoStake sample_env (Some (map Some (fm_entries moved_coins))) Reg_Clear =
     Some (PosApplyBlockStake sample_env move_block move_undo 2 before_registry) \<and>
   HasDelegation before_registry (sample_key 1)"
proof -
  have p: "g_pos_public_committee sample_env" by (simp add: sample_env_def)
  have "Inl (sample_key 1) \<in># mset (rec_keys sample_env (fm_entries sample_before))"
    using sample_dps by (simp add: rec_keys_def mset_dps sample_sets)
  then show ?thesis
    using apply_is_rebuild [OF move_connects move_sound(1) p move_ordinary refl refl before_rebuild move_accepted]
    by (simp add: has_record_registry)
qed

text \<open>C3. Disconnecting is exact, in the same cases: reverting an accepted block right after it was applied
  gives back the registry as it was, on every layer.\<close>

theorem revert_undoes_apply:
  assumes "connect_coins C h block U = Some (undo, U')" "block_form U block"
    and "coins_sound E R0 U" "g_pos_public_committee E" "ordinary E P (h, block, undo, U)"
    and "RebuildUtxoStake E (Some (map Some (fm_entries U))) R0 = Some R" "records_accepted E G P R h block undo"
  shows "PosRevertBlockStake E block undo h (PosApplyBlockStake E block undo h R) = R"
proof -
  have R: "R = registry_of E (fm_entries U) (config_only R0)"
    using Rebuild_cursor [OF refl] assms(3,6) by (simp add: coins_sound_def)
  note ok = accepted_block_ok [OF assms(1-4) assms(7) [unfolded R] assms(5)]
  then show ?thesis using block_registry(1,2) [OF assms(1) ok] R by simp
qed

theorem revert_undoes_apply_witness:
  "PosRevertBlockStake sample_env move_block move_undo 2 (PosApplyBlockStake sample_env move_block move_undo 2 before_registry) =
     before_registry \<and>
   records_accepted sample_env sample_rules_env sample_rules before_registry 2 move_block move_undo"
proof -
  have p: "g_pos_public_committee sample_env" by (simp add: sample_env_def)
  show ?thesis
    using revert_undoes_apply [OF move_connects move_sound(1) p move_ordinary before_rebuild move_accepted] move_accepted by simp
qed

text \<open>C1. The registry follows the tip: from sound coins, with a public committee, through any sequence of
  accepted blocks and disconnected ones, all of them in the ordinary case, it stays equal to what a
  scan of the current coins rebuilds. The ordinary case excludes SPLIT records below their height, stake
  beyond 64 bits, and a record that one transaction creates and a later one of the block spends or
  that says the same as one it spends; past the hardening height the rules exclude these themselves,
  for records written as their builders write them.\<close>

theorem tip_registry_is_rebuild:
  assumes "chain E G P C R0 U0 bs (U, R, st)" "utxo_wf C U0" "coins_sound E R0 U0" "g_pos_public_committee E"
    and "\<forall>b \<in> set bs. ordinary E P b" "mset es = mset (fm_entries U)"
  shows "RebuildUtxoStake E (Some (map Some es)) R0 = Some R"
proof -
  have "stack_ok E C R0 U st" "R = registry_of E (fm_entries U) (config_only R0)"
    using chain_registry [OF assms(1-5)] by simp_all
  then show ?thesis using Rebuild_cursor [OF assms(6)] stack_ok_coins by (auto simp: coins_sound_def)
qed

theorem tip_registry_is_rebuild_witness:
  "chain sample_env sample_rules_env sample_rules sample_coins Reg_Clear sample_before
     [(2, move_block, move_undo, sample_before)]
     (sample_before, PosRevertBlockStake sample_env move_block move_undo 2
        (PosApplyBlockStake sample_env move_block move_undo 2 before_registry), []) \<and>
   RebuildUtxoStake sample_env (Some (map Some (fm_entries sample_before))) Reg_Clear =
     Some (PosRevertBlockStake sample_env move_block move_undo 2
        (PosApplyBlockStake sample_env move_block move_undo 2 before_registry))"
proof -
  let ?chain = "chain sample_env sample_rules_env sample_rules sample_coins Reg_Clear sample_before"
  have p: "g_pos_public_committee sample_env" by (simp add: sample_env_def)
  have "?chain [] (sample_before, before_registry, [])" by (rule chain.start [OF before_rebuild])
  then have "?chain [(2, move_block, move_undo, sample_before)] (moved_coins,
      PosApplyBlockStake sample_env move_block move_undo 2 before_registry, [(move_block, move_undo, 2)])"
    by (rule chain.connect [OF _ _ move_connects(2,1) move_accepted]) simp
  then have c: "?chain [(2, move_block, move_undo, sample_before)] (sample_before,
      PosRevertBlockStake sample_env move_block move_undo 2 (PosApplyBlockStake sample_env move_block move_undo 2 before_registry), [])"
    by (rule chain.disconnect) (use connect_coins_undo(3) [OF move_connects move_sound(2)] in simp)
  then show ?thesis using tip_registry_is_rebuild [OF c move_sound(2,1) p _ refl] move_ordinary by simp
qed

end
