(* ===== verification/Spec2Isabelle.thy ===== *)
theory Spec2Isabelle
  imports Payout HeaderRules Unbonding Tip
begin

text \<open>
  Sequentia, the proof-of-stake core.

  Sequentia (\<open>src/src\<close>) is a fork of Elements and Bitcoin whose blocks are produced by stakers and certified by
  a committee. This development models that part of the node: the records that stakers put on chain, the registry
  of stake that every node keeps, the election of leaders and committees, the certificates, and the block rules that
  read the registry; with what they stand on, scripts, hashes, transactions, coins and 256-bit arithmetic.

  \<^bold>\<open>How the parts interact.\<close> A staker bonds coins in a staking output; delegation, payout, pot and round outputs
  say who signs for a stake and where its rewards go (\<open>pos.cpp\<close>). Each is a script template, read back from the output
  (theory \<open>Records\<close>). The registry (\<open>StakeRegistry\<close> of \<open>pos.h\<close>) holds what the unspent outputs say. It is updated when a
  block connects (\<open>PosApplyBlockStake\<close>) and when it disconnects (\<open>PosRevertBlockStake\<close>), and rebuilt at startup by a scan
  of the coins (\<open>RebuildUtxoStake\<close>). ConnectBlock enforces rules on the records (\<open>validation.cpp\<close>), and block templates
  and the mempool apply the same rules one transaction at a time (\<open>PosCheckTxRecords\<close>). From the registry and a seed
  that the parent's Bitcoin anchor gives, the election ranks the stakers, draws the committee and its quorum; a block
  carries a challenge that names its leader and a certificate of the committee; \<open>CheckPosStakeRules\<close> judges both.

  \<^bold>\<open>Theories.\<close> Each opens with what it holds; definitions carry the names of the source, and the state of the C++ globals
  is the record \<open>pos_env\<close>, the registry an explicit argument.
  \<^item> \<open>Prelude\<close>: finite maps as \<open>std::map\<close>, byte and number lemmas, the collections of simplification rules.
  \<^item> \<open>Script\<close>: script tokens and script numbers (\<open>script/script.h\<close>, \<open>script.cpp\<close>).
  \<^item> \<open>Hashing\<close>: SHA-256 and RIPEMD-160 with their buffered hashers (\<open>crypto/\<close>, \<open>hash.h\<close>); the locale \<open>block_hasher\<close> is
    the contract of a buffered hasher, interpreted on both.
  \<^item> \<open>TxTypes\<close>: keys, outpoints, outputs, transactions (\<open>pubkey.h\<close>, \<open>primitives/\<close>).
  \<^item> \<open>Records\<close>: builders and parsers of the six record templates.
  \<^item> \<open>StakeRegistry\<close>, \<open>Layers\<close>: the operations of the registry; the locale \<open>reversible_layer\<close> states when adding and
    removing what outputs say commutes and cancels, interpreted on the stake and pot layers and on the record layers.
  \<^item> \<open>Utxo\<close>: the set of coins, connecting and disconnecting (\<open>coins.cpp\<close>, \<open>validation.cpp\<close>).
  \<^item> \<open>BlockStake\<close>, \<open>Rebuild\<close>: maintenance by blocks and the scan, as functions of the coins.
  \<^item> \<open>Standard\<close>: script classification and destinations (\<open>script/standard.cpp\<close>).
  \<^item> \<open>RecordRules\<close>: the record rules of ConnectBlock and of templates.
  \<^item> \<open>ArithUint\<close>: \<open>arith_uint256\<close>, limb by limb.
  \<^item> \<open>Election\<close>: seed, tickets, schedule, committees by member and by seat, quorums.
  \<^item> \<open>Sortition\<close>: VRF slots and the exponential race in fixed point.
  \<^item> \<open>Challenge\<close>: block challenges, VRF commitments, BLS certificates, bitfields.
  \<^item> \<open>Timing\<close>: seeds for a child, the stall test, proposal timing, checkpoints.
  \<^item> \<open>StakeRules\<close>: \<open>PosVerifyBitfieldCertificate\<close> and \<open>CheckPosStakeRules\<close>.
  \<^item> \<open>PotClaim\<close>: the shares of a reward pot and the first generation of claims on pots.
  \<^item> \<open>RoundClaim\<close>: rounds paid a bucket at a time, the second generation of claims; a round's life as a step relation.
  \<^item> \<open>Payout\<close>: the payee of a block's coinbase, with the lottery draw, and the rules of ConnectBlock on rewards.
  \<^item> \<open>BlockTree\<close>: the index of blocks with its skip list, the active chain, and the order of candidates; the locale
    \<open>preference\<close> is the contract of that order, interpreted on the comparator.
  \<^item> \<open>Finality\<close>: certification, the final block, and the choice of the chain to activate (\<open>validation.cpp\<close>).
  \<^item> \<open>HeaderRules\<close>: the rules on a header and the acceptance of headers into the index.
  \<^item> \<open>Unbonding\<close>: the rule on transactions that spend stake, in a block and for the mempool.
  \<^item> \<open>Tip\<close>: the registry along connected and disconnected blocks, as a step relation.

  \<^bold>\<open>What is shown.\<close>
  \<^item> The registry. With a public committee, from sound coins and for accepted blocks in the ordinary case (predicates
    \<open>coins_sound\<close> and \<open>ordinary\<close> of \<open>Tip\<close>), applying a block to the registry rebuilt from the old coins gives the
    registry rebuilt from the new ones, reverting a block undoes applying it, and along any sequence of connected and
    disconnected blocks the registry is what a scan of the coins rebuilds. The ordinary case asks that the stake fits 64
    bits, that SPLIT records are recognised, and that no transaction creates a record which a later one of the block
    spends or repeats; past the hardening height the rules see to the last for records in the builders' encoding. A
    delegation re-created in another encoding escapes them (\<open>reencoded_delegation_lost\<close>).
  \<^item> The rules. A template whose transactions pass one by one passes the rules of a block. Record templates exclude each
    other, and records read back as built.
  \<^item> The election. The schedule is the ranking by weighted ticket; seats are apportioned by quota and sum to the total
    that the quorum counts; two quorums share two seats, or the only one; a full committee reaches its quorum.
  \<^item> The block rules. With a public committee, two accepted blocks on one parent with bitfield certificates were
    certified by members with two seats in common, or the only one, unless the parent chain shows a stall; the leader of
    an accepted block is eligible and in its slot; registrations are verified.
  \<^item> The rewards. An accepted claim pays every delegator exactly its share of the pots or of the buckets it pays; a round
    always holds enough for the buckets not paid yet; the lottery gives each participant as many tickets as it has
    weight. One case escapes the rules: a round made by hand lets a claim drain a pot (\<open>handmade_round_drains_pot\<close>).
  \<^item> The chain. The skip list finds the ancestor that walking back finds; a switch of chains starts at the highest common
    block; the fork choice does not depend on the order in which blocks arrive, between nodes that agree on which
    candidates are certified.
  \<^item> Finality. The final block never retreats on its own chain, nothing becomes final before its window is over or while a
    competing certificate is unjudged, and the chain to activate descends from the final block. One case delays blocks: a
    floor laid at startup hides certified blocks until one comes on top (\<open>floor_hides_certified_block\<close>).
  \<^item> Headers and exits. The anchors of an index never go back along a branch; an accepted header is above the final points (above the
    immediately final block only with reconciliation off);
    stake leaves a key only through an unbonding output that waits, but for a capped fee.
  \<^item> The arithmetic. The limb loops compute 256-bit arithmetic, division ends with the quotient, the fixed-point logarithm
    of the race is within \<open>2 ^ -32 + 2 ^ -59\<close> of the true one, and the unrolled SHA-256 is that of the standard.

  \<^bold>\<open>Bounds and fuel.\<close> Machine integers keep their width where the code relies on it: weights are 64-bit words, quotas 128-bit,
  big integers 256-bit. Heights and amounts are integers, since the code keeps them in range. Loops over scripts end
  because a token is consumed; the division loop counts its shift down; no loop needs fuel unless it is said where it is
  defined, with the lemma that the fuel is enough.

  \<^bold>\<open>Arguments.\<close> Signature and proof verification (secp256k1, blst, VRF, MuSig2) and the parent chain's times are functions
  given to the definitions that call them, with nothing assumed of them.

  \<^bold>\<open>Not modelled.\<close> The script interpreter, confidential commitments, peg-ins and issuance; networking, RPC, the wallet and the
  GUI; storage and caches; the threads of block production and of anchoring, which talk to other processes; the vendored
  libraries. The supervision of assets and the exchange rates are not modelled.
\<close>

end
